(* ===== verification/Prelude.thy ===== *)
theory Prelude
  imports Main "HOL-Library.Word"
begin

section \<open>Prelude: octets, errors and the generic lemmas the components share\<close>

text \<open>
  What every other theory of the development uses: the types of octets and octet strings,
  Python's exceptions as values of a sum type with its bind, big-endian packing
  (\<^verbatim>\<open>struct\<close> formats \<^verbatim>\<open>>H\<close> and \<^verbatim>\<open>>I\<close>), ASCII lower-casing of
  \<^verbatim>\<open>bytes\<close>, and lemmas on lists, words and maps. Python's unbounded integers are
  \<^typ>\<open>int\<close>; where the code masks a value to a width the mask is written out.
\<close>

unbundle bit_operations_syntax

named_theorems result_simps \<open>equations that compute with results and their bind\<close>
named_theorems pack_simps \<open>packing and unpacking of big-endian integers\<close>
named_theorems wire_rt \<open>reading back what was just written\<close>
named_theorems wire_len \<open>lengths of encoded octet strings\<close>

type_synonym byte = "8 word"
type_synonym bytes = "byte list"

subsection \<open>Exceptions as values\<close>

datatype error = WireError | ValueError | OSError | KeyError | IndexError | StructError | AttributeError | TypeError | UnicodeError
  | OverflowError | DNSSECError | RuntimeError

type_synonym 'a result = "error + 'a"

definition rbind :: "'a result \<Rightarrow> ('a \<Rightarrow> 'b result) \<Rightarrow> 'b result" where
  "rbind m f = (case m of Inl e \<Rightarrow> Inl e | Inr x \<Rightarrow> f x)"

lemma rbind_Inl [simp, result_simps]: "rbind (Inl e) f = Inl e"
  by (simp add: rbind_def)

lemma rbind_Inr [simp, result_simps]: "rbind (Inr x) f = f x"
  by (simp add: rbind_def)

lemma rbind_eq_Inr [result_simps]:
  "rbind m f = Inr y \<longleftrightarrow> (\<exists>x. m = Inr x \<and> f x = Inr y)"
  by (cases m) auto

lemma rbind_eq_Inl:
  "rbind m f = Inl e \<longleftrightarrow> m = Inl e \<or> (\<exists>x. m = Inr x \<and> f x = Inl e)"
  by (cases m) auto

lemma rbind_assoc: "rbind (rbind m f) g = rbind m (\<lambda>x. rbind (f x) g)"
  by (cases m) auto

text \<open>\<^verbatim>\<open>for x in xs: st = f(x, st)\<close>, stopping at the first exception.\<close>

fun rfold :: "('a \<Rightarrow> 's \<Rightarrow> 's result) \<Rightarrow> 'a list \<Rightarrow> 's \<Rightarrow> 's result" where
  "rfold f [] s = Inr s"
| "rfold f (x # xs) s = rbind (f x s) (rfold f xs)"

lemma rfold_append: "rfold f (xs @ ys) s = rbind (rfold f xs s) (rfold f ys)"
proof (induction xs arbitrary: s)
  case (Cons x xs)
  then show ?case by (cases "f x s") simp_all
qed simp

subsection \<open>Big-endian integers\<close>

definition pack_H :: "int \<Rightarrow> bytes" where
  "pack_H v = [word_of_int (drop_bit 8 v), word_of_int v]"

definition pack_I :: "int \<Rightarrow> bytes" where
  "pack_I v = [word_of_int (drop_bit 24 v), word_of_int (drop_bit 16 v),
               word_of_int (drop_bit 8 v), word_of_int v]"

definition unpack_H :: "byte \<Rightarrow> byte \<Rightarrow> int" where
  "unpack_H a b = uint a * 2 ^ 8 + uint b"

definition unpack_I :: "byte \<Rightarrow> byte \<Rightarrow> byte \<Rightarrow> byte \<Rightarrow> int" where
  "unpack_I a b c d = uint a * 2 ^ 24 + uint b * 2 ^ 16 + uint c * 2 ^ 8 + uint d"

lemma length_pack_H [simp, wire_len]: "length (pack_H v) = 2"
  by (simp add: pack_H_def)

lemma length_pack_I [simp, wire_len]: "length (pack_I v) = 4"
  by (simp add: pack_I_def)

lemma uint_byte_of_int: "uint (word_of_int v :: byte) = v mod 256"
  by (simp add: uint_word_of_int)

lemma and_FFFF: "v AND 65535 = v mod (65536 :: int)"
proof -
  have "v AND mask 16 = take_bit 16 v" by (simp add: take_bit_eq_mask)
  then show ?thesis by (simp add: mask_eq_exp_minus_1 take_bit_eq_mod)
qed

lemma and_FFFFFFFF: "v AND 4294967295 = v mod (4294967296 :: int)"
proof -
  have "v AND mask 32 = take_bit 32 v" by (simp add: take_bit_eq_mask)
  then show ?thesis by (simp add: mask_eq_exp_minus_1 take_bit_eq_mod)
qed

lemma and_FF: "v AND 255 = v mod (256 :: int)"
proof -
  have "v AND mask 8 = take_bit 8 v" by (simp add: take_bit_eq_mask)
  then show ?thesis by (simp add: mask_eq_exp_minus_1 take_bit_eq_mod)
qed

lemma unpack_pack_H [pack_simps]:
  "0 \<le> v \<Longrightarrow> v < 65536 \<Longrightarrow>
     unpack_H (word_of_int (drop_bit 8 v)) (word_of_int v) = v"
  by (simp add: unpack_H_def uint_byte_of_int drop_bit_eq_div)

lemma unpack_pack_I [pack_simps]:
  assumes "0 \<le> v" and "v < 4294967296"
  shows "unpack_I (word_of_int (drop_bit 24 v)) (word_of_int (drop_bit 16 v))
           (word_of_int (drop_bit 8 v)) (word_of_int v) = v"
proof -
  have e: "unpack_I (word_of_int (drop_bit 24 v)) (word_of_int (drop_bit 16 v))
           (word_of_int (drop_bit 8 v)) (word_of_int v)
         = v div 16777216 mod 256 * 16777216 + v div 65536 mod 256 * 65536
           + v div 256 mod 256 * 256 + v mod 256"
    by (simp add: unpack_I_def uint_byte_of_int drop_bit_eq_div)
  have a: "v div 16777216 mod 256 = v div 16777216" using assms by simp
  have b: "v div 65536 = v div 16777216 * 256 + v div 65536 mod 256"
    using div_mult_mod_eq [of "v div 65536" 256] by (simp add: zdiv_zmult2_eq [symmetric])
  have c: "v div 256 = v div 65536 * 256 + v div 256 mod 256"
    using div_mult_mod_eq [of "v div 256" 256] by (simp add: zdiv_zmult2_eq [symmetric])
  have d: "v = v div 256 * 256 + v mod 256" by simp
  show ?thesis unfolding e using a b c d by linarith
qed

lemma unpack_H_range: "0 \<le> unpack_H a b \<and> unpack_H a b < 65536"
proof -
  have "0 \<le> uint a \<and> uint a < 256" "0 \<le> uint b \<and> uint b < 256"
    using uint_range_size [of a] uint_range_size [of b] by (simp_all add: word_size)
  then show ?thesis by (simp add: unpack_H_def)
qed

lemma uint_byte_range: "0 \<le> uint (b :: byte) \<and> uint b < 256"
  using uint_range_size [of b] by (simp add: word_size)

lemma unpack_I_range: "0 \<le> unpack_I a b c d \<and> unpack_I a b c d < 4294967296"
  using uint_byte_range [of a] uint_byte_range [of b] uint_byte_range [of c]
    uint_byte_range [of d]
  by (simp add: unpack_I_def)

subsection \<open>ASCII case\<close>

definition lower_byte :: "byte \<Rightarrow> byte" where
  "lower_byte b = (if 65 \<le> b \<and> b \<le> 90 then b + 32 else b)"

definition lower :: "bytes \<Rightarrow> bytes" where
  "lower bs = map lower_byte bs"

lemma length_lower [simp, wire_len]: "length (lower bs) = length bs"
  by (simp add: lower_def)

lemma lower_byte_idem [simp]: "lower_byte (lower_byte b) = lower_byte b"
proof -
  have "\<not> (65 \<le> b + 32 \<and> b + 32 \<le> 90)" if "65 \<le> b" "b \<le> 90"
    using that by (simp add: word_le_nat_alt unat_word_ariths)
  then show ?thesis by (auto simp: lower_byte_def)
qed

lemma lower_idem [simp]: "lower (lower bs) = lower bs"
  by (simp add: lower_def)

lemma lower_Nil [simp]: "lower [] = []"
  by (simp add: lower_def)

subsection \<open>Lists\<close>

lemma nth_append_length_plus: "(xs @ ys) ! (length xs + n) = ys ! n"
  by (simp add: nth_append)

lemma take_drop_append_exact:
  "take (length ys) (drop (length xs) (xs @ ys @ zs)) = ys"
  by simp

lemma append_eq_append_same_length:
  "length xs = length ys \<Longrightarrow> xs @ us = ys @ vs \<longleftrightarrow> xs = ys \<and> us = vs"
  by auto

text \<open>\<^verbatim>\<open>xs[i:]\<close>, a negative index counting from the end.\<close>

definition slice_from :: "int \<Rightarrow> 'a list \<Rightarrow> 'a list" where
  "slice_from i xs = drop (nat (if 0 \<le> i then i else int (length xs) + i)) xs"

text \<open>\<^verbatim>\<open>[xs[i:i + n] for i in range(0, len(xs), n)]\<close>\<close>

fun chunks :: "nat \<Rightarrow> 'a list \<Rightarrow> 'a list list" where
  "chunks n xs = (if n = 0 \<or> xs = [] then [] else take n xs # chunks n (drop n xs))"

declare chunks.simps [simp del]

lemma chunks_concat:
  "0 < n \<Longrightarrow> list_all (\<lambda>x. length x = n) xs \<Longrightarrow> chunks n (concat xs) = xs"
proof (induction xs)
  case (Cons x xs)
  then have "x \<noteq> []" by auto
  with Cons show ?case by (simp add: chunks.simps [of n "x @ concat xs"])
qed (simp add: chunks.simps)

lemma chunks_lengths:
  "0 < n \<Longrightarrow> length xs mod n = 0 \<Longrightarrow> list_all (\<lambda>x. length x = n) (chunks n xs)"
proof (induction n xs rule: chunks.induct)
  case (1 n xs)
  show ?case
  proof (cases "xs = []")
    case False
    with 1 have "n \<le> length xs" by (metis dvd_imp_le length_greater_0_conv mod_0_imp_dvd)
    moreover have "length (drop n xs) mod n = 0" using 1 calculation by (simp add: le_mod_geq)
    ultimately show ?thesis using 1 False by (subst chunks.simps) simp
  qed (simp add: chunks.simps)
qed

lemma concat_chunks: "0 < n \<Longrightarrow> concat (chunks n xs) = xs"
  by (induction n xs rule: chunks.induct) (subst chunks.simps, simp)

end
