(* ===== verification/Wire_Buffer.thy ===== *)
theory Wire_Buffer
  imports Prelude
begin

section \<open>The read cursor and the write buffer of a DNS message\<close>

text \<open>
  Models \<^verbatim>\<open>trench/wire/reader.py\<close> and \<^verbatim>\<open>trench/wire/writer.py\<close>. A
  \<^verbatim>\<open>Reader\<close> is a record of the buffer and the cursor; every read returns the new
  reader or the exception. A \<^verbatim>\<open>Writer\<close> is a record of the octets written so far and
  the compression table, a map from suffix keys to offsets. A parser is a function of the
  reader, composed with \<open>pbind\<close>.
\<close>

subsection \<open>Reader\<close>

record reader =
  rbuf :: bytes
  rpos :: int

type_synonym 'a parser = "reader \<Rightarrow> ('a \<times> reader) result"

definition rlen :: "reader \<Rightarrow> int" where
  "rlen r = int (length (rbuf r))"

definition remaining :: "reader \<Rightarrow> int" where
  "remaining r = rlen r - rpos r"

definition eof :: "reader \<Rightarrow> bool" where
  "eof r \<longleftrightarrow> rpos r \<ge> rlen r"

definition r_read :: "int \<Rightarrow> bytes parser" where
  "r_read n r =
     (if n < 0 \<or> rpos r + n > rlen r then Inl WireError
      else Inr (take (nat n) (drop (nat (rpos r)) (rbuf r)), r\<lparr>rpos := rpos r + n\<rparr>))"

definition r_u8 :: "int parser" where
  "r_u8 r =
     (if rpos r + 1 > rlen r then Inl WireError
      else Inr (uint (rbuf r ! nat (rpos r)), r\<lparr>rpos := rpos r + 1\<rparr>))"

definition r_u16 :: "int parser" where
  "r_u16 r =
     (if rpos r + 2 > rlen r then Inl WireError
      else let p = nat (rpos r)
           in Inr (unpack_H (rbuf r ! p) (rbuf r ! (p + 1)), r\<lparr>rpos := rpos r + 2\<rparr>))"

definition r_u32 :: "int parser" where
  "r_u32 r =
     (if rpos r + 4 > rlen r then Inl WireError
      else let p = nat (rpos r)
           in Inr (unpack_I (rbuf r ! p) (rbuf r ! (p + 1)) (rbuf r ! (p + 2)) (rbuf r ! (p + 3)),
                   r\<lparr>rpos := rpos r + 4\<rparr>))"

definition tell :: "reader \<Rightarrow> int" where
  "tell r = rpos r"

definition seek :: "int \<Rightarrow> reader \<Rightarrow> reader result" where
  "seek p r = (if p < 0 \<or> p > rlen r then Inl WireError else Inr (r\<lparr>rpos := p\<rparr>))"

subsection \<open>Composing parsers\<close>

definition pret :: "'a \<Rightarrow> 'a parser" where
  "pret x r = Inr (x, r)"

definition pbind :: "'a parser \<Rightarrow> ('a \<Rightarrow> 'b parser) \<Rightarrow> 'b parser" where
  "pbind m f r = rbind (m r) (\<lambda>(x, r'). f x r')"

text \<open>\<^verbatim>\<open>r.seek(p)\<close> and \<^verbatim>\<open>r.tell()\<close> as steps of a parser.\<close>

definition pseek :: "int \<Rightarrow> unit parser" where
  "pseek p r = rbind (seek p r) (\<lambda>r'. Inr ((), r'))"

definition ptell :: "int parser" where
  "ptell r = Inr (tell r, r)"

lemma pbind_eq_Inr:
  "pbind m f r = Inr (y, r2) \<longleftrightarrow> (\<exists>x r1. m r = Inr (x, r1) \<and> f x r1 = Inr (y, r2))"
  by (auto simp: pbind_def rbind_eq_Inr)

lemma pret_eq_Inr [simp]: "pret x r = Inr (y, r') \<longleftrightarrow> y = x \<and> r' = r"
  by (auto simp: pret_def)

text \<open>
  The contract every parser of the wire layer keeps: from a cursor inside its buffer it
  leaves the buffer alone, leaves the cursor inside it, and raises nothing but
  \<^const>\<open>WireError\<close>.
\<close>

definition reader_ok :: "reader \<Rightarrow> bool" where
  "reader_ok r \<longleftrightarrow> 0 \<le> rpos r \<and> rpos r \<le> rlen r"

definition safe_parser :: "'a parser \<Rightarrow> bool" where
  "safe_parser p \<longleftrightarrow>
     (\<forall>r e. reader_ok r \<longrightarrow> p r = Inl e \<longrightarrow> e = WireError) \<and>
     (\<forall>r x r'. reader_ok r \<longrightarrow> p r = Inr (x, r') \<longrightarrow> rbuf r' = rbuf r \<and> reader_ok r')"

named_theorems safe_parsers \<open>parsers that keep the contract of the read cursor\<close>

lemma safe_parserI:
  assumes "\<And>r e. reader_ok r \<Longrightarrow> p r = Inl e \<Longrightarrow> e = WireError"
    and "\<And>r x r'. reader_ok r \<Longrightarrow> p r = Inr (x, r') \<Longrightarrow> rbuf r' = rbuf r \<and> reader_ok r'"
  shows "safe_parser p"
  using assms unfolding safe_parser_def by blast

lemma safe_parser_Inl: "safe_parser p \<Longrightarrow> reader_ok r \<Longrightarrow> p r = Inl e \<Longrightarrow> e = WireError"
  unfolding safe_parser_def by blast

lemma safe_parser_Inr:
  "safe_parser p \<Longrightarrow> reader_ok r \<Longrightarrow> p r = Inr (x, r') \<Longrightarrow> rbuf r' = rbuf r \<and> reader_ok r'"
  unfolding safe_parser_def by blast

lemma safe_r_read [safe_parsers]: "safe_parser (r_read n)"
  by (rule safe_parserI) (auto simp: r_read_def reader_ok_def rlen_def split: if_splits)

lemma safe_r_u8 [safe_parsers]: "safe_parser r_u8"
  by (rule safe_parserI) (auto simp: r_u8_def reader_ok_def rlen_def split: if_splits)

lemma safe_r_u16 [safe_parsers]: "safe_parser r_u16"
  by (rule safe_parserI) (auto simp: r_u16_def Let_def reader_ok_def rlen_def split: if_splits)

lemma safe_r_u32 [safe_parsers]: "safe_parser r_u32"
  by (rule safe_parserI) (auto simp: r_u32_def Let_def reader_ok_def rlen_def split: if_splits)

lemma safe_pret [safe_parsers]: "safe_parser (pret x)"
  by (rule safe_parserI) (auto simp: pret_def)

lemma safe_pseek [safe_parsers]: "safe_parser (pseek p)"
  by (rule safe_parserI)
    (auto simp: pseek_def seek_def reader_ok_def rlen_def rbind_def split: if_splits)

lemma safe_ptell [safe_parsers]: "safe_parser ptell"
  by (rule safe_parserI) (auto simp: ptell_def)

lemma safe_pbind [safe_parsers]:
  assumes m: "safe_parser m" and f: "\<And>x. safe_parser (f x)"
  shows "safe_parser (pbind m f)"
proof (rule safe_parserI)
  fix r e assume r: "reader_ok r" and e: "pbind m f r = Inl e"
  show "e = WireError"
  proof (cases "m r")
    case (Inl d)
    with e safe_parser_Inl [OF m r] show ?thesis by (simp add: pbind_def)
  next
    case (Inr a)
    then obtain x r1 where a: "m r = Inr (x, r1)" by (cases a) simp
    with e have "f x r1 = Inl e" by (simp add: pbind_def)
    with safe_parser_Inr [OF m r a] show ?thesis using safe_parser_Inl [OF f] by blast
  qed
next
  fix r y r' assume r: "reader_ok r" and "pbind m f r = Inr (y, r')"
  then obtain x r1 where a: "m r = Inr (x, r1)" and b: "f x r1 = Inr (y, r')"
    by (auto simp: pbind_eq_Inr)
  from safe_parser_Inr [OF m r a] safe_parser_Inr [OF f _ b]
  show "rbuf r' = rbuf r \<and> reader_ok r'" by simp
qed

subsection \<open>A cursor standing between what was read and what is left\<close>

definition reader_at :: "bytes \<Rightarrow> bytes \<Rightarrow> reader" where
  "reader_at pre rest = \<lparr>rbuf = pre @ rest, rpos = int (length pre)\<rparr>"

lemma reader_at_sel [simp]:
  "rbuf (reader_at pre rest) = pre @ rest" "rpos (reader_at pre rest) = int (length pre)"
  by (simp_all add: reader_at_def)

lemma reader_ok_at [simp]: "reader_ok (reader_at pre rest)"
  by (simp add: reader_ok_def rlen_def)

lemma tell_at [simp, wire_rt]: "tell (reader_at pre rest) = int (length pre)"
  by (simp add: tell_def)

lemma read_at [wire_rt]:
  "n = int (length bs) \<Longrightarrow> r_read n (reader_at pre (bs @ rest)) = Inr (bs, reader_at (pre @ bs) rest)"
  by (simp add: r_read_def rlen_def reader_at_def)

lemma read_at_end [wire_rt]:
  "n = int (length bs) \<Longrightarrow> r_read n (reader_at pre bs) = Inr (bs, reader_at (pre @ bs) [])"
  using read_at [of n bs pre "[]"] by simp

lemma u8_at [wire_rt]: "r_u8 (reader_at pre (b # rest)) = Inr (uint b, reader_at (pre @ [b]) rest)"
  by (simp add: r_u8_def rlen_def reader_at_def nth_append)

lemma u16_at [wire_rt]:
  "0 \<le> v \<Longrightarrow> v < 65536 \<Longrightarrow>
     r_u16 (reader_at pre (pack_H v @ rest)) = Inr (v, reader_at (pre @ pack_H v) rest)"
  by (simp add: r_u16_def rlen_def reader_at_def Let_def pack_H_def nth_append pack_simps)

lemma u32_at [wire_rt]:
  "0 \<le> v \<Longrightarrow> v < 4294967296 \<Longrightarrow>
     r_u32 (reader_at pre (pack_I v @ rest)) = Inr (v, reader_at (pre @ pack_I v) rest)"
  by (simp add: r_u32_def rlen_def reader_at_def Let_def pack_I_def nth_append pack_simps)

lemma seek_at:
  "xs @ ys = pre @ rest \<Longrightarrow>
     seek (int (length pre)) (reader_at xs ys) = Inr (reader_at pre rest)"
  by (simp add: seek_def reader_at_def rlen_def)

lemma pbind_at [wire_rt]: "m r = Inr (x, r') \<Longrightarrow> pbind m f r = f x r'"
  by (simp add: pbind_def)

lemma pbind_fail: "m r = Inl e \<Longrightarrow> pbind m f r = Inl e"
  by (simp add: pbind_def)

subsection \<open>Writer\<close>

record writer =
  wbuf :: bytes
  wnames :: "bytes \<rightharpoonup> nat"

definition new_writer :: writer where
  "new_writer = \<lparr>wbuf = [], wnames = Map.empty\<rparr>"

definition wtell :: "writer \<Rightarrow> nat" where
  "wtell w = length (wbuf w)"

definition w_raw :: "bytes \<Rightarrow> writer \<Rightarrow> writer" where
  "w_raw b w = w\<lparr>wbuf := wbuf w @ b\<rparr>"

definition w_u8 :: "int \<Rightarrow> writer \<Rightarrow> writer" where
  "w_u8 v w = w\<lparr>wbuf := wbuf w @ [word_of_int (v AND 0xFF)]\<rparr>"

definition w_u16 :: "int \<Rightarrow> writer \<Rightarrow> writer" where
  "w_u16 v w = w\<lparr>wbuf := wbuf w @ pack_H (v AND 0xFFFF)\<rparr>"

definition w_u32 :: "int \<Rightarrow> writer \<Rightarrow> writer" where
  "w_u32 v w = w\<lparr>wbuf := wbuf w @ pack_I (v AND 0xFFFFFFFF)\<rparr>"

definition reserve_u16 :: "writer \<Rightarrow> nat \<times> writer" where
  "reserve_u16 w = (length (wbuf w), w\<lparr>wbuf := wbuf w @ [0, 0]\<rparr>)"

text \<open>\<^verbatim>\<open>struct.pack_into\<close> raises when the two octets are not inside the buffer.\<close>

definition patch_u16 :: "nat \<Rightarrow> int \<Rightarrow> writer \<Rightarrow> writer result" where
  "patch_u16 p v w =
     (if p + 2 \<le> length (wbuf w)
      then Inr (w\<lparr>wbuf := take p (wbuf w) @ pack_H (v AND 0xFFFF) @ drop (p + 2) (wbuf w)\<rparr>)
      else Inl StructError)"

text \<open>Each writing step only appends.\<close>

lemma w_simps [simp]:
  "wbuf (w_raw b w) = wbuf w @ b" "wnames (w_raw b w) = wnames w"
  "wbuf (w_u8 v w) = wbuf w @ [word_of_int v]" "wnames (w_u8 v w) = wnames w"
  "wbuf (w_u16 v w) = wbuf w @ pack_H (v mod 65536)" "wnames (w_u16 v w) = wnames w"
  "wbuf (w_u32 v w) = wbuf w @ pack_I (v mod 4294967296)" "wnames (w_u32 v w) = wnames w"
proof -
  have "(word_of_int (v AND 255) :: byte) = word_of_int v"
    by (rule word_uint_eqI) (simp add: uint_byte_of_int and_FF)
  then show "wbuf (w_u8 v w) = wbuf w @ [word_of_int v]" by (simp add: w_u8_def)
qed (simp_all add: w_raw_def w_u8_def w_u16_def w_u32_def and_FFFF and_FFFFFFFF)

lemma patch_reserved:
  "fst (reserve_u16 w) = length (wbuf w)"
  "wbuf w' = wbuf w @ [0, 0] @ body \<Longrightarrow>
     patch_u16 (length (wbuf w)) v w' =
       Inr (w'\<lparr>wbuf := wbuf w @ pack_H (v mod 65536) @ body\<rparr>)"
  by (simp_all add: reserve_u16_def patch_u16_def and_FFFF)

end
