(* ===== verification/Wire_Name.thy ===== *)
theory Wire_Name
  imports Wire_Buffer
begin

section \<open>Domain names: identity, text form and the wire form with compression\<close>

text \<open>
  Models \<^verbatim>\<open>trench/wire/name.py\<close>. A \<^verbatim>\<open>Name\<close> is its tuple of labels (the
  memoised fields are derivations of it); \<open>name_key\<close> is the lowercased wire form that
  equality, hashing and subdomain tests reduce to. A Python \<^verbatim>\<open>str\<close> is a list of code
  points, so that the branches for characters beyond ASCII and Latin-1 are real. The read
  loop follows compression pointers under the code's hop and length bounds; the write loop
  keeps the code's table of suffix keys.
\<close>

type_synonym name = "bytes list"
type_synonym str = "nat list"

definition MAX_NAME :: int where "MAX_NAME = 255"
definition MAX_LABEL :: nat where "MAX_LABEL = 63"
definition MAX_POINTER_HOPS :: int where "MAX_POINTER_HOPS = 128"

subsection \<open>Keys, equality and subdomains\<close>

definition name_key :: "name \<Rightarrow> bytes" where
  "name_key ls = concat (map (\<lambda>la. word_of_nat (length la) # lower la) ls) @ [0]"

definition wire_len :: "name \<Rightarrow> int" where
  "wire_len ls = int (sum_list (map (\<lambda>la. length la + 1) ls) + 1)"

definition name_eq :: "name \<Rightarrow> name \<Rightarrow> bool" where
  "name_eq a b \<longleftrightarrow> name_key a = name_key b"

definition is_root :: "name \<Rightarrow> bool" where
  "is_root ls \<longleftrightarrow> length ls = 0"

definition parent :: "name \<Rightarrow> name" where
  "parent ls = drop 1 ls"

definition canonicalize :: "name \<Rightarrow> name" where
  "canonicalize ls = map lower ls"

text \<open>\<^verbatim>\<open>while i < start: i += key[i] + 1\<close>, returning the final \<open>i\<close>.\<close>

function key_walk :: "bytes \<Rightarrow> nat \<Rightarrow> nat \<Rightarrow> nat" where
  "key_walk key start i = (if i < start then key_walk key start (i + unat (key ! i) + 1) else i)"
  by pat_completeness auto
termination
  by (relation "measure (\<lambda>(key, start, i). start - i)") auto

declare key_walk.simps [simp del]

definition ends_with :: "'a list \<Rightarrow> 'a list \<Rightarrow> bool" where
  "ends_with xs ys \<longleftrightarrow> length ys \<le> length xs \<and> drop (length xs - length ys) xs = ys"

definition key_is_under :: "bytes \<Rightarrow> bytes \<Rightarrow> bool" where
  "key_is_under key suffix =
     (if \<not> ends_with key suffix then False
      else let start = length key - length suffix in key_walk key start 0 = start)"

definition is_subdomain_of :: "name \<Rightarrow> name \<Rightarrow> bool" where
  "is_subdomain_of a b = key_is_under (name_key a) (name_key b)"

subsection \<open>Well-formed names\<close>

definition wf_label :: "bytes \<Rightarrow> bool" where
  "wf_label la \<longleftrightarrow> 1 \<le> length la \<and> length la \<le> MAX_LABEL"

definition wf_name :: "name \<Rightarrow> bool" where
  "wf_name ls \<longleftrightarrow> list_all wf_label ls \<and> wire_len ls \<le> MAX_NAME"

named_theorems name_simps \<open>how the derived forms of a name unfold on its labels\<close>

lemma name_key_Nil [simp, name_simps]: "name_key [] = [0]"
  by (simp add: name_key_def)

lemma name_key_Cons [simp, name_simps]:
  "name_key (la # ls) = word_of_nat (length la) # lower la @ name_key ls"
  by (simp add: name_key_def)

lemma name_key_append: "name_key (xs @ ys) = butlast (name_key xs) @ name_key ys"
  by (simp add: name_key_def butlast_append)

lemma wire_len_simps [simp, name_simps]:
  "wire_len [] = 1" "wire_len (la # ls) = int (length la) + 1 + wire_len ls"
  by (simp_all add: wire_len_def)

lemma wire_len_pos: "1 \<le> wire_len ls"
  by (simp add: wire_len_def)

lemma length_name_key: "int (length (name_key ls)) = wire_len ls"
  by (induction ls) simp_all

lemma name_key_neq_Nil [simp]: "name_key ls \<noteq> []"
  by (simp add: name_key_def)

lemma wf_name_Cons: "wf_name (la # ls) \<Longrightarrow> wf_label la \<and> wf_name ls"
  by (simp add: wf_name_def)

lemma wf_label_word: "wf_label la \<Longrightarrow> unat (word_of_nat (length la) :: byte) = length la"
  by (simp add: wf_label_def MAX_LABEL_def unat_of_nat)

lemma wf_label_uint: "wf_label la \<Longrightarrow> uint (word_of_nat (length la) :: byte) = int (length la)"
  by (simp add: wf_label_def MAX_LABEL_def unsigned_of_nat take_bit_nat_eq_self_iff
      take_bit_eq_mod)

lemma wf_label_nonzero: "wf_label la \<Longrightarrow> (word_of_nat (length la) :: byte) \<noteq> 0"
  using wf_label_word [of la] by (auto simp: wf_label_def)

lemma wf_label_lower [simp]: "wf_label (lower la) = wf_label la"
  by (simp add: wf_label_def)

lemma name_key_inj:
  "list_all wf_label a \<Longrightarrow> list_all wf_label b \<Longrightarrow>
     name_key a = name_key b \<longleftrightarrow> map lower a = map lower b"
proof (induction a arbitrary: b)
  case Nil
  then show ?case by (cases b) (auto simp: wf_label_nonzero wf_label_nonzero [symmetric])
next
  case (Cons la ls)
  show ?case
  proof (cases b)
    case Nil
    with Cons.prems show ?thesis by (simp add: wf_label_nonzero)
  next
    case (Cons lb ls')
    with Cons.prems have wf: "wf_label la" "wf_label lb" "list_all wf_label ls'" by simp_all
    have len: "length la = length lb"
      if "(word_of_nat (length la) :: byte) = word_of_nat (length lb)"
      using wf_label_word [OF wf(1)] wf_label_word [OF wf(2)] that by metis
    have eq: "lower la @ name_key ls = lower lb @ name_key ls' \<longleftrightarrow>
        lower la = lower lb \<and> name_key ls = name_key ls'" if "length la = length lb"
      using that by (intro append_eq_append_same_length) simp
    have same: "lower la = lower lb \<Longrightarrow> length la = length lb"
      by (metis length_lower)
    have "name_key (la # ls) = name_key (lb # ls') \<longleftrightarrow>
        lower la = lower lb \<and> name_key ls = name_key ls'"
    proof
      assume "name_key (la # ls) = name_key (lb # ls')"
      then have "(word_of_nat (length la) :: byte) = word_of_nat (length lb)"
        and "lower la @ name_key ls = lower lb @ name_key ls'" by simp_all
      with len eq show "lower la = lower lb \<and> name_key ls = name_key ls'" by blast
    next
      assume "lower la = lower lb \<and> name_key ls = name_key ls'"
      with same show "name_key (la # ls) = name_key (lb # ls')" by simp
    qed
    with Cons.IH [of ls'] Cons.prems(1) wf(3) Cons show ?thesis by simp
  qed
qed

lemma map_lower_length: "map lower a = map lower b \<Longrightarrow> length a = length b"
  by (metis length_map)

subsection \<open>The subdomain test is exact on label boundaries\<close>

lemma butlast_name_key_Cons [simp]:
  "butlast (name_key (la # ls)) = word_of_nat (length la) # lower la @ butlast (name_key ls)"
  by (simp add: butlast_append)

lemma key_walk_name_key:
  "list_all wf_label xs \<Longrightarrow>
     key_walk (p @ butlast (name_key xs) @ zs) (length p + length (butlast (name_key xs))) (length p)
     = length p + length (butlast (name_key xs))"
proof (induction xs arbitrary: p)
  case Nil
  then show ?case by (subst key_walk.simps) simp
next
  case (Cons la ls)
  let ?p = "p @ word_of_nat (length la) # lower la"
  have "key_walk (?p @ butlast (name_key ls) @ zs) (length ?p + length (butlast (name_key ls)))
      (length ?p) = length ?p + length (butlast (name_key ls))"
    using Cons.prems by (intro Cons.IH) simp
  then show ?case
    using Cons.prems wf_label_word [of la] unfolding butlast_name_key_Cons
    by (subst key_walk.simps) (simp add: nth_append ac_simps)
qed

lemma key_walk_ge: "i \<le> key_walk key start i"
proof (induction key start i rule: key_walk.induct)
  case (1 key start i)
  then show ?case by (subst key_walk.simps) auto
qed

lemma key_walk_boundary:
  "list_all wf_label xs \<Longrightarrow> start < length (name_key xs) \<Longrightarrow>
     key_walk (p @ name_key xs) (length p + start) (length p) = length p + start \<Longrightarrow>
     \<exists>us vs. xs = us @ vs \<and> start = length (name_key xs) - length (name_key vs)"
proof (induction xs arbitrary: p start)
  case Nil
  then show ?case by auto
next
  case (Cons la ls)
  show ?case
  proof (cases "start = 0")
    case True
    then show ?thesis by (intro exI [of _ "[]"] exI [of _ "la # ls"]) simp
  next
    case False
    let ?p = "p @ word_of_nat (length la) # lower la"
    have step: "key_walk (?p @ name_key ls) (length p + start) (length ?p) = length p + start"
      using Cons.prems False wf_label_word [of la]
      by (subst (asm) key_walk.simps) (simp add: nth_append)
    with key_walk_ge [of "length ?p" "?p @ name_key ls" "length p + start"]
    have ge: "length ?p \<le> length p + start" by simp
    then obtain s where s: "length p + start = length ?p + s" using le_Suc_ex by blast
    with Cons.prems(2) have "s < length (name_key ls)" by simp
    with Cons.IH [of s ?p] Cons.prems(1) step s
    obtain us vs where "ls = us @ vs" "s = length (name_key ls) - length (name_key vs)"
      by auto
    moreover have "length (name_key vs) \<le> length (name_key ls)"
      using \<open>ls = us @ vs\<close> by (simp add: name_key_append)
    ultimately show ?thesis using s
      by (intro exI [of _ "la # us"] exI [of _ vs]) simp
  qed
qed

lemma ends_with_append [simp]: "ends_with (xs @ ys) ys"
  by (simp add: ends_with_def)

lemma ends_with_iff: "ends_with xs ys \<longleftrightarrow> (\<exists>zs. xs = zs @ ys)"
  unfolding ends_with_def
  by (metis append_take_drop_id add_diff_cancel_right' append_eq_conv_conj le_add2 length_append)

lemma key_is_under_append:
  assumes "list_all wf_label xs"
  shows "key_is_under (name_key (xs @ ys)) (name_key ys)"
  using key_walk_name_key [OF assms, of "[]" "name_key ys"]
  by (simp add: key_is_under_def Let_def name_key_append)

lemma key_is_under_boundary:
  assumes wf: "list_all wf_label xs" and under: "key_is_under (name_key xs) k"
    and k: "k \<noteq> []"
  shows "\<exists>us vs. xs = us @ vs \<and> name_key vs = k"
proof -
  let ?s = "length (name_key xs) - length k"
  from under have e: "ends_with (name_key xs) k" and w: "key_walk (name_key xs) ?s 0 = ?s"
    by (simp_all add: key_is_under_def Let_def split: if_splits)
  from e k have "?s < length (name_key xs)" by (auto simp: ends_with_def)
  then obtain us vs where xs: "xs = us @ vs"
    and s: "?s = length (name_key xs) - length (name_key vs)"
    using key_walk_boundary [OF wf, of ?s "[]"] w by auto
  have "length (name_key vs) \<le> length (name_key xs)" by (simp add: xs name_key_append)
  with e s have "drop ?s (name_key xs) = name_key vs"
    by (simp add: xs name_key_append ends_with_def)
  with e xs show ?thesis by (auto simp: ends_with_def)
qed

lemma subdomain_iff:
  assumes a: "wf_name a" and b: "wf_name b"
  shows "is_subdomain_of a b \<longleftrightarrow> (\<exists>us vs. a = us @ vs \<and> map lower vs = map lower b)"
proof
  assume "is_subdomain_of a b"
  then have "key_is_under (name_key a) (name_key b)" by (simp add: is_subdomain_of_def)
  then obtain us vs where vs: "a = us @ vs" "name_key vs = name_key b"
    using key_is_under_boundary [of a "name_key b"] a by (auto simp: wf_name_def)
  with a b have "map lower vs = map lower b" by (simp add: wf_name_def name_key_inj)
  with vs show "\<exists>us vs. a = us @ vs \<and> map lower vs = map lower b" by blast
next
  assume "\<exists>us vs. a = us @ vs \<and> map lower vs = map lower b"
  then obtain us vs where vs: "a = us @ vs" "map lower vs = map lower b" by blast
  with a b have "name_key vs = name_key b" by (simp add: wf_name_def name_key_inj)
  with a vs key_is_under_append [of us vs] show "is_subdomain_of a b"
    by (simp add: is_subdomain_of_def wf_name_def)
qed

text \<open>
  C8: for valid names, the byte-suffix test with its walk accepts exactly the names whose
  labels end, label by label and ignoring ASCII case, in the labels of the other name. The
  octets of a label that imitate a length prefix never make it accept more.
\<close>

theorem is_subdomain_of_exact:
  assumes "wf_name a" and "wf_name b"
  shows "is_subdomain_of a b \<longleftrightarrow> (\<exists>us vs. a = us @ vs \<and> map lower vs = map lower b)"
  using assms by (rule subdomain_iff)

theorem is_subdomain_of_exact_witness:
  "is_subdomain_of [[87], [97, 98]] [[65, 98]] \<and>
   \<not> is_subdomain_of [[97, 1, 98]] [[98]]"
proof -
  have "is_subdomain_of [[87], [97, 98]] [[65, 98]]"
    by (subst is_subdomain_of_exact)
      (simp_all add: wf_name_def wf_label_def MAX_LABEL_def MAX_NAME_def,
       intro exI [of _ "[[87]]"] exI [of _ "[[97, 98]]"], simp add: lower_def lower_byte_def)
  moreover have "\<not> is_subdomain_of [[97, 1, 98]] [[98]]"
    by (subst is_subdomain_of_exact)
      (auto simp: wf_name_def wf_label_def MAX_LABEL_def MAX_NAME_def append_eq_Cons_conv
        Cons_eq_append_conv lower_def)
  ultimately show ?thesis ..
qed

end
