(* ===== verification/Wire_Name_Codec.thy ===== *)
theory Wire_Name_Codec
  imports Wire_Name
begin

section \<open>Reading and writing names on the wire\<close>

text \<open>
  \<^verbatim>\<open>read_name\<close> and \<^verbatim>\<open>write_name\<close> of \<^verbatim>\<open>trench/wire/name.py\<close>. The
  read loop is a total function: every turn spends a label of the 255 octets or one of the
  128 pointer hops. \<open>name_at\<close> is the specification both sides meet: what it means for a
  buffer to hold a name at an offset, compression pointers included.
\<close>

subsection \<open>The code\<close>

text \<open>
  The locals of the loop are the arguments: the reader, the labels read so far, the hops, the
  tot length and the position to resume at once a pointer has been followed.
\<close>

function read_name_loop ::
  "reader \<Rightarrow> bytes list \<Rightarrow> int \<Rightarrow> int \<Rightarrow> int option \<Rightarrow> (name \<times> reader) result" where
  "read_name_loop r labels hops tot resume =
     (case r_u8 r of Inl e \<Rightarrow> Inl e | Inr (len, r1) \<Rightarrow>
       (let kind = len AND 0xC0 in
        if len = 0 then
          (case resume of
             None \<Rightarrow> Inr (labels, r1)
           | Some p \<Rightarrow> rbind (seek p r1) (\<lambda>r2. Inr (labels, r2)))
        else if kind = 0x00 then
          (case r_read len r1 of Inl e \<Rightarrow> Inl e | Inr (label, r2) \<Rightarrow>
            (let tot' = tot + (len + 1) in
             if tot' > MAX_NAME then Inl WireError
             else read_name_loop r2 (labels @ [label]) hops tot' resume))
        else if kind = 0xC0 then
          (let hops' = hops + 1 in
           if hops' > MAX_POINTER_HOPS then Inl WireError
           else
             (case r_u8 r1 of Inl e \<Rightarrow> Inl e | Inr (lo, r2) \<Rightarrow>
               (let ptr = push_bit 8 (len AND 0x3F) OR lo;
                    resume' = (case resume of None \<Rightarrow> Some (tell r2) | Some p \<Rightarrow> Some p)
                in
                if ptr \<ge> tell r2 - 2 then Inl WireError
                else
                  (case seek ptr r2 of Inl e \<Rightarrow> Inl e | Inr r3 \<Rightarrow>
                     read_name_loop r3 labels hops' tot resume'))))
        else Inl WireError))"
  by pat_completeness auto
termination
proof (relation "measure (\<lambda>(r, labels, hops, tot, resume).
    nat (MAX_NAME + 1 - tot) + nat (MAX_POINTER_HOPS + 1 - hops))", goal_cases)
  case (2 r labels hops tot resume a len r1 kind b label r2 tot')
  then have "0 \<le> len" by (auto simp: r_u8_def split: if_splits)
  with 2 show ?case by simp
qed (auto simp: Let_def)

declare read_name_loop.simps [simp del]

definition read_name :: "name parser" where
  "read_name r = read_name_loop r [] 0 1 None"

fun write_labels :: "bool \<Rightarrow> bytes \<Rightarrow> nat \<Rightarrow> bytes list \<Rightarrow> writer \<Rightarrow> writer" where
  "write_labels compress key p [] w = w_u8 0 w"
| "write_labels compress key p (label # ls) w =
     (if compress then
        (case wnames w (drop p key) of
           Some off \<Rightarrow> w_u16 (0xC000 OR int off) w
         | None \<Rightarrow>
             (let here = wtell w;
                  w1 = (if here \<le> 0x3FFF then w\<lparr>wnames := (wnames w)(drop p key \<mapsto> here)\<rparr>
                        else w)
              in write_labels compress key (p + (length label + 1)) ls
                   (w_raw label (w_u8 (int (length label)) w1))))
      else write_labels compress key p ls (w_raw label (w_u8 (int (length label)) w)))"

definition write_name :: "name \<Rightarrow> bool \<Rightarrow> writer \<Rightarrow> writer" where
  "write_name nm compress w =
     write_labels compress (if compress then name_key nm else []) 0 nm w"

subsection \<open>What a buffer holds at an offset\<close>

inductive name_at :: "bytes \<Rightarrow> nat \<Rightarrow> name \<Rightarrow> nat \<Rightarrow> nat \<Rightarrow> bool" where
  root: "i < length b \<Longrightarrow> uint (b ! i) = 0 \<Longrightarrow> name_at b i [] (Suc i) 0"
| label: "wf_label la \<Longrightarrow> i < length b \<Longrightarrow> uint (b ! i) = int (length la) \<Longrightarrow>
     Suc i + length la \<le> length b \<Longrightarrow> take (length la) (drop (Suc i) b) = la \<Longrightarrow>
     name_at b (Suc i + length la) ls e h \<Longrightarrow> name_at b i (la # ls) e h"
| pointer: "Suc i < length b \<Longrightarrow> p < i \<Longrightarrow> p \<le> 0x3FFF \<Longrightarrow>
     uint (b ! i) = 192 + int p div 256 \<Longrightarrow> uint (b ! Suc i) = int p mod 256 \<Longrightarrow>
     name_at b p ls e h \<Longrightarrow> name_at b i ls (Suc (Suc i)) (Suc h)"

inductive_cases name_at_NilE: "name_at b i [] e h"
inductive_cases name_at_ConsE: "name_at b i (la # ls) e h"

lemma name_at_wf: "name_at b i ls e h \<Longrightarrow> list_all wf_label ls"
  by (induction rule: name_at.induct) simp_all

lemma name_at_bound: "name_at b i ls e h \<Longrightarrow> i < e \<and> e \<le> length b"
  by (induction rule: name_at.induct) auto

lemma name_at_append: "name_at b i ls e h \<Longrightarrow> name_at (b @ x) i ls e h"
proof (induction rule: name_at.induct)
  case (label la i b ls e h)
  then show ?case by (intro name_at.label) (simp_all add: nth_append)
next
  case (pointer i b p ls e h)
  then show ?case by (intro name_at.pointer [of i _ p]) (simp_all add: nth_append)
qed (auto intro!: name_at.root simp: nth_append)

subsection \<open>Octet arithmetic of label types\<close>

lemma label_kind_table:
  "list_all (\<lambda>n. (n AND 0xC0 = 0 \<longleftrightarrow> n < 64) \<and> (n AND 0xC0 = 0xC0 \<longleftrightarrow> 192 \<le> n)
      \<and> n AND 0x3F = n mod 64) [0..(255::int)]"
  by code_simp

lemma label_kind:
  assumes "0 \<le> n" "n < (256 :: int)"
  shows "n AND 0xC0 = 0 \<longleftrightarrow> n < 64" "n AND 0xC0 = 0xC0 \<longleftrightarrow> 192 \<le> n" "n AND 0x3F = n mod 64"
  using label_kind_table assms by (simp_all add: list_all_iff)

lemma or_low_byte:
  assumes "0 \<le> lo" "lo < (256 :: int)"
  shows "push_bit 8 a OR lo = a * 256 + lo"
proof -
  have "concat_bit 8 lo a = take_bit 8 lo + push_bit 8 a" by (rule concat_bit_eq)
  moreover have "take_bit 8 lo = lo" using assms by (simp add: take_bit_eq_mod)
  ultimately show ?thesis
    by (simp add: concat_bit_def or.commute push_bit_eq_mult)
qed

lemma pointer_decode:
  assumes "p \<le> (0x3FFF :: nat)"
  shows "push_bit 8 ((192 + int p div 256) AND 0x3F) OR (int p mod 256) = int p"
proof -
  have "0 \<le> int p div 256" "int p div 256 < 64" using assms by auto
  moreover have "(192 + x) mod 64 = x" if "0 \<le> x" "x < 64" for x :: int
    using that mod_mult_self1 [of x 3 64] by (simp add: add.commute)
  ultimately have "(192 + int p div 256) AND 0x3F = int p div 256"
    by (simp add: label_kind(3))
  then show ?thesis by (simp add: or_low_byte)
qed

lemma pointer_word:
  assumes "off \<le> 0x3FFF"
  shows "\<exists>a b. pack_H ((0xC000 OR int off) mod 65536) = [a, b] \<and>
     uint a = 192 + int off div 256 \<and> uint b = int off mod 256"
proof -
  have "push_bit 14 3 OR take_bit 14 (int off) = concat_bit 14 (int off) 3"
    by (simp add: concat_bit_def or.commute)
  also have "\<dots> = take_bit 14 (int off) + push_bit 14 3" by (rule concat_bit_eq)
  finally have e: "0xC000 OR int off = 49152 + int off"
    using assms by (simp add: push_bit_eq_mult take_bit_eq_mod)
  have m: "(49152 + int off) mod 65536 = 49152 + int off" using assms by simp
  have d: "(49152 + int off) div 256 = 192 + int off div 256"
    using div_add1_eq [of 49152 "int off" 256] by simp
  have l: "(49152 + int off) mod 256 = int off mod 256"
    using mod_add_eq [of 49152 256 "int off"] by simp
  have "(192 + int off div 256) mod 256 = 192 + int off div 256" using assms by simp
  then show ?thesis
    unfolding e m pack_H_def drop_bit_eq_div
    by (intro exI [of _ "word_of_int ((49152 + int off) div 2 ^ 8)"]
        exI [of _ "word_of_int (49152 + int off)"]) (simp only: uint_byte_of_int d l, simp add: d)
qed

subsection \<open>Reading is exact\<close>

lemma read_u8_at: "i < length b \<Longrightarrow>
    r_u8 \<lparr>rbuf = b, rpos = int i\<rparr> = Inr (uint (b ! i), \<lparr>rbuf = b, rpos = int (Suc i)\<rparr>)"
  by (simp add: r_u8_def rlen_def)

lemma read_name_loop_at:
  assumes "name_at b i ls e h" and "hops + int h \<le> MAX_POINTER_HOPS"
    and "tot + (wire_len ls - 1) \<le> MAX_NAME"
    and "case resume of None \<Rightarrow> True | Some q \<Rightarrow> 0 \<le> q \<and> q \<le> int (length b)"
  shows "read_name_loop \<lparr>rbuf = b, rpos = int i\<rparr> labels hops tot resume =
    Inr (labels @ ls,
         \<lparr>rbuf = b, rpos = (case resume of None \<Rightarrow> int e | Some q \<Rightarrow> q)\<rparr>)"
  using assms
proof (induction arbitrary: labels hops tot resume rule: name_at.induct)
  case (root i b)
  then show ?case
    by (subst read_name_loop.simps)
      (auto simp: read_u8_at seek_def rlen_def Let_def split: option.splits)
next
  case (label la i b ls e h)
  have la: "1 \<le> length la" "length la \<le> 63" using label.hyps(1)
    by (simp_all add: wf_label_def MAX_LABEL_def)
  have "r_read (int (length la)) \<lparr>rbuf = b, rpos = int (Suc i)\<rparr>
      = Inr (la, \<lparr>rbuf = b, rpos = int (Suc i + length la)\<rparr>)"
    using label.hyps(4,5) by (simp add: r_read_def rlen_def del: of_nat_Suc)
  moreover have "read_name_loop \<lparr>rbuf = b, rpos = int (Suc i + length la)\<rparr> (labels @ [la]) hops
      (tot + (int (length la) + 1)) resume =
      Inr ((labels @ [la]) @ ls,
           \<lparr>rbuf = b, rpos = (case resume of None \<Rightarrow> int e | Some q \<Rightarrow> q)\<rparr>)"
    using label.prems by (intro label.IH) simp_all
  moreover have "\<not> tot + (int (length la) + 1) > MAX_NAME"
    using label.prems(2) wire_len_pos [of ls] by simp
  moreover have "int (length la) AND 0xC0 = 0" using la by (simp add: label_kind)
  moreover have "la \<noteq> []" using la by auto
  ultimately show ?case using label.hyps(2,3)
    by (subst read_name_loop.simps) (simp add: read_u8_at Let_def)
next
  case (pointer i b p ls e h)
  have r: "192 \<le> 192 + int p div 256" "192 + int p div 256 < 256"
    using pointer.hyps(3) by simp_all
  then have k: "(192 + int p div 256) AND 0xC0 = 0xC0" "\<not> 192 + int p div 256 = 0"
    by (simp_all add: label_kind)
  have "seek (int p) \<lparr>rbuf = b, rpos = int (Suc (Suc i))\<rparr> = Inr \<lparr>rbuf = b, rpos = int p\<rparr>"
    using pointer.hyps(1,2) by (simp add: seek_def rlen_def)
  moreover have "read_name_loop \<lparr>rbuf = b, rpos = int p\<rparr> labels (hops + 1) tot
      (case resume of None \<Rightarrow> Some (int (Suc (Suc i))) | Some q \<Rightarrow> Some q) =
      Inr (labels @ ls, \<lparr>rbuf = b,
        rpos = (case resume of None \<Rightarrow> int (Suc (Suc i)) | Some q \<Rightarrow> q)\<rparr>)"
    using pointer.IH [of "hops + 1" tot
        "case resume of None \<Rightarrow> Some (int (Suc (Suc i))) | Some q \<Rightarrow> Some q" labels]
      pointer.prems pointer.hyps(1) by (auto split: option.splits)
  moreover have "\<not> hops + 1 > MAX_POINTER_HOPS" using pointer.prems(1) by simp
  moreover have "\<not> int p \<ge> int (Suc (Suc i)) - 2" using pointer.hyps(2) by simp
  ultimately show ?case using pointer.hyps(1,4,5) k pointer_decode [OF pointer.hyps(3)]
    by (cases resume; subst read_name_loop.simps)
      (simp_all add: read_u8_at Let_def tell_def del: of_nat_Suc push_bit_and)
qed

lemma read_name_at:
  assumes "name_at b i ls e h" and "h \<le> 128" and "wire_len ls \<le> MAX_NAME"
  shows "read_name \<lparr>rbuf = b, rpos = int i\<rparr> = Inr (ls, \<lparr>rbuf = b, rpos = int e\<rparr>)"
  using read_name_loop_at [OF assms(1), of 0 1 None "[]"] assms(2,3)
  by (simp add: read_name_def MAX_POINTER_HOPS_def)

subsection \<open>The compression table and writing\<close>

definition entry_ok :: "bytes \<Rightarrow> bytes \<Rightarrow> nat \<Rightarrow> bool" where
  "entry_ok b k i \<longleftrightarrow> i \<le> 0x3FFF \<and>
     (\<exists>ls e h. name_at b i ls e h \<and> name_key ls = k \<and> h \<le> length ls)"

definition names_ok :: "writer \<Rightarrow> bool" where
  "names_ok w \<longleftrightarrow> (\<forall>k i. wnames w k = Some i \<longrightarrow> entry_ok (wbuf w) k i)"

lemma entry_ok_append: "entry_ok b k i \<Longrightarrow> entry_ok (b @ x) k i"
  unfolding entry_ok_def by (blast intro: name_at_append)

lemma names_ok_new [simp]: "names_ok new_writer"
  by (simp add: names_ok_def new_writer_def)

lemma names_ok_extend:
  "names_ok w \<Longrightarrow> wnames w' = wnames w \<Longrightarrow> wbuf w' = wbuf w @ x \<Longrightarrow> names_ok w'"
  unfolding names_ok_def by (simp add: entry_ok_append)

lemma name_at_label_append:
  assumes "wf_label la" and "name_at (b @ [word_of_nat (length la)] @ la @ x)
      (Suc (length b + length la)) ls e h"
  shows "name_at (b @ [word_of_nat (length la)] @ la @ x) (length b) (la # ls) e h"
  using assms by (intro name_at.label) (simp_all add: nth_append wf_label_uint)

text \<open>
  The loop, from a table whose entries are good as far as keys no longer than what is left
  to write are concerned: the entries it adds on the way down are for longer keys, so they
  are never looked up before the name they stand for is complete.
\<close>

lemma write_labels_compressed:
  assumes "list_all wf_label ls" and "drop p key = name_key ls"
    and "\<And>k i. wnames w k = Some i \<Longrightarrow> length k \<le> length (name_key ls) \<Longrightarrow> entry_ok (wbuf w) k i"
  shows "\<exists>bs ls' h. wbuf (write_labels True key p ls w) = wbuf w @ bs \<and>
      name_at (wbuf w @ bs) (length (wbuf w)) ls' (length (wbuf w @ bs)) h \<and>
      name_key ls' = name_key ls \<and> h \<le> length ls + 1 \<and>
      (\<forall>k i. wnames (write_labels True key p ls w) k = Some i \<longrightarrow>
         wnames w k = Some i \<or> entry_ok (wbuf w @ bs) k i)"
  using assms
proof (induction ls arbitrary: p w)
  case Nil
  have "name_at (wbuf w @ [0]) (length (wbuf w)) [] (length (wbuf w @ [0])) 0"
    using name_at.root [of "length (wbuf w)" "wbuf w @ [0]"] by simp
  then show ?case by (intro exI [of _ "[0]"] exI [of _ "[]"] exI [of _ 0]) simp
next
  case (Cons la ls)
  have wf: "wf_label la" "list_all wf_label ls" using Cons.prems(1) by simp_all
  show ?case
  proof (cases "wnames w (drop p key)")
    case (Some off)
    with Cons.prems(2,3) have "entry_ok (wbuf w) (name_key (la # ls)) off" by simp
    then obtain ls' e h where off: "off \<le> 0x3FFF" and at: "name_at (wbuf w) off ls' e h"
      and key: "name_key ls' = name_key (la # ls)" and h: "h \<le> length ls'"
      unfolding entry_ok_def by blast
    from pointer_word [OF off] obtain a b where ab:
      "pack_H ((0xC000 OR int off) mod 65536) = [a, b]"
      "uint a = 192 + int off div 256" "uint b = int off mod 256" by blast
    have "name_at (wbuf w @ [a, b]) (length (wbuf w)) ls' (Suc (Suc (length (wbuf w)))) (Suc h)"
      using ab off name_at_bound [OF at] name_at_append [OF at]
      by (intro name_at.pointer [of _ _ off]) (simp_all add: nth_append)
    moreover have "length ls' = length (la # ls)"
      using key name_at_wf [OF at] Cons.prems(1) by (metis name_key_inj map_lower_length)
    ultimately show ?thesis using Some ab(1) key h
      by (intro exI [of _ "[a, b]"] exI [of _ ls'] exI [of _ "Suc h"]) simp
  next
    case None
    let ?here = "length (wbuf w)"
    obtain w1 where w1: "w1 = (if ?here \<le> 0x3FFF
        then w\<lparr>wnames := (wnames w)(drop p key \<mapsto> ?here)\<rparr> else w)" by simp
    then have buf1: "wbuf w1 = wbuf w" by simp
    let ?w2 = "w_raw la (w_u8 (int (length la)) w1)"
    let ?oct = "word_of_nat (length la) :: byte"
    have buf2: "wbuf ?w2 = wbuf w @ [?oct] @ la" by (simp add: buf1)
    have run: "write_labels True key p (la # ls) w = write_labels True key (p + (length la + 1)) ls ?w2"
      using None by (simp add: wtell_def w1)
    have key: "drop (p + (length la + 1)) key = name_key ls"
    proof -
      have "drop (p + (length la + 1)) key = drop (length la + 1) (drop p key)"
        by (simp add: add.commute)
      then show ?thesis using Cons.prems(2) by simp
    qed
    have pend: "entry_ok (wbuf ?w2) k i"
      if "wnames ?w2 k = Some i" "length k \<le> length (name_key ls)" for k i
    proof -
      have "k \<noteq> drop p key" using that(2) Cons.prems(2) by auto
      then have "wnames w k = Some i" using that(1) by (simp add: w1 split: if_splits)
      then have "entry_ok (wbuf w) k i" using that(2) by (intro Cons.prems(3)) auto
      then show ?thesis unfolding buf2 by (rule entry_ok_append)
    qed
    obtain bs ls' h where ih: "wbuf (write_labels True key (p + (length la + 1)) ls ?w2) = wbuf ?w2 @ bs"
      "name_at (wbuf ?w2 @ bs) (length (wbuf ?w2)) ls' (length (wbuf ?w2 @ bs)) h"
      "name_key ls' = name_key ls" "h \<le> length ls + 1"
      "\<And>k i. wnames (write_labels True key (p + (length la + 1)) ls ?w2) k = Some i \<Longrightarrow>
         wnames ?w2 k = Some i \<or> entry_ok (wbuf ?w2 @ bs) k i"
      using Cons.IH [OF wf(2) key pend] by blast
    let ?bs = "?oct # la @ bs"
    have b: "wbuf ?w2 @ bs = wbuf w @ ?bs" by (simp add: buf1)
    have at: "name_at (wbuf w @ ?bs) ?here (la # ls') (length (wbuf w @ ?bs)) h"
      using name_at_label_append [of la "wbuf w" bs ls' "length (wbuf w @ ?bs)" h] wf(1) ih(2)
      unfolding b by (simp add: buf1)
    have "length ls' = length ls"
      using ih(3) name_at_wf [OF ih(2)] wf(2) by (metis name_key_inj map_lower_length)
    with at ih(3,4) have new: "entry_ok (wbuf w @ ?bs) (drop p key) ?here" if "?here \<le> 0x3FFF"
      unfolding entry_ok_def using that Cons.prems(2) by (intro conjI exI [of _ "la # ls'"]) auto
    have "wnames w k = Some i \<or> entry_ok (wbuf w @ ?bs) k i"
      if "wnames (write_labels True key p (la # ls) w) k = Some i" for k i
      using ih(5) [of k i] that new unfolding run b
      by (auto simp: w1 split: if_splits)
    then show ?thesis using at ih run b
      by (intro exI [of _ ?bs] exI [of _ "la # ls'"] exI [of _ h]) simp
  qed
qed

text \<open>Without compression the octets are the labels themselves and the table is untouched.\<close>

definition name_wire :: "name \<Rightarrow> bytes" where
  "name_wire ls = concat (map (\<lambda>la. word_of_nat (length la) # la) ls) @ [0]"

lemma name_wire_simps [simp]:
  "name_wire [] = [0]" "name_wire (la # ls) = word_of_nat (length la) # la @ name_wire ls"
  by (simp_all add: name_wire_def)

lemma length_name_wire: "int (length (name_wire ls)) = wire_len ls"
  by (induction ls) simp_all

lemma write_labels_plain:
  "wbuf (write_labels False key p ls w) = wbuf w @ name_wire ls \<and>
   wnames (write_labels False key p ls w) = wnames w"
  by (induction ls arbitrary: w) simp_all

lemma name_at_name_wire:
  "list_all wf_label ls \<Longrightarrow>
     name_at (b @ name_wire ls) (length b) ls (length (b @ name_wire ls)) 0"
proof (induction ls arbitrary: b)
  case Nil
  then show ?case using name_at.root [of "length b" "b @ [0]"] by simp
next
  case (Cons la ls)
  let ?b = "b @ word_of_nat (length la) # la"
  have "name_at (?b @ name_wire ls) (length ?b) ls (length (?b @ name_wire ls)) 0"
    using Cons.prems by (intro Cons.IH) simp
  with name_at_label_append [of la b "name_wire ls" ls] Cons.prems show ?case by simp
qed

lemma wf_name_length: "wf_name ls \<Longrightarrow> length ls \<le> 127"
proof -
  have "2 * int (length xs) + 1 \<le> wire_len xs" if "list_all wf_label xs" for xs
    using that by (induction xs) (auto simp: wf_label_def)
  from this [of ls] show "wf_name ls \<Longrightarrow> length ls \<le> 127"
    by (simp add: wf_name_def MAX_NAME_def)
qed

lemma name_eq_wire_len: "name_eq a b \<Longrightarrow> wire_len a = wire_len b"
  unfolding name_eq_def using length_name_key by metis

lemma read_name_reader_at:
  assumes "name_at (pre @ bs) (length pre) ls (length (pre @ bs)) h" and "h \<le> 128"
    and "wire_len ls \<le> MAX_NAME"
  shows "read_name (reader_at pre (bs @ rest)) = Inr (ls, reader_at (pre @ bs) rest)"
proof -
  have "name_at ((pre @ bs) @ rest) (length pre) ls (length (pre @ bs)) h"
    by (rule name_at_append [OF assms(1)])
  from read_name_at [OF this assms(2,3)] show ?thesis by (simp add: reader_at_def)
qed

lemma write_name_sound:
  assumes table: "names_ok w" and wf: "wf_name nm"
  shows "\<exists>bs nm'. wbuf (write_name nm c w) = wbuf w @ bs \<and> names_ok (write_name nm c w) \<and>
     wf_name nm' \<and> name_eq nm' nm \<and> (\<not> c \<longrightarrow> nm' = nm) \<and>
     (\<forall>rest. read_name (reader_at (wbuf w) (bs @ rest)) =
        Inr (nm', reader_at (wbuf w @ bs) rest))"
proof (cases c)
  case False
  have "names_ok (write_name nm c w)"
    using names_ok_extend [OF table] write_labels_plain [of "[]" 0 nm w] False
    by (auto simp: write_name_def)
  then show ?thesis
    using False wf write_labels_plain [of "[]" 0 nm w]
      read_name_reader_at [OF name_at_name_wire [of nm "wbuf w"]]
    by (intro exI [of _ "name_wire nm"] exI [of _ nm])
      (simp add: write_name_def name_eq_def wf_name_def)
next
  case True
  obtain bs ls' h where bs: "wbuf (write_name nm c w) = wbuf w @ bs"
    "name_at (wbuf w @ bs) (length (wbuf w)) ls' (length (wbuf w @ bs)) h"
    "name_key ls' = name_key nm" "h \<le> length nm + 1"
    "\<And>k i. wnames (write_name nm c w) k = Some i \<Longrightarrow>
        wnames w k = Some i \<or> entry_ok (wbuf w @ bs) k i"
    using write_labels_compressed [of nm 0 "name_key nm" w] table wf True
    unfolding wf_name_def names_ok_def write_name_def by auto
  have "names_ok (write_name nm c w)"
    using bs(1,5) table entry_ok_append unfolding names_ok_def by metis
  moreover have eq: "name_eq ls' nm" using bs(3) by (simp add: name_eq_def)
  moreover have "wf_name ls'"
    using wf name_at_wf [OF bs(2)] name_eq_wire_len [OF eq] by (simp add: wf_name_def)
  moreover have "h \<le> 128" using bs(4) wf_name_length [OF wf] by simp
  ultimately show ?thesis
    using bs(1) read_name_reader_at [OF bs(2)] True unfolding wf_name_def by blast
qed

text \<open>
  C7: what \<open>write_name\<close> appends, with or without compression, \<open>read_name\<close> reads back as
  the same name (up to ASCII case under compression), whatever follows in the message, and
  leaves the cursor right behind it. The writer's compression table stays good.
\<close>

theorem write_name_read_name:
  assumes table: "names_ok w" and wf: "wf_name nm"
  shows "\<exists>bs nm'. wbuf (write_name nm c w) = wbuf w @ bs \<and> names_ok (write_name nm c w) \<and>
     wf_name nm' \<and> name_eq nm' nm \<and> (\<not> c \<longrightarrow> nm' = nm) \<and>
     (\<forall>rest. read_name (reader_at (wbuf w) (bs @ rest)) =
        Inr (nm', reader_at (wbuf w @ bs) rest))"
  by (rule write_name_sound [OF table wf])

theorem write_name_read_name_witness:
  "\<exists>bs nm'. wbuf (write_name [[119], [97]] True (write_name [[65]] True new_writer)) =
     [1, 65, 0, 1, 119, 0xC0, 0] \<and> name_eq nm' [[119], [97]] \<and>
     read_name (reader_at [1, 65, 0] bs) = Inr (nm', reader_at ([1, 65, 0] @ bs) [])"
proof -
  let ?w = "write_name [[65]] True new_writer"
  have w: "wbuf ?w = [1, 65, 0]"
    by (simp add: write_name_def new_writer_def wtell_def lower_def lower_byte_def)
  have b: "wbuf (write_name [[119], [97]] True ?w) = [1, 65, 0, 1, 119, 0xC0, 0]"
    by (simp add: write_name_def new_writer_def wtell_def lower_def lower_byte_def pack_H_def
        w_raw_def w_u8_def w_u16_def)
  have wf: "wf_name [[65]]" "wf_name [[119], [97]]"
    by (simp_all add: wf_name_def wf_label_def MAX_LABEL_def MAX_NAME_def)
  have "names_ok ?w" using write_name_read_name [OF names_ok_new wf(1), of True] by blast
  from write_name_read_name [OF this wf(2), of True] obtain bs nm' where
    "name_eq nm' [[119], [97]]"
    "\<forall>rest. read_name (reader_at (wbuf ?w) (bs @ rest)) = Inr (nm', reader_at (wbuf ?w @ bs) rest)"
    by blast
  then show ?thesis using b w by (metis append_Nil2)
qed

subsection \<open>Reading is safe\<close>

text \<open>The four ways a turn of the loop can go, as one equation per way.\<close>

lemma read_name_loop_stop:
  "r_u8 r = Inr (0, r1) \<Longrightarrow> read_name_loop r labels hops tot resume =
     (case resume of None \<Rightarrow> Inr (labels, r1) | Some p \<Rightarrow> rbind (seek p r1) (\<lambda>r2. Inr (labels, r2)))"
  by (subst read_name_loop.simps) simp

lemma read_name_loop_label:
  "r_u8 r = Inr (len, r1) \<Longrightarrow> len \<noteq> 0 \<Longrightarrow> len AND 0xC0 = 0 \<Longrightarrow>
   read_name_loop r labels hops tot resume =
     (case r_read len r1 of Inl e \<Rightarrow> Inl e | Inr (label, r2) \<Rightarrow>
        if tot + (len + 1) > MAX_NAME then Inl WireError
        else read_name_loop r2 (labels @ [label]) hops (tot + (len + 1)) resume)"
  by (subst read_name_loop.simps, unfold Let_def, simp)

lemma read_name_loop_pointer:
  "r_u8 r = Inr (len, r1) \<Longrightarrow> len \<noteq> 0 \<Longrightarrow> len AND 0xC0 = 0xC0 \<Longrightarrow>
   read_name_loop r labels hops tot resume =
     (if hops + 1 > MAX_POINTER_HOPS then Inl WireError
      else case r_u8 r1 of Inl e \<Rightarrow> Inl e | Inr (lo, r2) \<Rightarrow>
        if push_bit 8 (len AND 0x3F) OR lo \<ge> tell r2 - 2 then Inl WireError
        else case seek (push_bit 8 (len AND 0x3F) OR lo) r2 of Inl e \<Rightarrow> Inl e | Inr r3 \<Rightarrow>
          read_name_loop r3 labels (hops + 1) tot
            (case resume of None \<Rightarrow> Some (tell r2) | Some p \<Rightarrow> Some p))"
  by (subst read_name_loop.simps, unfold Let_def, simp del: push_bit_and)

lemma read_name_loop_other:
  "r_u8 r = Inl e \<Longrightarrow> read_name_loop r labels hops tot resume = Inl e"
  "r_u8 r = Inr (len, r1) \<Longrightarrow> len \<noteq> 0 \<Longrightarrow> len AND 0xC0 \<noteq> 0 \<Longrightarrow> len AND 0xC0 \<noteq> 0xC0 \<Longrightarrow>
     read_name_loop r labels hops tot resume = Inl WireError"
  by (subst read_name_loop.simps, simp)+

text \<open>
  The invariant of the loop, for its outcome: it raises only \<^const>\<open>WireError\<close>, keeps the
  buffer and a cursor inside it, and whatever it returns is a valid name when the labels
  collected so far were.
\<close>

definition loop_outcome :: "reader \<Rightarrow> bytes list \<Rightarrow> int \<Rightarrow> (name \<times> reader) result \<Rightarrow> bool" where
  "loop_outcome r labels tot res \<longleftrightarrow>
     (\<forall>e. res = Inl e \<longrightarrow> e = WireError) \<and>
     (\<forall>ls r'. res = Inr (ls, r') \<longrightarrow> rbuf r' = rbuf r \<and> reader_ok r' \<and>
        (list_all wf_label labels \<and> tot = wire_len labels \<and> tot \<le> MAX_NAME \<longrightarrow> wf_name ls))"

lemma loop_outcome_WireError [simp]: "loop_outcome r labels tot (Inl WireError)"
  by (simp add: loop_outcome_def)

lemma loop_outcome_Inr:
  "rbuf r' = rbuf r \<Longrightarrow> reader_ok r' \<Longrightarrow>
     (list_all wf_label labels \<and> tot = wire_len labels \<and> tot \<le> MAX_NAME \<Longrightarrow> wf_name ls) \<Longrightarrow>
     loop_outcome r labels tot (Inr (ls, r'))"
  by (simp add: loop_outcome_def)

lemma wire_len_snoc: "wire_len (xs @ [la]) = wire_len xs + (int (length la) + 1)"
  by (induction xs) simp_all

lemma read_len: "r_read n r = Inr (bs, r') \<Longrightarrow> reader_ok r \<Longrightarrow> int (length bs) = n \<and> 0 \<le> n"
  by (auto simp: r_read_def rlen_def reader_ok_def split: if_splits)

lemma u8_range: "r_u8 r = Inr (n, r') \<Longrightarrow> 0 \<le> n \<and> n < 256"
  by (auto simp: r_u8_def uint_byte_range split: if_splits)

lemma seek_Inr: "seek p r = Inr r' \<Longrightarrow> rbuf r' = rbuf r \<and> reader_ok r' \<and> rpos r' = p"
  by (auto simp: seek_def reader_ok_def rlen_def split: if_splits)

lemma seek_Inl: "seek p r = Inl e \<Longrightarrow> e = WireError"
  by (auto simp: seek_def split: if_splits)

lemma loop_outcome_step:
  assumes "rbuf r2 = rbuf r" and "loop_outcome r2 labels' tot' res"
    and "list_all wf_label labels \<and> tot = wire_len labels \<and> tot \<le> MAX_NAME \<Longrightarrow>
      list_all wf_label labels' \<and> tot' = wire_len labels' \<and> tot' \<le> MAX_NAME"
  shows "loop_outcome r labels tot res"
  using assms unfolding loop_outcome_def by metis

definition resume_ok :: "bytes \<Rightarrow> int option \<Rightarrow> bool" where
  "resume_ok b resume \<longleftrightarrow> (\<forall>q. resume = Some q \<longrightarrow> 0 \<le> q \<and> q \<le> int (length b))"

lemma read_name_loop_safe:
  assumes "reader_ok r" and "resume_ok (rbuf r) resume"
  shows "loop_outcome r labels tot (read_name_loop r labels hops tot resume)"
  using assms
proof (induction r labels hops tot resume rule: read_name_loop.induct)
  case (1 r labels hops tot resume)
  note IHl = "1"(1) and IHp = "1"(2) and ok = "1"(3) and res = "1"(4)
  show ?case
  proof (cases "r_u8 r")
    case (Inl a)
    with safe_parser_Inl [OF safe_r_u8 ok] show ?thesis by (simp add: read_name_loop_other)
  next
    case (Inr a)
    then obtain len r1 where u: "r_u8 r = Inr (len, r1)" by (cases a) simp
    have r1: "rbuf r1 = rbuf r" "reader_ok r1"
      using safe_parser_Inr [OF safe_r_u8 ok u] by simp_all
    consider "len = 0" | "len \<noteq> 0" "len AND 0xC0 = 0" | "len \<noteq> 0" "len AND 0xC0 = 0xC0"
      | "len \<noteq> 0" "len AND 0xC0 \<noteq> 0" "len AND 0xC0 \<noteq> 0xC0" by blast
    then show ?thesis
    proof cases
      case 1
      then show ?thesis using u r1 res
        by (auto simp: read_name_loop_stop wf_name_def seek_def rlen_def reader_ok_def resume_ok_def
            intro!: loop_outcome_Inr split: option.splits)
    next
      case 2
      show ?thesis
      proof (cases "r_read len r1")
        case (Inl e)
        with 2 u safe_parser_Inl [OF safe_r_read r1(2) Inl] show ?thesis
          by (simp add: read_name_loop_label)
      next
        case (Inr a)
        then obtain la r2 where l: "r_read len r1 = Inr (la, r2)" by (cases a) simp
        note r2 = safe_parser_Inr [OF safe_r_read r1(2) l]
        have len: "int (length la) = len" using read_len [OF l r1(2)] by simp
        have la: "wf_label la" using len u8_range [OF u] 2 label_kind(1) [of len]
          by (auto simp: wf_label_def MAX_LABEL_def)
        show ?thesis
        proof (cases "tot + (len + 1) > MAX_NAME")
          case True
          with 2 u l show ?thesis by (simp add: read_name_loop_label)
        next
          case False
          have "loop_outcome r2 (labels @ [la]) (tot + (len + 1))
              (read_name_loop r2 (labels @ [la]) hops (tot + (len + 1)) resume)"
            using IHl [OF u refl refl _ _ l refl refl] 2 False r1 r2 res by simp
          then have "loop_outcome r labels tot
              (read_name_loop r2 (labels @ [la]) hops (tot + (len + 1)) resume)"
            by (rule loop_outcome_step [rotated]) (use r1 r2 la len False in \<open>simp_all add: wire_len_snoc\<close>)
          with False 2 u l show ?thesis by (simp add: read_name_loop_label)
        qed
      qed
    next
      case 3
      show ?thesis
      proof (cases "r_u8 r1")
        case (Inl e)
        with 3 u safe_parser_Inl [OF safe_r_u8 r1(2) Inl] show ?thesis
          by (simp add: read_name_loop_pointer)
      next
        case (Inr a)
        then obtain lo r2 where l: "r_u8 r1 = Inr (lo, r2)" by (cases a) simp
        note r2 = safe_parser_Inr [OF safe_r_u8 r1(2) l]
        let ?ptr = "push_bit 8 (len AND 0x3F) OR lo"
        let ?res = "case resume of None \<Rightarrow> Some (tell r2) | Some p \<Rightarrow> Some p"
        have res': "resume_ok (rbuf r) ?res"
          using res r1 r2 by (auto simp: resume_ok_def tell_def reader_ok_def rlen_def
              split: option.splits)
        consider "hops + 1 > MAX_POINTER_HOPS \<or> ?ptr \<ge> tell r2 - 2" | e where "seek ?ptr r2 = Inl e"
          | r3 where "\<not> hops + 1 > MAX_POINTER_HOPS" "\<not> ?ptr \<ge> tell r2 - 2" "seek ?ptr r2 = Inr r3"
          by (cases "seek ?ptr r2") auto
        then show ?thesis
        proof cases
          case 1
          with 3 u l show ?thesis
            by (auto simp: read_name_loop_pointer simp del: push_bit_and)
        next
          case 2
          with 3 u l seek_Inl [OF 2] show ?thesis
            by (simp add: read_name_loop_pointer del: push_bit_and)
        next
          case r3: 3
          note sk = seek_Inr [OF r3(3)]
          have "loop_outcome r3 labels tot (read_name_loop r3 labels (hops + 1) tot ?res)"
            using IHp [OF u refl refl _ _ _ refl _ l refl refl refl _ r3(3)] 3 r3 sk r1 r2 res'
            by (simp del: push_bit_and)
          then have "loop_outcome r labels tot (read_name_loop r3 labels (hops + 1) tot ?res)"
            by (rule loop_outcome_step [rotated]) (use r1 r2 sk in simp_all)
          with r3 3 u l show ?thesis by (simp add: read_name_loop_pointer del: push_bit_and)
        qed
      qed
    next
      case 4
      with u show ?thesis by (simp add: read_name_loop_other)
    qed
  qed
qed

lemma read_name_outcome: "reader_ok r \<Longrightarrow> loop_outcome r [] 1 (read_name r)"
  unfolding read_name_def by (rule read_name_loop_safe) (simp_all add: resume_ok_def)

lemma safe_read_name [safe_parsers]: "safe_parser read_name"
  using read_name_outcome unfolding safe_parser_def loop_outcome_def by blast

lemma read_name_wf:
  assumes "read_name r = Inr (nm, r')" and "reader_ok r"
  shows "wf_name nm"
proof -
  have "list_all wf_label [] \<and> 1 = wire_len [] \<and> 1 \<le> MAX_NAME" by (simp add: MAX_NAME_def)
  with read_name_outcome [OF assms(2)] assms(1) show ?thesis
    unfolding loop_outcome_def by blast
qed

end
