(* ===== verification/Wire_Rdata.thy ===== *)
theory Wire_Rdata
  imports Wire_Name_Codec
begin

section \<open>RDATA codecs\<close>

text \<open>
  Models \<^verbatim>\<open>trench/wire/rdata.py\<close>: one constructor per record class, one parser and
  one emitter per class, the registry and the fallback of \<^verbatim>\<open>parse_rdata\<close>.
  The \<^verbatim>\<open>address\<close> of A and AAAA is the text \<^verbatim>\<open>inet_ntop\<close> makes of the
  octets; the model holds those octets, and emitting a value that is not an address of the
  family is the \<^const>\<open>OSError\<close> of \<^verbatim>\<open>inet_pton\<close>. Presentation text
  (\<^verbatim>\<open>to_text\<close>) is not modelled here.
\<close>

datatype rdata =
    Rd_A bytes
  | Rd_AAAA bytes
  | Rd_NS name
  | Rd_CNAME name
  | Rd_PTR name
  | Rd_DNAME name
  | Rd_SOA (soa_mname: name) (soa_rname: name) (soa_serial: int) (soa_refresh: int)
      (soa_retry: int) (soa_expire: int) (soa_minimum: int)
  | Rd_MX int name
  | Rd_SRV int int int name
  | Rd_TXT "bytes list"
  | Rd_SPF "bytes list"
  | Rd_HINFO bytes bytes
  | Rd_CAA int bytes bytes
  | Rd_SSHFP int int bytes
  | Rd_TLSA int int int bytes
  | Rd_DS int int int bytes
  | Rd_CDS int int int bytes
  | Rd_DNSKEY int int int bytes
  | Rd_CDNSKEY int int int bytes
  | Rd_RRSIG int int int int int int int name bytes
  | Rd_NSEC name bytes
  | Rd_NSEC3PARAM int int int bytes
  | Rd_NSEC3 int int int bytes bytes bytes
  | Rd_NAPTR int int bytes bytes bytes name
  | Rd_URI int int bytes
  | Rd_SVCB int name bytes
  | Rd_HTTPS int name bytes
  | Rd_TSIG name int int bytes int int bytes
  | Rd_Unknown int bytes

subsection \<open>Parsers and emitters, class by class\<close>

definition pfail :: "error \<Rightarrow> 'a parser" where
  "pfail e r = Inl e"

lemma safe_pfail [safe_parsers]: "safe_parser (pfail WireError)"
  by (rule safe_parserI) (auto simp: pfail_def)

text \<open>\<^verbatim>\<open>r.read(r.u8())\<close> and \<^verbatim>\<open>w.u8(len(s)); w.raw(s)\<close>.\<close>

definition read_string :: "bytes parser" where
  "read_string = pbind r_u8 r_read"

definition w_string :: "bytes \<Rightarrow> writer \<Rightarrow> writer" where
  "w_string s w = w_raw s (w_u8 (int (length s)) w)"

definition parse_A :: "int \<Rightarrow> rdata parser" where
  "parse_A rdlen = (if rdlen \<noteq> 4 then pfail WireError
     else pbind (r_read 4) (\<lambda>b. pret (Rd_A b)))"

definition emit_A :: "bytes \<Rightarrow> writer \<Rightarrow> writer result" where
  "emit_A address w = (if length address = 4 then Inr (w_raw address w) else Inl OSError)"

definition parse_AAAA :: "int \<Rightarrow> rdata parser" where
  "parse_AAAA rdlen = (if rdlen \<noteq> 16 then pfail WireError
     else pbind (r_read 16) (\<lambda>b. pret (Rd_AAAA b)))"

definition emit_AAAA :: "bytes \<Rightarrow> writer \<Rightarrow> writer result" where
  "emit_AAAA address w = (if length address = 16 then Inr (w_raw address w) else Inl OSError)"

definition parse_NameRdata :: "(name \<Rightarrow> rdata) \<Rightarrow> int \<Rightarrow> rdata parser" where
  "parse_NameRdata cls rdlen = pbind read_name (\<lambda>n. pret (cls n))"

definition emit_NameRdata :: "name \<Rightarrow> writer \<Rightarrow> writer" where
  "emit_NameRdata nm w = write_name nm False w"

definition parse_SOA :: "int \<Rightarrow> rdata parser" where
  "parse_SOA rdlen =
     pbind read_name (\<lambda>mname. pbind read_name (\<lambda>rname.
     pbind r_u32 (\<lambda>serial. pbind r_u32 (\<lambda>refresh. pbind r_u32 (\<lambda>retry.
     pbind r_u32 (\<lambda>expire. pbind r_u32 (\<lambda>minimum.
     pret (Rd_SOA mname rname serial refresh retry expire minimum))))))))"

definition emit_SOA :: "name \<Rightarrow> name \<Rightarrow> int \<Rightarrow> int \<Rightarrow> int \<Rightarrow> int \<Rightarrow> int \<Rightarrow> writer \<Rightarrow> writer" where
  "emit_SOA mname rname serial refresh retry expire minimum w =
     fold w_u32 [serial, refresh, retry, expire, minimum]
       (write_name rname False (write_name mname False w))"

definition parse_MX :: "int \<Rightarrow> rdata parser" where
  "parse_MX rdlen = pbind r_u16 (\<lambda>p. pbind read_name (\<lambda>n. pret (Rd_MX p n)))"

definition emit_MX :: "int \<Rightarrow> name \<Rightarrow> writer \<Rightarrow> writer" where
  "emit_MX preference exchange w = write_name exchange False (w_u16 preference w)"

definition parse_SRV :: "int \<Rightarrow> rdata parser" where
  "parse_SRV rdlen =
     pbind r_u16 (\<lambda>priority. pbind r_u16 (\<lambda>weight. pbind r_u16 (\<lambda>port.
     pbind read_name (\<lambda>target. pret (Rd_SRV priority weight port target)))))"

definition emit_SRV :: "int \<Rightarrow> int \<Rightarrow> int \<Rightarrow> name \<Rightarrow> writer \<Rightarrow> writer" where
  "emit_SRV priority weight port target w =
     write_name target False (w_u16 port (w_u16 weight (w_u16 priority w)))"

function parse_TXT_loop :: "int \<Rightarrow> bytes list \<Rightarrow> bytes list parser" where
  "parse_TXT_loop stop out r =
     (if tell r < stop then
        (case r_u8 r of Inl e \<Rightarrow> Inl e | Inr (ln, r1) \<Rightarrow>
          (case r_read ln r1 of Inl e \<Rightarrow> Inl e | Inr (s, r2) \<Rightarrow>
             parse_TXT_loop stop (out @ [s]) r2))
      else Inr (out, r))"
  by pat_completeness auto
termination
  by (relation "measure (\<lambda>(stop, out, r). nat (stop - rpos r))")
    (auto simp: r_u8_def r_read_def tell_def add_pos_nonneg split: if_splits)

declare parse_TXT_loop.simps [simp del]

definition parse_TXT :: "(bytes list \<Rightarrow> rdata) \<Rightarrow> int \<Rightarrow> rdata parser" where
  "parse_TXT cls rdlen =
     pbind ptell (\<lambda>t. pbind (parse_TXT_loop (t + rdlen) []) (\<lambda>out. pret (cls out)))"

definition emit_TXT :: "bytes list \<Rightarrow> writer \<Rightarrow> writer result" where
  "emit_TXT strings w =
     rfold (\<lambda>s w. if length s > 255 then Inl WireError else Inr (w_string s w)) strings w"

definition parse_HINFO :: "int \<Rightarrow> rdata parser" where
  "parse_HINFO rdlen =
     pbind read_string (\<lambda>cpu. pbind read_string (\<lambda>os. pret (Rd_HINFO cpu os)))"

definition emit_HINFO :: "bytes \<Rightarrow> bytes \<Rightarrow> writer \<Rightarrow> writer" where
  "emit_HINFO cpu os w = w_string os (w_string cpu w)"

definition parse_CAA :: "int \<Rightarrow> rdata parser" where
  "parse_CAA rdlen =
     pbind ptell (\<lambda>t. pbind r_u8 (\<lambda>flags. pbind read_string (\<lambda>tag.
     pbind ptell (\<lambda>t'. pbind (r_read (t + rdlen - t')) (\<lambda>val.
     pret (Rd_CAA flags tag val))))))"

definition emit_CAA :: "int \<Rightarrow> bytes \<Rightarrow> bytes \<Rightarrow> writer \<Rightarrow> writer" where
  "emit_CAA flags tag val w = w_raw val (w_string tag (w_u8 flags w))"

definition parse_SSHFP :: "int \<Rightarrow> rdata parser" where
  "parse_SSHFP rdlen =
     pbind r_u8 (\<lambda>a. pbind r_u8 (\<lambda>t. pbind (r_read (rdlen - 2)) (\<lambda>fp. pret (Rd_SSHFP a t fp))))"

definition emit_SSHFP :: "int \<Rightarrow> int \<Rightarrow> bytes \<Rightarrow> writer \<Rightarrow> writer" where
  "emit_SSHFP algorithm fp_type fingerprint w =
     w_raw fingerprint (w_u8 fp_type (w_u8 algorithm w))"

definition parse_TLSA :: "int \<Rightarrow> rdata parser" where
  "parse_TLSA rdlen =
     pbind r_u8 (\<lambda>u. pbind r_u8 (\<lambda>s. pbind r_u8 (\<lambda>m.
     pbind (r_read (rdlen - 3)) (\<lambda>c. pret (Rd_TLSA u s m c)))))"

definition emit_TLSA :: "int \<Rightarrow> int \<Rightarrow> int \<Rightarrow> bytes \<Rightarrow> writer \<Rightarrow> writer" where
  "emit_TLSA usage selector mtype cert w =
     w_raw cert (w_u8 mtype (w_u8 selector (w_u8 usage w)))"

definition parse_DS :: "(int \<Rightarrow> int \<Rightarrow> int \<Rightarrow> bytes \<Rightarrow> rdata) \<Rightarrow> int \<Rightarrow> rdata parser" where
  "parse_DS cls rdlen =
     pbind r_u16 (\<lambda>t. pbind r_u8 (\<lambda>a. pbind r_u8 (\<lambda>d.
     pbind (r_read (rdlen - 4)) (\<lambda>g. pret (cls t a d g)))))"

definition emit_DS :: "int \<Rightarrow> int \<Rightarrow> int \<Rightarrow> bytes \<Rightarrow> writer \<Rightarrow> writer" where
  "emit_DS key_tag algorithm digest_type digest w =
     w_raw digest (w_u8 digest_type (w_u8 algorithm (w_u16 key_tag w)))"

definition parse_DNSKEY :: "(int \<Rightarrow> int \<Rightarrow> int \<Rightarrow> bytes \<Rightarrow> rdata) \<Rightarrow> int \<Rightarrow> rdata parser" where
  "parse_DNSKEY cls rdlen =
     pbind r_u16 (\<lambda>f. pbind r_u8 (\<lambda>p. pbind r_u8 (\<lambda>a.
     pbind (r_read (rdlen - 4)) (\<lambda>k. pret (cls f p a k)))))"

definition emit_DNSKEY :: "int \<Rightarrow> int \<Rightarrow> int \<Rightarrow> bytes \<Rightarrow> writer \<Rightarrow> writer" where
  "emit_DNSKEY flags protocol algorithm public_key w =
     w_raw public_key (w_u8 algorithm (w_u8 protocol (w_u16 flags w)))"

definition parse_RRSIG :: "int \<Rightarrow> rdata parser" where
  "parse_RRSIG rdlen =
     pbind ptell (\<lambda>t.
     pbind r_u16 (\<lambda>tc. pbind r_u8 (\<lambda>algo. pbind r_u8 (\<lambda>labels.
     pbind r_u32 (\<lambda>ottl. pbind r_u32 (\<lambda>exp. pbind r_u32 (\<lambda>inc. pbind r_u16 (\<lambda>tag.
     pbind read_name (\<lambda>signer.
     pbind ptell (\<lambda>t'. pbind (r_read (t + rdlen - t')) (\<lambda>sig.
     pret (Rd_RRSIG tc algo labels ottl exp inc tag signer sig))))))))))))"

definition emit_RRSIG ::
  "int \<Rightarrow> int \<Rightarrow> int \<Rightarrow> int \<Rightarrow> int \<Rightarrow> int \<Rightarrow> int \<Rightarrow> name \<Rightarrow> bytes \<Rightarrow> writer \<Rightarrow> writer" where
  "emit_RRSIG tc algo labels ottl exp inc tag signer sig w =
     w_raw sig (write_name signer False
       (w_u16 tag (w_u32 inc (w_u32 exp (w_u32 ottl (w_u8 labels (w_u8 algo (w_u16 tc w))))))))"

definition parse_NSEC :: "int \<Rightarrow> rdata parser" where
  "parse_NSEC rdlen =
     pbind ptell (\<lambda>t. pbind read_name (\<lambda>nxt.
     pbind ptell (\<lambda>t'. pbind (r_read (t + rdlen - t')) (\<lambda>bm. pret (Rd_NSEC nxt bm)))))"

definition emit_NSEC :: "name \<Rightarrow> bytes \<Rightarrow> writer \<Rightarrow> writer" where
  "emit_NSEC next_name type_bitmap w = w_raw type_bitmap (write_name next_name False w)"

definition parse_NSEC3PARAM :: "int \<Rightarrow> rdata parser" where
  "parse_NSEC3PARAM rdlen =
     pbind r_u8 (\<lambda>ha. pbind r_u8 (\<lambda>fl. pbind r_u16 (\<lambda>it. pbind read_string (\<lambda>salt.
     pret (Rd_NSEC3PARAM ha fl it salt)))))"

definition emit_NSEC3PARAM :: "int \<Rightarrow> int \<Rightarrow> int \<Rightarrow> bytes \<Rightarrow> writer \<Rightarrow> writer" where
  "emit_NSEC3PARAM ha fl it salt w = w_string salt (w_u16 it (w_u8 fl (w_u8 ha w)))"

definition parse_NSEC3 :: "int \<Rightarrow> rdata parser" where
  "parse_NSEC3 rdlen =
     pbind ptell (\<lambda>t. pbind r_u8 (\<lambda>ha. pbind r_u8 (\<lambda>fl. pbind r_u16 (\<lambda>it.
     pbind read_string (\<lambda>salt. pbind read_string (\<lambda>nh.
     pbind ptell (\<lambda>t'. pbind (r_read (t + rdlen - t')) (\<lambda>bm.
     pret (Rd_NSEC3 ha fl it salt nh bm)))))))))"

definition emit_NSEC3 :: "int \<Rightarrow> int \<Rightarrow> int \<Rightarrow> bytes \<Rightarrow> bytes \<Rightarrow> bytes \<Rightarrow> writer \<Rightarrow> writer" where
  "emit_NSEC3 ha fl it salt nh bm w =
     w_raw bm (w_string nh (w_string salt (w_u16 it (w_u8 fl (w_u8 ha w)))))"

definition parse_NAPTR :: "int \<Rightarrow> rdata parser" where
  "parse_NAPTR rdlen =
     pbind r_u16 (\<lambda>order. pbind r_u16 (\<lambda>pref. pbind read_string (\<lambda>flags.
     pbind read_string (\<lambda>service. pbind read_string (\<lambda>regexp. pbind read_name (\<lambda>n.
     pret (Rd_NAPTR order pref flags service regexp n)))))))"

definition emit_NAPTR :: "int \<Rightarrow> int \<Rightarrow> bytes \<Rightarrow> bytes \<Rightarrow> bytes \<Rightarrow> name \<Rightarrow> writer \<Rightarrow> writer" where
  "emit_NAPTR order pref flags service regexp n w =
     write_name n False (fold w_string [flags, service, regexp] (w_u16 pref (w_u16 order w)))"

definition parse_URI :: "int \<Rightarrow> rdata parser" where
  "parse_URI rdlen =
     pbind r_u16 (\<lambda>p. pbind r_u16 (\<lambda>wt. pbind (r_read (rdlen - 4)) (\<lambda>t. pret (Rd_URI p wt t))))"

definition emit_URI :: "int \<Rightarrow> int \<Rightarrow> bytes \<Rightarrow> writer \<Rightarrow> writer" where
  "emit_URI priority weight target w = w_raw target (w_u16 weight (w_u16 priority w))"

definition parse_SVCB :: "(int \<Rightarrow> name \<Rightarrow> bytes \<Rightarrow> rdata) \<Rightarrow> int \<Rightarrow> rdata parser" where
  "parse_SVCB cls rdlen =
     pbind ptell (\<lambda>t. pbind r_u16 (\<lambda>prio. pbind read_name (\<lambda>target.
     pbind ptell (\<lambda>t'. pbind (r_read (t + rdlen - t')) (\<lambda>ps. pret (cls prio target ps))))))"

definition emit_SVCB :: "int \<Rightarrow> name \<Rightarrow> bytes \<Rightarrow> writer \<Rightarrow> writer" where
  "emit_SVCB priority target params w =
     w_raw params (write_name target False (w_u16 priority w))"

definition parse_TSIG :: "int \<Rightarrow> rdata parser" where
  "parse_TSIG rdlen =
     pbind read_name (\<lambda>algo. pbind r_u16 (\<lambda>hi. pbind r_u32 (\<lambda>lo. pbind r_u16 (\<lambda>fudge.
     pbind r_u16 (\<lambda>mlen. pbind (r_read mlen) (\<lambda>mac. pbind r_u16 (\<lambda>oid. pbind r_u16 (\<lambda>err.
     pbind r_u16 (\<lambda>olen. pbind (r_read olen) (\<lambda>other.
     pret (Rd_TSIG algo (push_bit 32 hi OR lo) fudge mac oid err other)))))))))))"

definition emit_TSIG ::
  "name \<Rightarrow> int \<Rightarrow> int \<Rightarrow> bytes \<Rightarrow> int \<Rightarrow> int \<Rightarrow> bytes \<Rightarrow> writer \<Rightarrow> writer" where
  "emit_TSIG algo ts fudge mac oid err other w =
     w_raw other (w_u16 (int (length other)) (w_u16 err (w_u16 oid
       (w_raw mac (w_u16 (int (length mac)) (w_u16 fudge
         (w_u32 (ts AND 0xFFFFFFFF) (w_u16 (drop_bit 32 ts AND 0xFFFF)
           (write_name algo False w)))))))))"

definition emit_Unknown :: "bytes \<Rightarrow> writer \<Rightarrow> writer" where
  "emit_Unknown d w = w_raw d w"

subsection \<open>The registry, \<^verbatim>\<open>parse_rdata\<close> and \<^verbatim>\<open>emit\<close>\<close>

definition registry :: "(int \<times> (int \<Rightarrow> rdata parser)) list" where
  "registry =
    [(1, parse_A), (28, parse_AAAA), (2, parse_NameRdata Rd_NS), (5, parse_NameRdata Rd_CNAME),
     (12, parse_NameRdata Rd_PTR), (39, parse_NameRdata Rd_DNAME), (6, parse_SOA),
     (15, parse_MX), (33, parse_SRV), (16, parse_TXT Rd_TXT), (99, parse_TXT Rd_SPF),
     (13, parse_HINFO), (257, parse_CAA), (44, parse_SSHFP), (52, parse_TLSA),
     (43, parse_DS Rd_DS), (59, parse_DS Rd_CDS), (48, parse_DNSKEY Rd_DNSKEY),
     (60, parse_DNSKEY Rd_CDNSKEY), (46, parse_RRSIG), (47, parse_NSEC), (50, parse_NSEC3),
     (51, parse_NSEC3PARAM), (35, parse_NAPTR), (256, parse_URI), (64, parse_SVCB Rd_SVCB),
     (65, parse_SVCB Rd_HTTPS), (250, parse_TSIG)]"

text \<open>The names of \<^verbatim>\<open>_NAME_BEARING\<close> that \<^verbatim>\<open>Type\<close> has; \<^verbatim>\<open>KX\<close> is not one.\<close>

definition name_bearing :: "int list" where
  "name_bearing = [2, 5, 6, 12, 15, 33, 35, 39, 46, 47, 64, 65, 17]"

definition parse_rdata :: "int \<Rightarrow> int \<Rightarrow> rdata parser" where
  "parse_rdata rtype rdlen r =
     (case map_of registry rtype of
        None \<Rightarrow> pbind (r_read rdlen) (\<lambda>d. pret (Rd_Unknown rtype d)) r
      | Some codec \<Rightarrow>
          (let start = tell r in
           case codec rdlen r of
             Inl e \<Rightarrow>
               if rtype \<in> set name_bearing then Inl WireError
               else pbind (pseek start) (\<lambda>_. pbind (r_read rdlen) (\<lambda>d. pret (Rd_Unknown rtype d))) r
           | Inr (rd, r1) \<Rightarrow>
               if tell r1 - start \<noteq> rdlen then Inl WireError else Inr (rd, r1)))"

fun emit :: "rdata \<Rightarrow> writer \<Rightarrow> writer result" where
  "emit (Rd_A a) w = emit_A a w"
| "emit (Rd_AAAA a) w = emit_AAAA a w"
| "emit (Rd_NS n) w = Inr (emit_NameRdata n w)"
| "emit (Rd_CNAME n) w = Inr (emit_NameRdata n w)"
| "emit (Rd_PTR n) w = Inr (emit_NameRdata n w)"
| "emit (Rd_DNAME n) w = Inr (emit_NameRdata n w)"
| "emit (Rd_SOA m r s f y e n) w = Inr (emit_SOA m r s f y e n w)"
| "emit (Rd_MX p n) w = Inr (emit_MX p n w)"
| "emit (Rd_SRV p g q n) w = Inr (emit_SRV p g q n w)"
| "emit (Rd_TXT ss) w = emit_TXT ss w"
| "emit (Rd_SPF ss) w = emit_TXT ss w"
| "emit (Rd_HINFO c s) w = Inr (emit_HINFO c s w)"
| "emit (Rd_CAA f t v) w = Inr (emit_CAA f t v w)"
| "emit (Rd_SSHFP a t f) w = Inr (emit_SSHFP a t f w)"
| "emit (Rd_TLSA u s m c) w = Inr (emit_TLSA u s m c w)"
| "emit (Rd_DS t a d g) w = Inr (emit_DS t a d g w)"
| "emit (Rd_CDS t a d g) w = Inr (emit_DS t a d g w)"
| "emit (Rd_DNSKEY f p a k) w = Inr (emit_DNSKEY f p a k w)"
| "emit (Rd_CDNSKEY f p a k) w = Inr (emit_DNSKEY f p a k w)"
| "emit (Rd_RRSIG tc a l ot e i t s g) w = Inr (emit_RRSIG tc a l ot e i t s g w)"
| "emit (Rd_NSEC n b) w = Inr (emit_NSEC n b w)"
| "emit (Rd_NSEC3PARAM h f i s) w = Inr (emit_NSEC3PARAM h f i s w)"
| "emit (Rd_NSEC3 h f i s n b) w = Inr (emit_NSEC3 h f i s n b w)"
| "emit (Rd_NAPTR q p f s r n) w = Inr (emit_NAPTR q p f s r n w)"
| "emit (Rd_URI p g t) w = Inr (emit_URI p g t w)"
| "emit (Rd_SVCB p t ps) w = Inr (emit_SVCB p t ps w)"
| "emit (Rd_HTTPS p t ps) w = Inr (emit_SVCB p t ps w)"
| "emit (Rd_TSIG a t f m i e x) w = Inr (emit_TSIG a t f m i e x w)"
| "emit (Rd_Unknown t d) w = Inr (emit_Unknown d w)"

fun rdata_type :: "rdata \<Rightarrow> int" where
  "rdata_type (Rd_A _) = 1"
| "rdata_type (Rd_AAAA _) = 28"
| "rdata_type (Rd_NS _) = 2"
| "rdata_type (Rd_CNAME _) = 5"
| "rdata_type (Rd_PTR _) = 12"
| "rdata_type (Rd_DNAME _) = 39"
| "rdata_type (Rd_SOA _ _ _ _ _ _ _) = 6"
| "rdata_type (Rd_MX _ _) = 15"
| "rdata_type (Rd_SRV _ _ _ _) = 33"
| "rdata_type (Rd_TXT _) = 16"
| "rdata_type (Rd_SPF _) = 99"
| "rdata_type (Rd_HINFO _ _) = 13"
| "rdata_type (Rd_CAA _ _ _) = 257"
| "rdata_type (Rd_SSHFP _ _ _) = 44"
| "rdata_type (Rd_TLSA _ _ _ _) = 52"
| "rdata_type (Rd_DS _ _ _ _) = 43"
| "rdata_type (Rd_CDS _ _ _ _) = 59"
| "rdata_type (Rd_DNSKEY _ _ _ _) = 48"
| "rdata_type (Rd_CDNSKEY _ _ _ _) = 60"
| "rdata_type (Rd_RRSIG _ _ _ _ _ _ _ _ _) = 46"
| "rdata_type (Rd_NSEC _ _) = 47"
| "rdata_type (Rd_NSEC3PARAM _ _ _ _) = 51"
| "rdata_type (Rd_NSEC3 _ _ _ _ _ _) = 50"
| "rdata_type (Rd_NAPTR _ _ _ _ _ _) = 35"
| "rdata_type (Rd_URI _ _ _) = 256"
| "rdata_type (Rd_SVCB _ _ _) = 64"
| "rdata_type (Rd_HTTPS _ _ _) = 65"
| "rdata_type (Rd_TSIG _ _ _ _ _ _ _) = 250"
| "rdata_type (Rd_Unknown t _) = t"

end
