(* ===== verification/Wire_Rdata_Props.thy ===== *)
theory Wire_Rdata_Props
  imports Wire_Rdata
begin

section \<open>The RDATA codecs round-trip\<close>

text \<open>
  What makes a record's data encodable (\<open>wf_rdata\<close>: fields inside their widths, valid
  names), that parsing yields only such data and consumes exactly the declared length, and
  that emitting then parsing gives the data back wherever it lands in a message.
\<close>

definition u8_ok :: "int \<Rightarrow> bool" where "u8_ok v \<longleftrightarrow> 0 \<le> v \<and> v < 256"
definition u16_ok :: "int \<Rightarrow> bool" where "u16_ok v \<longleftrightarrow> 0 \<le> v \<and> v < 65536"
definition u32_ok :: "int \<Rightarrow> bool" where "u32_ok v \<longleftrightarrow> 0 \<le> v \<and> v < 4294967296"
definition string_ok :: "bytes \<Rightarrow> bool" where "string_ok s \<longleftrightarrow> length s < 256"

fun wf_rdata :: "rdata \<Rightarrow> bool" where
  "wf_rdata (Rd_A a) = (length a = 4)"
| "wf_rdata (Rd_AAAA a) = (length a = 16)"
| "wf_rdata (Rd_NS n) = wf_name n"
| "wf_rdata (Rd_CNAME n) = wf_name n"
| "wf_rdata (Rd_PTR n) = wf_name n"
| "wf_rdata (Rd_DNAME n) = wf_name n"
| "wf_rdata (Rd_SOA m r s f y e n) = (wf_name m \<and> wf_name r \<and> u32_ok s \<and> u32_ok f \<and> u32_ok y
     \<and> u32_ok e \<and> u32_ok n)"
| "wf_rdata (Rd_MX p n) = (u16_ok p \<and> wf_name n)"
| "wf_rdata (Rd_SRV p g q n) = (u16_ok p \<and> u16_ok g \<and> u16_ok q \<and> wf_name n)"
| "wf_rdata (Rd_TXT ss) = list_all string_ok ss"
| "wf_rdata (Rd_SPF ss) = list_all string_ok ss"
| "wf_rdata (Rd_HINFO c s) = (string_ok c \<and> string_ok s)"
| "wf_rdata (Rd_CAA f t v) = (u8_ok f \<and> string_ok t)"
| "wf_rdata (Rd_SSHFP a t f) = (u8_ok a \<and> u8_ok t)"
| "wf_rdata (Rd_TLSA u s m c) = (u8_ok u \<and> u8_ok s \<and> u8_ok m)"
| "wf_rdata (Rd_DS t a d g) = (u16_ok t \<and> u8_ok a \<and> u8_ok d)"
| "wf_rdata (Rd_CDS t a d g) = (u16_ok t \<and> u8_ok a \<and> u8_ok d)"
| "wf_rdata (Rd_DNSKEY f p a k) = (u16_ok f \<and> u8_ok p \<and> u8_ok a)"
| "wf_rdata (Rd_CDNSKEY f p a k) = (u16_ok f \<and> u8_ok p \<and> u8_ok a)"
| "wf_rdata (Rd_RRSIG tc a l ot e i t s g) = (u16_ok tc \<and> u8_ok a \<and> u8_ok l \<and> u32_ok ot
     \<and> u32_ok e \<and> u32_ok i \<and> u16_ok t \<and> wf_name s)"
| "wf_rdata (Rd_NSEC n b) = wf_name n"
| "wf_rdata (Rd_NSEC3PARAM h f i s) = (u8_ok h \<and> u8_ok f \<and> u16_ok i \<and> string_ok s)"
| "wf_rdata (Rd_NSEC3 h f i s n b) = (u8_ok h \<and> u8_ok f \<and> u16_ok i \<and> string_ok s \<and> string_ok n)"
| "wf_rdata (Rd_NAPTR q p f s r n) = (u16_ok q \<and> u16_ok p \<and> string_ok f \<and> string_ok s
     \<and> string_ok r \<and> wf_name n)"
| "wf_rdata (Rd_URI p g t) = (u16_ok p \<and> u16_ok g)"
| "wf_rdata (Rd_SVCB p t ps) = (u16_ok p \<and> wf_name t)"
| "wf_rdata (Rd_HTTPS p t ps) = (u16_ok p \<and> wf_name t)"
| "wf_rdata (Rd_TSIG a t f m i e x) = (wf_name a \<and> 0 \<le> t \<and> t < 2 ^ 48 \<and> u16_ok f
     \<and> u16_ok (int (length m)) \<and> u16_ok i \<and> u16_ok e \<and> u16_ok (int (length x)))"
| "wf_rdata (Rd_Unknown t d) = True"

subsection \<open>Steps of a parser on what a step of an emitter wrote\<close>

lemma write_name_plain [simp]:
  "wbuf (write_name nm False w) = wbuf w @ name_wire nm"
  "wnames (write_name nm False w) = wnames w"
  by (simp_all add: write_name_def write_labels_plain)

lemma w_string_simps [simp]:
  "wbuf (w_string s w) = wbuf w @ word_of_nat (length s) # s" "wnames (w_string s w) = wnames w"
  by (simp_all add: w_string_def)

lemma read_name_wire [wire_rt]:
  "wf_name nm \<Longrightarrow> read_name (reader_at pre (name_wire nm @ rest)) =
     Inr (nm, reader_at (pre @ name_wire nm) rest)"
  by (rule read_name_reader_at [OF name_at_name_wire]) (simp_all add: wf_name_def)

lemma u8_ok_octet [wire_rt]: "u8_ok v \<Longrightarrow> uint (word_of_int v :: byte) = v"
  by (simp add: uint_byte_of_int u8_ok_def)

lemma read_u16_wire [wire_rt]:
  "u16_ok v \<Longrightarrow> r_u16 (reader_at pre (pack_H v @ rest)) =
     Inr (v, reader_at (pre @ pack_H v) rest)"
  by (simp add: u16_at u16_ok_def)

lemma read_u32_wire [wire_rt]:
  "u32_ok v \<Longrightarrow> r_u32 (reader_at pre (pack_I v @ rest)) =
     Inr (v, reader_at (pre @ pack_I v) rest)"
  by (simp add: u32_at u32_ok_def)

lemma u_ok_mod [wire_rt]:
  "u16_ok v \<Longrightarrow> v mod 65536 = v" "u32_ok v \<Longrightarrow> v mod 4294967296 = v"
  by (simp_all add: u16_ok_def u32_ok_def)

lemma string_ok_octet: "string_ok s \<Longrightarrow> uint (word_of_nat (length s) :: byte) = int (length s)"
  by (simp add: string_ok_def unsigned_of_nat take_bit_nat_eq_self_iff)

lemma read_string_wire [wire_rt]:
  "string_ok s \<Longrightarrow> read_string (reader_at pre (word_of_nat (length s) # s @ rest)) =
     Inr (s, reader_at (pre @ word_of_nat (length s) # s) rest)"
  using read_at [of "int (length s)" s "pre @ [word_of_nat (length s)]" rest]
  by (simp add: read_string_def pbind_def u8_at string_ok_octet)

lemma parse_TXT_loop_wire:
  "list_all string_ok ss \<Longrightarrow>
   stop = int (length pre + length (concat (map (\<lambda>s. word_of_nat (length s) # s) ss))) \<Longrightarrow>
   parse_TXT_loop stop out
     (reader_at pre (concat (map (\<lambda>s. word_of_nat (length s) # s) ss) @ rest)) =
   Inr (out @ ss, reader_at (pre @ concat (map (\<lambda>s. word_of_nat (length s) # s) ss)) rest)"
proof (induction ss arbitrary: out pre)
  case Nil
  then show ?case by (subst parse_TXT_loop.simps) simp
next
  case (Cons s ss)
  let ?enc = "concat (map (\<lambda>s. word_of_nat (length s) # s) ss) :: bytes"
  have "parse_TXT_loop stop (out @ [s]) (reader_at (pre @ word_of_nat (length s) # s) (?enc @ rest))
      = Inr ((out @ [s]) @ ss, reader_at ((pre @ word_of_nat (length s) # s) @ ?enc) rest)"
    using Cons.prems by (intro Cons.IH) simp_all
  moreover have "r_read (int (length s)) (reader_at (pre @ [word_of_nat (length s)]) (s @ ?enc @ rest))
      = Inr (s, reader_at (pre @ word_of_nat (length s) # s) (?enc @ rest))"
    using read_at [of "int (length s)" s "pre @ [word_of_nat (length s)]"] by simp
  ultimately show ?case using Cons.prems
    by (subst parse_TXT_loop.simps) (simp add: u8_at string_ok_octet)
qed

lemma emit_TXT_wire:
  "list_all string_ok ss \<Longrightarrow>
     \<exists>w'. emit_TXT ss w = Inr w' \<and> wnames w' = wnames w \<and>
       wbuf w' = wbuf w @ concat (map (\<lambda>s. word_of_nat (length s) # s) ss)"
  unfolding emit_TXT_def
proof (induction ss arbitrary: w)
  case (Cons s ss)
  from Cons.IH [of "w_string s w"] Cons.prems show ?case by (auto simp: string_ok_def)
qed simp

lemma or_low_32:
  assumes "0 \<le> lo" "lo < (4294967296 :: int)"
  shows "push_bit 32 a OR lo = a * 4294967296 + lo"
proof -
  have "concat_bit 32 lo a = take_bit 32 lo + push_bit 32 a" by (rule concat_bit_eq)
  moreover have "take_bit 32 lo = lo" using assms by (simp add: take_bit_eq_mod)
  ultimately show ?thesis
    by (simp add: concat_bit_def or.commute push_bit_eq_mult)
qed

lemma time48 [wire_rt]:
  assumes "0 \<le> t" "t < 2 ^ 48"
  shows "u16_ok (drop_bit 32 t AND 0xFFFF)" "u32_ok (t AND 0xFFFFFFFF)"
    and "push_bit 32 (drop_bit 32 t AND 0xFFFF) OR (t AND 0xFFFFFFFF) = t"
proof -
  have d: "(t div 4294967296) mod 65536 = t div 4294967296" "0 \<le> t div 4294967296"
    using assms by simp_all
  then show "u16_ok (drop_bit 32 t AND 0xFFFF)" "u32_ok (t AND 0xFFFFFFFF)"
    by (simp_all add: u16_ok_def u32_ok_def and_FFFF and_FFFFFFFF)
  show "push_bit 32 (drop_bit 32 t AND 0xFFFF) OR (t AND 0xFFFFFFFF) = t"
    unfolding and_FFFF and_FFFFFFFF drop_bit_eq_div
    by (subst or_low_32) (simp_all add: d)
qed

subsection \<open>Emitting, then parsing\<close>

text \<open>The statement the classes share: emitting appends octets that parse back.\<close>

definition rdata_rt :: "rdata \<Rightarrow> (int \<Rightarrow> rdata parser) \<Rightarrow> bool" where
  "rdata_rt rd codec \<longleftrightarrow>
     (\<forall>w. \<exists>bs w'. emit rd w = Inr w' \<and> wbuf w' = wbuf w @ bs \<and> wnames w' = wnames w \<and>
        (\<forall>pre rest. codec (int (length bs)) (reader_at pre (bs @ rest)) =
           Inr (rd, reader_at (pre @ bs) rest)))"

lemmas parse_defs =
  parse_A_def parse_AAAA_def parse_NameRdata_def parse_SOA_def parse_MX_def parse_SRV_def
  parse_HINFO_def parse_CAA_def parse_SSHFP_def parse_TLSA_def parse_DS_def parse_DNSKEY_def
  parse_RRSIG_def parse_NSEC_def parse_NSEC3PARAM_def parse_NSEC3_def parse_NAPTR_def
  parse_URI_def parse_SVCB_def parse_TSIG_def

lemmas emit_defs =
  emit_A_def emit_AAAA_def emit_NameRdata_def emit_SOA_def emit_MX_def emit_SRV_def
  emit_HINFO_def emit_CAA_def emit_SSHFP_def emit_TLSA_def emit_DS_def emit_DNSKEY_def
  emit_RRSIG_def emit_NSEC_def emit_NSEC3PARAM_def emit_NSEC3_def emit_NAPTR_def
  emit_URI_def emit_SVCB_def emit_TSIG_def emit_Unknown_def

lemmas parse_steps = pbind_def ptell_def pret_def wire_rt

lemma rt_A: "wf_rdata (Rd_A a) \<Longrightarrow> rdata_rt (Rd_A a) parse_A"
  unfolding rdata_rt_def by (simp add: parse_defs emit_defs parse_steps)

lemma rt_AAAA: "wf_rdata (Rd_AAAA a) \<Longrightarrow> rdata_rt (Rd_AAAA a) parse_AAAA"
  unfolding rdata_rt_def by (simp add: parse_defs emit_defs parse_steps)

lemma rt_NS: "wf_rdata (Rd_NS n) \<Longrightarrow> rdata_rt (Rd_NS n) (parse_NameRdata Rd_NS)"
  unfolding rdata_rt_def by (simp add: parse_defs emit_defs parse_steps)

lemma rt_CNAME: "wf_rdata (Rd_CNAME n) \<Longrightarrow> rdata_rt (Rd_CNAME n) (parse_NameRdata Rd_CNAME)"
  unfolding rdata_rt_def by (simp add: parse_defs emit_defs parse_steps)

lemma rt_PTR: "wf_rdata (Rd_PTR n) \<Longrightarrow> rdata_rt (Rd_PTR n) (parse_NameRdata Rd_PTR)"
  unfolding rdata_rt_def by (simp add: parse_defs emit_defs parse_steps)

lemma rt_DNAME: "wf_rdata (Rd_DNAME n) \<Longrightarrow> rdata_rt (Rd_DNAME n) (parse_NameRdata Rd_DNAME)"
  unfolding rdata_rt_def by (simp add: parse_defs emit_defs parse_steps)

lemma rt_SOA: "wf_rdata (Rd_SOA m r s f y e n) \<Longrightarrow> rdata_rt (Rd_SOA m r s f y e n) parse_SOA"
  unfolding rdata_rt_def by (simp add: parse_defs emit_defs parse_steps)

lemma rt_MX: "wf_rdata (Rd_MX p n) \<Longrightarrow> rdata_rt (Rd_MX p n) parse_MX"
  unfolding rdata_rt_def by (simp add: parse_defs emit_defs parse_steps)

lemma rt_SRV: "wf_rdata (Rd_SRV p g q n) \<Longrightarrow> rdata_rt (Rd_SRV p g q n) parse_SRV"
  unfolding rdata_rt_def by (simp add: parse_defs emit_defs parse_steps)

lemma rt_HINFO: "wf_rdata (Rd_HINFO c s) \<Longrightarrow> rdata_rt (Rd_HINFO c s) parse_HINFO"
  unfolding rdata_rt_def by (simp add: parse_defs emit_defs parse_steps)

lemma rt_CAA: "wf_rdata (Rd_CAA f t v) \<Longrightarrow> rdata_rt (Rd_CAA f t v) parse_CAA"
  unfolding rdata_rt_def by (simp add: parse_defs emit_defs parse_steps)

lemma rt_SSHFP: "wf_rdata (Rd_SSHFP a t f) \<Longrightarrow> rdata_rt (Rd_SSHFP a t f) parse_SSHFP"
  unfolding rdata_rt_def by (simp add: parse_defs emit_defs parse_steps)

lemma rt_TLSA: "wf_rdata (Rd_TLSA u s m c) \<Longrightarrow> rdata_rt (Rd_TLSA u s m c) parse_TLSA"
  unfolding rdata_rt_def by (simp add: parse_defs emit_defs parse_steps)

lemma rt_DS: "wf_rdata (Rd_DS t a d g) \<Longrightarrow> rdata_rt (Rd_DS t a d g) (parse_DS Rd_DS)"
  unfolding rdata_rt_def by (simp add: parse_defs emit_defs parse_steps)

lemma rt_CDS: "wf_rdata (Rd_CDS t a d g) \<Longrightarrow> rdata_rt (Rd_CDS t a d g) (parse_DS Rd_CDS)"
  unfolding rdata_rt_def by (simp add: parse_defs emit_defs parse_steps)

lemma rt_DNSKEY: "wf_rdata (Rd_DNSKEY f p a k) \<Longrightarrow> rdata_rt (Rd_DNSKEY f p a k) (parse_DNSKEY Rd_DNSKEY)"
  unfolding rdata_rt_def by (simp add: parse_defs emit_defs parse_steps)

lemma rt_CDNSKEY: "wf_rdata (Rd_CDNSKEY f p a k) \<Longrightarrow> rdata_rt (Rd_CDNSKEY f p a k) (parse_DNSKEY Rd_CDNSKEY)"
  unfolding rdata_rt_def by (simp add: parse_defs emit_defs parse_steps)

lemma rt_RRSIG: "wf_rdata (Rd_RRSIG tc a l ot e i t s g) \<Longrightarrow> rdata_rt (Rd_RRSIG tc a l ot e i t s g) parse_RRSIG"
  unfolding rdata_rt_def by (simp add: parse_defs emit_defs parse_steps)

lemma rt_NSEC: "wf_rdata (Rd_NSEC n b) \<Longrightarrow> rdata_rt (Rd_NSEC n b) parse_NSEC"
  unfolding rdata_rt_def by (simp add: parse_defs emit_defs parse_steps)

lemma rt_NSEC3PARAM: "wf_rdata (Rd_NSEC3PARAM h f i s) \<Longrightarrow> rdata_rt (Rd_NSEC3PARAM h f i s) parse_NSEC3PARAM"
  unfolding rdata_rt_def by (simp add: parse_defs emit_defs parse_steps)

lemma rt_NSEC3: "wf_rdata (Rd_NSEC3 h f i s n b) \<Longrightarrow> rdata_rt (Rd_NSEC3 h f i s n b) parse_NSEC3"
  unfolding rdata_rt_def by (simp add: parse_defs emit_defs parse_steps)

lemma rt_NAPTR: "wf_rdata (Rd_NAPTR q p f s r n) \<Longrightarrow> rdata_rt (Rd_NAPTR q p f s r n) parse_NAPTR"
  unfolding rdata_rt_def by (simp add: parse_defs emit_defs parse_steps)

lemma rt_URI: "wf_rdata (Rd_URI p g t) \<Longrightarrow> rdata_rt (Rd_URI p g t) parse_URI"
  unfolding rdata_rt_def by (simp add: parse_defs emit_defs parse_steps)

lemma rt_SVCB: "wf_rdata (Rd_SVCB p t ps) \<Longrightarrow> rdata_rt (Rd_SVCB p t ps) (parse_SVCB Rd_SVCB)"
  unfolding rdata_rt_def by (simp add: parse_defs emit_defs parse_steps)

lemma rt_HTTPS: "wf_rdata (Rd_HTTPS p t ps) \<Longrightarrow> rdata_rt (Rd_HTTPS p t ps) (parse_SVCB Rd_HTTPS)"
  unfolding rdata_rt_def by (simp add: parse_defs emit_defs parse_steps)

lemma rt_TSIG: "wf_rdata (Rd_TSIG a t f m i e x) \<Longrightarrow> rdata_rt (Rd_TSIG a t f m i e x) parse_TSIG"
  unfolding rdata_rt_def by (simp add: parse_defs emit_defs parse_steps del: push_bit_and)

lemma rt_TXT_class:
  "list_all string_ok ss \<Longrightarrow> emit (cls ss) = emit_TXT ss \<Longrightarrow> rdata_rt (cls ss) (parse_TXT cls)"
  unfolding rdata_rt_def
  using emit_TXT_wire [of ss] parse_TXT_loop_wire [of ss _ _ "[]"]
  by (fastforce simp: parse_TXT_def pbind_def ptell_def pret_def)

lemma rt_TXT: "wf_rdata (Rd_TXT ss) \<Longrightarrow> rdata_rt (Rd_TXT ss) (parse_TXT Rd_TXT)"
  by (rule rt_TXT_class) (auto simp: fun_eq_iff)

lemma rt_SPF: "wf_rdata (Rd_SPF ss) \<Longrightarrow> rdata_rt (Rd_SPF ss) (parse_TXT Rd_SPF)"
  by (rule rt_TXT_class) (auto simp: fun_eq_iff)

lemmas rt_classes =
  rt_A rt_AAAA rt_NS rt_CNAME rt_PTR rt_DNAME rt_SOA rt_MX rt_SRV rt_TXT rt_SPF rt_HINFO rt_CAA
  rt_SSHFP rt_TLSA rt_DS rt_CDS rt_DNSKEY rt_CDNSKEY rt_RRSIG rt_NSEC rt_NSEC3PARAM rt_NSEC3
  rt_NAPTR rt_URI rt_SVCB rt_HTTPS rt_TSIG

text \<open>Data the registry's codec for the type would produce.\<close>

definition encodable :: "int \<Rightarrow> rdata \<Rightarrow> bool" where
  "encodable t rd \<longleftrightarrow> wf_rdata rd \<and> rdata_type rd = t \<and>
     (\<forall>d. rd = Rd_Unknown t d \<longrightarrow> map_of registry t = None)"

lemma registry_rt:
  assumes "encodable t rd" and "map_of registry t = Some codec"
  shows "rdata_rt rd codec"
  using assms unfolding encodable_def
  by (cases rd) (auto simp: registry_def intro: rt_classes)

lemma parse_rdata_codec:
  assumes "map_of registry t = Some codec"
    and "codec n (reader_at pre (bs @ rest)) = Inr (rd, reader_at (pre @ bs) rest)"
    and "n = int (length bs)"
  shows "parse_rdata t n (reader_at pre (bs @ rest)) = Inr (rd, reader_at (pre @ bs) rest)"
  using assms by (simp add: parse_rdata_def Let_def)

lemma rdata_sound:
  assumes "encodable t rd"
  shows "\<exists>bs w'. emit rd w = Inr w' \<and> wbuf w' = wbuf w @ bs \<and> wnames w' = wnames w \<and>
    (\<forall>pre rest. parse_rdata t (int (length bs)) (reader_at pre (bs @ rest)) =
       Inr (rd, reader_at (pre @ bs) rest))"
proof (cases "map_of registry t")
  case None
  with assms obtain d where "rd = Rd_Unknown t d"
    unfolding encodable_def by (cases rd) (auto simp: registry_def)
  with None show ?thesis by (simp add: emit_defs parse_rdata_def parse_steps)
next
  case (Some codec)
  from registry_rt [OF assms Some] obtain bs w' where
    "emit rd w = Inr w'" "wbuf w' = wbuf w @ bs" "wnames w' = wnames w"
    "\<forall>pre rest. codec (int (length bs)) (reader_at pre (bs @ rest)) =
       Inr (rd, reader_at (pre @ bs) rest)"
    unfolding rdata_rt_def by blast
  with parse_rdata_codec [OF Some] show ?thesis by blast
qed

text \<open>
  C36: any record data of a type the registry knows, or raw data of a type it does not, is
  emitted as octets that parse back to the very same data at any place of any message, the
  cursor ending right behind them. Emitting touches neither what was written before nor the
  compression table.
\<close>

theorem rdata_roundtrip:
  assumes "encodable t rd"
  shows "\<exists>bs w'. emit rd w = Inr w' \<and> wbuf w' = wbuf w @ bs \<and> wnames w' = wnames w \<and>
    (\<forall>pre rest. parse_rdata t (int (length bs)) (reader_at pre (bs @ rest)) =
       Inr (rd, reader_at (pre @ bs) rest))"
  by (rule rdata_sound [OF assms])

theorem rdata_roundtrip_witness:
  "encodable 15 (Rd_MX 10 [[109]]) \<and>
   (\<exists>bs w'. emit (Rd_MX 10 [[109]]) new_writer = Inr w' \<and> wbuf w' = bs \<and>
      parse_rdata 15 (int (length bs)) (reader_at [7] (bs @ [9])) =
        Inr (Rd_MX 10 [[109]], reader_at (7 # bs) [9]))"
proof -
  have e: "encodable 15 (Rd_MX 10 [[109]])"
    by (simp add: encodable_def u16_ok_def wf_name_def wf_label_def MAX_LABEL_def MAX_NAME_def)
  moreover have "wbuf new_writer = []" by (simp add: new_writer_def)
  ultimately show ?thesis
    using rdata_roundtrip [OF e, of new_writer] by (metis append_Cons append_Nil)
qed

subsection \<open>Parsing yields well-formed data of the declared length\<close>

definition yields :: "'a parser \<Rightarrow> ('a \<Rightarrow> bool) \<Rightarrow> bool" where
  "yields p P \<longleftrightarrow> safe_parser p \<and> (\<forall>r x r'. reader_ok r \<longrightarrow> p r = Inr (x, r') \<longrightarrow> P x)"

lemma yieldsI:
  "safe_parser p \<Longrightarrow> (\<And>r x r'. reader_ok r \<Longrightarrow> p r = Inr (x, r') \<Longrightarrow> P x) \<Longrightarrow> yields p P"
  unfolding yields_def by blast

lemma yields_safe: "yields p P \<Longrightarrow> safe_parser p"
  by (simp add: yields_def)

lemma yields_Inr:
  "yields p P \<Longrightarrow> reader_ok r \<Longrightarrow> p r = Inr (x, r') \<Longrightarrow> P x \<and> rbuf r' = rbuf r \<and> reader_ok r'"
  using safe_parser_Inr [of p r x r'] unfolding yields_def by blast

lemma yields_pbind:
  assumes m: "yields m P" and f: "\<And>x. P x \<Longrightarrow> yields (f x) Q"
  shows "yields (pbind m f) Q"
proof (rule yieldsI)
  show "safe_parser (pbind m f)"
  proof (rule safe_parserI)
    fix r e assume r: "reader_ok r" and e: "pbind m f r = Inl e"
    show "e = WireError"
    proof (cases "m r")
      case (Inl d)
      with e safe_parser_Inl [OF yields_safe [OF m] r] show ?thesis by (simp add: pbind_def)
    next
      case (Inr a)
      then obtain x r1 where a: "m r = Inr (x, r1)" by (cases a) simp
      with e have "f x r1 = Inl e" by (simp add: pbind_def)
      with yields_Inr [OF m r a] safe_parser_Inl [OF yields_safe [OF f]] show ?thesis by blast
    qed
  next
    fix r y r' assume r: "reader_ok r" and "pbind m f r = Inr (y, r')"
    then obtain x r1 where a: "m r = Inr (x, r1)" and b: "f x r1 = Inr (y, r')"
      by (auto simp: pbind_eq_Inr)
    from yields_Inr [OF m r a] yields_Inr [OF f _ b]
    show "rbuf r' = rbuf r \<and> reader_ok r'" by simp
  qed
next
  fix r y r' assume r: "reader_ok r" and "pbind m f r = Inr (y, r')"
  then obtain x r1 where a: "m r = Inr (x, r1)" and b: "f x r1 = Inr (y, r')"
    by (auto simp: pbind_eq_Inr)
  from yields_Inr [OF m r a] yields_Inr [OF f _ b] show "Q y" by simp
qed

lemma yields_weaken: "yields p P \<Longrightarrow> (\<And>x. P x \<Longrightarrow> Q x) \<Longrightarrow> yields p Q"
  unfolding yields_def by blast

lemma yields_r_u8: "yields r_u8 u8_ok"
  by (rule yieldsI [OF safe_r_u8]) (auto simp: u8_ok_def dest: u8_range)

lemma yields_r_u16: "yields r_u16 u16_ok"
  by (rule yieldsI [OF safe_r_u16])
    (auto simp: u16_ok_def r_u16_def Let_def unpack_H_range split: if_splits)

lemma yields_r_u32: "yields r_u32 u32_ok"
  by (rule yieldsI [OF safe_r_u32])
    (auto simp: u32_ok_def r_u32_def Let_def unpack_I_range split: if_splits)

lemma yields_r_read: "yields (r_read n) (\<lambda>b. int (length b) = n)"
  by (rule yieldsI [OF safe_r_read]) (simp add: read_len)

lemma yields_read_name: "yields read_name wf_name"
  by (rule yieldsI [OF safe_read_name]) (rule read_name_wf)

lemma yields_ptell: "yields ptell (\<lambda>_. True)"
  by (rule yieldsI [OF safe_ptell]) simp

lemma yields_pret: "P x \<Longrightarrow> yields (pret x) P"
  by (rule yieldsI [OF safe_pret]) simp

lemma yields_pfail: "yields (pfail WireError) P"
  by (rule yieldsI [OF safe_pfail]) (simp add: pfail_def)

lemma yields_read_string: "yields read_string string_ok"
  unfolding read_string_def
  by (rule yields_pbind [OF yields_r_u8], rule yields_weaken [OF yields_r_read])
    (simp add: u8_ok_def string_ok_def)

lemma yields_TXT_loop:
  "list_all string_ok out \<Longrightarrow> yields (parse_TXT_loop stop out) (list_all string_ok)"
proof -
  assume ss: "list_all string_ok out"
  have main: "list_all string_ok out \<Longrightarrow> reader_ok r \<Longrightarrow>
      (\<forall>e. parse_TXT_loop stop out r = Inl e \<longrightarrow> e = WireError) \<and>
      (\<forall>ss r'. parse_TXT_loop stop out r = Inr (ss, r') \<longrightarrow>
         list_all string_ok ss \<and> rbuf r' = rbuf r \<and> reader_ok r')" for r
  proof (induction stop out r rule: parse_TXT_loop.induct)
    case (1 stop out r)
    note IH = "1"(1) and out = "1"(2) and ok = "1"(3)
    show ?case
    proof (cases "tell r < stop")
      case False
      with out ok show ?thesis by (simp add: parse_TXT_loop.simps [of stop out r])
    next
      case True
      show ?thesis
      proof (cases "r_u8 r")
        case (Inl e)
        with True safe_parser_Inl [OF safe_r_u8 ok Inl] show ?thesis
          by (simp add: parse_TXT_loop.simps [of stop out r])
      next
        case (Inr a)
        then obtain n r1 where u: "r_u8 r = Inr (n, r1)" by (cases a) simp
        note r1 = safe_parser_Inr [OF safe_r_u8 ok u]
        show ?thesis
        proof (cases "r_read n r1")
          case (Inl e)
          with True u safe_parser_Inl [OF safe_r_read _ Inl] r1 show ?thesis
            by (simp add: parse_TXT_loop.simps [of stop out r])
        next
          case (Inr b)
          then obtain s r2 where l: "r_read n r1 = Inr (s, r2)" by (cases b) simp
          note r2 = safe_parser_Inr [OF safe_r_read _ l]
          have "string_ok s" using read_len [OF l] r1 u8_range [OF u] by (simp add: string_ok_def)
          then have "list_all string_ok (out @ [s])" "reader_ok r2" "rbuf r2 = rbuf r"
            using out r1 r2 by simp_all
          moreover have "parse_TXT_loop stop out r = parse_TXT_loop stop (out @ [s]) r2"
            using True u l by (simp add: parse_TXT_loop.simps [of stop out r])
          ultimately show ?thesis using IH [OF True u refl l refl] by metis
        qed
      qed
    qed
  qed
  show ?thesis
  proof (rule yieldsI)
    show "safe_parser (parse_TXT_loop stop out)"
      using main [OF ss] unfolding safe_parser_def by blast
  next
    fix r x r' assume "reader_ok r" "parse_TXT_loop stop out r = Inr (x, r')"
    then show "list_all string_ok x" using main [OF ss, of r] by blast
  qed
qed

lemmas yields_steps =
  yields_pbind [OF yields_r_u8] yields_pbind [OF yields_r_u16] yields_pbind [OF yields_r_u32]
  yields_pbind [OF yields_r_read] yields_pbind [OF yields_read_name]
  yields_pbind [OF yields_read_string] yields_pbind [OF yields_ptell]
  yields_pret yields_pfail

text \<open>Well-formed data of a class other than the raw fallback.\<close>

definition typed :: "int \<Rightarrow> rdata \<Rightarrow> bool" where
  "typed t rd \<longleftrightarrow> wf_rdata rd \<and> rdata_type rd = t \<and> (\<forall>u d. rd \<noteq> Rd_Unknown u d)"

lemma time48_range: "u16_ok hi \<Longrightarrow> u32_ok lo \<Longrightarrow>
    0 \<le> push_bit 32 hi OR lo \<and> push_bit 32 hi OR lo < 281474976710656"
  by (simp add: u16_ok_def u32_ok_def or_low_32)

lemma u_ok_nonneg: "u16_ok v \<Longrightarrow> 0 \<le> v" "u32_ok v \<Longrightarrow> 0 \<le> v"
  by (simp_all add: u16_ok_def u32_ok_def)

lemma yields_NameRdata:
  "(\<And>n. wf_name n \<Longrightarrow> typed t (cls n)) \<Longrightarrow> yields (parse_NameRdata cls n) (typed t)"
  unfolding parse_NameRdata_def by (intro yields_steps) simp

lemma yields_TXT:
  "(\<And>ss. list_all string_ok ss \<Longrightarrow> typed t (cls ss)) \<Longrightarrow> yields (parse_TXT cls n) (typed t)"
  unfolding parse_TXT_def
  by (rule yields_pbind [OF yields_ptell], rule yields_pbind [OF yields_TXT_loop])
    (simp_all add: yields_pret)

lemma yields_A: "yields (parse_A n) (typed 1)"
  unfolding parse_defs
  by (simp add: yields_pfail) (intro impI yields_steps, simp add: typed_def)

lemma yields_AAAA: "yields (parse_AAAA n) (typed 28)"
  unfolding parse_defs
  by (simp add: yields_pfail) (intro impI yields_steps, simp add: typed_def)

lemma yields_SOA: "yields (parse_SOA n) (typed 6)"
  unfolding parse_defs by (intro yields_steps | simp add: typed_def)+

lemma yields_MX: "yields (parse_MX n) (typed 15)"
  unfolding parse_defs by (intro yields_steps | simp add: typed_def)+

lemma yields_SRV: "yields (parse_SRV n) (typed 33)"
  unfolding parse_defs by (intro yields_steps | simp add: typed_def)+

lemma yields_HINFO: "yields (parse_HINFO n) (typed 13)"
  unfolding parse_defs by (intro yields_steps | simp add: typed_def)+

lemma yields_CAA: "yields (parse_CAA n) (typed 257)"
  unfolding parse_defs by (intro yields_steps | simp add: typed_def)+

lemma yields_SSHFP: "yields (parse_SSHFP n) (typed 44)"
  unfolding parse_defs by (intro yields_steps | simp add: typed_def)+

lemma yields_TLSA: "yields (parse_TLSA n) (typed 52)"
  unfolding parse_defs by (intro yields_steps | simp add: typed_def)+

lemma yields_DS: "yields (parse_DS Rd_DS n) (typed 43)"
  unfolding parse_defs by (intro yields_steps | simp add: typed_def)+

lemma yields_CDS: "yields (parse_DS Rd_CDS n) (typed 59)"
  unfolding parse_defs by (intro yields_steps | simp add: typed_def)+

lemma yields_DNSKEY: "yields (parse_DNSKEY Rd_DNSKEY n) (typed 48)"
  unfolding parse_defs by (intro yields_steps | simp add: typed_def)+

lemma yields_CDNSKEY: "yields (parse_DNSKEY Rd_CDNSKEY n) (typed 60)"
  unfolding parse_defs by (intro yields_steps | simp add: typed_def)+

lemma yields_RRSIG: "yields (parse_RRSIG n) (typed 46)"
  unfolding parse_defs by (intro yields_steps | simp add: typed_def)+

lemma yields_NSEC: "yields (parse_NSEC n) (typed 47)"
  unfolding parse_defs by (intro yields_steps | simp add: typed_def)+

lemma yields_NSEC3PARAM: "yields (parse_NSEC3PARAM n) (typed 51)"
  unfolding parse_defs by (intro yields_steps | simp add: typed_def)+

lemma yields_NSEC3: "yields (parse_NSEC3 n) (typed 50)"
  unfolding parse_defs by (intro yields_steps | simp add: typed_def)+

lemma yields_NAPTR: "yields (parse_NAPTR n) (typed 35)"
  unfolding parse_defs by (intro yields_steps | simp add: typed_def)+

lemma yields_URI: "yields (parse_URI n) (typed 256)"
  unfolding parse_defs by (intro yields_steps | simp add: typed_def)+

lemma yields_SVCB: "yields (parse_SVCB Rd_SVCB n) (typed 64)"
  unfolding parse_defs by (intro yields_steps | simp add: typed_def)+

lemma yields_HTTPS: "yields (parse_SVCB Rd_HTTPS n) (typed 65)"
  unfolding parse_defs by (intro yields_steps | simp add: typed_def)+

lemma yields_TSIG: "yields (parse_TSIG n) (typed 250)"
  unfolding parse_defs by (intro yields_steps | simp add: typed_def time48_range u_ok_nonneg)+

lemmas yields_classes =
  yields_A yields_AAAA yields_SOA yields_MX yields_SRV yields_HINFO yields_CAA yields_SSHFP yields_TLSA yields_DS yields_CDS yields_DNSKEY yields_CDNSKEY yields_RRSIG yields_NSEC yields_NSEC3PARAM yields_NSEC3 yields_NAPTR yields_URI yields_SVCB yields_HTTPS yields_TSIG

lemma registry_yields:
  "map_of registry t = Some codec \<Longrightarrow> yields (codec n) (typed t)"
  by (auto simp: registry_def typed_def intro!: yields_classes yields_NameRdata yields_TXT
      split: if_splits)

lemma parse_rdata_sound:
  assumes ok: "reader_ok r"
  shows "(\<forall>e. parse_rdata t n r = Inl e \<longrightarrow> e = WireError) \<and>
    (\<forall>rd r'. parse_rdata t n r = Inr (rd, r') \<longrightarrow>
       rbuf r' = rbuf r \<and> reader_ok r' \<and> rpos r' = rpos r + n \<and>
       wf_rdata rd \<and> rdata_type rd = t)"
proof (cases "map_of registry t")
  case None
  then show ?thesis using ok
    by (auto simp: parse_rdata_def pbind_def pret_def r_read_def rlen_def reader_ok_def rbind_def)
next
  case (Some codec)
  note y = registry_yields [OF Some, of n]
  show ?thesis
  proof (cases "codec n r")
    case (Inl e)
    with Some ok show ?thesis
      by (auto simp: parse_rdata_def Let_def pbind_def pret_def pseek_def seek_def tell_def
          r_read_def rlen_def reader_ok_def rbind_def split: if_splits)
  next
    case (Inr a)
    then obtain rd r' where c: "codec n r = Inr (rd, r')" by (cases a) simp
    from yields_Inr [OF y ok c] have "typed t rd" "rbuf r' = rbuf r" "reader_ok r'" by simp_all
    moreover have "rpos r' = rpos r + n" if "\<not> tell r' - tell r \<noteq> n" using that by (simp add: tell_def)
    ultimately show ?thesis using Some c
      by (auto simp: parse_rdata_def Let_def typed_def tell_def)
  qed
qed

text \<open>
  C37: \<open>parse_rdata\<close> raises nothing but \<open>WireError\<close>, stays inside the buffer, and when
  it succeeds has consumed exactly the declared length and returns well-formed data whose own
  type is the type asked for. So the resync of the message parser to the end of the record
  never moves the cursor.
\<close>

theorem parse_rdata_exact:
  assumes ok: "reader_ok r"
  shows "(\<forall>e. parse_rdata t n r = Inl e \<longrightarrow> e = WireError) \<and>
    (\<forall>rd r'. parse_rdata t n r = Inr (rd, r') \<longrightarrow>
       rbuf r' = rbuf r \<and> reader_ok r' \<and> rpos r' = rpos r + n \<and>
       wf_rdata rd \<and> rdata_type rd = t)"
  by (rule parse_rdata_sound [OF ok])

theorem parse_rdata_exact_witness:
  "reader_ok (reader_at [5] [127, 0, 0, 1, 9]) \<and>
   parse_rdata 1 4 (reader_at [5] [127, 0, 0, 1, 9]) =
     Inr (Rd_A [127, 0, 0, 1], reader_at [5, 127, 0, 0, 1] [9]) \<and> wf_rdata (Rd_A [127, 0, 0, 1])"
proof -
  have p: "parse_rdata 1 4 (reader_at [5] [127, 0, 0, 1, 9]) =
     Inr (Rd_A [127, 0, 0, 1], reader_at [5, 127, 0, 0, 1] [9])"
    by (simp add: parse_rdata_def registry_def parse_A_def parse_steps Let_def r_read_def rlen_def
        reader_at_def tell_def)
  have "wf_rdata (Rd_A [127, 0, 0, 1])"
    using parse_rdata_exact [OF reader_ok_at, of 1 4 "[5]" "[127, 0, 0, 1, 9]"] p by blast
  with p reader_ok_at show ?thesis by blast
qed

text \<open>
  The fallback the code means to deny to types that embed a name is given to TSIG: an
  algorithm name that fails to parse because of its compression pointer is kept as raw octets.
  A record of type NS with the same octets is refused. RP (17) is listed as name-bearing but
  has no codec, so it never reaches the test.
\<close>

lemma tsig_keeps_raw_pointer:
  "parse_rdata 250 2 (reader_at [] [0xC0, 0]) =
     Inr (Rd_Unknown 250 [0xC0, 0], reader_at [0xC0, 0] [])"
  "parse_rdata 17 2 (reader_at [] [0xC0, 0]) =
     Inr (Rd_Unknown 17 [0xC0, 0], reader_at [0xC0, 0] [])"
  "parse_rdata 2 2 (reader_at [] [0xC0, 0]) = Inl WireError"
proof -
  have "read_name (reader_at [] [0xC0, 0]) = Inl WireError"
    unfolding read_name_def by (subst read_name_loop.simps)
      (simp add: r_u8_def rlen_def reader_at_def Let_def tell_def)
  then show "parse_rdata 250 2 (reader_at [] [0xC0, 0]) =
      Inr (Rd_Unknown 250 [0xC0, 0], reader_at [0xC0, 0] [])"
    "parse_rdata 17 2 (reader_at [] [0xC0, 0]) =
      Inr (Rd_Unknown 17 [0xC0, 0], reader_at [0xC0, 0] [])"
    "parse_rdata 2 2 (reader_at [] [0xC0, 0]) = Inl WireError"
    by (simp_all add: parse_rdata_def registry_def name_bearing_def parse_defs pbind_def pret_def
        pseek_def seek_def r_read_def rlen_def reader_at_def tell_def)
qed

end
