(* ===== verification/Wire_Message.thy ===== *)
theory Wire_Message
  imports Wire_Rdata_Props
begin

section \<open>EDNS and the message codec\<close>

text \<open>
  Models \<^verbatim>\<open>trench/wire/edns.py\<close> and \<^verbatim>\<open>trench/wire/message.py\<close>: the OPT
  pseudo-record with its options, ECS and padding, and the message with its flags, parser and
  serialiser. The loops \<^verbatim>\<open>for _ in range(n)\<close> of the parser are \<open>ploop\<close> over a body;
  the loops of the serialiser are \<^const>\<open>rfold\<close> over the writer.
\<close>

subsection \<open>EDNS\<close>

record edns =
  udp_size :: int
  ext_rcode :: int
  eversion :: int
  eflags :: int
  options :: "(int \<times> bytes) list"

definition new_edns :: edns where
  "new_edns = \<lparr>udp_size = 1232, ext_rcode = 0, eversion = 0, eflags = 0, options = []\<rparr>"

definition DO_BIT :: int where "DO_BIT = 0x8000"

definition edns_do :: "edns \<Rightarrow> bool" where
  "edns_do e \<longleftrightarrow> eflags e AND DO_BIT \<noteq> 0"

definition set_do :: "bool \<Rightarrow> edns \<Rightarrow> edns" where
  "set_do on e = e\<lparr>eflags := (if on then eflags e OR DO_BIT else eflags e AND NOT DO_BIT)\<rparr>"

fun find_option :: "int \<Rightarrow> (int \<times> bytes) list \<Rightarrow> bytes option" where
  "find_option code [] = None"
| "find_option code ((c, d) # os) = (if c = code then Some d else find_option code os)"

definition get_option :: "int \<Rightarrow> edns \<Rightarrow> bytes option" where
  "get_option code e = find_option code (options e)"

definition set_option :: "int \<Rightarrow> bytes \<Rightarrow> edns \<Rightarrow> edns" where
  "set_option code d e =
     e\<lparr>options := filter (\<lambda>(c, _). c \<noteq> code) (options e) @ [(code, d)]\<rparr>"

definition remove_option :: "int \<Rightarrow> edns \<Rightarrow> edns" where
  "remove_option code e = e\<lparr>options := filter (\<lambda>(c, _). c \<noteq> code) (options e)\<rparr>"

definition OPT_PADDING :: int where "OPT_PADDING = 12"
definition OPT_ECS :: int where "OPT_ECS = 8"

definition set_padding :: "int \<Rightarrow> int \<Rightarrow> edns \<Rightarrow> edns" where
  "set_padding target_block current_len e =
     (let e = remove_option OPT_PADDING e;
          total_wo_pad = current_len + 4;
          pad = (target_block - (total_wo_pad mod target_block)) mod target_block
      in set_option OPT_PADDING (replicate (nat pad) 0) e)"

record ecs =
  family :: int
  source_prefix :: int
  scope_prefix :: int
  ecs_address :: bytes

definition ecs_from_bytes :: "bytes \<Rightarrow> ecs result" where
  "ecs_from_bytes b =
     (if length b < 4 then Inl ValueError
      else
        let fam = unpack_H (b ! 0) (b ! 1); src = uint (b ! 2); scope = uint (b ! 3);
            bits = map_of [(1, 32), (2, 128)] fam
        in case bits of
             None \<Rightarrow> Inl ValueError
           | Some n \<Rightarrow>
               if src > n \<or> scope > n then Inl ValueError
               else let address = drop 4 b in
                 if int (length address) \<noteq> (src + 7) div 8 then Inl ValueError
                 else Inr \<lparr>family = fam, source_prefix = src, scope_prefix = scope,
                           ecs_address = address\<rparr>)"

text \<open>\<^verbatim>\<open>to_bytes(2)\<close> raises OverflowError and \<^verbatim>\<open>bytes\<close> a ValueError out of range.\<close>

definition ecs_to_bytes :: "ecs \<Rightarrow> bytes result" where
  "ecs_to_bytes e =
     (if 0 \<le> family e \<and> family e < 65536 \<and> 0 \<le> source_prefix e \<and> source_prefix e < 256 \<and>
         0 \<le> scope_prefix e \<and> scope_prefix e < 256
      then Inr (pack_H (family e) @ [word_of_int (source_prefix e), word_of_int (scope_prefix e)]
                @ ecs_address e)
      else Inl ValueError)"

definition parse_opt_ttl :: "int \<Rightarrow> int \<times> int \<times> int" where
  "parse_opt_ttl ttl =
     (drop_bit 24 ttl AND 0xFF, drop_bit 16 ttl AND 0xFF, ttl AND 0xFFFF)"

definition build_opt_ttl :: "int \<Rightarrow> int \<Rightarrow> int \<Rightarrow> int" where
  "build_opt_ttl rc ver fl =
     (push_bit 24 (rc AND 0xFF) OR push_bit 16 (ver AND 0xFF)) OR (fl AND 0xFFFF)"

function parse_options_loop :: "(int \<times> bytes) list \<Rightarrow> reader \<Rightarrow> (int \<times> bytes) list result" where
  "parse_options_loop out r =
     (if remaining r \<ge> 4 then
        (case r_u16 r of Inl e \<Rightarrow> Inl e | Inr (code, r1) \<Rightarrow>
          (case r_u16 r1 of Inl e \<Rightarrow> Inl e | Inr (len, r2) \<Rightarrow>
             if len > remaining r2 then Inr out
             else (case r_read len r2 of Inl e \<Rightarrow> Inl e | Inr (d, r3) \<Rightarrow>
                     parse_options_loop (out @ [(code, d)]) r3)))
      else Inr out)"
  by pat_completeness auto
termination
  by (relation "measure (\<lambda>(out, r). nat (remaining r))")
    (auto simp: r_u16_def r_read_def remaining_def rlen_def Let_def split: if_splits)

declare parse_options_loop.simps [simp del]

definition parse_options :: "bytes \<Rightarrow> (int \<times> bytes) list result" where
  "parse_options d = parse_options_loop [] \<lparr>rbuf = d, rpos = 0\<rparr>"

definition emit_options :: "(int \<times> bytes) list \<Rightarrow> writer \<Rightarrow> writer" where
  "emit_options os w =
     fold (\<lambda>(code, d) w. w_raw d (w_u16 (int (length d)) (w_u16 code w))) os w"

subsection \<open>The message\<close>

record question =
  qname :: name
  qtype :: int
  qclass :: int

record rr =
  rr_name :: name
  rr_type :: int
  rr_class :: int
  rr_ttl :: int
  rr_rdata :: rdata

record message =
  mid :: int
  mflags :: int
  questions :: "question list"
  answers :: "rr list"
  authority :: "rr list"
  additional :: "rr list"
  medns :: "edns option"

definition F_QR :: int where "F_QR = 0x8000"
definition F_AA :: int where "F_AA = 0x0400"
definition F_TC :: int where "F_TC = 0x0200"
definition F_RD :: int where "F_RD = 0x0100"
definition F_RA :: int where "F_RA = 0x0080"
definition F_AD :: int where "F_AD = 0x0020"
definition F_CD :: int where "F_CD = 0x0010"
definition OPCODE_MASK :: int where "OPCODE_MASK = 0x7800"
definition RCODE_MASK :: int where "RCODE_MASK = 0x000F"
definition T_OPT :: int where "T_OPT = 41"

lemmas flag_defs = F_QR_def F_AA_def F_TC_def F_RD_def F_RA_def F_AD_def F_CD_def
  OPCODE_MASK_def RCODE_MASK_def

definition has_flag :: "int \<Rightarrow> message \<Rightarrow> bool" where
  "has_flag msk m \<longleftrightarrow> mflags m AND msk \<noteq> 0"

definition opcode :: "message \<Rightarrow> int" where
  "opcode m = drop_bit 11 (mflags m AND OPCODE_MASK)"

definition rcode :: "message \<Rightarrow> int" where
  "rcode m =
     (let base = mflags m AND RCODE_MASK in
      case medns m of Some e \<Rightarrow> push_bit 4 (ext_rcode e) OR base | None \<Rightarrow> base)"

definition set_rcode :: "int \<Rightarrow> message \<Rightarrow> message" where
  "set_rcode rc m =
     (let m = m\<lparr>mflags := (mflags m AND NOT RCODE_MASK) OR (rc AND 0x0F)\<rparr> in
      if rc > 0x0F then
        (let e = (case medns m of None \<Rightarrow> new_edns | Some e \<Rightarrow> e)
         in m\<lparr>medns := Some (e\<lparr>ext_rcode := drop_bit 4 rc AND 0xFF\<rparr>)\<rparr>)
      else (case medns m of
              Some e \<Rightarrow> m\<lparr>medns := Some (e\<lparr>ext_rcode := 0\<rparr>)\<rparr>
            | None \<Rightarrow> m))"

definition set_flag :: "int \<Rightarrow> bool \<Rightarrow> message \<Rightarrow> message" where
  "set_flag msk on m =
     m\<lparr>mflags := (if on then mflags m OR msk else mflags m AND NOT msk)\<rparr>"

definition first_question :: "message \<Rightarrow> question option" where
  "first_question m = (case questions m of [] \<Rightarrow> None | q # _ \<Rightarrow> Some q)"

definition wants_dnssec :: "message \<Rightarrow> bool" where
  "wants_dnssec m \<longleftrightarrow> (case medns m of None \<Rightarrow> False | Some e \<Rightarrow> edns_do e)"

subsection \<open>Parsing\<close>

fun ploop :: "nat \<Rightarrow> ('s \<Rightarrow> 's parser) \<Rightarrow> 's \<Rightarrow> 's parser" where
  "ploop 0 body s = pret s"
| "ploop (Suc n) body s = pbind (body s) (ploop n body)"

definition read_question :: "question list \<Rightarrow> question list parser" where
  "read_question qs =
     pbind read_name (\<lambda>n. pbind r_u16 (\<lambda>t. pbind r_u16 (\<lambda>c.
     pret (qs @ [\<lparr>qname = n, qtype = t, qclass = c\<rparr>]))))"

text \<open>
  One turn of \<^verbatim>\<open>_read_rrs\<close>; its state is the list read so far and the owner's
  \<^verbatim>\<open>edns\<close>, and \<open>owner\<close> says whether an owner was passed.
\<close>

definition read_rr :: "bool \<Rightarrow> rr list \<times> edns option \<Rightarrow> (rr list \<times> edns option) parser" where
  "read_rr owner st =
     pbind read_name (\<lambda>n. pbind r_u16 (\<lambda>t. pbind r_u16 (\<lambda>c. pbind r_u32 (\<lambda>ttl.
     pbind r_u16 (\<lambda>rdlen. pbind ptell (\<lambda>start.
     if t = T_OPT \<and> owner then
       (if snd st \<noteq> None \<or> n \<noteq> [] then pfail WireError
        else case parse_opt_ttl ttl of (rc, ver, fl) \<Rightarrow>
          pbind (r_read rdlen) (\<lambda>d. pbind (\<lambda>r. rbind (parse_options d) (\<lambda>os. Inr (os, r))) (\<lambda>os.
          pbind (pseek (start + rdlen)) (\<lambda>_.
          pret (fst st, Some \<lparr>udp_size = c, ext_rcode = rc, eversion = ver, eflags = fl,
                              options = os\<rparr>)))))
     else
       pbind (parse_rdata t rdlen) (\<lambda>rd. pbind (pseek (start + rdlen)) (\<lambda>_.
       pret (fst st @ [\<lparr>rr_name = n, rr_type = t, rr_class = c, rr_ttl = ttl, rr_rdata = rd\<rparr>],
             snd st)))))))))"

definition read_rrs :: "int \<Rightarrow> bool \<Rightarrow> edns option \<Rightarrow> (rr list \<times> edns option) parser" where
  "read_rrs cnt owner e = ploop (nat cnt) (read_rr owner) ([], e)"

definition HEADER_LEN :: nat where "HEADER_LEN = 12"

definition parse_body :: "message parser" where
  "parse_body =
     pbind r_u16 (\<lambda>msgid. pbind r_u16 (\<lambda>flags.
     pbind r_u16 (\<lambda>qd. pbind r_u16 (\<lambda>an. pbind r_u16 (\<lambda>ns. pbind r_u16 (\<lambda>ar.
     pbind (ploop (nat qd) read_question []) (\<lambda>qs.
     pbind (read_rrs an False None) (\<lambda>ans.
     pbind (read_rrs ns False None) (\<lambda>aut.
     pbind (read_rrs ar True None) (\<lambda>add.
     pret \<lparr>mid = msgid, mflags = flags, questions = qs, answers = fst ans,
           authority = fst aut, additional = fst add, medns = snd add\<rparr>))))))))))"

definition parse_message :: "bytes \<Rightarrow> message result" where
  "parse_message buf =
     (if length buf < HEADER_LEN then Inl WireError
      else rbind (parse_body \<lparr>rbuf = buf, rpos = 0\<rparr>) (\<lambda>(m, _). Inr m))"

subsection \<open>Serialising\<close>

definition write_question :: "bool \<Rightarrow> question \<Rightarrow> writer \<Rightarrow> writer result" where
  "write_question c q w = Inr (w_u16 (qclass q) (w_u16 (qtype q) (write_name (qname q) c w)))"

definition write_rr :: "bool \<Rightarrow> rr \<Rightarrow> writer \<Rightarrow> writer result" where
  "write_rr c x w =
     (let w = w_u32 (rr_ttl x) (w_u16 (rr_class x) (w_u16 (rr_type x) (write_name (rr_name x) c w)));
          (lenpos, w) = reserve_u16 w;
          body_start = wtell w
      in rbind (emit (rr_rdata x) w) (\<lambda>w.
           patch_u16 lenpos (int (wtell w) - int body_start) w))"

definition write_opt :: "edns \<Rightarrow> writer \<Rightarrow> writer result" where
  "write_opt e w =
     (let w = w_u32 (build_opt_ttl (ext_rcode e) (eversion e) (eflags e))
                (w_u16 (udp_size e) (w_u16 T_OPT (w_u8 0 w)));
          (lenpos, w) = reserve_u16 w;
          body_start = wtell w;
          w = emit_options (options e) w
      in patch_u16 lenpos (int (wtell w) - int body_start) w)"

definition encode :: "bool \<Rightarrow> message \<Rightarrow> bytes result" where
  "encode c m =
     (let addl = (if medns m \<noteq> None then filter (\<lambda>x. rr_type x \<noteq> T_OPT) (additional m)
                  else additional m);
          arcount = int (length addl) + (if medns m \<noteq> None then 1 else 0);
          w = w_u16 (mflags m) (w_u16 (mid m) new_writer);
          w = w_u16 arcount (w_u16 (int (length (authority m))) (w_u16 (int (length (answers m)))
                (w_u16 (int (length (questions m))) w)))
      in rbind (rfold (write_question c) (questions m) w) (\<lambda>w.
         rbind (rfold (write_rr c) (answers m) w) (\<lambda>w.
         rbind (rfold (write_rr c) (authority m) w) (\<lambda>w.
         rbind (rfold (write_rr c) addl w) (\<lambda>w.
         rbind (case medns m of None \<Rightarrow> Inr w | Some e \<Rightarrow> write_opt e w) (\<lambda>w.
         Inr (wbuf w)))))))"

definition to_wire :: "int option \<Rightarrow> bool \<Rightarrow> message \<Rightarrow> bytes result" where
  "to_wire max_size c m =
     rbind (encode c m) (\<lambda>d.
       case max_size of
         None \<Rightarrow> Inr d
       | Some cap \<Rightarrow>
         if int (length d) > cap then
           (let e = map_option (\<lambda>e. e\<lparr>options := []\<rparr>) (medns m);
                tc = mflags m OR F_TC;
                bare = m\<lparr>mflags := tc, answers := [], authority := [], additional := []\<rparr>
            in rbind (encode c (bare\<lparr>medns := e\<rparr>)) (\<lambda>d.
                 if int (length d) > cap then
                   rbind (encode c (bare\<lparr>medns := None\<rparr>)) (\<lambda>d.
                     if int (length d) > cap
                     then encode c (bare\<lparr>questions := [], medns := None\<rparr>)
                     else Inr d)
                 else Inr d))
         else Inr d)"

definition reply :: "int \<Rightarrow> message \<Rightarrow> message" where
  "reply rc m =
     (let r = \<lparr>mid = mid m, mflags = F_QR OR F_RA, questions = [], answers = [], authority = [],
               additional = [], medns = None\<rparr>;
          r = (if has_flag F_RD m then set_flag F_RD True r else r);
          r = set_flag OPCODE_MASK False r;
          r = r\<lparr>mflags := mflags r OR push_bit 11 (opcode m)\<rparr>;
          r = r\<lparr>questions := questions m\<rparr>;
          r = (case medns m of None \<Rightarrow> r
               | Some e \<Rightarrow> r\<lparr>medns := Some (set_do (edns_do e) (new_edns\<lparr>udp_size := udp_size e\<rparr>))\<rparr>)
      in set_rcode rc r)"

fun min_ttl_walk :: "rr list \<Rightarrow> int option \<Rightarrow> int option" where
  "min_ttl_walk [] best = best"
| "min_ttl_walk (x # xs) best =
     min_ttl_walk xs
       (if rr_type x \<noteq> T_OPT \<and> (case best of None \<Rightarrow> True | Some b \<Rightarrow> rr_ttl x < b)
        then Some (rr_ttl x) else best)"

definition min_ttl :: "message \<Rightarrow> int option" where
  "min_ttl m = min_ttl_walk (authority m) (min_ttl_walk (answers m) None)"

end
