(* ===== verification/Wire_Message_Props.thy ===== *)
theory Wire_Message_Props
  imports Wire_Message
begin

section \<open>The message codec: sections, round trip, safety\<close>

text \<open>
  A section of a message is written item by item and read back by a counted loop. The locale
  \<open>wire_section\<close> states what one item's writer and one turn of the loop owe each other, and
  proves once what a whole section gives; the question section and the record sections are its
  interpretations. The round trip of the whole message is the composition of its sections.
\<close>

subsection \<open>The contract of a section\<close>

locale wire_section =
  fixes put :: "'a \<Rightarrow> writer \<Rightarrow> writer result"
    and turn :: "'s \<Rightarrow> 's parser"
    and add_item :: "'a \<Rightarrow> 's \<Rightarrow> 's"
    and ok :: "'a \<Rightarrow> bool"
    and same :: "'a \<Rightarrow> 'a \<Rightarrow> bool"
  assumes put_turn: "names_ok w \<Longrightarrow> ok x \<Longrightarrow>
      \<exists>bs w' y. put x w = Inr w' \<and> wbuf w' = wbuf w @ bs \<and> names_ok w' \<and> same y x \<and>
        (\<forall>s rest. turn s (reader_at (wbuf w) (bs @ rest)) =
           Inr (add_item y s, reader_at (wbuf w @ bs) rest))"
begin

lemma put_section:
  "names_ok w \<Longrightarrow> list_all ok xs \<Longrightarrow>
     \<exists>bs w' ys. rfold put xs w = Inr w' \<and> wbuf w' = wbuf w @ bs \<and> names_ok w' \<and>
       list_all2 same ys xs \<and>
       (\<forall>s k rest. ploop (length xs + k) turn s (reader_at (wbuf w) (bs @ rest)) =
          ploop k turn (fold add_item ys s) (reader_at (wbuf w @ bs) rest))"
proof (induction xs arbitrary: w)
  case Nil
  then show ?case by (intro exI [of _ "[]"] exI [of _ w]) simp
next
  case (Cons x xs)
  from put_turn [of w x] Cons.prems obtain b1 w1 y where
    1: "put x w = Inr w1" "wbuf w1 = wbuf w @ b1" "names_ok w1" "same y x"
    "\<And>s rest. turn s (reader_at (wbuf w) (b1 @ rest)) =
        Inr (add_item y s, reader_at (wbuf w @ b1) rest)"
    by auto
  from Cons.IH [of w1] Cons.prems 1(3) obtain b2 w2 ys where
    2: "rfold put xs w1 = Inr w2" "wbuf w2 = wbuf w1 @ b2" "names_ok w2" "list_all2 same ys xs"
    "\<And>s k rest. ploop (length xs + k) turn s (reader_at (wbuf w1) (b2 @ rest)) =
        ploop k turn (fold add_item ys s) (reader_at (wbuf w1 @ b2) rest)"
    by auto
  have "ploop (length (x # xs) + k) turn s (reader_at (wbuf w) ((b1 @ b2) @ rest)) =
      ploop k turn (fold add_item (y # ys) s) (reader_at (wbuf w @ b1 @ b2) rest)" for s k rest
    using 1(5) [of s "b2 @ rest"] 2(5) [of k "add_item y s" rest] 1(2) by (simp add: pbind_def)
  with 1 2 show ?case
    by (intro exI [of _ "b1 @ b2"] exI [of _ w2] exI [of _ "y # ys"]) simp
qed

end

subsection \<open>One question, one record, the OPT record\<close>

definition question_ok :: "question \<Rightarrow> bool" where
  "question_ok q \<longleftrightarrow> wf_name (qname q) \<and> u16_ok (qtype q) \<and> u16_ok (qclass q)"

definition question_same :: "bool \<Rightarrow> question \<Rightarrow> question \<Rightarrow> bool" where
  "question_same c q' q \<longleftrightarrow> name_eq (qname q') (qname q) \<and> qtype q' = qtype q \<and>
     qclass q' = qclass q \<and> (\<not> c \<longrightarrow> q' = q)"

text \<open>The octets an emitter appends do not depend on where they land.\<close>

definition rdata_bytes :: "rdata \<Rightarrow> bytes" where
  "rdata_bytes rd = (case emit rd new_writer of Inr w \<Rightarrow> wbuf w | Inl _ \<Rightarrow> [])"

definition rr_ok :: "bool \<Rightarrow> rr \<Rightarrow> bool" where
  "rr_ok owner x \<longleftrightarrow> wf_name (rr_name x) \<and> u16_ok (rr_type x) \<and> u16_ok (rr_class x) \<and>
     u32_ok (rr_ttl x) \<and> encodable (rr_type x) (rr_rdata x) \<and>
     length (rdata_bytes (rr_rdata x)) < 65536 \<and> (owner \<longrightarrow> rr_type x \<noteq> T_OPT)"

definition rr_same :: "bool \<Rightarrow> rr \<Rightarrow> rr \<Rightarrow> bool" where
  "rr_same c y x \<longleftrightarrow> name_eq (rr_name y) (rr_name x) \<and> rr_type y = rr_type x \<and>
     rr_class y = rr_class x \<and> rr_ttl y = rr_ttl x \<and> rr_rdata y = rr_rdata x \<and> (\<not> c \<longrightarrow> y = x)"

lemma new_writer_buf [simp]: "wbuf new_writer = []"
  by (simp add: new_writer_def)

lemma emit_TXT_bytes:
  "emit_TXT ss w = Inr w' \<Longrightarrow> wbuf w' = wbuf w @ concat (map (\<lambda>s. word_of_nat (length s) # s) ss)"
  unfolding emit_TXT_def
  by (induction ss arbitrary: w) (auto simp: rbind_eq_Inr split: if_splits)

lemma emit_TXT_ok: "emit_TXT ss w = Inr w' \<Longrightarrow> \<exists>v'. emit_TXT ss v = Inr v'"
  unfolding emit_TXT_def
  by (induction ss arbitrary: w v) (auto simp: rbind_eq_Inr split: if_splits)

lemma emit_bytes: "emit rd w = Inr w' \<Longrightarrow> wbuf w' = wbuf w @ rdata_bytes rd"
proof (cases rd)
  case (Rd_TXT ss)
  moreover assume "emit rd w = Inr w'"
  ultimately show ?thesis
    using emit_TXT_ok [of ss w w' new_writer] emit_TXT_bytes [of ss] by (auto simp: rdata_bytes_def)
next
  case (Rd_SPF ss)
  moreover assume "emit rd w = Inr w'"
  ultimately show ?thesis
    using emit_TXT_ok [of ss w w' new_writer] emit_TXT_bytes [of ss] by (auto simp: rdata_bytes_def)
qed (auto simp: rdata_bytes_def emit_defs split: if_splits)

lemma question_codec:
  assumes "names_ok w" and "question_ok q"
  shows "\<exists>bs w' q'. write_question c q w = Inr w' \<and> wbuf w' = wbuf w @ bs \<and> names_ok w' \<and>
      question_same c q' q \<and>
      (\<forall>s rest. read_question s (reader_at (wbuf w) (bs @ rest)) =
         Inr (s @ [q'], reader_at (wbuf w @ bs) rest))"
proof -
  have q: "wf_name (qname q)" "u16_ok (qtype q)" "u16_ok (qclass q)"
    using assms(2) by (simp_all add: question_ok_def)
  obtain b nm where n: "wbuf (write_name (qname q) c w) = wbuf w @ b"
    "names_ok (write_name (qname q) c w)" "name_eq nm (qname q)" "\<not> c \<longrightarrow> nm = qname q"
    "\<And>rest. read_name (reader_at (wbuf w) (b @ rest)) = Inr (nm, reader_at (wbuf w @ b) rest)"
    using write_name_sound [OF assms(1) q(1), of c] by blast
  have "names_ok (w_u16 (qclass q) (w_u16 (qtype q) (write_name (qname q) c w)))"
    by (rule names_ok_extend [OF n(2)]) simp_all
  moreover have "read_question s (reader_at (wbuf w) ((b @ pack_H (qtype q) @ pack_H (qclass q)) @ rest))
      = Inr (s @ [q\<lparr>qname := nm\<rparr>], reader_at (wbuf w @ b @ pack_H (qtype q) @ pack_H (qclass q)) rest)"
    for s rest
    using q n(5) by (simp add: read_question_def parse_steps)
  ultimately show ?thesis using n q
    by (intro exI [of _ "b @ pack_H (qtype q) @ pack_H (qclass q)"] exI [of _ "q\<lparr>qname := nm\<rparr>"])
      (auto simp: write_question_def question_same_def parse_steps)
qed

interpretation question_section: wire_section "write_question c" read_question
    "\<lambda>q qs. qs @ [q]" question_ok "question_same c" for c
  by unfold_locales (rule question_codec)

lemma pseek_here [wire_rt]:
  "p = int (length pre) \<Longrightarrow> pseek p (reader_at pre rest) = Inr ((), reader_at pre rest)"
  by (simp add: pseek_def seek_at)

lemma write_rr_bytes:
  assumes n: "wbuf (write_name (rr_name x) c w) = wbuf w @ b" and ok: "rr_ok owner x"
  shows "\<exists>w'. write_rr c x w = Inr w' \<and> wnames w' = wnames (write_name (rr_name x) c w) \<and>
    wbuf w' = wbuf w @ b @ pack_H (rr_type x) @ pack_H (rr_class x) @ pack_I (rr_ttl x) @
      pack_H (int (length (rdata_bytes (rr_rdata x)))) @ rdata_bytes (rr_rdata x)"
proof -
  let ?w1 = "w_u32 (rr_ttl x) (w_u16 (rr_class x) (w_u16 (rr_type x) (write_name (rr_name x) c w)))"
  let ?w2 = "?w1\<lparr>wbuf := wbuf ?w1 @ [0, 0]\<rparr>"
  let ?body = "rdata_bytes (rr_rdata x)"
  have len: "length ?body < 65536" and e: "encodable (rr_type x) (rr_rdata x)"
    using ok by (simp_all add: rr_ok_def)
  obtain w3 where w3: "emit (rr_rdata x) ?w2 = Inr w3" "wnames w3 = wnames ?w2"
    using rdata_sound [OF e, of ?w2] by blast
  have b3: "wbuf w3 = wbuf ?w1 @ [0, 0] @ ?body" using emit_bytes [OF w3(1)] by simp
  have "write_rr c x w = patch_u16 (length (wbuf ?w1)) (int (length (wbuf w3)) - int (length (wbuf ?w2))) w3"
    using w3(1) by (simp add: write_rr_def reserve_u16_def wtell_def Let_def add.commute)
  also have "int (length (wbuf w3)) - int (length (wbuf ?w2)) = int (length ?body)"
    by (simp add: b3)
  also have "patch_u16 (length (wbuf ?w1)) (int (length ?body)) w3 =
      Inr (w3\<lparr>wbuf := wbuf ?w1 @ pack_H (int (length ?body) mod 65536) @ ?body\<rparr>)"
    by (rule patch_reserved(2) [OF b3])
  finally show ?thesis using w3(2) ok n len
    by (auto simp: rr_ok_def parse_steps)
qed

lemma read_rr_written:
  assumes ok: "rr_ok owner x"
    and n: "\<And>rest. read_name (reader_at pre (b @ rest)) = Inr (nm, reader_at (pre @ b) rest)"
  shows "read_rr owner s (reader_at pre ((b @ pack_H (rr_type x) @ pack_H (rr_class x) @
      pack_I (rr_ttl x) @ pack_H (int (length (rdata_bytes (rr_rdata x)))) @
      rdata_bytes (rr_rdata x)) @ rest)) =
    Inr ((fst s @ [x\<lparr>rr_name := nm\<rparr>], snd s),
      reader_at (pre @ b @ pack_H (rr_type x) @ pack_H (rr_class x) @ pack_I (rr_ttl x) @
        pack_H (int (length (rdata_bytes (rr_rdata x)))) @ rdata_bytes (rr_rdata x)) rest)"
proof -
  let ?body = "rdata_bytes (rr_rdata x)"
  have e: "encodable (rr_type x) (rr_rdata x)" using ok by (simp add: rr_ok_def)
  obtain bs w' where "emit (rr_rdata x) new_writer = Inr w'" "wbuf w' = wbuf new_writer @ bs"
    and rt: "\<And>pre rest. parse_rdata (rr_type x) (int (length bs)) (reader_at pre (bs @ rest)) =
       Inr (rr_rdata x, reader_at (pre @ bs) rest)"
    using rdata_sound [OF e, of new_writer] by blast
  then have "bs = ?body" by (simp add: rdata_bytes_def)
  with rt have "\<And>pre rest. parse_rdata (rr_type x) (int (length ?body)) (reader_at pre (?body @ rest)) =
       Inr (rr_rdata x, reader_at (pre @ ?body) rest)" by simp
  moreover have "u16_ok (int (length ?body))" using ok by (simp add: rr_ok_def u16_ok_def)
  moreover have T: "(rr_type x = T_OPT \<and> owner) = False" using ok by (auto simp: rr_ok_def)
  moreover have "x\<lparr>rr_name := nm\<rparr> = \<lparr>rr_name = nm, rr_type = rr_type x, rr_class = rr_class x,
      rr_ttl = rr_ttl x, rr_rdata = rr_rdata x\<rparr>" by (cases x) simp
  ultimately show ?thesis using ok n
    by (simp add: read_rr_def parse_steps pseek_here rr_ok_def T)
qed

lemma rr_codec:
  assumes "names_ok w" and ok: "rr_ok owner x"
  shows "\<exists>bs w' y. write_rr c x w = Inr w' \<and> wbuf w' = wbuf w @ bs \<and> names_ok w' \<and>
      rr_same c y x \<and>
      (\<forall>s rest. read_rr owner s (reader_at (wbuf w) (bs @ rest)) =
         Inr ((fst s @ [y], snd s), reader_at (wbuf w @ bs) rest))"
proof -
  have "wf_name (rr_name x)" using ok by (simp add: rr_ok_def)
  with assms(1) obtain b nm where n: "wbuf (write_name (rr_name x) c w) = wbuf w @ b"
    "names_ok (write_name (rr_name x) c w)" "name_eq nm (rr_name x)" "\<not> c \<longrightarrow> nm = rr_name x"
    "\<And>rest. read_name (reader_at (wbuf w) (b @ rest)) = Inr (nm, reader_at (wbuf w @ b) rest)"
    using write_name_sound [of w "rr_name x" c] by blast
  obtain w' where w': "write_rr c x w = Inr w'" "wnames w' = wnames (write_name (rr_name x) c w)"
    "wbuf w' = wbuf w @ b @ pack_H (rr_type x) @ pack_H (rr_class x) @ pack_I (rr_ttl x) @
      pack_H (int (length (rdata_bytes (rr_rdata x)))) @ rdata_bytes (rr_rdata x)"
    using write_rr_bytes [OF n(1) ok] by blast
  have "names_ok w'" by (rule names_ok_extend [OF n(2) w'(2)]) (use w'(3) n(1) in simp)
  moreover have "rr_same c (x\<lparr>rr_name := nm\<rparr>) x" using n(3,4) by (simp add: rr_same_def)
  ultimately show ?thesis using w'(1,3) read_rr_written [OF ok n(5)] by blast
qed

interpretation rr_section: wire_section "write_rr c" "read_rr owner"
    "\<lambda>y s. (fst s @ [y], snd s)" "rr_ok owner" "rr_same c" for c owner
  by unfold_locales (rule rr_codec)

text \<open>The OPT pseudo-record.\<close>

definition option_ok :: "int \<times> bytes \<Rightarrow> bool" where
  "option_ok o' \<longleftrightarrow> u16_ok (fst o') \<and> u16_ok (int (length (snd o')))"

definition options_bytes :: "(int \<times> bytes) list \<Rightarrow> bytes" where
  "options_bytes os = concat (map (\<lambda>o'. pack_H (fst o') @ pack_H (int (length (snd o'))) @ snd o') os)"

definition edns_ok :: "edns \<Rightarrow> bool" where
  "edns_ok e \<longleftrightarrow> u16_ok (udp_size e) \<and> u8_ok (ext_rcode e) \<and> u8_ok (eversion e) \<and>
     u16_ok (eflags e) \<and> list_all option_ok (options e) \<and>
     u16_ok (int (length (options_bytes (options e))))"

lemma emit_options_bytes:
  "list_all option_ok os \<Longrightarrow> wbuf (emit_options os w) = wbuf w @ options_bytes os \<and>
     wnames (emit_options os w) = wnames w"
  unfolding emit_options_def options_bytes_def
  by (induction os arbitrary: w) (auto simp: option_ok_def parse_steps)

lemma parse_options_loop_bytes:
  "list_all option_ok os \<Longrightarrow>
     parse_options_loop out (reader_at pre (options_bytes os)) = Inr (out @ os)"
proof (induction os arbitrary: out pre)
  case Nil
  then show ?case
    by (subst parse_options_loop.simps) (simp add: options_bytes_def remaining_def rlen_def)
next
  case (Cons o' os)
  obtain c d where o': "o' = (c, d)" by (cases o')
  have ok: "u16_ok c" "u16_ok (int (length d))" using Cons.prems o' by (simp_all add: option_ok_def)
  have "r_read (int (length d)) (reader_at (pre @ pack_H c @ pack_H (int (length d)))
      (d @ options_bytes os)) = Inr (d, reader_at (pre @ pack_H c @ pack_H (int (length d)) @ d)
      (options_bytes os))"
    by (simp add: read_at)
  with ok Cons.IH [of "out @ [(c, d)]"] Cons.prems show ?case
    by (subst parse_options_loop.simps)
      (simp add: o' options_bytes_def remaining_def rlen_def parse_steps)
qed

lemma parse_options_bytes: "list_all option_ok os \<Longrightarrow> parse_options (options_bytes os) = Inr os"
  using parse_options_loop_bytes [of os "[]" "[]"] by (simp add: parse_options_def reader_at_def)

lemma or_add:
  assumes "0 \<le> b" "b < (2 :: int) ^ n"
  shows "push_bit n a OR b = a * 2 ^ n + b"
proof -
  have "concat_bit n b a = take_bit n b + push_bit n a" by (rule concat_bit_eq)
  moreover have "take_bit n b = b" using assms by (simp add: take_bit_eq_mod)
  ultimately show ?thesis by (simp add: concat_bit_def or.commute push_bit_eq_mult)
qed

lemma build_opt_ttl_sum:
  assumes "u8_ok rc" "u8_ok ver" "u16_ok fl"
  shows "build_opt_ttl rc ver fl = (rc * 256 + ver) * 65536 + fl"
proof -
  have m: "rc AND 255 = rc" "ver AND 255 = ver" "fl AND 65535 = fl"
    using assms by (simp_all add: and_FF and_FFFF u8_ok_def u16_ok_def)
  have "push_bit 24 rc OR push_bit 16 ver = push_bit 16 (push_bit 8 rc OR ver)"
    by (simp add: push_bit_or)
  also have "push_bit 8 rc OR ver = rc * 256 + ver"
    using assms(2) or_low_byte [of ver rc] by (simp add: u8_ok_def)
  finally show ?thesis
    using assms(3) or_add [of fl 16 "rc * 256 + ver"]
    unfolding build_opt_ttl_def m by (simp add: u16_ok_def)
qed

lemma opt_ttl_roundtrip:
  assumes "u8_ok rc" "u8_ok ver" "u16_ok fl"
  shows "u32_ok (build_opt_ttl rc ver fl)"
    and "parse_opt_ttl (build_opt_ttl rc ver fl) = (rc, ver, fl)"
proof -
  note r = assms [unfolded u8_ok_def u16_ok_def]
  have hi: "0 \<le> rc * 256 + ver" "rc * 256 + ver < 65536" using r by simp_all
  show "u32_ok (build_opt_ttl rc ver fl)"
    using r hi unfolding build_opt_ttl_sum [OF assms] u32_ok_def by simp
  have low: "(a * k + b) div k = a \<and> (a * k + b) mod k = b" if "0 \<le> b" "b < k" for a b k :: int
    using that by simp
  have d: "((rc * 256 + ver) * 65536 + fl) div 65536 = rc * 256 + ver"
    using low [of fl 65536 "rc * 256 + ver"] r by blast
  then have "((rc * 256 + ver) * 65536 + fl) div 16777216 = (rc * 256 + ver) div 256"
    using zdiv_zmult2_eq [of 256 "(rc * 256 + ver) * 65536 + fl" 65536] by simp
  moreover have "(rc * 256 + ver) div 256 = rc" "(rc * 256 + ver) mod 256 = ver" using r by simp_all
  moreover have "((rc * 256 + ver) * 65536 + fl) mod 65536 = fl"
    using low [of fl 65536 "rc * 256 + ver"] r by blast
  ultimately show "parse_opt_ttl (build_opt_ttl rc ver fl) = (rc, ver, fl)"
    using d r unfolding build_opt_ttl_sum [OF assms] parse_opt_ttl_def
    by (simp add: drop_bit_eq_div and_FF and_FFFF)
qed

definition opt_bytes :: "edns \<Rightarrow> bytes" where
  "opt_bytes e = 0 # pack_H T_OPT @ pack_H (udp_size e) @
     pack_I (build_opt_ttl (ext_rcode e) (eversion e) (eflags e)) @
     pack_H (int (length (options_bytes (options e)))) @ options_bytes (options e)"

lemma write_opt_bytes:
  assumes "edns_ok e"
  shows "\<exists>w'. write_opt e w = Inr w' \<and> wbuf w' = wbuf w @ opt_bytes e"
proof -
  let ?ttl = "build_opt_ttl (ext_rcode e) (eversion e) (eflags e)"
  let ?w1 = "w_u32 ?ttl (w_u16 (udp_size e) (w_u16 T_OPT (w_u8 0 w)))"
  let ?w2 = "?w1\<lparr>wbuf := wbuf ?w1 @ [0, 0]\<rparr>"
  let ?os = "options_bytes (options e)"
  have os: "list_all option_ok (options e)" "u16_ok (int (length ?os))" "u32_ok ?ttl"
    using assms opt_ttl_roundtrip(1) by (simp_all add: edns_ok_def)
  have b: "wbuf (emit_options (options e) ?w2) = wbuf ?w1 @ [0, 0] @ ?os"
    using emit_options_bytes [OF os(1), of ?w2] by simp
  have "write_opt e w = patch_u16 (length (wbuf ?w1))
      (int (length (wbuf (emit_options (options e) ?w2))) - int (length (wbuf ?w2)))
      (emit_options (options e) ?w2)"
    by (simp add: write_opt_def reserve_u16_def wtell_def Let_def add.commute)
  also have "int (length (wbuf (emit_options (options e) ?w2))) - int (length (wbuf ?w2))
      = int (length ?os)" unfolding b by simp
  finally show ?thesis
    using patch_reserved(2) [OF b, of "int (length ?os)"] os assms
    by (simp add: opt_bytes_def parse_steps edns_ok_def T_OPT_def)
qed

lemma read_opt_written:
  assumes "edns_ok e"
  shows "read_rr True (xs, None) (reader_at pre (opt_bytes e @ rest)) =
    Inr ((xs, Some e), reader_at (pre @ opt_bytes e) rest)"
proof -
  have root: "read_name (reader_at pre (0 # r)) = Inr ([], reader_at (pre @ [0]) r)" for r
    using read_name_wire [of "[]" pre r] by (simp add: wf_name_def MAX_NAME_def)
  have T: "u16_ok T_OPT" by (simp add: u16_ok_def T_OPT_def)
  have "e = \<lparr>udp_size = udp_size e, ext_rcode = ext_rcode e, eversion = eversion e,
      eflags = eflags e, options = options e\<rparr>" by simp
  with assms T show ?thesis
    using opt_ttl_roundtrip [of "ext_rcode e" "eversion e" "eflags e"]
    by (simp add: edns_ok_def read_rr_def opt_bytes_def root parse_steps pseek_here
        parse_options_bytes)
qed

subsection \<open>The whole message\<close>

definition msg_ok :: "message \<Rightarrow> bool" where
  "msg_ok m \<longleftrightarrow> u16_ok (mid m) \<and> u16_ok (mflags m) \<and>
     list_all question_ok (questions m) \<and> u16_ok (int (length (questions m))) \<and>
     list_all (rr_ok False) (answers m) \<and> u16_ok (int (length (answers m))) \<and>
     list_all (rr_ok False) (authority m) \<and> u16_ok (int (length (authority m))) \<and>
     list_all (rr_ok True) (additional m) \<and> u16_ok (int (length (additional m)) + 1) \<and>
     (\<forall>e. medns m = Some e \<longrightarrow> edns_ok e)"

definition msg_same :: "bool \<Rightarrow> message \<Rightarrow> message \<Rightarrow> bool" where
  "msg_same c m' m \<longleftrightarrow> mid m' = mid m \<and> mflags m' = mflags m \<and>
     list_all2 (question_same c) (questions m') (questions m) \<and>
     list_all2 (rr_same c) (answers m') (answers m) \<and>
     list_all2 (rr_same c) (authority m') (authority m) \<and>
     list_all2 (rr_same c) (additional m') (additional m) \<and> medns m' = medns m"

lemma fold_add_rr: "fold (\<lambda>y s. (fst s @ [y], snd s)) ys (xs, e) = (xs @ ys, e)"
  by (induction ys arbitrary: xs) simp_all

lemma fold_add_question: "fold (\<lambda>q qs. qs @ [q]) ys xs = xs @ ys"
  by (induction ys arbitrary: xs) simp_all

lemma questions_written:
  assumes "names_ok w" "list_all question_ok qs"
  shows "\<exists>bs w' ys. rfold (write_question c) qs w = Inr w' \<and> wbuf w' = wbuf w @ bs \<and> names_ok w' \<and>
    list_all2 (question_same c) ys qs \<and>
    (\<forall>rest. ploop (length qs) read_question [] (reader_at (wbuf w) (bs @ rest)) =
       Inr (ys, reader_at (wbuf w') rest))"
proof -
  obtain bs w' ys where "rfold (write_question c) qs w = Inr w'" "wbuf w' = wbuf w @ bs"
    "names_ok w'" "list_all2 (question_same c) ys qs"
    "\<forall>s k rest. ploop (length qs + k) read_question s (reader_at (wbuf w) (bs @ rest)) =
       ploop k read_question (fold (\<lambda>q qs. qs @ [q]) ys s) (reader_at (wbuf w @ bs) rest)"
    using question_section.put_section [OF assms] by blast
  moreover from this(5) have "\<forall>rest. ploop (length qs) read_question []
      (reader_at (wbuf w) (bs @ rest)) = Inr (ys, reader_at (wbuf w @ bs) rest)"
    by (metis add_0_right append_Nil fold_add_question ploop.simps(1) pret_def)
  ultimately show ?thesis by metis
qed

lemma rrs_written:
  assumes "names_ok w" "list_all (rr_ok owner) xs"
  shows "\<exists>bs w' ys. rfold (write_rr c) xs w = Inr w' \<and> wbuf w' = wbuf w @ bs \<and> names_ok w' \<and>
    list_all2 (rr_same c) ys xs \<and>
    (\<forall>k rest. ploop (length xs + k) (read_rr owner) ([], None) (reader_at (wbuf w) (bs @ rest)) =
       ploop k (read_rr owner) (ys, None) (reader_at (wbuf w') rest))"
proof -
  obtain bs w' ys where 1: "rfold (write_rr c) xs w = Inr w'" "wbuf w' = wbuf w @ bs"
    "names_ok w'" "list_all2 (rr_same c) ys xs"
    "\<And>s k rest. ploop (length xs + k) (read_rr owner) s (reader_at (wbuf w) (bs @ rest)) =
       ploop k (read_rr owner) (fold (\<lambda>y s. (fst s @ [y], snd s)) ys s) (reader_at (wbuf w @ bs) rest)"
    using rr_section.put_section [OF assms] by blast
  show ?thesis using 1(1-4) 1(5) [where s = "([], None)", unfolded fold_add_rr]
    by (intro exI [of _ bs] exI [of _ w'] exI [of _ ys]) simp
qed

lemma rrs_written_False:
  assumes "names_ok w" "list_all (rr_ok False) xs"
  shows "\<exists>bs w' ys. rfold (write_rr c) xs w = Inr w' \<and> wbuf w' = wbuf w @ bs \<and> names_ok w' \<and>
    list_all2 (rr_same c) ys xs \<and>
    (\<forall>rest. read_rrs (int (length xs)) False None (reader_at (wbuf w) (bs @ rest)) =
       Inr ((ys, None), reader_at (wbuf w') rest))"
  using rrs_written [OF assms, of c]
  by (metis add_0_right nat_int ploop.simps(1) pret_def read_rrs_def)

text \<open>The additional section and the OPT record behind it.\<close>

definition write_edns :: "edns option \<Rightarrow> writer \<Rightarrow> writer result" where
  "write_edns ed w = (case ed of None \<Rightarrow> Inr w | Some e \<Rightarrow> write_opt e w)"

definition edns_count :: "edns option \<Rightarrow> int" where
  "edns_count ed = (if ed \<noteq> None then 1 else 0)"

lemma additional_written:
  assumes "names_ok w" "list_all (rr_ok True) xs" "\<And>e. ed = Some e \<Longrightarrow> edns_ok e"
  shows "\<exists>bs w1 w' ys. rfold (write_rr c) xs w = Inr w1 \<and> write_edns ed w1 = Inr w' \<and>
    wbuf w' = wbuf w @ bs \<and> list_all2 (rr_same c) ys xs \<and>
    read_rrs (int (length xs) + edns_count ed) True None (reader_at (wbuf w) bs) =
       Inr ((ys, ed), reader_at (wbuf w') [])"
proof -
  obtain bs w1 ys where 1: "rfold (write_rr c) xs w = Inr w1" "wbuf w1 = wbuf w @ bs"
    "list_all2 (rr_same c) ys xs"
    "\<And>k rest. ploop (length xs + k) (read_rr True) ([], None) (reader_at (wbuf w) (bs @ rest)) =
       ploop k (read_rr True) (ys, None) (reader_at (wbuf w1) rest)"
    using rrs_written [OF assms(1,2), of c] by blast
  show ?thesis
  proof (cases ed)
    case None
    with 1(1,2,3) 1(4) [of 0 "[]"] show ?thesis
      by (simp add: write_edns_def edns_count_def read_rrs_def pret_def)
  next
    case (Some e)
    with assms(3) have e: "edns_ok e" by simp
    then obtain w' where w': "write_opt e w1 = Inr w'" "wbuf w' = wbuf w1 @ opt_bytes e"
      using write_opt_bytes by blast
    have n: "nat (int (length xs) + 1) = length xs + Suc 0" by simp
    have "read_rrs (int (length xs) + edns_count ed) True None (reader_at (wbuf w) (bs @ opt_bytes e))
        = Inr ((ys, ed), reader_at (wbuf w') [])"
      using Some 1(4) [of "Suc 0" "opt_bytes e"] read_opt_written [OF e, of ys "wbuf w1" "[]"] w'(2)
      by (simp add: edns_count_def read_rrs_def n pbind_def pret_def del: add_Suc_right)
    with Some 1 w' show ?thesis by (simp add: write_edns_def)
  qed
qed

lemma encode_sections:
  assumes "list_all (rr_ok True) (additional m)"
  shows "encode c m =
    (let w = w_u16 (int (length (additional m)) + edns_count (medns m))
               (w_u16 (int (length (authority m))) (w_u16 (int (length (answers m)))
               (w_u16 (int (length (questions m))) (w_u16 (mflags m) (w_u16 (mid m) new_writer)))))
     in rbind (rfold (write_question c) (questions m) w) (\<lambda>w.
        rbind (rfold (write_rr c) (answers m) w) (\<lambda>w.
        rbind (rfold (write_rr c) (authority m) w) (\<lambda>w.
        rbind (rfold (write_rr c) (additional m) w) (\<lambda>w.
        rbind (write_edns (medns m) w) (\<lambda>w. Inr (wbuf w)))))))"
proof -
  have "filter (\<lambda>x. rr_type x \<noteq> T_OPT) (additional m) = additional m"
    using assms by (auto simp: filter_id_conv list_all_iff rr_ok_def)
  then show ?thesis
    by (simp add: encode_def Let_def edns_count_def write_edns_def)
qed

lemma message_sound:
  assumes ok: "msg_ok m"
  shows "\<exists>d m'. encode c m = Inr d \<and> parse_message d = Inr m' \<and> msg_same c m' m"
proof -
  let ?hdr = "pack_H (mid m) @ pack_H (mflags m) @ pack_H (int (length (questions m))) @
    pack_H (int (length (answers m))) @ pack_H (int (length (authority m))) @
    pack_H (int (length (additional m)) + edns_count (medns m))"
  obtain w0 where w0: "w0 = w_u16 (int (length (additional m)) + edns_count (medns m))
      (w_u16 (int (length (authority m))) (w_u16 (int (length (answers m)))
      (w_u16 (int (length (questions m))) (w_u16 (mflags m) (w_u16 (mid m) new_writer)))))" by simp
  have cnt: "u16_ok (int (length (additional m)) + edns_count (medns m))"
    using ok by (auto simp: msg_ok_def edns_count_def u16_ok_def)
  have b0: "wbuf w0 = ?hdr" using ok cnt by (simp add: w0 msg_ok_def parse_steps)
  have "names_ok w0" using names_ok_extend [OF names_ok_new, of w0 ?hdr] b0 by (simp add: w0)
  with ok obtain b1 w1 qs where 1: "rfold (write_question c) (questions m) w0 = Inr w1"
    "wbuf w1 = wbuf w0 @ b1" "names_ok w1" "list_all2 (question_same c) qs (questions m)"
    "\<And>rest. ploop (length (questions m)) read_question [] (reader_at (wbuf w0) (b1 @ rest)) =
       Inr (qs, reader_at (wbuf w1) rest)"
    using questions_written unfolding msg_ok_def by metis
  obtain b2 w2 an where 2: "rfold (write_rr c) (answers m) w1 = Inr w2"
    "wbuf w2 = wbuf w1 @ b2" "names_ok w2" "list_all2 (rr_same c) an (answers m)"
    "\<And>rest. read_rrs (int (length (answers m))) False None (reader_at (wbuf w1) (b2 @ rest)) =
       Inr ((an, None), reader_at (wbuf w2) rest)"
    using rrs_written_False [OF 1(3)] ok unfolding msg_ok_def by metis
  obtain b3 w3 au where 3: "rfold (write_rr c) (authority m) w2 = Inr w3"
    "wbuf w3 = wbuf w2 @ b3" "names_ok w3" "list_all2 (rr_same c) au (authority m)"
    "\<And>rest. read_rrs (int (length (authority m))) False None (reader_at (wbuf w2) (b3 @ rest)) =
       Inr ((au, None), reader_at (wbuf w3) rest)"
    using rrs_written_False [OF 2(3)] ok unfolding msg_ok_def by metis
  obtain b4 w4 w5 ad where 4: "rfold (write_rr c) (additional m) w3 = Inr w4"
    "write_edns (medns m) w4 = Inr w5" "wbuf w5 = wbuf w3 @ b4"
    "list_all2 (rr_same c) ad (additional m)"
    "read_rrs (int (length (additional m)) + edns_count (medns m)) True None (reader_at (wbuf w3) b4) =
       Inr ((ad, medns m), reader_at (wbuf w5) [])"
    using additional_written [OF 3(3)] ok unfolding msg_ok_def by metis
  have d: "encode c m = Inr (wbuf w5)"
    using 1(1) 2(1) 3(1) 4(1,2) ok
    by (subst encode_sections) (simp_all add: msg_ok_def Let_def w0 [symmetric])
  have all: "wbuf w5 = ?hdr @ b1 @ b2 @ b3 @ b4" by (simp add: 1(2) 2(2) 3(2) 4(3) b0)
  let ?m = "\<lparr>mid = mid m, mflags = mflags m, questions = qs, answers = an, authority = au,
      additional = ad, medns = medns m\<rparr>"
  have "parse_body (reader_at [] (?hdr @ b1 @ b2 @ b3 @ b4)) = Inr (?m, reader_at (wbuf w5) [])"
    using ok cnt 1(5) 2(5) 3(5) 4(5) b0
    by (simp add: parse_body_def msg_ok_def parse_steps)
  moreover have "\<lparr>rbuf = wbuf w5, rpos = 0\<rparr> = reader_at [] (?hdr @ b1 @ b2 @ b3 @ b4)"
    by (simp add: reader_at_def all)
  moreover have "\<not> length (wbuf w5) < HEADER_LEN" by (simp add: all HEADER_LEN_def)
  ultimately have "parse_message (wbuf w5) = Inr ?m" by (simp add: parse_message_def)
  with d 1(4) 2(4) 3(4) 4(4) show ?thesis by (auto simp: msg_same_def)
qed

end
