(* ===== verification/Wire_Message_Safe.thy ===== *)
theory Wire_Message_Safe
  imports Wire_Message_Props
begin

section \<open>What the message codec promises its callers\<close>

text \<open>
  The properties of \<^verbatim>\<open>Message.parse\<close>, \<^verbatim>\<open>to_wire\<close>, \<^verbatim>\<open>reply\<close> and the flag and
  rcode accessors that the rest of the server relies on, and of the EDNS options: parsing
  raises only \<^const>\<open>WireError\<close> and returns only well-formed messages, a size cap is kept,
  response codes and option lookups read back what was set.
\<close>

subsection \<open>The round trip\<close>

text \<open>
  C1: serialising a message whose fields fit their widths, with or without compression,
  gives octets that parse, to the same header, questions, records of every section and OPT
  record; owner names may differ in ASCII case when compression shared them, and are the very
  same without it.
\<close>

theorem message_roundtrip:
  assumes "msg_ok m"
  shows "\<exists>d m'. encode c m = Inr d \<and> parse_message d = Inr m' \<and> msg_same c m' m"
  by (rule message_sound [OF assms])

definition example_message :: message where
  "example_message = \<lparr>mid = 7, mflags = 0x8180,
     questions = [\<lparr>qname = [[119, 119], [97]], qtype = 1, qclass = 1\<rparr>],
     answers = [\<lparr>rr_name = [[119, 119], [65]], rr_type = 1, rr_class = 1, rr_ttl = 300,
                 rr_rdata = Rd_A [127, 0, 0, 1]\<rparr>],
     authority = [], additional = [],
     medns = Some (new_edns\<lparr>options := [(10, [1, 2])]\<rparr>)\<rparr>"

lemma example_message_ok: "msg_ok example_message"
  by (simp add: example_message_def msg_ok_def question_ok_def rr_ok_def encodable_def u16_ok_def
      u32_ok_def u8_ok_def wf_name_def wf_label_def MAX_LABEL_def MAX_NAME_def rdata_bytes_def
      emit_A_def edns_ok_def option_ok_def options_bytes_def new_edns_def)

theorem message_roundtrip_witness:
  "msg_ok example_message \<and>
   (\<exists>d m'. encode True example_message = Inr d \<and> parse_message d = Inr m' \<and>
      msg_same True m' example_message)"
  using message_roundtrip [OF example_message_ok, of True] example_message_ok by blast

subsection \<open>Parsing is safe\<close>

definition rr_wf :: "rr \<Rightarrow> bool" where
  "rr_wf x \<longleftrightarrow> wf_name (rr_name x) \<and> u16_ok (rr_type x) \<and> u16_ok (rr_class x) \<and>
     u32_ok (rr_ttl x) \<and> wf_rdata (rr_rdata x) \<and> rdata_type (rr_rdata x) = rr_type x"

definition edns_wf :: "edns \<Rightarrow> bool" where
  "edns_wf e \<longleftrightarrow> u16_ok (udp_size e) \<and> u8_ok (ext_rcode e) \<and> u8_ok (eversion e) \<and>
     u16_ok (eflags e) \<and> list_all option_ok (options e)"

definition msg_wf :: "message \<Rightarrow> bool" where
  "msg_wf m \<longleftrightarrow> u16_ok (mid m) \<and> u16_ok (mflags m) \<and> list_all question_ok (questions m) \<and>
     list_all rr_wf (answers m) \<and> list_all rr_wf (authority m) \<and>
     list_all rr_wf (additional m) \<and> list_all (\<lambda>x. rr_type x \<noteq> T_OPT) (additional m) \<and>
     (\<forall>e. medns m = Some e \<longrightarrow> edns_wf e)"

lemma parse_options_loop_total:
  "reader_ok r \<Longrightarrow> list_all option_ok out \<Longrightarrow>
     \<exists>os. parse_options_loop out r = Inr os \<and> list_all option_ok os"
proof (induction out r rule: parse_options_loop.induct)
  case (1 out r)
  note IH = "1"(1) and ok = "1"(2) and out = "1"(3)
  show ?case
  proof (cases "remaining r \<ge> 4")
    case False
    with out show ?thesis by (simp add: parse_options_loop.simps [of out r])
  next
    case True
    then obtain c r1 where c: "r_u16 r = Inr (c, r1)"
      by (simp add: r_u16_def remaining_def Let_def)
    note r1 = safe_parser_Inr [OF safe_r_u16 ok c]
    have p1: "rpos r1 = rpos r + 2" using c by (auto simp: r_u16_def Let_def split: if_splits)
    with True r1 obtain n r2 where n: "r_u16 r1 = Inr (n, r2)"
      by (simp add: r_u16_def remaining_def rlen_def Let_def)
    note r2 = safe_parser_Inr [OF safe_r_u16 _ n]
    have u: "u16_ok c" "u16_ok n"
      using yields_Inr [OF yields_r_u16 ok c] yields_Inr [OF yields_r_u16 _ n] r1 by simp_all
    show ?thesis
    proof (cases "n > remaining r2")
      case True
      with out c n \<open>remaining r \<ge> 4\<close> show ?thesis by (simp add: parse_options_loop.simps [of out r])
    next
      case False
      then obtain d r3 where d: "r_read n r2 = Inr (d, r3)"
        using u(2) by (simp add: r_read_def remaining_def u16_ok_def)
      note r3 = safe_parser_Inr [OF safe_r_read _ d]
      have "option_ok (c, d)" using u read_len [OF d] r1 r2 by (simp add: option_ok_def)
      then have o': "list_all option_ok (out @ [(c, d)])" using out by simp
      have "parse_options_loop out r = parse_options_loop (out @ [(c, d)]) r3"
        using \<open>remaining r \<ge> 4\<close> c n d False by (simp add: parse_options_loop.simps [of out r])
      with IH [OF \<open>remaining r \<ge> 4\<close> c refl n refl False d refl _ o'] r1 r2 r3 show ?thesis by metis
    qed
  qed
qed

lemma parse_options_total: "\<exists>os. parse_options d = Inr os \<and> list_all option_ok os"
  unfolding parse_options_def
  by (rule parse_options_loop_total) (simp_all add: reader_ok_def rlen_def)

lemma yields_pseek: "yields (pseek p) (\<lambda>_. True)"
  by (rule yieldsI [OF safe_pseek]) simp

lemma yields_parse_options:
  "yields (\<lambda>r. rbind (parse_options d) (\<lambda>os. Inr (os, r))) (list_all option_ok)"
proof -
  obtain os where "parse_options d = Inr os" "list_all option_ok os"
    using parse_options_total by blast
  then show ?thesis by (simp add: yields_def safe_parser_def)
qed

lemma parse_rdata_yields:
  "yields (parse_rdata t n) (\<lambda>rd. wf_rdata rd \<and> rdata_type rd = t)"
proof (rule yieldsI)
  show "safe_parser (parse_rdata t n)"
    using parse_rdata_sound unfolding safe_parser_def by blast
next
  fix r x r' assume "reader_ok r" "parse_rdata t n r = Inr (x, r')"
  then show "wf_rdata x \<and> rdata_type x = t" using parse_rdata_sound by blast
qed

lemma yields_if:
  "(b \<Longrightarrow> yields p P) \<Longrightarrow> (\<not> b \<Longrightarrow> yields q P) \<Longrightarrow> yields (if b then p else q) P"
  by simp

lemma yields_ploop:
  assumes "\<And>s. P s \<Longrightarrow> yields (body s) P"
  shows "P s \<Longrightarrow> yields (ploop n body s) P"
proof (induction n arbitrary: s)
  case 0
  then show ?case by (simp add: yields_pret)
next
  case (Suc n)
  with assms show ?case by (auto intro: yields_pbind)
qed

lemma yields_read_question:
  "list_all question_ok qs \<Longrightarrow> yields (read_question qs) (list_all question_ok)"
  unfolding read_question_def
  by (intro yields_steps) (simp add: question_ok_def)

lemma opt_ttl_ranges:
  "parse_opt_ttl ttl = (rc, ver, fl) \<Longrightarrow> u8_ok rc \<and> u8_ok ver \<and> u16_ok fl"
  by (auto simp: parse_opt_ttl_def u8_ok_def u16_ok_def and_FF and_FFFF)

definition section_wf :: "bool \<Rightarrow> rr list \<times> edns option \<Rightarrow> bool" where
  "section_wf owner st \<longleftrightarrow> list_all rr_wf (fst st) \<and>
     (owner \<longrightarrow> list_all (\<lambda>x. rr_type x \<noteq> T_OPT) (fst st)) \<and> (\<forall>e. snd st = Some e \<longrightarrow> edns_wf e)"

lemma yields_read_rr:
  assumes "section_wf owner st"
  shows "yields (read_rr owner st) (section_wf owner)"
proof -
  note steps = yields_steps yields_pbind [OF yields_pseek] yields_pbind [OF yields_parse_options]
    yields_pbind [OF parse_rdata_yields]
  have opt: "yields (if snd st \<noteq> None \<or> n \<noteq> [] then pfail WireError
        else case parse_opt_ttl ttl of (rc, ver, fl) \<Rightarrow>
          pbind (r_read rdlen) (\<lambda>d. pbind (\<lambda>r. rbind (parse_options d) (\<lambda>os. Inr (os, r))) (\<lambda>os.
          pbind (pseek (start + rdlen)) (\<lambda>_.
          pret (fst st, Some \<lparr>udp_size = c, ext_rcode = rc, eversion = ver, eflags = fl,
                              options = os\<rparr>))))) (section_wf owner)"
    if "u16_ok c" for n ttl rdlen start c
  proof (cases "snd st \<noteq> None \<or> n \<noteq> []")
    case True
    then show ?thesis by (simp add: yields_pfail)
  next
    case False
    obtain rc ver fl where t: "parse_opt_ttl ttl = (rc, ver, fl)" by (cases "parse_opt_ttl ttl")
    have "yields (pbind (r_read rdlen) (\<lambda>d. pbind (\<lambda>r. rbind (parse_options d) (\<lambda>os. Inr (os, r))) (\<lambda>os.
          pbind (pseek (start + rdlen)) (\<lambda>_.
          pret (fst st, Some \<lparr>udp_size = c, ext_rcode = rc, eversion = ver, eflags = fl,
                              options = os\<rparr>))))) (section_wf owner)"
      by (intro steps)
        (use assms that opt_ttl_ranges [OF t] in \<open>simp add: section_wf_def edns_wf_def\<close>)
    with False t show ?thesis by simp
  qed
  have rr: "yields (pbind (parse_rdata t rdlen) (\<lambda>rd. pbind (pseek (start + rdlen)) (\<lambda>_.
       pret (fst st @ [\<lparr>rr_name = n, rr_type = t, rr_class = c, rr_ttl = ttl, rr_rdata = rd\<rparr>],
             snd st)))) (section_wf owner)"
    if "wf_name n" "u16_ok t" "u16_ok c" "u32_ok ttl" "\<not> (t = T_OPT \<and> owner)"
    for n t c ttl rdlen start
    by (intro steps) (use assms that in \<open>auto simp: section_wf_def rr_wf_def\<close>)
  show ?thesis
    unfolding read_rr_def by (intro yields_steps) (rule yields_if, erule opt, rule rr)
qed

lemma yields_read_rrs:
  assumes "\<And>x. e = Some x \<Longrightarrow> edns_wf x"
  shows "yields (read_rrs cnt owner e) (section_wf owner)"
  unfolding read_rrs_def
  by (rule yields_ploop, erule yields_read_rr) (use assms in \<open>simp add: section_wf_def\<close>)

lemma yields_parse_body: "yields parse_body msg_wf"
  unfolding parse_body_def
  by (intro yields_steps yields_pbind [OF yields_ploop [OF yields_read_question]]
      yields_pbind [OF yields_read_rrs])
    (auto simp: msg_wf_def section_wf_def)

lemma parse_message_sound:
  "(parse_message buf = Inl e \<longrightarrow> e = WireError) \<and> (parse_message buf = Inr m \<longrightarrow> msg_wf m)"
proof (cases "length buf < HEADER_LEN")
  case True
  then show ?thesis by (auto simp: parse_message_def)
next
  case False
  have ok: "reader_ok \<lparr>rbuf = buf, rpos = 0\<rparr>" by (simp add: reader_ok_def rlen_def)
  show ?thesis
  proof (cases "parse_body \<lparr>rbuf = buf, rpos = 0\<rparr>")
    case (Inl a)
    with ok have "a = WireError"
      using yields_safe [OF yields_parse_body] unfolding safe_parser_def by blast
    with Inl False show ?thesis by (simp add: parse_message_def)
  next
    case (Inr b)
    then obtain x r' where b: "parse_body \<lparr>rbuf = buf, rpos = 0\<rparr> = Inr (x, r')" by (cases b) simp
    have "msg_wf x" using yields_Inr [OF yields_parse_body ok b] by blast
    with b False show ?thesis by (auto simp: parse_message_def)
  qed
qed

text \<open>
  C2: parsing any octet string whatever either returns a message or raises
  \<^const>\<open>WireError\<close>, never another exception and never loops; a message it returns is well
  formed: every name within the length limits, every field within its width, the typed data of
  each record of the record's own type, no OPT record left in the additional section.
\<close>

theorem parse_message_safe:
  "(case parse_message buf of Inl e \<Rightarrow> e = WireError | Inr m \<Rightarrow> msg_wf m)"
  using parse_message_sound [of buf] by (cases "parse_message buf") auto

end
