(* ===== verification/Wire_Message_Ops.thy ===== *)
theory Wire_Message_Ops
  imports Wire_Message_Safe
begin

section \<open>Accessors, replies, truncation and EDNS options\<close>

text \<open>
  The properties of \<^verbatim>\<open>Message.to_wire\<close>, \<^verbatim>\<open>reply\<close>, \<^verbatim>\<open>set_rcode\<close> and
  \<^verbatim>\<open>min_ttl\<close> (\<^verbatim>\<open>trench/wire/message.py\<close>) and of the EDNS options and ECS
  (\<^verbatim>\<open>trench/wire/edns.py\<close>). The flag constants are shown to be shifted masks, after
  which every fact about flags is an equation between bits.
\<close>

subsection \<open>Flags and response codes\<close>

lemma flag_masks:
  "F_QR = push_bit 15 1" "F_AA = push_bit 10 1" "F_TC = push_bit 9 1" "F_RD = push_bit 8 1"
  "F_RA = push_bit 7 1" "F_AD = push_bit 5 1" "F_CD = push_bit 4 1"
  "OPCODE_MASK = push_bit 11 (mask 4)" "RCODE_MASK = mask 4" "DO_BIT = push_bit 15 1"
  by (simp_all add: flag_defs DO_BIT_def push_bit_eq_mult mask_eq_exp_minus_1)

lemma bit_single: "bit (push_bit k 1 :: int) n \<longleftrightarrow> n = k"
  by (auto simp: bit_simps)

lemma bit_window: "bit (push_bit k (mask j) :: int) n \<longleftrightarrow> k \<le> n \<and> n < k + j"
  by (auto simp: bit_simps)

text \<open>Which bits each constant has.\<close>

lemma flag_bits:
  "bit F_QR n \<longleftrightarrow> n = 15" "bit F_AA n \<longleftrightarrow> n = 10" "bit F_TC n \<longleftrightarrow> n = 9" "bit F_RD n \<longleftrightarrow> n = 8"
  "bit F_RA n \<longleftrightarrow> n = 7" "bit F_AD n \<longleftrightarrow> n = 5" "bit F_CD n \<longleftrightarrow> n = 4"
  "bit OPCODE_MASK n \<longleftrightarrow> 11 \<le> n \<and> n < 15" "bit RCODE_MASK n \<longleftrightarrow> n < 4" "bit DO_BIT n \<longleftrightarrow> n = 15"
  unfolding flag_masks bit_single bit_window by (simp_all add: bit_simps)

lemma nibble: "rc AND 15 = rc AND (mask 4 :: int)" "v AND 255 = v AND (mask 8 :: int)"
  by (simp_all add: mask_eq_exp_minus_1)

lemma has_single_bit: "(x :: int) AND push_bit k 1 \<noteq> 0 \<longleftrightarrow> bit x k"
proof -
  have "x AND push_bit k 1 = (if bit x k then push_bit k 1 else 0)"
    by (rule bit_eqI) (auto simp: bit_simps)
  then show ?thesis by simp
qed

lemma has_flag_bit:
  "has_flag F_QR m \<longleftrightarrow> bit (mflags m) 15" "has_flag F_TC m \<longleftrightarrow> bit (mflags m) 9"
  "has_flag F_RD m \<longleftrightarrow> bit (mflags m) 8"
  unfolding has_flag_def flag_masks has_single_bit by simp_all

lemma bits_below:
  assumes "0 \<le> rc" "rc < 2 ^ k" "bit (rc :: int) n"
  shows "n < k"
proof -
  have "take_bit k rc = rc" using assms by (simp add: take_bit_int_eq_self)
  with assms(3) show ?thesis by (metis bit_take_bit_iff)
qed

lemma rcode_set_rcode: "0 \<le> rc \<Longrightarrow> rc < 4096 \<Longrightarrow> rcode (set_rcode rc m) = rc"
proof -
  assume r: "0 \<le> rc" "rc < 4096"
  have below: "n < 12" if "bit rc n" for n using bits_below [of rc 12 n] r that by simp
  have low: "((f AND NOT (mask 4)) OR (rc AND mask 4)) AND mask 4 = rc AND mask 4" for f :: int
    by (rule bit_eqI) (auto simp: bit_simps)
  have hi: "push_bit 4 (drop_bit 4 rc AND mask 8) OR (rc AND mask 4) = rc"
  proof (rule bit_eqI)
    fix n
    show "bit (push_bit 4 (drop_bit 4 rc AND mask 8) OR (rc AND mask 4)) n = bit rc n"
      using below [of n] by (auto simp: bit_simps)
  qed
  have small: "rc AND mask 4 = rc" if "rc \<le> 15"
    using that r by (simp add: take_bit_eq_mask [symmetric] take_bit_int_eq_self)
  show ?thesis
    using hi small low [of "mflags m"]
    by (cases "rc > 15"; cases "medns m")
      (simp_all add: rcode_def set_rcode_def Let_def flag_masks nibble low)
qed

text \<open>
  The twelve-bit response code that \<open>set_rcode\<close> stores, split between the header and the
  OPT record it adds when four bits are not enough, reads back unchanged, also when the message
  carried another extended code before; and nothing else of the message moves.
\<close>

theorem rcode_roundtrip:
  assumes "0 \<le> rc" "rc < 4096"
  shows "rcode (set_rcode rc m) = rc \<and> mid (set_rcode rc m) = mid m \<and>
    questions (set_rcode rc m) = questions m \<and> answers (set_rcode rc m) = answers m \<and>
    opcode (set_rcode rc m) = opcode m \<and>
    (medns m = None \<longrightarrow> rc < 16 \<longrightarrow> medns (set_rcode rc m) = None)"
proof -
  have "bit (mflags (set_rcode rc m)) n = bit (mflags m) n" if "11 \<le> n" for n
    using that by (cases "medns m")
      (auto simp: set_rcode_def Let_def bit_or_iff bit_and_iff bit_not_iff flag_bits nibble bit_mask_iff)
  then have "opcode (set_rcode rc m) = opcode m"
    unfolding opcode_def by (intro bit_eqI) (auto simp: bit_simps flag_bits)
  then show ?thesis
    using rcode_set_rcode [OF assms]
    by (cases "medns m") (simp_all add: set_rcode_def Let_def)
qed

theorem rcode_roundtrip_witness:
  "rcode (set_rcode 16 example_message) = 16 \<and> (0 :: int) \<le> 16 \<and> (16 :: int) < 4096"
  using rcode_roundtrip [of 16 example_message] by simp

lemma flags_of_reply:
  "mflags (reply rc m) =
     (((((F_QR OR F_RA) OR (if has_flag F_RD m then F_RD else 0)) AND NOT OPCODE_MASK)
       OR push_bit 11 (opcode m)) AND NOT RCODE_MASK) OR (rc AND 15)"
  by (cases "medns m") (simp_all add: reply_def set_flag_def set_rcode_def Let_def)

text \<open>
  A reply carries the query's id, questions, opcode and recursion-desired bit, has the
  response bit set, no records in any section, the response code asked for, and an OPT record
  exactly when the query had one or the code needs one, with the query's DO bit.
\<close>

theorem reply_mirrors_query:
  assumes "0 \<le> rc" "rc < 4096"
  shows "mid (reply rc m) = mid m \<and> questions (reply rc m) = questions m \<and>
    opcode (reply rc m) = opcode m \<and> has_flag F_RD (reply rc m) = has_flag F_RD m \<and>
    has_flag F_QR (reply rc m) \<and> \<not> has_flag F_TC (reply rc m) \<and> rcode (reply rc m) = rc \<and>
    answers (reply rc m) = [] \<and> authority (reply rc m) = [] \<and> additional (reply rc m) = [] \<and>
    (medns (reply rc m) \<noteq> None \<longleftrightarrow> medns m \<noteq> None \<or> rc > 15) \<and>
    wants_dnssec (reply rc m) = wants_dnssec m"
proof (intro conjI)
  let ?F = "mflags (reply rc m)"
  have bits: "bit ?F n = (if n < 4 then bit rc n else if 11 \<le> n \<and> n < 15 then bit (mflags m) n
      else n = 15 \<or> n = 7 \<or> (n = 8 \<and> bit (mflags m) 8))" for n
    unfolding flags_of_reply nibble
    by (auto simp: bit_or_iff bit_and_iff bit_not_iff flag_bits bit_mask_iff bit_push_bit_iff
        opcode_def bit_drop_bit_eq has_flag_bit)
  show "opcode (reply rc m) = opcode m"
    unfolding opcode_def
    by (rule bit_eqI) (auto simp: bits bit_drop_bit_eq bit_and_iff flag_bits)
  show "has_flag F_RD (reply rc m) = has_flag F_RD m" "has_flag F_QR (reply rc m)"
    "\<not> has_flag F_TC (reply rc m)"
    unfolding has_flag_bit bits by simp_all
  show "rcode (reply rc m) = rc"
    unfolding reply_def Let_def by (rule rcode_set_rcode [OF assms])
  have D: "edns_do (set_do b e) = b" "edns_do (e\<lparr>ext_rcode := k\<rparr>) = edns_do e" for b e k
    unfolding edns_do_def set_do_def flag_masks has_single_bit by (simp_all add: bit_simps)
  have N: "edns_do new_edns = False" by (simp add: edns_do_def new_edns_def)
  show "wants_dnssec (reply rc m) = wants_dnssec m"
    by (cases "medns m") (simp_all add: reply_def set_rcode_def set_flag_def Let_def wants_dnssec_def D N)
qed (cases "medns m"; simp add: reply_def set_rcode_def set_flag_def Let_def)+

theorem reply_mirrors_query_witness:
  "mid (reply 3 example_message) = 7 \<and> has_flag F_RD (reply 3 example_message) \<and>
   rcode (reply 3 example_message) = 3 \<and> (0 :: int) \<le> 3 \<and> (3 :: int) < 4096"
  using reply_mirrors_query [of 3 example_message]
  by (simp add: example_message_def has_flag_def flag_defs)

subsection \<open>Size caps\<close>

lemma encode_empty: "encode c \<lparr>mid = i, mflags = f, questions = [], answers = [], authority = [],
    additional = [], medns = None\<rparr> =
  Inr (pack_H (i mod 65536) @ pack_H (f mod 65536) @ [0, 0, 0, 0, 0, 0, 0, 0])"
  by (simp add: encode_def Let_def new_writer_def) (simp add: pack_H_def)

lemma u16_or:
  assumes "u16_ok a" "u16_ok b"
  shows "u16_ok (a OR b)"
proof -
  have "take_bit 16 a = a" "take_bit 16 b = b"
    using assms by (simp_all add: u16_ok_def take_bit_int_eq_self)
  then have "take_bit 16 (a OR b) = a OR b" by simp
  then have "0 \<le> a OR b \<and> a OR b < 2 ^ 16"
    by (metis take_bit_int_less_exp take_bit_nonnegative)
  then show ?thesis by (simp add: u16_ok_def)
qed

text \<open>The shapes \<^verbatim>\<open>to_wire\<close> falls back to.\<close>

definition bare :: "message \<Rightarrow> message" where
  "bare m = m\<lparr>mflags := mflags m OR F_TC, answers := [], authority := [], additional := []\<rparr>"

lemma retry_cases:
  "rbind e (\<lambda>d. if int (length d) > cap then k else Inr d) = Inr d \<Longrightarrow>
     (e = Inr d \<and> int (length d) \<le> cap) \<or> k = Inr d"
  by (cases e) (auto split: if_splits)

lemma to_wire_cases:
  assumes "to_wire (Some cap) c m = Inr d"
  shows "(encode c m = Inr d \<and> int (length d) \<le> cap) \<or>
     (\<exists>b. b \<in> {(bare m)\<lparr>medns := map_option (\<lambda>e. e\<lparr>options := []\<rparr>) (medns m)\<rparr>,
               (bare m)\<lparr>medns := None\<rparr>, (bare m)\<lparr>questions := [], medns := None\<rparr>} \<and>
          encode c b = Inr d \<and> (int (length d) \<le> cap \<or> b = (bare m)\<lparr>questions := [], medns := None\<rparr>))"
  using assms unfolding to_wire_def Let_def option.case bare_def [symmetric]
  by (blast dest: retry_cases)

lemma to_wire_fits:
  assumes "to_wire (Some cap) c m = Inr d" and cap: "12 \<le> cap"
  shows "int (length d) \<le> cap"
proof -
  have "length d = 12" if "encode c ((bare m)\<lparr>questions := [], medns := None\<rparr>) = Inr d"
    using that encode_empty [of c "mid m" "mflags m OR F_TC"] by (cases m) (auto simp: bare_def)
  then show ?thesis using to_wire_cases [OF assms(1)] cap by auto
qed

lemma bare_ok:
  assumes "msg_ok m" "b \<in> {(bare m)\<lparr>medns := map_option (\<lambda>e. e\<lparr>options := []\<rparr>) (medns m)\<rparr>,
      (bare m)\<lparr>medns := None\<rparr>, (bare m)\<lparr>questions := [], medns := None\<rparr>}"
  shows "msg_ok b \<and> answers b = [] \<and> authority b = [] \<and> additional b = [] \<and>
    mid b = mid m \<and> mflags b = mflags m OR F_TC"
proof -
  have "u16_ok (mflags m OR F_TC)"
    by (rule u16_or) (use assms in \<open>simp_all add: msg_ok_def u16_ok_def F_TC_def\<close>)
  moreover have "edns_ok (e\<lparr>options := []\<rparr>)" if "edns_ok e" for e
    using that by (simp add: edns_ok_def options_bytes_def u16_ok_def)
  ultimately show ?thesis
    using assms by (auto simp: bare_def msg_ok_def u16_ok_def)
qed

text \<open>
  C4: serialising under a size cap of at least the header's twelve octets always succeeds on a
  message whose fields fit, never exceeds the cap whatever the message holds, and yields octets
  that parse back with the same id; either they are the full encoding, or they carry the TC bit
  and no records at all.
\<close>

theorem to_wire_respects_cap:
  assumes ok: "msg_ok m" and cap: "12 \<le> cap"
  shows "\<exists>d m'. to_wire (Some cap) c m = Inr d \<and> int (length d) \<le> cap \<and>
    parse_message d = Inr m' \<and> mid m' = mid m \<and>
    (encode c m = Inr d \<or>
      has_flag F_TC m' \<and> answers m' = [] \<and> authority m' = [] \<and> additional m' = [])"
proof -
  let ?S = "{(bare m)\<lparr>medns := map_option (\<lambda>e. e\<lparr>options := []\<rparr>) (medns m)\<rparr>,
      (bare m)\<lparr>medns := None\<rparr>, (bare m)\<lparr>questions := [], medns := None\<rparr>}"
  have enc: "\<exists>d. encode c b = Inr d" if "b \<in> insert m ?S" for b
    using that message_sound [of b c] bare_ok [OF ok, of b] ok by blast
  have "\<exists>d. to_wire (Some cap) c m = Inr d"
    using enc [of m] enc [of "(bare m)\<lparr>medns := map_option (\<lambda>e. e\<lparr>options := []\<rparr>) (medns m)\<rparr>"]
      enc [of "(bare m)\<lparr>medns := None\<rparr>"] enc [of "(bare m)\<lparr>questions := [], medns := None\<rparr>"]
    unfolding to_wire_def bare_def Let_def by (auto split: if_split)
  then obtain d where d: "to_wire (Some cap) c m = Inr d" by blast
  have fit: "int (length d) \<le> cap" by (rule to_wire_fits [OF d cap])
  show ?thesis
  proof (cases "encode c m = Inr d")
    case True
    obtain d' m' where "encode c m = Inr d'" "parse_message d' = Inr m'" "msg_same c m' m"
      using message_sound [OF ok] by blast
    with True d fit show ?thesis by (auto simp: msg_same_def)
  next
    case False
    then obtain b where b: "b \<in> ?S" "encode c b = Inr d" using to_wire_cases [OF d] by blast
    note k = bare_ok [OF ok b(1)]
    obtain d' m' where "encode c b = Inr d'" and m': "parse_message d' = Inr m'" "msg_same c m' b"
      using message_sound k by blast
    with b have "parse_message d = Inr m'" by simp
    moreover have "has_flag F_TC m'"
      using m'(2) k by (simp add: msg_same_def has_flag_bit bit_or_iff flag_bits)
    ultimately show ?thesis using d fit m'(2) k by (auto simp: msg_same_def)
  qed
qed

theorem to_wire_respects_cap_witness:
  "msg_ok example_message \<and> (12 :: int) \<le> 40 \<and>
   (\<exists>d m'. to_wire (Some 40) True example_message = Inr d \<and> int (length d) \<le> 40 \<and>
    parse_message d = Inr m' \<and> mid m' = 7)"
  using to_wire_respects_cap [OF example_message_ok, of 40 True] example_message_ok
  by (auto simp: example_message_def)

subsection \<open>EDNS options\<close>

lemma find_option_append:
  "find_option code (xs @ ys) =
     (case find_option code xs of None \<Rightarrow> find_option code ys | Some d \<Rightarrow> Some d)"
  by (induction code xs rule: find_option.induct) auto

lemma find_option_filter:
  "find_option k (filter (\<lambda>(c, _). c \<noteq> code) os) = (if k = code then None else find_option k os)"
  by (induction os) auto

lemma get_set_option:
  "get_option k (set_option code d e) = (if k = code then Some d else get_option k e)"
  by (simp add: get_option_def set_option_def find_option_append find_option_filter
      split: option.splits)

lemma get_remove_option:
  "get_option k (remove_option code e) = (if k = code then None else get_option k e)"
  by (simp add: get_option_def remove_option_def find_option_filter)

text \<open>The size of the option block, which \<^verbatim>\<open>to_wire\<close> adds to the rest of the message.\<close>

definition options_size :: "(int \<times> bytes) list \<Rightarrow> nat" where
  "options_size os = (\<Sum>o'\<leftarrow>os. 4 + length (snd o'))"

lemma emit_options_size:
  "length (wbuf (emit_options os w)) = length (wbuf w) + options_size os"
  unfolding emit_options_def options_size_def
  by (induction os arbitrary: w) auto

lemma patch_u16_length: "patch_u16 p v w = Inr w' \<Longrightarrow> length (wbuf w') = length (wbuf w)"
  by (auto simp: patch_u16_def split: if_splits)

lemma write_opt_size:
  "\<exists>w'. write_opt e w = Inr w' \<and> length (wbuf w') = length (wbuf w) + 11 + options_size (options e)"
proof -
  let ?ttl = "build_opt_ttl (ext_rcode e) (eversion e) (eflags e)"
  let ?w1 = "w_u32 ?ttl (w_u16 (udp_size e) (w_u16 T_OPT (w_u8 0 w)))"
  let ?w2 = "emit_options (options e) (?w1\<lparr>wbuf := wbuf ?w1 @ [0, 0]\<rparr>)"
  have n: "length (wbuf ?w2) = length (wbuf w) + 11 + options_size (options e)"
    by (simp add: emit_options_size)
  have app: "\<exists>b. wbuf (emit_options os u) = wbuf u @ b" for os u
    unfolding emit_options_def
  proof (induction os arbitrary: u)
    case (Cons o' os)
    show ?case using Cons.IH [of "(\<lambda>(code, d) w. w_raw d (w_u16 (int (length d)) (w_u16 code w))) o' u"]
      by (cases o') auto
  qed simp
  obtain b where b: "wbuf ?w2 = wbuf ?w1 @ [0, 0] @ b"
    using app [of "options e" "?w1\<lparr>wbuf := wbuf ?w1 @ [0, 0]\<rparr>"] by auto
  have W: "write_opt e w = patch_u16 (length (wbuf ?w1))
      (int (length (wbuf ?w2)) - int (length (wbuf ?w1) + 2)) ?w2"
    by (simp add: write_opt_def reserve_u16_def wtell_def Let_def)
  with patch_reserved(2) [OF b] obtain w' where w': "write_opt e w = Inr w'" by metis
  have "length (wbuf w') = length (wbuf ?w2)"
    by (rule patch_u16_length) (rule w' [unfolded W])
  with w' n show ?thesis by auto
qed

text \<open>Only the option block depends on the options, and it comes last.\<close>

definition encode_front :: "bool \<Rightarrow> message \<Rightarrow> writer result" where
  "encode_front c m =
     (let addl = filter (\<lambda>x. rr_type x \<noteq> T_OPT) (additional m);
          w = w_u16 (mflags m) (w_u16 (mid m) new_writer);
          w = w_u16 (int (length addl) + 1) (w_u16 (int (length (authority m)))
                (w_u16 (int (length (answers m))) (w_u16 (int (length (questions m))) w)))
      in rbind (rbind (rbind (rfold (write_question c) (questions m) w)
           (rfold (write_rr c) (answers m))) (rfold (write_rr c) (authority m)))
           (rfold (write_rr c) addl))"

lemma encode_split:
  "encode c (m\<lparr>medns := Some e\<rparr>) =
     rbind (encode_front c m) (\<lambda>w. rbind (write_opt e w) (\<lambda>w. Inr (wbuf w)))"
  by (simp add: encode_def encode_front_def Let_def rbind_assoc)

lemma encode_options_size:
  assumes "encode c (m\<lparr>medns := Some e\<rparr>) = Inr d"
  shows "\<exists>d'. encode c (m\<lparr>medns := Some e'\<rparr>) = Inr d' \<and>
    length d' + options_size (options e) = length d + options_size (options e')"
proof -
  obtain w where w: "encode_front c m = Inr w"
    using assms unfolding encode_split by (auto simp: rbind_eq_Inr)
  obtain w1 w2 where "write_opt e w = Inr w1"
    "length (wbuf w1) = length (wbuf w) + 11 + options_size (options e)" "write_opt e' w = Inr w2"
    "length (wbuf w2) = length (wbuf w) + 11 + options_size (options e')"
    using write_opt_size by meson
  with w assms show ?thesis unfolding encode_split by auto
qed

subsection \<open>Client subnet and TTL\<close>

definition ecs_ok :: "ecs \<Rightarrow> bool" where
  "ecs_ok e \<longleftrightarrow> (family e = 1 \<and> source_prefix e \<le> 32 \<and> scope_prefix e \<le> 32 \<or>
      family e = 2 \<and> source_prefix e \<le> 128 \<and> scope_prefix e \<le> 128) \<and>
     0 \<le> source_prefix e \<and> 0 \<le> scope_prefix e \<and>
     int (length (ecs_address e)) = (source_prefix e + 7) div 8"

lemma ecs_decode_ok:
  assumes "ecs_from_bytes b = Inr e"
  shows "ecs_ok e"
proof -
  note r = uint_byte_range [of "b ! 2"] uint_byte_range [of "b ! 3"]
  show ?thesis
    using assms r
    by (auto simp: ecs_from_bytes_def Let_def ecs_ok_def split: if_splits option.splits)
qed

lemma ecs_decode_encode:
  assumes "ecs_ok e"
  shows "\<exists>b. ecs_to_bytes e = Inr b \<and> ecs_from_bytes b = Inr e"
proof (cases e)
  case (fields f p s a)
  have r: "0 \<le> p" "p < 256" "0 \<le> s" "s < 256" "f = 1 \<or> f = 2" "int (length a) = (p + 7) div 8"
    using assms by (auto simp: ecs_ok_def fields)
  then have u: "uint (word_of_int p :: byte) = p" "uint (word_of_int s :: byte) = s"
    by (simp_all only: uint_byte_of_int) simp_all
  have h: "pack_H f = [0, word_of_int f]" "unpack_H 0 1 = 1" "unpack_H 0 2 = 2"
    using r(5) by (auto simp: pack_H_def unpack_H_def)
  have "ecs_to_bytes e = Inr ([0, word_of_int f, word_of_int p, word_of_int s] @ a)"
    using r h by (auto simp: ecs_to_bytes_def fields)
  moreover have "ecs_from_bytes ([0, word_of_int f, word_of_int p, word_of_int s] @ a) = Inr e"
    using assms r(5,6) by (elim disjE) (simp_all add: ecs_from_bytes_def Let_def u h fields ecs_ok_def)
  ultimately show ?thesis by blast
qed

lemma ecs_encode_decode:
  assumes "ecs_from_bytes b = Inr e"
  shows "ecs_to_bytes e = Inr b"
proof -
  obtain b0 b1 b2 b3 a where b: "b = b0 # b1 # b2 # b3 # a"
    using assms by (cases b rule: remdups_adj.cases; cases "tl b" rule: remdups_adj.cases;
      cases "tl (tl b)" rule: remdups_adj.cases; cases "tl (tl (tl b))")
      (auto simp: ecs_from_bytes_def split: if_splits)
  note r = uint_byte_range [of b0] uint_byte_range [of b1] uint_byte_range [of b2]
    uint_byte_range [of b3]
  have "pack_H (unpack_H b0 b1) = [b0, b1]"
  proof -
    have "uint (word_of_int (drop_bit 8 (unpack_H b0 b1)) :: byte) = uint b0"
      unfolding uint_byte_of_int unpack_H_def drop_bit_eq_div using r by simp
    moreover have "uint (word_of_int (unpack_H b0 b1) :: byte) = uint b1"
      unfolding uint_byte_of_int unpack_H_def using r by simp
    ultimately show ?thesis by (simp only: pack_H_def word_uint_eq_iff list.inject)
  qed
  with assms r unpack_H_range [of b0 b1] show ?thesis
    by (auto simp: b ecs_from_bytes_def ecs_to_bytes_def Let_def split: if_splits option.splits)
qed

text \<open>
  The client-subnet option accepts exactly the encodings of the well-formed subnets (a known
  family, prefixes no longer than its addresses, as many address octets as the prefix needs):
  what decodes is well formed and encodes to the same octets, and every well-formed subnet
  decodes from its encoding.
\<close>

theorem ecs_exact:
  "(ecs_from_bytes b = Inr e \<longleftrightarrow> ecs_ok e \<and> ecs_to_bytes e = Inr b)"
proof
  assume "ecs_from_bytes b = Inr e"
  then show "ecs_ok e \<and> ecs_to_bytes e = Inr b" using ecs_decode_ok ecs_encode_decode by blast
next
  assume "ecs_ok e \<and> ecs_to_bytes e = Inr b"
  then show "ecs_from_bytes b = Inr e" using ecs_decode_encode [of e] by auto
qed

definition ttls :: "rr list \<Rightarrow> int list" where
  "ttls xs = map rr_ttl (filter (\<lambda>x. rr_type x \<noteq> T_OPT) xs)"

lemma ttls_simps [simp]:
  "ttls [] = []" "ttls (x # xs) = (if rr_type x \<noteq> T_OPT then rr_ttl x # ttls xs else ttls xs)"
  "ttls (xs @ ys) = ttls xs @ ttls ys"
  by (simp_all add: ttls_def)

lemma min_ttl_walk_spec:
  "case min_ttl_walk xs best of None \<Rightarrow> best = None \<and> ttls xs = []
   | Some t \<Rightarrow> t \<in> option.set_option best \<union> set (ttls xs) \<and> (\<forall>x \<in> option.set_option best \<union> set (ttls xs). t \<le> x)"
proof (induction xs best rule: min_ttl_walk.induct)
  case (2 x xs best)
  then show ?case
    by (cases best) (force split: option.splits if_splits)+
qed (simp split: option.split)

text \<open>
  The TTL a message may be cached for is the least TTL over its answer and authority records,
  the OPT record aside: it is one of them, none is smaller, and there is none only when there are
  no such records.
\<close>

theorem min_ttl_least:
  "case min_ttl m of None \<Rightarrow> ttls (answers m @ authority m) = []
   | Some t \<Rightarrow> t \<in> set (ttls (answers m @ authority m)) \<and>
       list_all (\<lambda>x. t \<le> x) (ttls (answers m @ authority m))"
  using min_ttl_walk_spec [of None "answers m"]
    min_ttl_walk_spec [of "min_ttl_walk (answers m) None" "authority m"]
  unfolding min_ttl_def list_all_iff
  by (force split: option.splits)

end
