(* ===== verification/Transport_Base.thy ===== *)
theory Transport_Base
  imports Wire_Message_Ops
begin

section \<open>The choke point every transport goes through\<close>

text \<open>
  Models \<^verbatim>\<open>trench/transport/base.py\<close>: the size of UDP replies, padding, the packets
  that get no answer, FORMERR, and \<^verbatim>\<open>resolve_wire\<close> and \<^verbatim>\<open>process_query\<close> over
  the pipeline. The pipeline is an argument: from its state and a parsed query it returns the
  next state and the response. \<^verbatim>\<open>process_query\<close> is modelled without a recorder
  (\<^verbatim>\<open>fast=None\<close>).
\<close>

subsection \<open>The operations\<close>

datatype proto = P_UDP | P_TCP | P_TLS | P_HTTPS | P_QUIC | P_H3

definition PADDED :: "proto \<Rightarrow> bool" where
  "PADDED p \<longleftrightarrow> p \<in> {P_TLS, P_HTTPS, P_QUIC, P_H3}"

definition PAD_BLOCK :: int where "PAD_BLOCK = 468"

definition RC_FORMERR :: int where "RC_FORMERR = 1"

definition udp_response_limit :: "message option \<Rightarrow> int \<Rightarrow> int" where
  "udp_response_limit q ours =
     (case q of
        None \<Rightarrow> 512
      | Some q \<Rightarrow> (case medns q of
          None \<Rightarrow> 512
        | Some e \<Rightarrow> max 512 (min (min (udp_size e) ours) 4096)))"

text \<open>The configured size, when the pipeline has a configuration; 0 counts as unset.\<close>

definition our_udp_size :: "int option \<Rightarrow> int" where
  "our_udp_size cfg = (case cfg of None \<Rightarrow> 4096 | Some n \<Rightarrow> if n = 0 then 4096 else n)"

definition apply_padding :: "message \<Rightarrow> message result" where
  "apply_padding r =
     (let e = (case medns r of None \<Rightarrow> new_edns\<lparr>udp_size := 1232\<rparr> | Some e \<Rightarrow> e);
          r = r\<lparr>medns := Some e\<rparr>
      in rbind (to_wire None True r) (\<lambda>base.
           Inr (r\<lparr>medns := Some (set_padding PAD_BLOCK (int (length base)) e)\<rparr>)))"

definition not_a_query :: "bytes \<Rightarrow> bool" where
  "not_a_query d \<longleftrightarrow> length d > 2 \<and> d ! 2 AND 0x80 \<noteq> 0"

definition formerr :: "bytes \<Rightarrow> bytes" where
  "formerr d = take 2 d @ pack_H (F_QR OR RC_FORMERR) @ [0, 0, 0, 0, 0, 0, 0, 0]"

definition empty_message :: message where
  "empty_message = \<lparr>mid = 0, mflags = 0, questions = [], answers = [], authority = [],
                    additional = [], medns = None\<rparr>"

definition formerr_msg :: "bytes \<Rightarrow> message option" where
  "formerr_msg d =
     (if length d < 2 \<or> not_a_query d then None
      else Some (set_rcode RC_FORMERR
             (empty_message\<lparr>mid := unpack_H (d ! 0) (d ! 1), mflags := F_QR\<rparr>)))"

definition resolve_wire :: "('s \<Rightarrow> message \<Rightarrow> 's \<times> message) \<Rightarrow> 's \<Rightarrow> bytes \<Rightarrow> proto \<Rightarrow>
    's \<times> message option result" where
  "resolve_wire pipe s d p =
     (if not_a_query d then (s, Inr None)
      else case parse_message d of
        Inl _ \<Rightarrow> (s, Inr (formerr_msg d))
      | Inr query \<Rightarrow>
          (let (s, response) = pipe s query in
           if PADDED p \<and> medns query \<noteq> None
           then (s, rbind (apply_padding response) (\<lambda>r. Inr (Some r)))
           else (s, Inr (Some response))))"

definition process_query :: "('s \<Rightarrow> message \<Rightarrow> 's \<times> message) \<Rightarrow> int option \<Rightarrow> 's \<Rightarrow> bytes \<Rightarrow> bool \<Rightarrow>
    's \<times> bytes option result" where
  "process_query pipe cfg s d stream =
     (if not_a_query d then (s, Inr None)
      else case parse_message d of
        Inl _ \<Rightarrow> (s, Inr (if length d \<ge> 2 then Some (formerr d) else None))
      | Inr query \<Rightarrow>
          (let (s, response) = pipe s query in
           (s, rbind (if stream then to_wire None True response
                      else to_wire (Some (udp_response_limit (Some query) (our_udp_size cfg)))
                             True response)
                 (\<lambda>out. Inr (Some out)))))"

subsection \<open>Padding\<close>

lemma options_size_append: "options_size (xs @ ys) = options_size xs + options_size ys"
  by (simp add: options_size_def)

lemma filter_absent: "find_option code os = None \<Longrightarrow> filter (\<lambda>(c, _). c \<noteq> code) os = os"
  by (induction code os rule: find_option.induct) (auto split: if_splits)

text \<open>
  Padding a response that carries no padding option yet makes its encoding exactly a multiple
  of 468 octets, adding fewer than one block and changing nothing but the options, of which it
  keeps every other one.
\<close>

theorem padding_fills_block:
  assumes "case medns r of None \<Rightarrow> True | Some e \<Rightarrow> get_option OPT_PADDING e = None"
    and r': "apply_padding r = Inr r'"
  shows "\<exists>d e. to_wire None True r' = Inr d \<and> length d mod 468 = 0 \<and>
    medns r' = Some e \<and> length (the (get_option OPT_PADDING e)) < 468 \<and>
    (k = OPT_PADDING \<or> get_option k e = (case medns r of None \<Rightarrow> None | Some e0 \<Rightarrow> get_option k e0))"
proof -
  obtain e where e: "e = (case medns r of None \<Rightarrow> new_edns\<lparr>udp_size := 1232\<rparr> | Some e \<Rightarrow> e)" by simp
  have none: "find_option OPT_PADDING (options e) = None"
    using assms(1) by (auto simp: e get_option_def new_edns_def split: option.splits)
  obtain b where b: "encode True (r\<lparr>medns := Some e\<rparr>) = Inr b"
    and r2: "r' = r\<lparr>medns := Some (set_padding PAD_BLOCK (int (length b)) e)\<rparr>"
    using r' by (auto simp: apply_padding_def Let_def to_wire_def rbind_eq_Inr simp flip: e)
  let ?pad = "(468 - (int (length b) + 4) mod 468) mod 468"
  have p: "set_padding PAD_BLOCK (int (length b)) e =
      e\<lparr>options := options e @ [(OPT_PADDING, replicate (nat ?pad) 0)]\<rparr>"
    using filter_absent [OF none]
    by (simp add: set_padding_def set_option_def remove_option_def Let_def PAD_BLOCK_def)
  obtain d where d: "encode True r' = Inr d"
    "length d + options_size (options e) =
       length b + options_size (options e @ [(OPT_PADDING, replicate (nat ?pad) 0)])"
    using encode_options_size [OF b, of "set_padding PAD_BLOCK (int (length b)) e"]
    unfolding r2 p by auto
  have nn: "0 \<le> ?pad" "?pad < 468" by simp_all
  have "int (length d) = int (length b) + 4 + ?pad"
    using d(2) nn(1) unfolding options_size_append by (simp add: options_size_def)
  moreover have "(x + (468 - x mod 468) mod 468) mod 468 = 0" for x :: int
    by (simp add: mod_add_right_eq)
  ultimately have "int (length d) mod 468 = 0" by metis
  then have "length d mod 468 = 0" by presburger
  moreover have "to_wire None True r' = Inr d" using d(1) by (simp add: to_wire_def)
  moreover have "find_option OPT_PADDING (options e @ [(OPT_PADDING, replicate (nat ?pad) 0)])
      = Some (replicate (nat ?pad) 0)"
    by (simp add: find_option_append none)
  moreover have "nat ?pad < 468" using nn by simp
  moreover have "k = OPT_PADDING \<or> find_option k (options e @ [(OPT_PADDING, replicate (nat ?pad) 0)])
      = (case medns r of None \<Rightarrow> None | Some e0 \<Rightarrow> get_option k e0)"
    by (cases "medns r")
      (auto simp: find_option_append e get_option_def new_edns_def split: option.split)
  ultimately show ?thesis by (auto simp: r2 p get_option_def)
qed

lemma example_padding:
  "\<exists>r'. apply_padding example_message = Inr r'"
  using message_sound [OF example_message_ok, of True]
  by (auto simp: apply_padding_def Let_def to_wire_def example_message_def)

theorem padding_fills_block_witness:
  "\<exists>r' d. apply_padding example_message = Inr r' \<and> to_wire None True r' = Inr d \<and>
     length d mod 468 = 0"
proof -
  obtain r' where r': "apply_padding example_message = Inr r'" using example_padding by blast
  have "case medns example_message of None \<Rightarrow> True | Some e \<Rightarrow> get_option OPT_PADDING e = None"
    by (simp add: example_message_def get_option_def OPT_PADDING_def)
  from padding_fills_block [OF this r', of 0] r' show ?thesis by (elim exE conjE) (intro exI conjI)
qed

subsection \<open>Replies\<close>

lemma u16_value:
  "r_u16 r = Inr (v, r') \<Longrightarrow> v = unpack_H (rbuf r ! nat (rpos r)) (rbuf r ! Suc (nat (rpos r))) \<and>
     rbuf r' = rbuf r \<and> rpos r' = rpos r + 2"
  by (auto simp: r_u16_def Let_def split: if_splits)

lemma pbind_Inr: "pbind m f r = Inr y \<longleftrightarrow> (\<exists>x r'. m r = Inr (x, r') \<and> f x r' = Inr y)"
  by (auto simp: pbind_def rbind_eq_Inr)

lemma parse_header:
  assumes "parse_message d = Inr m"
  shows "12 \<le> length d \<and> mid m = unpack_H (d ! 0) (d ! 1) \<and> mflags m = unpack_H (d ! 2) (d ! 3)"
proof -
  have len: "12 \<le> length d" using assms by (auto simp: parse_message_def HEADER_LEN_def split: if_splits)
  then obtain r' where "parse_body \<lparr>rbuf = d, rpos = 0\<rparr> = Inr (m, r')"
    using assms by (auto simp: parse_message_def HEADER_LEN_def rbind_eq_Inr)
  then obtain i r1 f r2 where "r_u16 \<lparr>rbuf = d, rpos = 0\<rparr> = Inr (i, r1)" "r_u16 r1 = Inr (f, r2)"
    and m: "mid m = i" "mflags m = f"
    unfolding parse_body_def by (auto simp: pbind_Inr pret_def)
  then show ?thesis using len u16_value [of "\<lparr>rbuf = d, rpos = 0\<rparr>" i r1] u16_value [of r1 f r2]
    by (simp add: numeral_eq_Suc)
qed

lemma parsed_qr:
  assumes "parse_message d = Inr m"
  shows "not_a_query d \<longleftrightarrow> has_flag F_QR m"
proof -
  note h = parse_header [OF assms]
  have "unpack_H (d ! 2) (d ! 3) = push_bit 8 (uint (d ! 2)) OR uint (d ! 3)"
    using or_add [of "uint (d ! 3)" 8 "uint (d ! 2)"] uint_byte_range [of "d ! 3"]
    by (simp add: unpack_H_def)
  moreover have "\<not> bit (uint (d ! 3)) 15"
    using uint_byte_range [of "d ! 3"] bits_below [of "uint (d ! 3)" 8 15] by auto
  ultimately have "bit (mflags m) 15 \<longleftrightarrow> bit (uint (d ! 2)) 7"
    using h by (simp add: bit_or_iff bit_push_bit_iff)
  moreover have "d ! 2 AND 0x80 \<noteq> 0 \<longleftrightarrow> bit (d ! 2) 7"
  proof -
    have b: "(0x80 :: byte) = 2 ^ 7" by simp
    show ?thesis unfolding b by (simp only: and_exp_eq_0_iff_not_bit not_not)
  qed
  ultimately show ?thesis
    using h by (auto simp: not_a_query_def has_flag_bit bit_uint_iff)
qed

lemma formerr_not_a_query: "2 \<le> length d \<Longrightarrow> not_a_query (formerr d)"
proof -
  assume "2 \<le> length d"
  then have "formerr d ! 2 = pack_H (F_QR OR RC_FORMERR) ! 0"
    by (simp add: formerr_def nth_append)
  then show ?thesis
    using \<open>2 \<le> length d\<close>
    by (simp add: not_a_query_def formerr_def pack_H_def F_QR_def RC_FORMERR_def)
qed

lemma sent_is_response:
  assumes ok: "msg_ok m" and qr: "has_flag F_QR m" and d: "to_wire lim True m = Inr d"
  shows "not_a_query d"
proof -
  obtain b where b: "msg_ok b" "has_flag F_QR b" "encode True b = Inr d"
  proof (cases lim)
    case None
    with d ok qr that show ?thesis by (auto simp: to_wire_def rbind_eq_Inr)
  next
    case (Some cap)
    from to_wire_cases [OF d [unfolded Some]] show ?thesis
    proof
      assume "encode True m = Inr d \<and> int (length d) \<le> cap"
      with ok qr that show ?thesis by blast
    next
      assume "\<exists>b. b \<in> {(bare m)\<lparr>medns := map_option (\<lambda>e. e\<lparr>options := []\<rparr>) (medns m)\<rparr>,
               (bare m)\<lparr>medns := None\<rparr>, (bare m)\<lparr>questions := [], medns := None\<rparr>} \<and>
          encode True b = Inr d \<and>
          (int (length d) \<le> cap \<or> b = (bare m)\<lparr>questions := [], medns := None\<rparr>)"
      then obtain b where b: "b \<in> {(bare m)\<lparr>medns := map_option (\<lambda>e. e\<lparr>options := []\<rparr>) (medns m)\<rparr>,
               (bare m)\<lparr>medns := None\<rparr>, (bare m)\<lparr>questions := [], medns := None\<rparr>}"
        "encode True b = Inr d" by blast
      note k = bare_ok [OF ok b(1)]
      then have "has_flag F_QR b" using qr by (simp add: has_flag_bit bit_or_iff)
      with k b(2) that show ?thesis by blast
    qed
  qed
  obtain d' m' where "encode True b = Inr d'" "parse_message d' = Inr m'" "msg_same True m' b"
    using message_sound [OF b(1)] by blast
  with b parsed_qr [of d m'] show ?thesis by (auto simp: msg_same_def has_flag_def)
qed

text \<open>
  C19: the UDP choke point, for any packet whatever: a packet with the response bit, or one too
  short for an id, gets no reply; an unparsable packet gets the twelve-octet FORMERR with its own
  id and leaves the pipeline's state alone; any other reply comes from one call of the pipeline
  and is no longer than the client can receive and the server means to send: 512 octets without EDNS;
  with it, what the client advertised (512 where it advertised less), never more than 4096 octets, nor
  than the size the server is configured with.
\<close>

theorem udp_reply_bounded:
  assumes "process_query pipe cfg s d False = (s', Inr (Some out))"
  shows "\<not> not_a_query d \<and> 2 \<le> length d \<and>
    (case parse_message d of
       Inl _ \<Rightarrow> s' = s \<and> length out = 12 \<and> take 2 out = take 2 d
     | Inr q \<Rightarrow> s' = fst (pipe s q) \<and>
         (case medns q of
            None \<Rightarrow> length out \<le> 512
          | Some e \<Rightarrow> int (length out) \<le> max 512 (udp_size e) \<and> length out \<le> 4096 \<and>
              (\<forall>n. cfg = Some n \<and> n \<noteq> 0 \<longrightarrow> int (length out) \<le> max 512 n)))"
proof (cases "parse_message d")
  case (Inl e)
  then have "out = formerr d" "s' = s" "2 \<le> length d" "\<not> not_a_query d"
    using assms by (auto simp: process_query_def split: if_splits)
  with Inl show ?thesis by (simp add: formerr_def)
next
  case (Inr q)
  let ?lim = "udp_response_limit (Some q) (our_udp_size cfg)"
  from Inr assms have nq: "\<not> not_a_query d" and s': "s' = fst (pipe s q)"
    and out: "to_wire (Some ?lim) True (snd (pipe s q)) = Inr out"
    by (auto simp: process_query_def rbind_eq_Inr split: if_splits prod.splits)
  have lim: "512 \<le> ?lim" by (simp add: udp_response_limit_def split: option.split)
  have fits: "int (length out) \<le> ?lim" by (rule to_wire_fits [OF out]) (use lim in simp)
  have "2 \<le> length d" using parse_header [OF Inr] by simp
  with Inr nq s' fits show ?thesis
    by (cases "medns q") (auto simp: udp_response_limit_def our_udp_size_def)
qed

text \<open>
  C20: two servers cannot bounce replies: whatever this server sends, for a pipeline whose
  responses carry the response bit and fields that fit, is a packet that the same code, fed with
  it, answers with nothing and without touching its state.
\<close>

theorem no_reply_to_reply:
  assumes "\<And>s q. msg_ok (snd (pipe s q)) \<and> has_flag F_QR (snd (pipe s q))"
    and "process_query pipe cfg s d stream = (s', Inr (Some out))"
  shows "process_query pipe' cfg' t out stream' = (t, Inr None)"
proof -
  have "not_a_query out"
  proof (cases "parse_message d")
    case (Inl e)
    with assms(2) have "out = formerr d" "2 \<le> length d"
      by (auto simp: process_query_def split: if_splits)
    then show ?thesis by (simp add: formerr_not_a_query)
  next
    case (Inr q)
    with assms(2) obtain lim where "to_wire lim True (snd (pipe s q)) = Inr out"
      by (auto simp: process_query_def rbind_eq_Inr split: if_splits prod.splits)
    with assms(1) show ?thesis by (blast intro: sent_is_response)
  qed
  then show ?thesis by (simp add: process_query_def)
qed

text \<open>A pipeline that answers every query with REFUSED.\<close>

definition refuse_all :: "nat \<Rightarrow> message \<Rightarrow> nat \<times> message" where
  "refuse_all n q = (n + 1, set_rcode 5 (empty_message\<lparr>mflags := F_QR\<rparr>))"

lemma refuse_all_ok: "msg_ok (snd (refuse_all n q)) \<and> has_flag F_QR (snd (refuse_all n q))"
  by (simp add: refuse_all_def set_rcode_def empty_message_def msg_ok_def u16_ok_def
      has_flag_def flag_defs)

theorem udp_reply_bounded_witness:
  "process_query refuse_all None 0 [7, 7, 0] False = (0, Inr (Some (formerr [7, 7, 0]))) \<and>
   length (formerr [7, 7, 0]) = 12"
proof -
  have p: "process_query refuse_all None 0 [7, 7, 0] False = (0, Inr (Some (formerr [7, 7, 0])))"
    by (simp add: process_query_def not_a_query_def parse_message_def HEADER_LEN_def)
  have "parse_message [7, 7, 0] = Inl WireError" by (simp add: parse_message_def HEADER_LEN_def)
  with udp_reply_bounded [OF p] p show ?thesis by simp
qed

theorem no_reply_to_reply_witness:
  "process_query refuse_all (Some 1232) 4 (formerr [7, 7, 0]) True = (4, Inr None)"
proof -
  have "process_query refuse_all None 0 [7, 7, 0] False = (0, Inr (Some (formerr [7, 7, 0])))"
    by (simp add: process_query_def not_a_query_def parse_message_def HEADER_LEN_def)
  then show ?thesis by (rule no_reply_to_reply [OF refuse_all_ok])
qed

end
