(* ===== verification/Ordered_Dict.thy ===== *)
theory Ordered_Dict
  imports Prelude
begin

section \<open>Insertion-ordered dictionaries\<close>

text \<open>
  Python's \<^verbatim>\<open>dict\<close> and \<^verbatim>\<open>OrderedDict\<close> as the list of their items, oldest
  first: assignment keeps the place of a present key and appends a new one, \<open>od_touch\<close> is
  \<^verbatim>\<open>move_to_end\<close>, \<open>od_evict\<close> the loop of \<^verbatim>\<open>popitem(last=False)\<close> that keeps a
  size bound. The dictionary laws are stated once in a locale and the bounded least-recently-used
  store is derived from them.
\<close>

type_synonym ('k, 'v) odict = "('k \<times> 'v) list"

definition od_keys :: "('k, 'v) odict \<Rightarrow> 'k list" where
  "od_keys d = map fst d"

definition od_get :: "'k \<Rightarrow> ('k, 'v) odict \<Rightarrow> 'v option" where
  "od_get k d = map_of d k"

fun od_set :: "'k \<Rightarrow> 'v \<Rightarrow> ('k, 'v) odict \<Rightarrow> ('k, 'v) odict" where
  "od_set k v [] = [(k, v)]"
| "od_set k v ((k', v') # d) = (if k' = k then (k, v) # d else (k', v') # od_set k v d)"

definition od_pop :: "'k \<Rightarrow> ('k, 'v) odict \<Rightarrow> ('k, 'v) odict" where
  "od_pop k d = filter (\<lambda>(k', _). k' \<noteq> k) d"

definition od_touch :: "'k \<Rightarrow> ('k, 'v) odict \<Rightarrow> ('k, 'v) odict" where
  "od_touch k d = (case od_get k d of None \<Rightarrow> d | Some v \<Rightarrow> od_pop k d @ [(k, v)])"

text \<open>\<^verbatim>\<open>while len(d) > n: d.popitem(last=False)\<close>, for a bound that is not negative.\<close>

definition od_evict :: "nat \<Rightarrow> ('k, 'v) odict \<Rightarrow> ('k, 'v) odict" where
  "od_evict n d = drop (length d - n) d"

named_theorems od_simps \<open>what the dictionary operations do to lookups, keys and sizes\<close>

lemma od_get_set [od_simps]: "od_get j (od_set k v d) = (if j = k then Some v else od_get j d)"
  by (induction d) (auto simp: od_get_def)

lemma od_get_pop [od_simps]: "od_get j (od_pop k d) = (if j = k then None else od_get j d)"
  by (induction d) (auto simp: od_get_def od_pop_def)

lemma od_get_append: "od_get j (d @ e) = (case od_get j d of None \<Rightarrow> od_get j e | Some v \<Rightarrow> Some v)"
  by (auto simp: od_get_def map_add_def split: option.split)

lemma od_get_touch [od_simps]: "od_get j (od_touch k d) = od_get j d"
  by (auto simp: od_touch_def od_get_append od_get_pop split: option.split) (auto simp: od_get_def)

lemma od_get_None: "od_get k d = None \<longleftrightarrow> k \<notin> set (od_keys d)"
  by (auto simp: od_get_def od_keys_def map_of_eq_None_iff)

lemma od_keys_pop [od_simps]: "od_keys (od_pop k d) = removeAll k (od_keys d)"
  by (induction d) (auto simp: od_keys_def od_pop_def)

lemma od_keys_set [od_simps]:
  "od_keys (od_set k v d) = (if k \<in> set (od_keys d) then od_keys d else od_keys d @ [k])"
proof (induction d)
  case (Cons x d)
  then show ?case by (cases x) (auto simp: od_keys_def)
qed (simp add: od_keys_def)

lemma od_keys_touch [od_simps]:
  "od_keys (od_touch k d) = (if k \<in> set (od_keys d) then removeAll k (od_keys d) @ [k] else od_keys d)"
proof (cases "od_get k d")
  case None
  then show ?thesis using od_get_None [of k d] by (simp add: od_touch_def)
next
  case (Some v)
  then have "k \<in> set (od_keys d)" using od_get_None [of k d] by auto
  moreover have "od_keys (d @ e) = od_keys d @ od_keys e" for e :: "('a, 'b) odict"
    by (simp add: od_keys_def)
  ultimately show ?thesis using Some od_keys_pop [of k d] by (simp add: od_touch_def od_keys_def)
qed

lemma od_keys_evict [od_simps]: "od_keys (od_evict n d) = drop (length d - n) (od_keys d)"
  by (simp add: od_evict_def od_keys_def drop_map)

lemma length_od_keys [simp]: "length (od_keys d) = length d"
  by (simp add: od_keys_def)

lemma length_od_evict [od_simps]: "length (od_evict n d) = min n (length d)"
  by (simp add: od_evict_def)

lemma distinct_od [intro]:
  assumes "distinct (od_keys d)"
  shows "distinct (od_keys (od_set k v d))" "distinct (od_keys (od_touch k d))"
    "distinct (od_keys (od_pop k d))" "distinct (od_keys (od_evict n d))"
  using assms by (auto simp: od_simps distinct_removeAll)

lemma od_get_evict:
  assumes "distinct (od_keys d)"
  shows "od_get j (od_evict n d) =
    (if j \<in> set (od_keys (od_evict n d)) then od_get j d else None)"
proof -
  have s: "d = take (length d - n) d @ od_evict n d" by (simp add: od_evict_def)
  then have "distinct (od_keys (take (length d - n) d) @ od_keys (od_evict n d))"
    using assms by (metis od_keys_def map_append)
  then have "od_get j (take (length d - n) d) = None" if "j \<in> set (od_keys (od_evict n d))"
    using that by (auto simp: od_get_None)
  then show ?thesis
    using od_get_append [of j "take (length d - n) d" "od_evict n d"] s od_get_None [of j "od_evict n d"]
    by auto
qed

subsection \<open>The interface: a dictionary with an order of use\<close>

text \<open>
  \<open>rank k s\<close> counts the keys younger than \<open>k\<close>. What a least-recently-used store promises its
  clients follows from how each operation moves ranks.
\<close>

fun younger :: "'k \<Rightarrow> 'k list \<Rightarrow> nat" where
  "younger k [] = 0"
| "younger k (x # xs) = (if x = k then length xs else younger k xs)"

lemma younger_append:
  "younger k (xs @ ys) = (if k \<in> set xs then younger k xs + length ys else younger k ys)"
  by (induction xs) auto

lemma younger_absent: "k \<notin> set xs \<Longrightarrow> younger k xs = 0"
  by (induction xs) auto

lemma younger_removeAll:
  "distinct xs \<Longrightarrow> younger k (removeAll j xs) \<le> younger k xs"
  by (induction xs) (auto simp: younger_absent)

lemma younger_bound: "k \<in> set xs \<Longrightarrow> younger k xs < length xs"
  by (induction xs) auto

lemma younger_drop:
  "distinct xs \<Longrightarrow> k \<in> set xs \<Longrightarrow> younger k xs < length xs - m \<Longrightarrow>
     k \<in> set (drop m xs) \<and> younger k (drop m xs) = younger k xs"
proof (induction m arbitrary: xs)
  case (Suc m)
  then obtain x ys where xs: "xs = x # ys" by (cases xs) auto
  with Suc show ?case by (cases "x = k") auto
qed simp

locale lru_store =
  fixes keys :: "'s \<Rightarrow> 'k list"
    and use :: "'k \<Rightarrow> 's \<Rightarrow> 's"
    and insert_new :: "'k \<Rightarrow> 'v \<Rightarrow> 's \<Rightarrow> 's"
    and cap :: nat
  assumes use_keys: "k \<in> set (keys s) \<Longrightarrow> keys (use k s) = removeAll k (keys s) @ [k]"
    and insert_keys: "keys (insert_new k v s) =
      (let ks = removeAll k (keys s) @ [k] in drop (length ks - cap) ks)"
begin

lemma insert_bound: "length (keys (insert_new k v s)) \<le> cap"
  by (simp add: insert_keys Let_def)

lemma insert_distinct: "distinct (keys s) \<Longrightarrow> distinct (keys (insert_new k v s))"
  unfolding insert_keys Let_def by (rule distinct_drop) (simp add: distinct_removeAll)

lemma used_last: "distinct (keys s) \<Longrightarrow> k \<in> set (keys s) \<Longrightarrow> younger k (keys (use k s)) = 0"
  by (simp add: use_keys younger_append)

text \<open>An insertion makes every other key at most one step older.\<close>

lemma insert_survives:
  assumes d: "distinct (keys s)" and k: "k \<in> set (keys s)" and y: "younger k (keys s) + 1 < cap"
  shows "k \<in> set (keys (insert_new j v s)) \<and>
    younger k (keys (insert_new j v s)) \<le> younger k (keys s) + 1"
proof (cases "j = k")
  case True
  then show ?thesis
    using y younger_drop [of "removeAll j (keys s) @ [j]" k "length (removeAll j (keys s) @ [j]) - cap"] d
    by (simp add: insert_keys Let_def younger_append distinct_removeAll)
next
  case False
  let ?ks = "removeAll j (keys s) @ [j]"
  have "younger k ?ks \<le> younger k (keys s) + 1"
    using False k younger_removeAll [OF d, of k j] by (simp add: younger_append)
  moreover have "distinct ?ks" "k \<in> set ?ks" using d k False by (simp_all add: distinct_removeAll)
  moreover have "younger k ?ks < length ?ks - (length ?ks - cap)"
    using calculation y younger_bound [of k ?ks] by simp
  ultimately show ?thesis
    using younger_drop [of ?ks k "length ?ks - cap"] by (simp add: insert_keys Let_def)
qed

text \<open>A key outlives any run of fewer insertions than the capacity after its last use.\<close>

lemma run_survives:
  assumes "distinct (keys s)" "k \<in> set (keys s)" "younger k (keys s) + length kvs < cap"
  shows "k \<in> set (keys (fold (\<lambda>(j, v). insert_new j v) kvs s))"
  using assms
proof (induction kvs arbitrary: s)
  case (Cons kv kvs)
  obtain j v where kv: "kv = (j, v)" by (cases kv)
  have y: "younger k (keys s) + 1 < cap" using Cons.prems(3) by simp
  note i = insert_survives [OF Cons.prems(1,2) y, of j v]
  then show ?case
    using Cons.IH [OF insert_distinct [OF Cons.prems(1)], of j v] Cons.prems(3) by (simp add: kv)
qed simp

lemma recently_used_survives:
  assumes "distinct (keys s)" "k \<in> set (keys s)" "length kvs < cap"
  shows "k \<in> set (keys (fold (\<lambda>(j, v). insert_new j v) kvs (use k s)))"
proof (rule run_survives)
  show "distinct (keys (use k s))" using assms by (simp add: use_keys distinct_removeAll)
  show "k \<in> set (keys (use k s))" using assms by (simp add: use_keys)
  show "younger k (keys (use k s)) + length kvs < cap" using assms used_last by simp
qed

end

end
