(* ===== verification/Py_Text.thy ===== *)
theory Py_Text
  imports Prelude
begin

section \<open>Python strings\<close>

text \<open>
  The operations of Python's \<^verbatim>\<open>str\<close> the program uses: a string is the list of its
  code points. \<open>chars\<close> turns a literal into one. Case mapping of the code points above
  ASCII is an argument (\<open>u\<close>) of the definitions that lower a string, since it is a table of
  the Unicode database.
\<close>

type_synonym ustr = "nat list"

definition chars :: "string \<Rightarrow> ustr" where
  "chars s = map of_char s"

text \<open>\<^verbatim>\<open>str.isspace\<close> of one code point, which is what \<^verbatim>\<open>strip()\<close> removes.\<close>

definition py_space :: "nat \<Rightarrow> bool" where
  "py_space c \<longleftrightarrow> 9 \<le> c \<and> c \<le> 13 \<or> 28 \<le> c \<and> c \<le> 32 \<or> 0x2000 \<le> c \<and> c \<le> 0x200A \<or>
     c \<in> {0x85, 0xA0, 0x1680, 0x2028, 0x2029, 0x202F, 0x205F, 0x3000}"

definition lstrip :: "(nat \<Rightarrow> bool) \<Rightarrow> ustr \<Rightarrow> ustr" where
  "lstrip p s = dropWhile p s"

definition rstrip :: "(nat \<Rightarrow> bool) \<Rightarrow> ustr \<Rightarrow> ustr" where
  "rstrip p s = rev (dropWhile p (rev s))"

definition strip :: "ustr \<Rightarrow> ustr" where
  "strip s = rstrip py_space (lstrip py_space s)"

definition str_lower :: "(nat \<Rightarrow> ustr) \<Rightarrow> ustr \<Rightarrow> ustr" where
  "str_lower u s =
     concat (map (\<lambda>c. if c < 128 then [if 65 \<le> c \<and> c \<le> 90 then c + 32 else c] else u c) s)"

definition str_upper :: "(nat \<Rightarrow> ustr) \<Rightarrow> ustr \<Rightarrow> ustr" where
  "str_upper u s =
     concat (map (\<lambda>c. if c < 128 then [if 97 \<le> c \<and> c \<le> 122 then c - 32 else c] else u c) s)"

definition startswith :: "ustr \<Rightarrow> ustr \<Rightarrow> bool" where
  "startswith p s \<longleftrightarrow> take (length p) s = p"

definition endswith :: "ustr \<Rightarrow> ustr \<Rightarrow> bool" where
  "endswith p s \<longleftrightarrow> length p \<le> length s \<and> drop (length s - length p) s = p"

text \<open>\<^verbatim>\<open>s.split(sep)\<close> for a one-character separator, and \<^verbatim>\<open>sep.join(parts)\<close>.\<close>

fun split_on :: "nat \<Rightarrow> ustr \<Rightarrow> ustr list" where
  "split_on sep [] = [[]]"
| "split_on sep (c # s) =
     (if c = sep then [] # split_on sep s
      else (case split_on sep s of [] \<Rightarrow> [[c]] | p # ps \<Rightarrow> (c # p) # ps))"

fun join_with :: "nat \<Rightarrow> ustr list \<Rightarrow> ustr" where
  "join_with sep [] = []"
| "join_with sep [p] = p"
| "join_with sep (p # q # ps) = p @ sep # join_with sep (q # ps)"

lemma split_on_nonempty [simp]: "split_on sep s \<noteq> []"
  by (induction s) (auto split: list.split)

lemma split_on_append:
  "sep \<notin> set p \<Longrightarrow> split_on sep (p @ sep # s) = p # split_on sep s"
  by (induction p) auto

lemma split_on_plain: "sep \<notin> set p \<Longrightarrow> split_on sep p = [p]"
  by (induction p) auto

lemma split_join:
  "ps \<noteq> [] \<Longrightarrow> list_all (\<lambda>p. sep \<notin> set p) ps \<Longrightarrow> split_on sep (join_with sep ps) = ps"
  by (induction sep ps rule: join_with.induct) (simp_all add: split_on_append split_on_plain)

lemma join_split: "join_with sep (split_on sep s) = s"
proof (induction s)
  case (Cons c s)
  then show ?case
    by (cases "split_on sep s"; cases "tl (split_on sep s)") auto
qed simp

lemma split_no_sep: "list_all (\<lambda>p. sep \<notin> set p) (split_on sep s)"
  by (induction s) (auto split: list.split)

lemma strip_id:
  assumes "s \<noteq> []" "\<not> py_space (hd s)" "\<not> py_space (last s)"
  shows "strip s = s"
proof -
  have "lstrip py_space s = s" using assms by (cases s) (auto simp: lstrip_def)
  moreover have "dropWhile py_space (rev s) = rev s"
    using assms by (cases s rule: rev_cases) auto
  ultimately show ?thesis by (simp add: strip_def rstrip_def)
qed

subsection \<open>Decimal integers\<close>

text \<open>\<^verbatim>\<open>str(n)\<close> of a non-negative integer.\<close>

fun dec :: "nat \<Rightarrow> ustr" where
  "dec n = (if n < 10 then [48 + n] else dec (n div 10) @ [48 + n mod 10])"

declare dec.simps [simp del]

definition is_digit :: "nat \<Rightarrow> bool" where
  "is_digit c \<longleftrightarrow> 48 \<le> c \<and> c \<le> 57"

definition digits_value :: "ustr \<Rightarrow> nat" where
  "digits_value s = foldl (\<lambda>v c. v * 10 + (c - 48)) 0 s"

text \<open>
  \<^verbatim>\<open>int(s)\<close> over ASCII: surrounding white space, an optional sign, and digits with
  single underscores between them.
\<close>

fun underscored :: "ustr \<Rightarrow> bool" where
  "underscored [] = False"
| "underscored [c] = is_digit c"
| "underscored (c # d # s) =
     (is_digit c \<and> (if d = 95 then underscored s else underscored (d # s)))"

definition py_int :: "ustr \<Rightarrow> int result" where
  "py_int s =
     (let s = strip s;
          (neg, ds) = (case s of c # r \<Rightarrow> if c = 45 then (True, r) else if c = 43 then (False, r)
                                       else (False, s) | [] \<Rightarrow> (False, s))
      in if underscored ds
         then let v = int (digits_value (filter (\<lambda>c. c \<noteq> 95) ds)) in Inr (if neg then - v else v)
         else Inl ValueError)"

lemma dec_digits: "list_all is_digit (dec n) \<and> dec n \<noteq> []"
proof (induction n rule: dec.induct)
  case (1 n)
  then show ?case by (subst (1 2) dec.simps) (auto simp: is_digit_def list_all_iff)
qed

lemma digits_value_dec: "digits_value (dec n) = n"
proof (induction n rule: dec.induct)
  case (1 n)
  then show ?case by (subst dec.simps) (simp add: digits_value_def)
qed

lemma underscored_digits: "list_all is_digit s \<Longrightarrow> s \<noteq> [] \<Longrightarrow> underscored s"
  by (induction s rule: underscored.induct) (auto simp: is_digit_def)

lemma digit_chars: "list_all is_digit s \<Longrightarrow> c \<in> set s \<Longrightarrow> 48 \<le> c \<and> c \<le> 57"
  by (auto simp: list_all_iff is_digit_def)

lemma py_int_dec: "py_int (dec n) = Inr (int n)"
proof -
  note d = dec_digits [of n]
  have h: "48 \<le> hd (dec n) \<and> hd (dec n) \<le> 57" "48 \<le> last (dec n) \<and> last (dec n) \<le> 57"
    using d digit_chars [of "dec n"] by simp_all
  have "strip (dec n) = dec n"
    by (rule strip_id) (use d h in \<open>auto simp: py_space_def\<close>)
  moreover have "filter (\<lambda>c. c \<noteq> 95) (dec n) = dec n"
    using d digit_chars [of "dec n" 95] by (auto simp: filter_id_conv)
  moreover obtain c r where "dec n = c # r" using d by (cases "dec n") auto
  ultimately show ?thesis
    using d h underscored_digits [of "dec n"] digits_value_dec [of n]
    by (auto simp: py_int_def Let_def)
qed

lemma py_int_neg: "py_int (45 # dec n) = Inr (- int n)"
proof -
  note d = dec_digits [of n]
  have h: "48 \<le> last (dec n) \<and> last (dec n) \<le> 57" using d digit_chars [of "dec n"] by simp
  have "strip (45 # dec n) = 45 # dec n"
    by (rule strip_id) (use d h in \<open>auto simp: py_space_def\<close>)
  moreover have "filter (\<lambda>c. c \<noteq> 95) (dec n) = dec n"
    using d digit_chars [of "dec n" 95] by (auto simp: filter_id_conv)
  ultimately show ?thesis
    using d underscored_digits [of "dec n"] digits_value_dec [of n]
    by (auto simp: py_int_def Let_def)
qed

text \<open>\<^verbatim>\<open>str(n)\<close> of any integer.\<close>

definition dec_int :: "int \<Rightarrow> ustr" where
  "dec_int n = (if n < 0 then 45 # dec (nat (- n)) else dec (nat n))"

lemma py_int_dec_int: "py_int (dec_int n) = Inr n"
  by (simp add: dec_int_def py_int_dec py_int_neg)

lemma dec_int_upper: "str_upper u (dec_int n) = dec_int n"
proof -
  have "str_upper u s = s" if "list_all is_digit s" for s
    using that by (induction s) (auto simp: str_upper_def is_digit_def)
  then have "str_upper u (dec k) = dec k" for k using dec_digits by blast
  then show ?thesis by (simp add: dec_int_def str_upper_def)
qed


subsection \<open>Hexadecimal\<close>

definition hex_digit :: "nat \<Rightarrow> nat" where
  "hex_digit n = (if n < 10 then 48 + n else 87 + n)"

definition hex2 :: "byte \<Rightarrow> ustr" where
  "hex2 b = [hex_digit (unat b div 16), hex_digit (unat b mod 16)]"

definition hex :: "bytes \<Rightarrow> ustr" where
  "hex bs = concat (map hex2 bs)"

end
