(* ===== verification/Name_Text.thy ===== *)
theory Name_Text
  imports Py_Text Wire_Name_Codec
begin

section \<open>The text form of names, and the mnemonics of record types\<close>

text \<open>
  Models \<^verbatim>\<open>Name.from_text\<close>, \<^verbatim>\<open>Name.to_text\<close> and \<^verbatim>\<open>suffixes\<close> of
  \<^verbatim>\<open>trench/wire/name.py\<close> with their escaping, and
  \<^verbatim>\<open>type_to_text\<close>/\<^verbatim>\<open>type_from_text\<close> of \<^verbatim>\<open>trench/wire/rrtypes.py\<close>.
\<close>

subsection \<open>Escaping\<close>

definition safe_octet :: "byte \<Rightarrow> bool" where
  "safe_octet b \<longleftrightarrow> 0x21 \<le> unat b \<and> unat b < 0x7F \<and> unat b \<noteq> 0x2E \<and> unat b \<noteq> 0x5C"

text \<open>\<^verbatim>\<open>f"\{c:03d}"\<close>\<close>

definition ddd :: "nat \<Rightarrow> ustr" where
  "ddd c = [48 + c div 100 mod 10, 48 + c div 10 mod 10, 48 + c mod 10]"

definition escape_octet :: "byte \<Rightarrow> ustr" where
  "escape_octet b =
     (let c = unat b in
      if c = 0x2E \<or> c = 0x5C then [0x5C, c]
      else if 0x21 \<le> c \<and> c \<le> 0x7E then [c]
      else 0x5C # ddd c)"

definition escape :: "bytes \<Rightarrow> ustr" where
  "escape label =
     (if filter (\<lambda>b. \<not> safe_octet b) label = [] then map unat label
      else concat (map escape_octet label))"

definition to_text :: "bool \<Rightarrow> name \<Rightarrow> ustr" where
  "to_text omit_root n =
     (if omit_root then (if n = [] then [] else join_with 0x2E (map escape n))
      else if n = [] then [0x2E] else join_with 0x2E (map escape n) @ [0x2E])"

subsection \<open>Parsing\<close>

definition is_ddd :: "ustr \<Rightarrow> bool" where
  "is_ddd s \<longleftrightarrow> 3 \<le> length s \<and> list_all is_digit (take 3 s)"

text \<open>
  The loop of \<^verbatim>\<open>_labels_from_text\<close>; the index into the string is the rest of it.
\<close>

fun labels_loop :: "bytes list \<Rightarrow> bytes \<Rightarrow> ustr \<Rightarrow> bytes list result" where
  "labels_loop labels cur [] = Inr (labels @ [cur])"
| "labels_loop labels cur (c # s) =
     (if c = 0x2E then labels_loop (labels @ [cur]) [] s
      else if c \<noteq> 0x5C then
        (if c > 0xFF then Inl WireError else labels_loop labels (cur @ [of_nat c]) s)
      else (case s of
          [] \<Rightarrow> Inl WireError
        | d # r \<Rightarrow>
            if is_ddd s then
              (let v = digits_value (take 3 s) in
               if v > 0xFF then Inl WireError
               else labels_loop labels (cur @ [of_nat v]) (drop 2 r))
            else if d > 0xFF then Inl WireError
            else labels_loop labels (cur @ [of_nat d]) r))"

definition labels_from_text :: "ustr \<Rightarrow> bytes list result" where
  "labels_from_text s =
     rbind (labels_loop [] [] s) (\<lambda>labels.
       Inr (if length labels > 1 \<and> last labels = [] then butlast labels else labels))"

text \<open>\<^verbatim>\<open>part.encode("ascii", "strict")\<close>, its error already a \<^const>\<open>WireError\<close>.\<close>

definition encode_ascii :: "ustr \<Rightarrow> bytes result" where
  "encode_ascii p = (if list_all (\<lambda>c. c < 128) p then Inr (map of_nat p) else Inl WireError)"

fun rmap :: "('a \<Rightarrow> 'b result) \<Rightarrow> 'a list \<Rightarrow> 'b list result" where
  "rmap f [] = Inr []"
| "rmap f (x # xs) = rbind (f x) (\<lambda>y. rbind (rmap f xs) (\<lambda>ys. Inr (y # ys)))"

definition from_text :: "ustr \<Rightarrow> name result" where
  "from_text s =
     (let s = strip s in
      if s = [0x2E] \<or> s = [] then Inr []
      else
        rbind (if 0x5C \<in> set s then labels_from_text s
               else let s = (if endswith [0x2E] s then butlast s else s)
                    in rmap encode_ascii (split_on 0x2E s)) (\<lambda>labels.
        if \<not> list_all (\<lambda>b. 1 \<le> length b \<and> length b \<le> MAX_LABEL) labels then Inl WireError
        else if wire_len labels > MAX_NAME then Inl WireError
        else Inr labels))"

definition wire_key :: "ustr \<Rightarrow> bytes result" where
  "wire_key s = rbind (from_text s) (\<lambda>n. Inr (name_key n))"

subsection \<open>Reading back\<close>

lemma ddd_value: "c < 256 \<Longrightarrow> digits_value (ddd c) = c"
proof -
  assume c: "c < 256"
  then have "c div 100 mod 10 = c div 100" by simp
  moreover have "c = c div 10 * 10 + c mod 10" "c div 10 = c div 100 * 10 + c div 10 mod 10"
    using div_mult_mod_eq [of c 10] div_mult_mod_eq [of "c div 10" 10]
    by (simp_all add: div_mult2_eq [of c 10 10, simplified])
  ultimately show ?thesis by (simp add: digits_value_def ddd_def)
qed

lemma ddd_digits: "list_all is_digit (ddd c)" "length (ddd c) = 3"
  by (auto simp: ddd_def is_digit_def)

lemma byte_of_unat [simp]: "(of_nat (unat b) :: byte) = b"
  by simp

lemma unat_byte: "unat (b :: byte) < 256"
proof -
  have "unat b < 2 ^ LENGTH(8)" by (rule unsigned_less)
  then show ?thesis by simp
qed

lemma loop_octet:
  "labels_loop ls cur (escape_octet b @ rest) = labels_loop ls (cur @ [b]) rest"
proof -
  note b = unat_byte [of b]
  consider (special) "unat b = 0x2E \<or> unat b = 0x5C"
    | (plain) "unat b \<noteq> 0x2E" "unat b \<noteq> 0x5C" "0x21 \<le> unat b" "unat b \<le> 0x7E"
    | (other) "unat b \<noteq> 0x2E" "unat b \<noteq> 0x5C" "\<not> (0x21 \<le> unat b \<and> unat b \<le> 0x7E)"
    by blast
  then show ?thesis
  proof cases
    case special
    then have "escape_octet b = [0x5C, unat b]" by (simp add: escape_octet_def Let_def)
    with special b show ?thesis by (auto simp: is_ddd_def is_digit_def)
  next
    case plain
    then have "escape_octet b = [unat b]" by (simp add: escape_octet_def)
    with plain b show ?thesis by simp
  next
    case other
    then have e: "escape_octet b = 0x5C # ddd (unat b)" by (simp add: escape_octet_def Let_def)
    have "take 3 (ddd (unat b) @ rest) = ddd (unat b)" by (simp add: ddd_def)
    then have "is_ddd (ddd (unat b) @ rest)" "digits_value (take 3 (ddd (unat b) @ rest)) = unat b"
      using ddd_digits [of "unat b"] ddd_value [OF b] by (simp_all add: is_ddd_def)
    with b show ?thesis unfolding e by (simp add: ddd_def Let_def)
  qed
qed

lemma escape_alt: "escape la = concat (map escape_octet la)"
proof -
  have "concat (map escape_octet la) = map unat la" if "list_all safe_octet la"
    using that by (induction la) (auto simp: safe_octet_def escape_octet_def)
  moreover have "filter (\<lambda>b. \<not> safe_octet b) la = [] \<longleftrightarrow> list_all safe_octet la"
    by (induction la) auto
  ultimately show ?thesis by (simp add: escape_def)
qed

lemma loop_label:
  "labels_loop ls cur (escape la @ rest) = labels_loop ls (cur @ la) rest"
  unfolding escape_alt
  by (induction la arbitrary: cur) (simp_all add: loop_octet)

lemma loop_name:
  "n \<noteq> [] \<Longrightarrow> labels_loop ls [] (join_with 0x2E (map escape n) @ [0x2E]) = Inr (ls @ n @ [[]])"
proof (induction n arbitrary: ls)
  case (Cons la n)
  show ?case
  proof (cases n)
    case Nil
    then show ?thesis using loop_label [of ls "[]" la "[0x2E]"] by simp
  next
    case (Cons lb n')
    then have "join_with 0x2E (map escape (la # n)) @ [0x2E] =
        escape la @ 0x2E # (join_with 0x2E (map escape n) @ [0x2E])" by simp
    with Cons.IH [of "ls @ [la]"] Cons show ?thesis
      by (simp only: loop_label) simp
  qed
qed simp

lemma hd_escape: "la \<noteq> [] \<Longrightarrow> escape la \<noteq> [] \<and> \<not> py_space (hd (escape la))"
  unfolding escape_alt
  by (cases la) (auto simp: escape_octet_def ddd_def Let_def py_space_def)

lemma escape_plain:
  "0x5C \<notin> set (escape la) \<Longrightarrow> list_all safe_octet la \<and> escape la = map unat la"
proof -
  assume "0x5C \<notin> set (escape la)"
  then have "list_all safe_octet la"
    unfolding escape_alt
    by (induction la) (auto simp: escape_octet_def safe_octet_def Let_def split: if_splits)
  moreover have "filter (\<lambda>b. \<not> safe_octet b) la = []" using calculation by (induction la) auto
  ultimately show ?thesis by (simp add: escape_def)
qed

lemma safe_plain:
  "list_all safe_octet la \<Longrightarrow> 0x2E \<notin> set (map unat la) \<and> encode_ascii (map unat la) = Inr la"
  by (induction la) (auto simp: safe_octet_def encode_ascii_def split: if_splits)

lemma set_join: "set (join_with sep ps) \<union> {sep} = \<Union> (set ` set ps) \<union> {sep}"
  by (induction sep ps rule: join_with.induct) auto

lemma rmap_encode:
  "list_all (list_all safe_octet) n \<Longrightarrow> rmap encode_ascii (map (map unat) n) = Inr n"
  by (induction n) (simp_all add: safe_plain)

lemma labels_of_text:
  assumes n: "n \<noteq> []" and s: "s = join_with 0x2E (map escape n) @ [0x2E]"
  shows "(if 0x5C \<in> set s then labels_from_text s
          else let s = (if endswith [0x2E] s then butlast s else s)
               in rmap encode_ascii (split_on 0x2E s)) = Inr n"
proof (cases "0x5C \<in> set s")
  case True
  have "labels_loop [] [] s = Inr (n @ [[]])" using loop_name [OF n, of "[]"] s by simp
  with True n show ?thesis by (simp add: labels_from_text_def)
next
  case False
  have plain: "list_all safe_octet la \<and> escape la = map unat la" if "la \<in> set n" for la
  proof (rule escape_plain)
    have "set (escape la) \<subseteq> set (join_with 0x2E (map escape n)) \<union> {0x2E}"
      using set_join [of "0x2E" "map escape n"] that by auto
    with False s show "0x5C \<notin> set (escape la)" by auto
  qed
  then have m: "map escape n = map (map unat) n" by simp
  have "list_all (\<lambda>p. 0x2E \<notin> set p) (map (map unat) n)"
    using plain safe_plain by (fastforce simp: list_all_iff)
  then have "split_on 0x2E (join_with 0x2E (map (map unat) n)) = map (map unat) n"
    using n by (intro split_join) simp_all
  moreover have "rmap encode_ascii (map (map unat) n) = Inr n"
    using plain by (intro rmap_encode) (simp add: list_all_iff)
  ultimately show ?thesis using False by (simp add: s m endswith_def)
qed

lemma to_text_strip:
  assumes "wf_name n" "n \<noteq> []" and s: "s = join_with 0x2E (map escape n) @ [0x2E]"
  shows "strip s = s \<and> s \<noteq> [0x2E] \<and> s \<noteq> []"
proof -
  obtain la r where n: "n = la # r" using assms(2) by (cases n) auto
  then have la: "la \<noteq> []" using assms(1) by (auto simp: wf_name_def wf_label_def)
  obtain t where t: "join_with 0x2E (map escape n) = escape la @ t" by (cases r) (auto simp: n)
  then have "hd s = hd (escape la)" "s \<noteq> []" "s \<noteq> [0x2E]" "last s = 0x2E"
    using hd_escape [OF la] s by (auto simp: append_eq_Cons_conv)
  then show ?thesis using hd_escape [OF la] strip_id [of s] by (simp add: py_space_def)
qed

lemma text_read_back:
  assumes "wf_name n"
  shows "from_text (to_text False n) = Inr n"
proof (cases "n = []")
  case True
  then show ?thesis by (simp add: to_text_def from_text_def strip_def rstrip_def lstrip_def py_space_def)
next
  case False
  obtain s where s: "s = join_with 0x2E (map escape n) @ [0x2E]" by simp
  have ok: "list_all (\<lambda>b. 1 \<le> length b \<and> length b \<le> MAX_LABEL) n" "\<not> wire_len n > MAX_NAME"
    using assms by (auto simp: wf_name_def wf_label_def list_all_iff)
  have "to_text False n = s" using False s by (simp add: to_text_def)
  then show ?thesis
    using to_text_strip [OF assms False s] labels_of_text [OF False s] ok
    by (simp only: from_text_def Let_def) simp
qed

lemma to_text_inj:
  assumes "wf_name a" "wf_name b" and e: "to_text False a = to_text False b"
  shows "a = b"
proof -
  have "Inr a = from_text (to_text False b)" unfolding e [symmetric] by (rule text_read_back [OF assms(1), symmetric])
  also have "\<dots> = Inr b" by (rule text_read_back [OF assms(2)])
  finally show ?thesis by (rule sum.inject(2) [THEN iffD1])
qed

text \<open>
  A well-formed name, whatever octets its labels hold (dots, backslashes, spaces, octets
  beyond ASCII), survives its presentation form: parsing the text gives back the same labels,
  letter case included.
\<close>

theorem from_text_to_text:
  assumes "wf_name n"
  shows "from_text (to_text False n) = Inr n"
  using assms by (rule text_read_back)

theorem from_text_to_text_witness:
  "wf_name [[46, 92, 0], [119, 87]] \<and>
   from_text (to_text False [[46, 92, 0], [119, 87]]) = Inr [[46, 92, 0], [119, 87]]"
proof -
  have "wf_name [[46, 92, 0], [119, 87]]"
    by (simp add: wf_name_def wf_label_def MAX_LABEL_def MAX_NAME_def wire_len_def)
  with from_text_to_text [OF this] show ?thesis by blast
qed

lemma labels_loop_error: "labels_loop ls cur s = Inl e \<Longrightarrow> e = WireError"
  by (induction ls cur s rule: labels_loop.induct) (auto simp: Let_def split: if_splits list.splits)

lemma rmap_ascii_error: "rmap encode_ascii ps = Inl e \<Longrightarrow> e = WireError"
  by (induction ps) (auto simp: rbind_eq_Inl encode_ascii_def split: if_splits)

text \<open>
  Parsing any string as a name either returns a name within the length limits or raises
  \<^const>\<open>WireError\<close>, whatever escapes or characters the string holds.
\<close>

theorem from_text_safe:
  "case from_text s of Inl e \<Rightarrow> e = WireError | Inr n \<Rightarrow> wf_name n"
proof -
  obtain x where x: "x = (if 0x5C \<in> set (strip s) then labels_from_text (strip s)
      else let s = (if endswith [0x2E] (strip s) then butlast (strip s) else strip s)
           in rmap encode_ascii (split_on 0x2E s))" by simp
  have "x = Inl e \<Longrightarrow> e = WireError" for e
    using labels_loop_error rmap_ascii_error
    by (auto simp: x labels_from_text_def rbind_eq_Inl Let_def split: if_splits)
  then show ?thesis
    unfolding from_text_def Let_def x [unfolded Let_def, symmetric]
    by (cases x) (auto simp: wf_name_def wf_label_def list_all_iff MAX_NAME_def wire_len_def)
qed

text \<open>
  The comment in \<^verbatim>\<open>from_text\<close> calls splitting on dots exactly equivalent when there
  are no escapes; it is not for Latin-1 characters, which only the escaping path takes.
\<close>

lemma latin1_needs_escape:
  "from_text [233] = Inl WireError" "from_text [233, 0x5C, 97] = Inr [[233, 97]]"
  by (simp_all add: from_text_def strip_def rstrip_def lstrip_def py_space_def Let_def endswith_def
      encode_ascii_def labels_from_text_def is_ddd_def MAX_LABEL_def MAX_NAME_def wire_len_def)

subsection \<open>Suffixes of a name given as text\<close>

text \<open>The loop over \<^verbatim>\<open>find\<close>; its position is the rest of the string.\<close>

fun suffix_loop :: "ustr \<Rightarrow> ustr list" where
  "suffix_loop [] = []"
| "suffix_loop (c # s) = (if c = 0x2E then s # suffix_loop s else suffix_loop s)"

definition suffixes :: "(nat \<Rightarrow> ustr) \<Rightarrow> ustr \<Rightarrow> ustr list" where
  "suffixes u qname =
     (let name = str_lower u (rstrip (\<lambda>c. c = 0x2E) qname)
      in if name = [] then [] else name # suffix_loop name)"

fun tails :: "'a list \<Rightarrow> 'a list list" where
  "tails [] = []"
| "tails (x # xs) = (x # xs) # tails xs"

lemma suffix_loop_tails:
  "s # suffix_loop s = map (join_with 0x2E) (tails (split_on 0x2E s))"
proof (induction s)
  case (Cons c s)
  obtain p ps where ps: "split_on 0x2E s = p # ps" by (cases "split_on 0x2E s") auto
  have s: "join_with 0x2E (p # ps) = s" using join_split [of "0x2E" s] ps by simp
  have t: "suffix_loop s = map (join_with 0x2E) (tails ps)"
    using Cons.IH unfolding ps tails.simps list.map list.inject by blast
  have "join_with 0x2E ((c # p) # ps) = c # s" unfolding s [symmetric] by (cases ps) simp_all
  then show ?case using ps s t by simp
qed simp

text \<open>
  The slicing loop of \<open>suffixes\<close> returns exactly what the textbook formulation does, the
  joins of every tail of the list of labels, longest first, for the lowercased name without its
  trailing dots; and nothing for the root.
\<close>

theorem suffixes_are_label_tails:
  "suffixes u qname =
     (let name = str_lower u (rstrip (\<lambda>c. c = 0x2E) qname)
      in if name = [] then [] else map (join_with 0x2E) (tails (split_on 0x2E name)))"
  unfolding suffixes_def Let_def suffix_loop_tails ..

subsection \<open>Record type mnemonics\<close>

definition TYPES :: "(int \<times> string) list" where
  "TYPES =
    [(1, ''A''), (2, ''NS''), (5, ''CNAME''), (6, ''SOA''), (12, ''PTR''), (13, ''HINFO''),
     (15, ''MX''), (16, ''TXT''), (17, ''RP''), (28, ''AAAA''), (29, ''LOC''), (33, ''SRV''),
     (35, ''NAPTR''), (37, ''CERT''), (39, ''DNAME''), (41, ''OPT''), (43, ''DS''),
     (44, ''SSHFP''), (45, ''IPSECKEY''), (46, ''RRSIG''), (47, ''NSEC''), (48, ''DNSKEY''),
     (50, ''NSEC3''), (51, ''NSEC3PARAM''), (52, ''TLSA''), (53, ''SMIMEA''), (59, ''CDS''),
     (60, ''CDNSKEY''), (61, ''OPENPGPKEY''), (64, ''SVCB''), (65, ''HTTPS''), (99, ''SPF''),
     (256, ''URI''), (257, ''CAA''), (255, ''ANY''), (252, ''AXFR''), (251, ''IXFR''),
     (249, ''TKEY''), (250, ''TSIG'')]"

definition TYPE_TEXT :: "(int \<times> ustr) list" where
  "TYPE_TEXT = map (\<lambda>(t, name). (t, chars name)) TYPES"

definition type_to_text :: "int \<Rightarrow> ustr" where
  "type_to_text t =
     (case map_of TYPE_TEXT t of Some name \<Rightarrow> name | None \<Rightarrow> chars ''TYPE'' @ dec_int t)"

definition type_from_text :: "(nat \<Rightarrow> ustr) \<Rightarrow> ustr \<Rightarrow> int result" where
  "type_from_text u s =
     (let s = str_upper u s in
      if startswith (chars ''TYPE'') s then py_int (drop 4 s)
      else (case map_of (map (\<lambda>(t, name). (name, t)) TYPE_TEXT) s of
              None \<Rightarrow> Inl KeyError | Some t \<Rightarrow> Inr t))"

lemma mnemonics:
  "distinct (map snd TYPES)"
  "list_all (\<lambda>(t, name). list_all (\<lambda>c. (of_char c :: nat) < 97) name \<and> take 4 name \<noteq> ''TYPE'') TYPES"
  by (simp_all add: TYPES_def)

lemma chars_inj: "chars a = chars b \<longleftrightarrow> a = b"
  unfolding chars_def by (rule inj_map_eq_map) (simp add: inj_on_def)

lemma upper_chars: "list_all (\<lambda>c. (of_char c :: nat) < 97) s \<Longrightarrow> str_upper u (chars s) = chars s"
  by (induction s) (simp_all add: str_upper_def chars_def)

lemma map_of_swap:
  "distinct (map snd xs) \<Longrightarrow> (t, s) \<in> set xs \<Longrightarrow>
     map_of (map (\<lambda>(t, name). (chars name, t)) xs) (chars s) = Some t"
proof (induction xs)
  case (Cons x xs)
  then show ?case by (cases x) (auto simp: chars_inj rev_image_eqI)
qed simp

lemma mnemonics_read_back:
  assumes "(t, s) \<in> set TYPES"
  shows "type_from_text u (chars s) = Inr t"
proof -
  have p: "list_all (\<lambda>c. (of_char c :: nat) < 97) s" "take 4 s \<noteq> ''TYPE''"
    using mnemonics(2) assms by (auto simp: list_all_iff)
  have l: "length (chars ''TYPE'') = 4" by (simp add: chars_def)
  have "chars (take 4 s) = take 4 (chars s)" by (simp only: chars_def take_map)
  then have "\<not> startswith (chars ''TYPE'') (chars s)"
    unfolding startswith_def l using p(2) chars_inj [of "take 4 s" "''TYPE''"] by metis
  moreover have "map (\<lambda>(t, name). (name, t)) TYPE_TEXT = map (\<lambda>(t, name). (chars name, t)) TYPES"
    by (simp add: TYPE_TEXT_def case_prod_beta)
  ultimately show ?thesis
    using map_of_swap [OF mnemonics(1) assms] upper_chars [OF p(1)]
    by (simp add: type_from_text_def Let_def)
qed

text \<open>
  Every record type number, registered or not, survives its mnemonic.
\<close>

theorem type_text_roundtrip: "type_from_text u (type_to_text t) = Inr t"
proof (cases "map_of TYPE_TEXT t")
  case None
  have "str_upper u (chars ''TYPE'' @ dec_int t) = chars ''TYPE'' @ dec_int t"
    using dec_int_upper [of u t] by (simp add: str_upper_def chars_def)
  then show ?thesis
    using None by (simp add: type_to_text_def type_from_text_def Let_def startswith_def chars_def
        py_int_dec_int)
next
  case (Some name)
  then obtain s where "(t, s) \<in> set TYPES" "name = chars s"
    using map_of_SomeD [OF Some] by (auto simp: TYPE_TEXT_def)
  with Some mnemonics_read_back [of t s u] show ?thesis by (simp add: type_to_text_def)
qed

end
