(* ===== verification/Shared_Cache.thy ===== *)
theory Shared_Cache
  imports Complex_Main Name_Text
begin

section \<open>The cross-worker cache\<close>

text \<open>
  Models \<^verbatim>\<open>trench/cache/shared.py\<close>: the direct-mapped table of slots all workers map, and
  the key hash. The hash function (BLAKE2b) is the argument \<open>H\<close>; the bounded locks of
  \<^verbatim>\<open>shmlock.py\<close> are the argument \<open>held\<close>, which says for each stripe whether this access
  could take its lock. Clock readings are rationals. A slot is its header and the payload octets
  the header's length makes visible. The strings of a key are held UTF-8 encoded, as the hash
  takes them.
\<close>

subsection \<open>Keys\<close>

record cache_key =
  k_qname :: bytes
  k_qtype :: int
  k_qclass :: int
  k_do :: bool
  k_ecs :: bytes
  k_cd :: bool
  k_view :: bytes

definition ascii :: "ustr \<Rightarrow> bytes" where
  "ascii s = map of_nat s"

definition bar :: byte where "bar = 124"

definition raw_key :: "cache_key \<Rightarrow> bytes" where
  "raw_key k =
     k_qname k @ bar # ascii (dec_int (k_qtype k)) @ bar # ascii (dec_int (k_qclass k)) @
     bar # ascii (dec_int (of_bool (k_do k))) @ bar # k_ecs k @
     bar # ascii (dec_int (of_bool (k_cd k))) @ bar # k_view k"

definition key64 :: "(bytes \<Rightarrow> int) \<Rightarrow> cache_key \<Rightarrow> int" where
  "key64 H k = H (raw_key k)"

subsection \<open>The table\<close>

record slot =
  kh :: int
  s_inserted :: rat
  s_ttl :: int
  s_wire :: bytes

record shared =
  sh_slots :: "slot list"
  sh_payload :: int

definition blank :: slot where
  "blank = \<lparr>kh = 0, s_inserted = 0, s_ttl = 0, s_wire = []\<rparr>"

definition STRIPES :: nat where "STRIPES = 64"

definition sh_create :: "nat \<Rightarrow> int \<Rightarrow> shared" where
  "sh_create n payload = \<lparr>sh_slots = replicate n blank, sh_payload = payload\<rparr>"

definition sh_bucket :: "int \<Rightarrow> shared \<Rightarrow> nat" where
  "sh_bucket k sh = nat (k mod int (length (sh_slots sh)))"

definition sh_get :: "(nat \<Rightarrow> bool) \<Rightarrow> rat \<Rightarrow> int \<Rightarrow> shared \<Rightarrow> (bytes \<times> rat) option" where
  "sh_get held now k sh =
     (let b = sh_bucket k sh in
      if \<not> held (b mod STRIPES) then None
      else let s = sh_slots sh ! b in
        if kh s \<noteq> k \<or> length (s_wire s) = 0 then None
        else let remaining = of_int (s_ttl s) - (now - s_inserted s) in
          if remaining \<le> 0 then None else Some (s_wire s, remaining))"

text \<open>
  \<^verbatim>\<open>struct\<close> refuses a TTL of more than 32 bits or a length of more than 16; the header is
  then left with a zero length (its caller ignores the exception).
\<close>

definition sh_put :: "(nat \<Rightarrow> bool) \<Rightarrow> rat \<Rightarrow> int \<Rightarrow> bytes \<Rightarrow> int \<Rightarrow> shared \<Rightarrow> shared" where
  "sh_put held now k wire ttl sh =
     (if wire = [] \<or> int (length wire) > sh_payload sh \<or> ttl \<le> 0 then sh
      else let b = sh_bucket k sh in
        if \<not> held (b mod STRIPES) then sh
        else let s = (if ttl < 2 ^ 32 \<and> length wire < 2 ^ 16
                      then \<lparr>kh = k, s_inserted = now, s_ttl = ttl, s_wire = wire\<rparr>
                      else \<lparr>kh = k, s_inserted = now, s_ttl = 0, s_wire = []\<rparr>)
             in sh\<lparr>sh_slots := (sh_slots sh)[b := s]\<rparr>)"

definition sh_delete :: "(nat \<Rightarrow> bool) \<Rightarrow> int \<Rightarrow> shared \<Rightarrow> shared" where
  "sh_delete held k sh =
     (let b = sh_bucket k sh in
      if \<not> held (b mod STRIPES) then sh
      else if kh (sh_slots sh ! b) = k then sh\<lparr>sh_slots := (sh_slots sh)[b := blank]\<rparr> else sh)"

fun clear_slots :: "(nat \<Rightarrow> bool) \<Rightarrow> nat \<Rightarrow> slot list \<Rightarrow> slot list" where
  "clear_slots held b [] = []"
| "clear_slots held b (s # ss) =
     (if held (b mod STRIPES) then blank else s) # clear_slots held (Suc b) ss"

definition sh_clear :: "(nat \<Rightarrow> bool) \<Rightarrow> shared \<Rightarrow> shared" where
  "sh_clear held sh = sh\<lparr>sh_slots := clear_slots held 0 (sh_slots sh)\<rparr>"

subsection \<open>The key encodes every field\<close>

lemma label_len_byte:
  assumes "wf_label la" "wf_label lb"
  shows "(word_of_nat (length la) :: byte) \<noteq> 0"
    and "(word_of_nat (length la) :: byte) = word_of_nat (length lb) \<Longrightarrow> length la = length lb"
proof -
  have u: "unat (word_of_nat (length l) :: byte) = length l" if "wf_label l" for l :: bytes
    using that by (simp add: wf_label_def MAX_LABEL_def unat_of_nat take_bit_nat_eq_self)
  show "(word_of_nat (length la) :: byte) \<noteq> 0"
    using u [OF assms(1)] assms(1) by (auto simp: wf_label_def simp del: of_nat_Suc)
  show "length la = length lb" if "(word_of_nat (length la) :: byte) = word_of_nat (length lb)"
    using u [OF assms(1)] u [OF assms(2)] that by metis
qed

lemma prefix_code:
  assumes "list_all wf_label m" "list_all wf_label n"
    and "name_key m @ u = name_key n @ v"
  shows "name_key m = name_key n \<and> u = v"
  using assms
proof (induction m arbitrary: n)
  case Nil
  show ?case
  proof (cases n)
    case Nil
    with Nil.prems show ?thesis by simp
  next
    case (Cons la n')
    with Nil.prems label_len_byte(1) [of la la] show ?thesis by simp
  qed
next
  case (Cons lb m)
  obtain la n' where n: "n = la # n'"
    using Cons.prems label_len_byte(1) [of lb lb] by (cases n) auto
  then have "length lb = length la"
    using Cons.prems label_len_byte(2) [of lb la] by simp
  with Cons.prems n have "lower lb = lower la" "name_key m @ u = name_key n' @ v"
    by (simp_all add: append_eq_append_same_length)
  with Cons.IH [of n'] Cons.prems n \<open>length lb = length la\<close> show ?case by simp
qed

lemma ascii_dec: "bar \<notin> set (ascii (dec_int n))"
proof -
  have r: "c < 58" if "c \<in> set (dec_int n)" for c
    using that dec_digits digit_chars [of "dec (nat n)" c] digit_chars [of "dec (nat (- n))" c]
    by (auto simp: dec_int_def split: if_splits)
  have "(of_nat c :: byte) \<noteq> 124" if "c \<in> set (dec_int n)" for c
  proof
    assume "(of_nat c :: byte) = 124"
    then have "unat (of_nat c :: byte) = unat (124 :: byte)" by (rule arg_cong)
    with r [OF that] show False by (simp add: unat_of_nat take_bit_nat_eq_self)
  qed
  then show ?thesis by (auto simp: ascii_def bar_def)
qed

lemma dec_int_byte: "c \<in> set (dec_int n) \<Longrightarrow> unat (of_nat c :: byte) = c"
proof -
  assume "c \<in> set (dec_int n)"
  then have "c < 256"
    using dec_digits digit_chars [of "dec (nat n)" c] digit_chars [of "dec (nat (- n))" c]
    by (auto simp: dec_int_def split: if_splits)
  then show ?thesis by (simp add: unat_of_nat take_bit_nat_eq_self)
qed

lemma ascii_inj: "ascii (dec_int a) = ascii (dec_int b) \<Longrightarrow> a = b"
proof -
  assume e: "ascii (dec_int a) = ascii (dec_int b)"
  have "map unat (ascii (dec_int n)) = dec_int n" for n
    unfolding ascii_def map_map
    by (rule map_idI) (unfold comp_apply, erule dec_int_byte)
  with e have "dec_int a = dec_int b" by metis
  then show "a = b" using py_int_dec_int [of a] py_int_dec_int [of b] by (metis sum.inject(2))
qed

lemma cut_at_bar:
  "bar \<notin> set x \<Longrightarrow> bar \<notin> set y \<Longrightarrow> x @ bar # u = y @ bar # v \<Longrightarrow> x = y \<and> u = v"
proof (induction x arbitrary: y)
  case Nil
  then show ?case by (cases y) auto
next
  case (Cons a x)
  then show ?case by (cases y) auto
qed

definition raw_tail :: "cache_key \<Rightarrow> bytes" where
  "raw_tail k =
     bar # ascii (dec_int (k_qtype k)) @ bar # ascii (dec_int (k_qclass k)) @
     bar # ascii (dec_int (of_bool (k_do k))) @ bar # k_ecs k @
     bar # ascii (dec_int (of_bool (k_cd k))) @ bar # k_view k"

lemma raw_key_split: "raw_key k = k_qname k @ raw_tail k"
  by (simp add: raw_key_def raw_tail_def)

definition wf_key :: "cache_key \<Rightarrow> bool" where
  "wf_key k \<longleftrightarrow> (\<exists>n. wf_name n \<and> k_qname k = name_key n) \<and> bar \<notin> set (k_ecs k)"

text \<open>
  The octets that are hashed for the cross-worker cache determine every field of the key, for
  keys made from a name (whose labels may hold any octet, the separator included) and a subnet
  text: two keys that differ in name, type, class, DO, subnet, CD or upstream view never feed the
  hash the same input.
\<close>

theorem raw_key_inj:
  assumes "wf_key a" "wf_key b" "raw_key a = raw_key b"
  shows "a = b"
proof -
  obtain m n where m: "wf_name m" "k_qname a = name_key m" and n: "wf_name n" "k_qname b = name_key n"
    using assms by (auto simp: wf_key_def)
  have e: "bar \<notin> set (k_ecs a)" "bar \<notin> set (k_ecs b)" using assms by (simp_all add: wf_key_def)
  have "list_all wf_label m" "list_all wf_label n" using m n by (simp_all add: wf_name_def)
  note code = prefix_code [OF this]
  have q: "k_qname a = k_qname b" and r: "raw_tail a = raw_tail b"
    using code assms(3) m(2) n(2) unfolding raw_key_split by metis+
  let ?t = "\<lambda>k. k_ecs k @ bar # ascii (dec_int (of_bool (k_cd k))) @ bar # k_view k"
  let ?s = "\<lambda>k. ascii (dec_int (of_bool (k_do k))) @ bar # ?t k"
  let ?r = "\<lambda>k. ascii (dec_int (k_qclass k)) @ bar # ?s k"
  have "ascii (dec_int (k_qtype a)) @ bar # ?r a = ascii (dec_int (k_qtype b)) @ bar # ?r b"
    using r by (simp add: raw_tail_def)
  note c1 = cut_at_bar [OF ascii_dec ascii_dec this]
  note c2 = cut_at_bar [OF ascii_dec ascii_dec c1 [THEN conjunct2]]
  note c3 = cut_at_bar [OF ascii_dec ascii_dec c2 [THEN conjunct2]]
  note c4 = cut_at_bar [OF e c3 [THEN conjunct2]]
  note c5 = cut_at_bar [OF ascii_dec ascii_dec c4 [THEN conjunct2]]
  have "k_qtype a = k_qtype b" "k_qclass a = k_qclass b" "k_do a = k_do b" "k_ecs a = k_ecs b"
    "k_cd a = k_cd b" "k_view a = k_view b"
    using c1 [THEN conjunct1, THEN ascii_inj] c2 [THEN conjunct1, THEN ascii_inj]
      c3 [THEN conjunct1, THEN ascii_inj] c4 c5 [THEN conjunct1, THEN ascii_inj]
      c5 [THEN conjunct2] by (simp_all add: of_bool_eq_iff)
  with q show ?thesis by (cases a, cases b) simp
qed


theorem raw_key_inj_witness:
  "let a = \<lparr>k_qname = [1, 124, 0], k_qtype = 1, k_qclass = 1, k_do = True, k_ecs = [], k_cd = False,
        k_view = []\<rparr> in wf_key a \<and> raw_key a = raw_key a \<and> a = a"
proof -
  obtain a where a: "a = \<lparr>k_qname = [1, 124, 0], k_qtype = 1, k_qclass = 1, k_do = True,
      k_ecs = [], k_cd = False, k_view = []\<rparr>" by simp
  have "wf_name [[124]]" "name_key [[124]] = [1, 124, 0]"
    by (simp_all add: wf_name_def wf_label_def MAX_LABEL_def MAX_NAME_def wire_len_def lower_def
        lower_byte_def)
  then have "wf_key a" unfolding wf_key_def a by (metis cache_key.select_convs(1,5) empty_iff list.set(1))
  from raw_key_inj [OF this this refl] this show ?thesis by (simp add: a)
qed

subsection \<open>The interface\<close>

text \<open>
  What a worker's own cache relies on in the shared one: under any lock outcomes, an operation on
  one key can make other entries disappear but never change what they hold.
\<close>

locale second_level =
  fixes get :: "'t \<Rightarrow> 'k \<Rightarrow> 's \<Rightarrow> 'e option"
    and put :: "'k \<Rightarrow> 'w \<Rightarrow> 's \<Rightarrow> 's"
    and forget :: "'f \<Rightarrow> 's \<Rightarrow> 's"
    and aged :: "'t \<Rightarrow> 'w \<Rightarrow> 'e \<Rightarrow> bool"
    and ok :: "'s \<Rightarrow> bool"
  assumes put_ok: "ok s \<Longrightarrow> ok (put k e s)"
    and forget_ok: "ok s \<Longrightarrow> ok (forget f s)"
    and get_put: "ok s \<Longrightarrow> get t j (put k e s) = Some x \<Longrightarrow>
      j = k \<and> aged t e x \<or> get t j s = Some x"
    and get_forget: "ok s \<Longrightarrow> get t j (forget f s) = Some x \<Longrightarrow> get t j s = Some x"
begin

fun run :: "('k \<times> 'w + 'f) list \<Rightarrow> 's \<Rightarrow> 's" where
  "run [] s = s"
| "run (Inl (k, e) # os) s = run os (put k e s)"
| "run (Inr f # os) s = run os (forget f s)"

lemma run_origin:
  "ok s \<Longrightarrow> get t j (run os s) = Some x \<Longrightarrow>
     get t j s = Some x \<or> (\<exists>e. Inl (j, e) \<in> set os \<and> aged t e x)"
proof (induction os s rule: run.induct)
  case (2 k e os s)
  have "get t j (put k e s) = Some x \<or> (\<exists>e. Inl (j, e) \<in> set os \<and> aged t e x)"
    using "2.IH" [OF put_ok [OF "2.prems"(1)]] "2.prems"(2) by simp
  then show ?case using get_put [OF "2.prems"(1), of t j k e x] by auto
next
  case (3 f os s)
  have "get t j (forget f s) = Some x \<or> (\<exists>e. Inl (j, e) \<in> set os \<and> aged t e x)"
    using "3.IH" [OF forget_ok [OF "3.prems"(1)]] "3.prems"(2) by simp
  then show ?case using get_forget [OF "3.prems"(1), of t j f x] by auto
qed simp

end

text \<open>
  The model provides it: an entry is what one write asks for, \<open>aged\<close> says that a reading is
  that entry with its lifetime run down, and both deletions and sweeps only remove.
\<close>

record l2_entry =
  e_held :: "nat \<Rightarrow> bool"
  e_now :: rat
  e_wire :: bytes
  e_ttl :: int

datatype l2_removal = L2_Delete "nat \<Rightarrow> bool" int | L2_Clear "nat \<Rightarrow> bool"

definition l2_put :: "int \<Rightarrow> l2_entry \<Rightarrow> shared \<Rightarrow> shared" where
  "l2_put k e sh = sh_put (e_held e) (e_now e) k (e_wire e) (e_ttl e) sh"

fun l2_remove :: "l2_removal \<Rightarrow> shared \<Rightarrow> shared" where
  "l2_remove (L2_Delete held k) sh = sh_delete held k sh"
| "l2_remove (L2_Clear held) sh = sh_clear held sh"

definition l2_get :: "(nat \<Rightarrow> bool) \<times> rat \<Rightarrow> int \<Rightarrow> shared \<Rightarrow> (bytes \<times> rat) option" where
  "l2_get t k sh = sh_get (fst t) (snd t) k sh"

definition run_down :: "(nat \<Rightarrow> bool) \<times> rat \<Rightarrow> l2_entry \<Rightarrow> bytes \<times> rat \<Rightarrow> bool" where
  "run_down t e x \<longleftrightarrow> fst x = e_wire e \<and> e_wire e \<noteq> [] \<and> snd x = of_int (e_ttl e) - (snd t - e_now e) \<and> 0 < snd x"

definition sh_ok :: "shared \<Rightarrow> bool" where
  "sh_ok sh \<longleftrightarrow> sh_slots sh \<noteq> []"

lemma length_clear [simp]: "length (clear_slots held b ss) = length ss"
  by (induction held b ss rule: clear_slots.induct) simp_all

lemma nth_clear: "i < length ss \<Longrightarrow>
    clear_slots held b ss ! i = (if held ((b + i) mod STRIPES) then blank else ss ! i)"
proof (induction held b ss arbitrary: i rule: clear_slots.induct)
  case (2 held b s ss)
  then show ?case by (cases i) auto
qed simp

lemma bucket_bound: "sh_ok sh \<Longrightarrow> sh_bucket k sh < length (sh_slots sh)"
  by (simp add: sh_ok_def sh_bucket_def nat_less_iff)

lemma sh_get_put:
  assumes ok: "sh_ok sh" and g: "sh_get held now j (sh_put h t k w ttl sh) = Some x"
  shows "j = k \<and> fst x = w \<and> w \<noteq> [] \<and> snd x = of_int ttl - (now - t) \<and> 0 < snd x \<or>
    sh_get held now j sh = Some x"
proof (cases "sh_put h t k w ttl sh = sh")
  case True
  with g show ?thesis by simp
next
  case False
  obtain s where s: "s = (if ttl < 2 ^ 32 \<and> length w < 2 ^ 16
      then \<lparr>kh = k, s_inserted = t, s_ttl = ttl, s_wire = w\<rparr>
      else \<lparr>kh = k, s_inserted = t, s_ttl = 0, s_wire = []\<rparr>)" by simp
  have p: "sh_put h t k w ttl sh = sh\<lparr>sh_slots := (sh_slots sh)[sh_bucket k sh := s]\<rparr>" and w: "w \<noteq> []"
    using False by (auto simp: sh_put_def Let_def s split: if_splits)
  have b: "sh_bucket j (sh\<lparr>sh_slots := (sh_slots sh)[sh_bucket k sh := s]\<rparr>) = sh_bucket j sh"
    by (simp add: sh_bucket_def)
  show ?thesis
  proof (cases "sh_bucket j sh = sh_bucket k sh")
    case True
    then have at: "(sh_slots sh)[sh_bucket k sh := s] ! sh_bucket j sh = s"
      using bucket_bound [OF ok, of k] by simp
    have c: "kh s = j \<and> s_wire s \<noteq> [] \<and> x = (s_wire s, of_int (s_ttl s) - (now - s_inserted s)) \<and>
        0 < of_int (s_ttl s) - (now - s_inserted s)"
      using g unfolding p sh_get_def Let_def b by (simp add: at split: if_splits)
    then have "s = \<lparr>kh = k, s_inserted = t, s_ttl = ttl, s_wire = w\<rparr>"
      unfolding s by (simp split: if_splits)
    with c w show ?thesis by auto
  next
    case False
    with g show ?thesis unfolding p sh_get_def Let_def b by (auto split: if_splits)
  qed
qed

lemma sh_get_delete:
  assumes ok: "sh_ok sh" and g: "sh_get held now j (sh_delete h k sh) = Some x"
  shows "sh_get held now j sh = Some x"
proof -
  have b: "sh_bucket j (sh\<lparr>sh_slots := (sh_slots sh)[i := s]\<rparr>) = sh_bucket j sh" for i s
    by (simp add: sh_bucket_def)
  show ?thesis
    using g bucket_bound [OF ok, of k] unfolding sh_delete_def sh_get_def Let_def
    by (auto simp: b blank_def nth_list_update split: if_splits)
qed

lemma sh_get_clear:
  assumes ok: "sh_ok sh" and g: "sh_get held now j (sh_clear h sh) = Some x"
  shows "sh_get held now j sh = Some x"
proof -
  have b: "sh_bucket j (sh_clear h sh) = sh_bucket j sh"
    by (simp add: sh_bucket_def sh_clear_def)
  have "sh_slots (sh_clear h sh) ! sh_bucket j sh =
      (if h (sh_bucket j sh mod STRIPES) then blank else sh_slots sh ! sh_bucket j sh)"
    using nth_clear [OF bucket_bound [OF ok], of h 0] by (simp add: sh_clear_def)
  with g show ?thesis
    unfolding sh_get_def Let_def b by (auto simp: blank_def split: if_splits)
qed

interpretation l2: second_level l2_get l2_put l2_remove run_down sh_ok
proof
  show "sh_ok (l2_put k e s)" if "sh_ok s" for k e s
    using that by (auto simp: l2_put_def sh_put_def sh_ok_def Let_def)
  show "sh_ok (l2_remove f s)" if "sh_ok s" for f s
    using that by (cases f) (auto simp: sh_delete_def sh_clear_def sh_ok_def Let_def
        simp flip: length_greater_0_conv)
  show "j = k \<and> run_down t e x \<or> l2_get t j s = Some x"
    if "sh_ok s" "l2_get t j (l2_put k e s) = Some x" for s t j k e x
    using sh_get_put that by (auto simp: l2_get_def l2_put_def run_down_def)
  show "l2_get t j s = Some x" if "sh_ok s" "l2_get t j (l2_remove f s) = Some x" for s t j f x
    using that sh_get_delete sh_get_clear by (cases f) (auto simp: l2_get_def)
qed

text \<open>
  Whatever the workers write, delete or sweep, in whatever order and with whichever stripe
  locks out of reach, a hit in the shared cache is an answer some worker stored under that very
  hash, with the lifetime it was stored with run down by its age and not yet over.
\<close>

theorem shared_hit_origin:
  assumes "0 < n" "l2_get t k (l2.run ops (sh_create n payload)) = Some (wire, left_over)"
  shows "\<exists>e. Inl (k, e) \<in> set ops \<and> wire = e_wire e \<and>
    left_over = of_int (e_ttl e) - (snd t - e_now e) \<and> 0 < left_over"
proof -
  have "sh_ok (sh_create n payload)" using assms(1) by (simp add: sh_ok_def sh_create_def)
  moreover have "l2_get t k (sh_create n payload) = None"
    using bucket_bound [of "sh_create n payload" k] calculation
    by (simp add: l2_get_def sh_get_def Let_def sh_create_def blank_def)
  ultimately show ?thesis
    using l2.run_origin [OF _ assms(2)] by (auto simp: run_down_def)
qed

theorem shared_hit_origin_witness:
  "\<exists>e. Inl (5, e) \<in> set [Inl (5, \<lparr>e_held = (\<lambda>_. True), e_now = 10, e_wire = [1, 2], e_ttl = 60\<rparr>),
        Inr (L2_Delete (\<lambda>_. False) 5)] \<and> [1, 2] = e_wire e \<and>
     (50 :: rat) = of_int (e_ttl e) - (20 - e_now e)"
proof -
  have "l2_get (\<lambda>_. True, 20) 5 (l2.run [Inl (5, \<lparr>e_held = (\<lambda>_. True), e_now = 10, e_wire = [1, 2],
      e_ttl = 60\<rparr>), Inr (L2_Delete (\<lambda>_. False) 5)] (sh_create 1 1232)) = Some ([1, 2], 50)"
    by (simp add: l2_get_def l2_put_def sh_put_def sh_get_def sh_delete_def sh_create_def Let_def
        sh_bucket_def blank_def)
  from shared_hit_origin [OF _ this] show ?thesis by simp
qed

end
