(* ===== verification/Answer_Cache.thy ===== *)
theory Answer_Cache
  imports Ordered_Dict Shared_Cache Wire_Message_Ops
begin

section \<open>The answer cache\<close>

text \<open>
  Models \<^verbatim>\<open>trench/cache/cache.py\<close>: the TTL and least-recently-used store of a worker,
  with negative caching, serve-stale, the second-level cache behind it, flushing and the
  restart file. Clock readings are rationals passed to each operation (\<open>now\<close>, and \<open>snow\<close> for
  the shared cache's own reading); \<open>held\<close> are the lock outcomes of the shared cache. Messages are
  values, so the copies the code makes against aliasing are the messages themselves. Of
  \<^verbatim>\<open>dump\<close> and \<^verbatim>\<open>load\<close> the items are modelled, not the JSON text or the file.
\<close>

subsection \<open>State\<close>

record entry =
  c_msg :: message
  c_inserted :: rat
  c_ttl :: rat
  c_stale_until :: rat
  c_hits :: int

record cstats =
  n_hits :: int
  n_stale_hits :: int
  n_misses :: int
  n_stores :: int
  n_evictions :: int
  n_shared_hits :: int

record cache =
  max_entries :: nat
  min_ttl_cfg :: int
  max_ttl_cfg :: int
  negative_ttl :: int
  serve_stale :: bool
  serve_stale_max :: rat
  c_enabled :: bool
  c_shared :: "shared option"
  c_store :: "(cache_key, entry) odict"
  c_stats :: cstats

definition STALE_TTL :: int where "STALE_TTL = 30"

definition RC_NOERROR :: int where "RC_NOERROR = 0"
definition RC_NXDOMAIN :: int where "RC_NXDOMAIN = 3"
definition T_SOA :: int where "T_SOA = 6"

definition key_for :: "message \<Rightarrow> bytes \<Rightarrow> bytes \<Rightarrow> cache_key option" where
  "key_for m ecs view =
     (case first_question m of
        None \<Rightarrow> None
      | Some q \<Rightarrow> Some \<lparr>k_qname = name_key (qname q), k_qtype = qtype q, k_qclass = qclass q,
                        k_do = wants_dnssec m, k_ecs = ecs, k_cd = has_flag F_CD m,
                        k_view = view\<rparr>)"

subsection \<open>TTLs\<close>

definition clamp :: "cache \<Rightarrow> int \<Rightarrow> int" where
  "clamp c ttl = max (min_ttl_cfg c) (min (max_ttl_cfg c) ttl)"

text \<open>\<^verbatim>\<open>getattr(rr.rdata, "minimum", rr.ttl)\<close>: only SOA data has the field.\<close>

definition soa_minimum :: "rr \<Rightarrow> int" where
  "soa_minimum x = (case rr_rdata x of Rd_SOA _ _ _ _ _ _ mn \<Rightarrow> mn | _ \<Rightarrow> rr_ttl x)"

definition min_default :: "int \<Rightarrow> int list \<Rightarrow> int" where
  "min_default d xs = (case xs of [] \<Rightarrow> d | x # r \<Rightarrow> fold min r x)"

definition derive_ttl :: "cache \<Rightarrow> message \<Rightarrow> int" where
  "derive_ttl c m =
     (let mt = min_ttl m in
      if (rcode m = RC_NXDOMAIN \<or> rcode m = RC_NOERROR) \<and> answers m = [] then
        (let soa = filter (\<lambda>x. rr_type x = T_SOA) (authority m);
             base = min_default (negative_ttl c) (map (\<lambda>x. min (rr_ttl x) (soa_minimum x)) soa)
         in clamp c (min base (negative_ttl c)))
      else clamp c (case mt of Some t \<Rightarrow> t | None \<Rightarrow> min_ttl_cfg c))"

definition retimed :: "int \<Rightarrow> rr list \<Rightarrow> rr list" where
  "retimed ttl xs = map (\<lambda>x. x\<lparr>rr_ttl := ttl\<rparr>) xs"

definition with_ttl :: "message \<Rightarrow> int \<Rightarrow> message" where
  "with_ttl m ttl = m\<lparr>answers := retimed ttl (answers m), authority := retimed ttl (authority m),
                     additional := retimed ttl (additional m)\<rparr>"

subsection \<open>Reading\<close>

definition new_entry :: "cache \<Rightarrow> rat \<Rightarrow> message \<Rightarrow> rat \<Rightarrow> entry" where
  "new_entry c now m ttl = \<lparr>c_msg = m, c_inserted = now, c_ttl = ttl,
                            c_stale_until = now + ttl + serve_stale_max c, c_hits = 0\<rparr>"

text \<open>The trim loop, counting each eviction.\<close>

definition trim :: "cache \<Rightarrow> cache" where
  "trim c =
     c\<lparr>c_store := od_evict (max_entries c) (c_store c),
       c_stats := (c_stats c)\<lparr>n_evictions := n_evictions (c_stats c) +
                    int (length (c_store c) - max_entries c)\<rparr>\<rparr>"

definition shared_get :: "(bytes \<Rightarrow> int) \<Rightarrow> (nat \<Rightarrow> bool) \<Rightarrow> rat \<Rightarrow> rat \<Rightarrow> cache_key \<Rightarrow> cache \<Rightarrow>
    cache \<times> (message \<times> bool) option" where
  "shared_get H held snow now key c =
     (case c_shared c of
        None \<Rightarrow> (c, None)
      | Some sh \<Rightarrow> (case sh_get held snow (key64 H key) sh of
          None \<Rightarrow> (c, None)
        | Some (wire, left) \<Rightarrow> (case parse_message wire of
            Inl _ \<Rightarrow> (c, None)
          | Inr m \<Rightarrow>
              (let c = trim (c\<lparr>c_store := od_set key (new_entry c now m left) (c_store c)\<rparr>);
                   c = c\<lparr>c_stats := (c_stats c)\<lparr>n_shared_hits := n_shared_hits (c_stats c) + 1\<rparr>\<rparr>
               in (c, Some (with_ttl m (max 0 \<lfloor>left\<rfloor>), False))))))"

definition cache_get :: "(bytes \<Rightarrow> int) \<Rightarrow> (nat \<Rightarrow> bool) \<Rightarrow> rat \<Rightarrow> rat \<Rightarrow> bool \<Rightarrow> bool \<Rightarrow> cache_key \<Rightarrow>
    cache \<Rightarrow> cache \<times> (message \<times> bool) option" where
  "cache_get H held snow now allow_stale count_miss key c =
     (if \<not> c_enabled c then (c, None)
      else
        let miss = (\<lambda>c. case shared_get H held snow now key c of
                (c, Some hit) \<Rightarrow> (c, Some hit)
              | (c, None) \<Rightarrow>
                  (if count_miss
                   then c\<lparr>c_stats := (c_stats c)\<lparr>n_misses := n_misses (c_stats c) + 1\<rparr>\<rparr>
                   else c, None))
        in case od_get key (c_store c) of
             None \<Rightarrow> miss c
           | Some e \<Rightarrow>
               let left = c_ttl e - (now - c_inserted e) in
               if left > 0 then
                 (c\<lparr>c_store := od_touch key (od_set key (e\<lparr>c_hits := c_hits e + 1\<rparr>) (c_store c)),
                    c_stats := (c_stats c)\<lparr>n_hits := n_hits (c_stats c) + 1\<rparr>\<rparr>,
                  Some (with_ttl (c_msg e) (max 0 \<lfloor>left\<rfloor>), False))
               else if serve_stale c \<and> now < c_stale_until e then
                 (if allow_stale then
                    (c\<lparr>c_store := od_touch key (c_store c),
                       c_stats := (c_stats c)\<lparr>n_stale_hits := n_stale_hits (c_stats c) + 1\<rparr>\<rparr>,
                     Some (with_ttl (c_msg e) STALE_TTL, True))
                  else miss c)
               else miss (c\<lparr>c_store := od_pop key (c_store c)\<rparr>))"

definition has_stale :: "rat \<Rightarrow> cache_key \<Rightarrow> cache \<Rightarrow> bool" where
  "has_stale now key c \<longleftrightarrow>
     c_enabled c \<and> serve_stale c \<and>
     (case od_get key (c_store c) of None \<Rightarrow> False | Some e \<Rightarrow> now < c_stale_until e)"

definition cache_remaining :: "rat \<Rightarrow> cache_key \<Rightarrow> cache \<Rightarrow> rat option" where
  "cache_remaining now key c =
     (case od_get key (c_store c) of
        None \<Rightarrow> None
      | Some e \<Rightarrow> let rem = c_ttl e - (now - c_inserted e) in if rem > 0 then Some rem else None)"

subsection \<open>Writing\<close>

definition cache_put :: "(bytes \<Rightarrow> int) \<Rightarrow> (nat \<Rightarrow> bool) \<Rightarrow> rat \<Rightarrow> rat \<Rightarrow> cache_key \<Rightarrow> message \<Rightarrow>
    cache \<Rightarrow> cache" where
  "cache_put H held snow now key m c =
     (if \<not> c_enabled c then c
      else if \<not> (rcode m = RC_NOERROR \<or> rcode m = RC_NXDOMAIN) then c
      else
        let ttl = derive_ttl c m in
        if ttl \<le> 0 \<and> rcode m = RC_NOERROR \<and> answers m \<noteq> [] then c
        else
          let c = c\<lparr>c_store := od_touch key (od_set key (new_entry c now m (of_int ttl)) (c_store c)),
                    c_stats := (c_stats c)\<lparr>n_stores := n_stores (c_stats c) + 1\<rparr>\<rparr>;
              c = trim c
          in case c_shared c of
               None \<Rightarrow> c
             | Some sh \<Rightarrow> (case to_wire None True m of
                 Inl _ \<Rightarrow> c
               | Inr wire \<Rightarrow> c\<lparr>c_shared := Some (sh_put held snow (key64 H key) wire ttl sh)\<rparr>))"

text \<open>
  \<^verbatim>\<open>flush\<close>, of everything or of a domain; \<open>notify\<close> is the callback, on the state \<open>d\<close> of
  whoever keeps copies. It is called before the domain is parsed.
\<close>

definition cache_flush :: "('d \<Rightarrow> 'd) \<Rightarrow> (bytes \<Rightarrow> int) \<Rightarrow> (nat \<Rightarrow> bool) \<Rightarrow> ustr option \<Rightarrow> cache \<Rightarrow> 'd \<Rightarrow>
    'd \<times> (cache \<times> nat) result" where
  "cache_flush notify H held target c d =
     (notify d,
      case target of
        None \<Rightarrow>
          Inr (c\<lparr>c_store := [], c_shared := map_option (sh_clear held) (c_shared c)\<rparr>,
               length (c_store c))
      | Some t \<Rightarrow>
          rbind (wire_key t) (\<lambda>dk.
            let victims = filter (\<lambda>k. key_is_under (k_qname k) dk) (od_keys (c_store c));
                c = fold (\<lambda>k c. c\<lparr>c_store := od_pop k (c_store c),
                                  c_shared := map_option (sh_delete held (key64 H k)) (c_shared c)\<rparr>)
                      victims c
            in Inr (c\<lparr>c_shared := map_option (sh_clear held) (c_shared c)\<rparr>, length victims)))"

subsection \<open>The restart file\<close>

definition serialize :: "rat \<Rightarrow> cache \<Rightarrow> (cache_key \<times> bytes \<times> int) list" where
  "serialize now c =
     concat (map (\<lambda>(key, e).
       let left = c_ttl e - (now - c_inserted e);
           rem = (if left < 0 then - \<lfloor>- left\<rfloor> else \<lfloor>left\<rfloor>)
       in if rem \<le> 0 then []
          else (case to_wire None True (c_msg e) of Inl _ \<Rightarrow> [] | Inr w \<Rightarrow> [(key, w, rem)]))
       (c_store c))"

text \<open>\<open>None\<close> is an item of the wrong shape.\<close>

fun load_items :: "rat \<Rightarrow> (cache_key \<times> bytes \<times> int) option list \<Rightarrow> cache \<times> nat \<Rightarrow> cache \<times> nat" where
  "load_items now [] (c, n) = (c, n)"
| "load_items now (None # items) (c, n) = load_items now items (c, n)"
| "load_items now (Some (key, w, ttl) # items) (c, n) =
     (case parse_message w of
        Inl _ \<Rightarrow> load_items now items (c, n)
      | Inr m \<Rightarrow>
          if ttl \<le> 0 then load_items now items (c, n)
          else load_items now items
            (c\<lparr>c_store := od_set key (new_entry c now m (of_int (min ttl (max_ttl_cfg c)))) (c_store c)\<rparr>,
             n + 1))"

definition cache_load :: "rat \<Rightarrow> (cache_key \<times> bytes \<times> int) option list \<Rightarrow> cache \<Rightarrow> cache \<times> nat" where
  "cache_load now items c =
     (let (c, n) = load_items now items (c, 0);
          c = trim c
      in (c, min n (length (c_store c))))"

end
