(* ===== verification/Answer_Cache_Props.thy ===== *)
theory Answer_Cache_Props
  imports Answer_Cache
begin

section \<open>What the answer cache promises\<close>

text \<open>
  The size bound and the shape of the store as an invariant of every operation, freshness of
  what \<^verbatim>\<open>get\<close> returns, the fallback that failures must not destroy, the bounds of stored
  TTLs, what a flush removes, and the order of eviction, through the least-recently-used
  interface of \<^verbatim>\<open>Ordered_Dict\<close>.
\<close>

subsection \<open>The operations as steps\<close>



definition entry_ok :: "cache \<Rightarrow> entry \<Rightarrow> bool" where
  "entry_ok c e \<longleftrightarrow> c_stale_until e = c_inserted e + c_ttl e + serve_stale_max c"

text \<open>The shape of the store, without and with its bound.\<close>

definition store_ok :: "cache \<Rightarrow> bool" where
  "store_ok c \<longleftrightarrow> distinct (od_keys (c_store c)) \<and> list_all (\<lambda>(_, e). entry_ok c e) (c_store c)"

definition cache_ok :: "cache \<Rightarrow> bool" where
  "cache_ok c \<longleftrightarrow> store_ok c \<and> length (c_store c) \<le> max_entries c"





lemma length_od_set:
  "length (od_set k v d) = (if k \<in> set (od_keys d) then length d else length d + 1)"
  using arg_cong [OF od_keys_set [of k v d], of length] by (simp split: if_splits)


text \<open>Everything but the store, the statistics and the second level is configuration.\<close>

definition same_config :: "cache \<Rightarrow> cache \<Rightarrow> bool" where
  "same_config a b \<longleftrightarrow> max_entries a = max_entries b \<and> serve_stale_max a = serve_stale_max b \<and>
     min_ttl_cfg a = min_ttl_cfg b \<and> max_ttl_cfg a = max_ttl_cfg b \<and>
     negative_ttl a = negative_ttl b \<and> serve_stale a = serve_stale b \<and> c_enabled a = c_enabled b"

lemma entry_ok_same: "serve_stale_max a = serve_stale_max b \<Longrightarrow> entry_ok a e = entry_ok b e"
  by (simp add: entry_ok_def)





lemma cache_ok_irrelevant [simp]:
  "cache_ok (c\<lparr>c_stats := s\<rparr>) = cache_ok c" "cache_ok (c\<lparr>c_shared := x\<rparr>) = cache_ok c"
  by (simp_all add: cache_ok_def store_ok_def entry_ok_def)




definition flush_one :: "(bytes \<Rightarrow> int) \<Rightarrow> (nat \<Rightarrow> bool) \<Rightarrow> cache_key \<Rightarrow> cache \<Rightarrow> cache" where
  "flush_one H held k c = c\<lparr>c_store := od_pop k (c_store c),
     c_shared := map_option (sh_delete held (key64 H k)) (c_shared c)\<rparr>"



lemma cache_flush_some:
  "cache_flush notify H held (Some t) c d =
     (notify d, rbind (wire_key t) (\<lambda>dk.
        let victims = filter (\<lambda>k. key_is_under (k_qname k) dk) (od_keys (c_store c));
            c' = fold (flush_one H held) victims c
        in Inr (c'\<lparr>c_shared := map_option (sh_clear held) (c_shared c')\<rparr>, length victims)))"
  by (simp add: cache_flush_def flush_one_def [abs_def])






definition new_cache :: "nat \<Rightarrow> shared option \<Rightarrow> cache" where
  "new_cache n sh = \<lparr>max_entries = n, min_ttl_cfg = 0, max_ttl_cfg = 86400, negative_ttl = 900,
     serve_stale = True, serve_stale_max = 86400, c_enabled = True, c_shared = sh, c_store = [],
     c_stats = \<lparr>n_hits = 0, n_stale_hits = 0, n_misses = 0, n_stores = 0, n_evictions = 0,
                n_shared_hits = 0\<rparr>\<rparr>"


subsection \<open>Freshness\<close>

lemma shared_get_fresh:
  assumes "shared_get H held snow now k c = (c', Some (m, stale))"
  shows "\<exists>sh wire left m0. c_shared c = Some sh \<and> sh_get held snow (key64 H k) sh = Some (wire, left) \<and>
    parse_message wire = Inr m0 \<and> m = with_ttl m0 (max 0 \<lfloor>left\<rfloor>) \<and> \<not> stale"
  using assms by (auto simp: shared_get_def Let_def split: option.splits sum.splits)

text \<open>What a hit without stale data rests on: an entry of either level that has not expired.\<close>

definition fresh_hit :: "(bytes \<Rightarrow> int) \<Rightarrow> (nat \<Rightarrow> bool) \<Rightarrow> rat \<Rightarrow> rat \<Rightarrow> cache_key \<Rightarrow> cache \<Rightarrow> message \<Rightarrow> bool" where
  "fresh_hit H held snow now k c m \<longleftrightarrow>
     (\<exists>e. od_get k (c_store c) = Some e \<and> now < c_inserted e + c_ttl e \<and>
        m = with_ttl (c_msg e) \<lfloor>c_inserted e + c_ttl e - now\<rfloor>) \<or>
     (\<exists>sh wire left m0. c_shared c = Some sh \<and> sh_get held snow (key64 H k) sh = Some (wire, left) \<and>
        parse_message wire = Inr m0 \<and> m = with_ttl m0 (max 0 \<lfloor>left\<rfloor>))"

definition stale_hit :: "rat \<Rightarrow> cache_key \<Rightarrow> cache \<Rightarrow> message \<Rightarrow> bool" where
  "stale_hit now k c m \<longleftrightarrow> serve_stale c \<and>
     (\<exists>e. od_get k (c_store c) = Some e \<and> c_inserted e + c_ttl e \<le> now \<and>
        now < c_stale_until e \<and> m = with_ttl (c_msg e) STALE_TTL)"

text \<open>
  C15: an expired entry is a miss: a lookup returns data as fresh only from an entry of its own
  store, or of the shared cache under the key's hash, whose lifetime is not over, with every TTL
  run down to what is left of it; it returns data as stale only when the caller asked for it,
  within the stale deadline and with the short stale TTL; and a disabled cache returns nothing.
\<close>

theorem expired_is_a_miss:
  assumes "cache_get H held snow now allow cnt k c = (c', Some (m, stale))"
  shows "c_enabled c \<and> (if stale then allow \<and> stale_hit now k c m else fresh_hit H held snow now k c m)"
proof -
  have en: "c_enabled c" using assms by (auto simp: cache_get_def split: if_splits)
  have miss: "\<not> stale \<and> fresh_hit H held snow now k c m"
    if "(case shared_get H held snow now k d of
          (c, Some hit) \<Rightarrow> (c, Some hit)
        | (c, None) \<Rightarrow> (if cnt then c\<lparr>c_stats := (c_stats c)\<lparr>n_misses := n_misses (c_stats c) + 1\<rparr>\<rparr>
                        else c, None)) = (c', Some (m, stale))" and "c_shared d = c_shared c" for d
    using that shared_get_fresh [of H held snow now k d c' m stale]
    by (auto simp: fresh_hit_def split: prod.splits option.splits)
  show ?thesis
  proof (cases "od_get k (c_store c)")
    case None
    then show ?thesis using assms en miss [of c] by (auto simp: cache_get_def Let_def)
  next
    case (Some e)
    show ?thesis
    proof (cases "now < c_inserted e + c_ttl e")
      case True
      then have "max 0 \<lfloor>c_ttl e - (now - c_inserted e)\<rfloor> = \<lfloor>c_inserted e + c_ttl e - now\<rfloor>"
        by (simp add: max_def algebra_simps)
      with True Some assms en show ?thesis
        by (auto simp: cache_get_def Let_def fresh_hit_def)
    next
      case False
      then show ?thesis
        using Some assms en miss [of c] miss [of "c\<lparr>c_store := od_pop k (c_store c)\<rparr>"]
        by (auto simp: cache_get_def Let_def stale_hit_def split: if_splits)
    qed
  qed
qed

definition demo_key :: cache_key where
  "demo_key = \<lparr>k_qname = [1, 97, 0], k_qtype = 1, k_qclass = 1, k_do = False, k_ecs = [],
               k_cd = False, k_view = []\<rparr>"

definition demo_cache :: cache where
  "demo_cache = (new_cache 2 None)\<lparr>c_store := [(demo_key, \<lparr>c_msg = example_message,
     c_inserted = 0, c_ttl = 300, c_stale_until = 86700, c_hits = 0\<rparr>)]\<rparr>"


theorem expired_is_a_miss_witness:
  "fresh_hit (\<lambda>_. 0) (\<lambda>_. True) 10 10 demo_key demo_cache (with_ttl example_message 290) \<and>
   stale_hit 400 demo_key demo_cache (with_ttl example_message 30)"
proof -
  have a: "\<exists>c'. cache_get (\<lambda>_. 0) (\<lambda>_. True) 10 10 False True demo_key demo_cache =
      (c', Some (with_ttl example_message 290, False))"
    by (simp add: cache_get_def demo_cache_def new_cache_def od_get_def Let_def)
  have b: "\<exists>c'. cache_get (\<lambda>_. 0) (\<lambda>_. True) 400 400 True True demo_key demo_cache =
      (c', Some (with_ttl example_message 30, True))"
    by (simp add: cache_get_def demo_cache_def new_cache_def od_get_def Let_def STALE_TTL_def)
  from a b show ?thesis using expired_is_a_miss by (metis (full_types))
qed

subsection \<open>TTLs\<close>

lemma min_default_le: "x \<in> set xs \<Longrightarrow> min_default d xs \<le> x"
proof -
  have f: "fold min ys a \<le> a \<and> list_all (\<lambda>y. fold min ys a \<le> y) ys" for ys and a :: int
  proof (induction ys arbitrary: a)
    case (Cons y ys)
    from Cons.IH [of "min y a"] show ?case by simp
  qed simp
  assume "x \<in> set xs"
  then show ?thesis
    using f by (cases xs) (auto simp: min_default_def list_all_iff)
qed

text \<open>
  The lifetime an answer is stored with: always between the configured least and greatest
  TTL; for a negative answer also at most the negative TTL, at most every SOA's own TTL and at
  most every SOA's MINIMUM, unless the configured least TTL forces it up; for any other answer at
  most every record's TTL, with the same exception.
\<close>

theorem stored_ttl_bounds:
  assumes "min_ttl_cfg c \<le> max_ttl_cfg c"
  shows "min_ttl_cfg c \<le> derive_ttl c m \<and> derive_ttl c m \<le> max_ttl_cfg c \<and>
    (if (rcode m = RC_NXDOMAIN \<or> rcode m = RC_NOERROR) \<and> answers m = []
     then derive_ttl c m \<le> max (min_ttl_cfg c) (negative_ttl c) \<and>
       list_all (\<lambda>x. rr_type x = T_SOA \<longrightarrow>
         derive_ttl c m \<le> max (min_ttl_cfg c) (min (rr_ttl x) (soa_minimum x))) (authority m)
     else list_all (\<lambda>t. derive_ttl c m \<le> max (min_ttl_cfg c) t) (ttls (answers m @ authority m)))"
proof -
  let ?soa = "filter (\<lambda>x. rr_type x = T_SOA) (authority m)"
  have lo: "min_ttl_cfg c \<le> derive_ttl c m" and hi: "derive_ttl c m \<le> max_ttl_cfg c"
    using assms by (auto simp: derive_ttl_def clamp_def Let_def)
  show ?thesis
  proof (cases "(rcode m = RC_NXDOMAIN \<or> rcode m = RC_NOERROR) \<and> answers m = []")
    case True
    have d: "derive_ttl c m = clamp c (min (min_default (negative_ttl c)
        (map (\<lambda>x. min (rr_ttl x) (soa_minimum x)) ?soa)) (negative_ttl c))"
      using True by (simp add: derive_ttl_def Let_def)
    have "derive_ttl c m \<le> max (min_ttl_cfg c) (min (rr_ttl x) (soa_minimum x))"
      if "x \<in> set (authority m)" "rr_type x = T_SOA" for x
      using that min_default_le [of "min (rr_ttl x) (soa_minimum x)"
          "map (\<lambda>x. min (rr_ttl x) (soa_minimum x)) ?soa" "negative_ttl c"]
      unfolding d clamp_def by fastforce
    moreover have "derive_ttl c m \<le> max (min_ttl_cfg c) (negative_ttl c)"
      unfolding d clamp_def by auto
    ultimately show ?thesis using True lo hi by (auto simp: list_all_iff)
  next
    case False
    then have d: "derive_ttl c m = clamp c (case min_ttl m of Some t \<Rightarrow> t | None \<Rightarrow> min_ttl_cfg c)"
      by (auto simp: derive_ttl_def Let_def)
    have least: "case min_ttl m of None \<Rightarrow> ttls (answers m @ authority m) = []
        | Some t \<Rightarrow> list_all (\<lambda>x. t \<le> x) (ttls (answers m @ authority m))"
      using min_ttl_walk_spec [of None "answers m"]
        min_ttl_walk_spec [of "min_ttl_walk (answers m) None" "authority m"]
      unfolding min_ttl_def list_all_iff by (force split: option.splits)
    show ?thesis
    proof (cases "min_ttl m")
      case None
      with least False lo hi show ?thesis by auto
    next
      case (Some t)
      have "derive_ttl c m \<le> max (min_ttl_cfg c) x" if "x \<in> set (ttls (answers m @ authority m))" for x
      proof -
        have "t \<le> x" using least Some that by (simp add: list_all_iff)
        then show ?thesis by (simp add: d clamp_def Some max_def min_def)
      qed
      then have "list_all (\<lambda>x. derive_ttl c m \<le> max (min_ttl_cfg c) x) (ttls (answers m @ authority m))"
        unfolding list_all_iff by blast
      with False lo hi show ?thesis by auto
    qed
  qed
qed

theorem stored_ttl_bounds_witness:
  "min_ttl_cfg (new_cache 1 None) \<le> max_ttl_cfg (new_cache 1 None) \<and>
   derive_ttl (new_cache 1 None) example_message \<le> 86400"
  using stored_ttl_bounds [of "new_cache 1 None" example_message] by (simp add: new_cache_def)

subsection \<open>Flushing\<close>

lemma fold_flush_one:
  "od_get j (c_store (fold (flush_one H held) ks c)) = (if j \<in> set ks then None else od_get j (c_store c)) \<and>
   (c_shared (fold (flush_one H held) ks c) = None \<longleftrightarrow> c_shared c = None)"
  by (induction ks arbitrary: c) (auto simp: flush_one_def od_simps)

lemma sh_clear_empty:
  "sh_ok sh \<Longrightarrow> (\<And>i. held i) \<Longrightarrow> sh_get held' now k (sh_clear held sh) = None"
proof -
  assume ok: "sh_ok sh" and held: "\<And>i. held i"
  have b: "sh_bucket k (sh_clear held sh) = sh_bucket k sh" by (simp add: sh_bucket_def sh_clear_def)
  have "sh_slots (sh_clear held sh) ! sh_bucket k sh = blank"
    using nth_clear [OF bucket_bound [OF ok], of held 0] held by (simp add: sh_clear_def)
  then show ?thesis by (simp add: sh_get_def Let_def b blank_def)
qed

lemma sh_delete_ok: "sh_ok sh \<Longrightarrow> sh_ok (sh_delete held k sh)"
  by (auto simp: sh_ok_def sh_delete_def Let_def simp flip: length_greater_0_conv)

definition l2_ok :: "cache \<Rightarrow> bool" where
  "l2_ok c \<longleftrightarrow> (case c_shared c of None \<Rightarrow> True | Some sh \<Rightarrow> sh_ok sh)"

lemma flush_l2_ok: "l2_ok c \<Longrightarrow> l2_ok (fold (flush_one H held) ks c)"
proof (induction ks arbitrary: c)
  case (Cons k ks)
  have "l2_ok (flush_one H held k c)"
    using Cons.prems by (auto simp: l2_ok_def flush_one_def sh_delete_ok split: option.splits)
  with Cons.IH show ?case by simp
qed simp

lemma get_nothing:
  assumes "od_get k (c_store c) = None" "\<And>sh. c_shared c = Some sh \<Longrightarrow> sh_get held snow (key64 H k) sh = None"
  shows "snd (cache_get H held snow now allow cnt k c) = None"
  using assms by (auto simp: cache_get_def shared_get_def Let_def split: option.split)

text \<open>
  After a flush of a domain that could take every stripe lock, no lookup of the domain or of
  any name below it finds anything, fresh or stale, in this worker or in the shared cache, at any
  time; and the entries of every other name are still in this worker's store.
\<close>

theorem flush_removes_domain:
  assumes "\<And>i. held i" "l2_ok c" "wire_key t = Inr dk"
    and f: "snd (cache_flush notify H held (Some t) c d) = Inr (c', n)"
  shows "(key_is_under (k_qname k) dk \<longrightarrow> snd (cache_get H held' snow now allow cnt k c') = None) \<and>
    (\<not> key_is_under (k_qname k) dk \<longrightarrow> od_get k (c_store c') = od_get k (c_store c))"
proof -
  let ?v = "filter (\<lambda>k. key_is_under (k_qname k) dk) (od_keys (c_store c))"
  let ?f = "fold (flush_one H held) ?v c"
  have c': "c' = ?f\<lparr>c_shared := map_option (sh_clear held) (c_shared ?f)\<rparr>"
    using f assms(3) by (auto simp: cache_flush_some Let_def)
  have g: "od_get k (c_store c') = (if k \<in> set ?v then None else od_get k (c_store c))"
    using fold_flush_one [of k H held ?v c] by (simp add: c')
  have "sh_get held' snow (key64 H k) sh = None" if "c_shared c' = Some sh" for sh
    using that flush_l2_ok [OF assms(2), of H held ?v] sh_clear_empty [OF _ assms(1)]
    by (auto simp: c' l2_ok_def split: option.splits)
  moreover have "od_get k (c_store c') = None" if "key_is_under (k_qname k) dk"
    using that g od_get_None [of k "c_store c"] by auto
  ultimately show ?thesis using get_nothing g by auto
qed

theorem flush_removes_domain_witness:
  "\<exists>c' n. snd (cache_flush id (\<lambda>_. 0) (\<lambda>_. True) (Some [97]) demo_cache ()) = Inr (c', n) \<and>
     key_is_under (k_qname demo_key) [1, 97, 0] \<and>
     snd (cache_get (\<lambda>_. 0) (\<lambda>_. True) 10 10 True True demo_key c') = None"
proof -
  have w: "wire_key [97] = Inr [1, 97, 0]"
    by (simp add: wire_key_def from_text_def strip_def rstrip_def lstrip_def py_space_def Let_def
        endswith_def encode_ascii_def MAX_LABEL_def MAX_NAME_def wire_len_def lower_def lower_byte_def)
  have u: "key_is_under (k_qname demo_key) [1, 97, 0]"
    by (simp add: key_is_under_def ends_with_def demo_key_def key_walk.simps)
  have l: "l2_ok demo_cache" by (simp add: l2_ok_def demo_cache_def new_cache_def)
  obtain c' n where f: "snd (cache_flush id (\<lambda>_. 0) (\<lambda>_. True) (Some [97]) demo_cache ()) = Inr (c', n)"
    by (simp add: cache_flush_def w Let_def)
  from flush_removes_domain [OF _ l w f, of demo_key] f u show ?thesis by auto
qed

subsection \<open>The fallback\<close>

text \<open>
  What happens to a cache while its upstream fails: lookups, whether or not they accept stale data;
  responses whose code says they describe the moment and not the name; and what the other workers do to
  the cache they share. An answer that another worker left in the shared cache is a fresh one that a
  lookup copies into this cache, where it may replace or evict another: in an outage there is none for
  the names looked up.
\<close>

datatype outage_op = Lookup "nat \<Rightarrow> bool" rat rat bool bool cache_key
  | Failure "nat \<Rightarrow> bool" rat rat cache_key message
  | Others "shared option"

fun outage_step :: "(bytes \<Rightarrow> int) \<Rightarrow> outage_op \<Rightarrow> cache \<Rightarrow> cache" where
  "outage_step H (Lookup held snow now stale cnt k) c = fst (cache_get H held snow now stale cnt k c)"
| "outage_step H (Failure held snow now k m) c = cache_put H held snow now k m c"
| "outage_step H (Others sh) c = c\<lparr>c_shared := sh\<rparr>"

fun in_outage :: "(bytes \<Rightarrow> int) \<Rightarrow> rat \<Rightarrow> outage_op \<Rightarrow> cache \<Rightarrow> bool" where
  "in_outage H deadline (Lookup held snow now stale cnt k) c \<longleftrightarrow> now < deadline \<and>
     (case c_shared c of None \<Rightarrow> True | Some sh \<Rightarrow> sh_get held snow (key64 H k) sh = None)"
| "in_outage H deadline (Failure held snow now k m) c \<longleftrightarrow> rcode m \<noteq> RC_NOERROR \<and> rcode m \<noteq> RC_NXDOMAIN"
| "in_outage H deadline (Others sh) c \<longleftrightarrow> True"

fun outage :: "(bytes \<Rightarrow> int) \<Rightarrow> rat \<Rightarrow> outage_op list \<Rightarrow> cache \<Rightarrow> bool" where
  "outage H deadline [] c \<longleftrightarrow> True"
| "outage H deadline (op # ops) c \<longleftrightarrow> in_outage H deadline op c \<and> outage H deadline ops (outage_step H op c)"

definition retains :: "cache_key \<Rightarrow> message \<Rightarrow> rat \<Rightarrow> rat \<Rightarrow> cache \<Rightarrow> bool" where
  "retains k m expiry deadline c \<longleftrightarrow> serve_stale c \<and> c_enabled c \<and>
     (\<exists>e. od_get k (c_store c) = Some e \<and> c_msg e = m \<and> c_inserted e + c_ttl e = expiry \<and>
        c_stale_until e = deadline)"

lemma silent_shared:
  "(case c_shared c of None \<Rightarrow> True | Some sh \<Rightarrow> sh_get held snow (key64 H k) sh = None) \<Longrightarrow>
     c_shared d = c_shared c \<Longrightarrow> shared_get H held snow now k d = (d, None)"
  by (auto simp: shared_get_def split: option.splits)

lemma outage_step_retains:
  assumes r: "retains k m expiry deadline c" and o: "in_outage H deadline op c"
  shows "retains k m expiry deadline (outage_step H op c)"
proof (cases op)
  case (Failure held snow now j x)
  with assms show ?thesis by (simp add: cache_put_def)
next
  case (Others sh)
  with r show ?thesis by (simp add: retains_def)
next
  case (Lookup held snow now stale cnt j)
  have sh: "shared_get H held snow now j d = (d, None)" if "c_shared d = c_shared c" for d
    using o that by (intro silent_shared) (simp_all add: Lookup)
  have gone: "retains k m expiry deadline (c\<lparr>c_store := od_pop j (c_store c)\<rparr>)" if "j \<noteq> k"
    using r that by (simp add: retains_def od_simps)
  have stats: "retains k m expiry deadline (d\<lparr>c_stats := s\<rparr>) = retains k m expiry deadline d" for d s
    by (simp add: retains_def)
  have touched: "retains k m expiry deadline
      (c\<lparr>c_store := od_touch j (od_set j (e\<lparr>c_hits := n\<rparr>) (c_store c)), c_stats := s\<rparr>)"
    if "od_get j (c_store c) = Some e" for e n s
    using r that by (auto simp: retains_def od_simps)
  have moved: "retains k m expiry deadline (c\<lparr>c_store := od_touch j (c_store c), c_stats := s\<rparr>)"
    if "od_get j (c_store c) = Some e" for e s
    using r that by (auto simp: retains_def od_simps)
  have keep: "now < c_stale_until e" if "od_get k (c_store c) = Some e" "j = k" for e
    using r that o Lookup by (auto simp: retains_def)
  have on: "serve_stale c" using r by (simp add: retains_def)
  show ?thesis
  proof (cases "od_get j (c_store c)")
    case None
    then show ?thesis using r by (simp add: Lookup cache_get_def sh stats)
  next
    case (Some e)
    consider "c_ttl e - (now - c_inserted e) > 0"
      | "\<not> c_ttl e - (now - c_inserted e) > 0" "now < c_stale_until e"
      | "\<not> c_ttl e - (now - c_inserted e) > 0" "\<not> now < c_stale_until e" by blast
    then show ?thesis
    proof cases
      case 1
      then show ?thesis using r touched [OF Some] by (simp add: Lookup cache_get_def Some Let_def)
    next
      case 2
      then show ?thesis using r moved [OF Some] on by (simp add: Lookup cache_get_def Some Let_def sh stats)
    next
      case 3
      then have "j \<noteq> k" using keep Some by blast
      with 3 show ?thesis using r gone by (simp add: Lookup cache_get_def Some Let_def sh stats)
    qed
  qed
qed

lemma outage_retains:
  "retains k m expiry deadline c \<Longrightarrow> outage H deadline ops c \<Longrightarrow>
     retains k m expiry deadline (fold (outage_step H) ops c)"
  by (induction ops arbitrary: c) (simp_all add: outage_step_retains)

text \<open>
  C16: an outage does not cost the fallback: an answer the cache holds survives every failed refresh and
  every lookup, of its own name or others, until its stale deadline, as long as the workers' shared cache
  has no answer for a name looked up, and is then what a caller that accepts stale data gets, with the
  short stale TTL.
\<close>

theorem fallback_survives_outage:
  assumes "retains k m expiry deadline c" and "outage H deadline ops c"
    and "expiry \<le> now" "now < deadline"
  shows "snd (cache_get H held snow now True cnt k (fold (outage_step H) ops c)) =
    Some (with_ttl m STALE_TTL, True)"
proof -
  obtain d where d: "d = fold (outage_step H) ops c" by simp
  obtain e where e: "od_get k (c_store d) = Some e" "c_msg e = m" "c_inserted e + c_ttl e = expiry"
    "c_stale_until e = deadline" "serve_stale d" "c_enabled d"
    using outage_retains [OF assms(1,2)] unfolding d retains_def by blast
  have "\<not> c_ttl e - (now - c_inserted e) > 0" using e(3) assms(3) by linarith
  with e assms(4) show ?thesis unfolding d [symmetric] by (simp add: cache_get_def Let_def)
qed

definition demo_shared :: shared where
  "demo_shared = \<lparr>sh_slots = [blank], sh_payload = 512\<rparr>"

definition demo_outage :: "outage_op list" where
  "demo_outage = [Lookup (\<lambda>_. True) 400 400 False True demo_key, Others (Some demo_shared),
     Failure (\<lambda>_. True) 401 401 demo_key (set_rcode 2 example_message),
     Lookup (\<lambda>_. True) 402 402 True True demo_key, Lookup (\<lambda>_. True) 403 403 True True (demo_key\<lparr>k_qtype := 2\<rparr>)]"

lemma demo_shared_empty: "sh_get held now k demo_shared = None"
  by (simp add: sh_get_def demo_shared_def blank_def Let_def sh_bucket_def)

lemma get_keeps_shared: "c_shared (fst (cache_get H held snow now stale cnt k c)) = c_shared c"
  by (auto simp: cache_get_def shared_get_def trim_def Let_def split: option.splits sum.splits prod.splits)

theorem fallback_survives_outage_witness:
  "snd (cache_get (\<lambda>_. 0) (\<lambda>_. True) 500 500 True True demo_key
      (fold (outage_step (\<lambda>_. 0)) demo_outage demo_cache)) =
    Some (with_ttl example_message STALE_TTL, True)"
proof (rule fallback_survives_outage)
  show "retains demo_key example_message 300 86700 demo_cache"
    by (simp add: retains_def demo_cache_def new_cache_def od_get_def)
  have "rcode (set_rcode 2 example_message) = 2" by (rule rcode_set_rcode) simp_all
  then show "outage (\<lambda>_. 0) 86700 demo_outage demo_cache"
    by (simp add: demo_outage_def RC_NOERROR_def RC_NXDOMAIN_def get_keeps_shared demo_shared_empty cache_put_def
        demo_cache_def new_cache_def)
qed simp_all

subsection \<open>Eviction\<close>

definition store_insert :: "nat \<Rightarrow> cache_key \<Rightarrow> entry \<Rightarrow> (cache_key, entry) odict \<Rightarrow> (cache_key, entry) odict" where
  "store_insert n k e d = od_evict n (od_touch k (od_set k e d))"

interpretation lru: lru_store od_keys od_touch "store_insert n" n for n
proof
  show "od_keys (od_touch k s) = removeAll k (od_keys s) @ [k]" if "k \<in> set (od_keys s)"
    for k :: cache_key and s :: "(cache_key, entry) odict"
    using that by (simp add: od_simps)
  show "od_keys (store_insert n k v s) =
      (let ks = removeAll k (od_keys s) @ [k] in drop (length ks - n) ks)" for k v s
  proof -
    have "od_keys (od_touch k (od_set k v s)) = removeAll k (od_keys s) @ [k]"
      by (auto simp: od_simps)
    then show ?thesis unfolding store_insert_def Let_def
      by (metis od_keys_evict length_od_keys)
  qed
qed

lemma put_is_insert:
  "(\<exists>e. c_store (cache_put H held snow now k m c) = store_insert (max_entries c) k e (c_store c)) \<or>
   c_store (cache_put H held snow now k m c) = c_store c"
  by (auto simp: cache_put_def Let_def trim_def store_insert_def split: option.split sum.split)

lemma put_max_entries [simp]: "max_entries (cache_put H held snow now k m c) = max_entries c"
  by (auto simp: cache_put_def Let_def trim_def split: option.split sum.split)

text \<open>A run of stores; each carries its own lock outcomes, clock, key and message.\<close>

fun puts :: "(bytes \<Rightarrow> int) \<Rightarrow> ((nat \<Rightarrow> bool) \<times> rat \<times> rat \<times> cache_key \<times> message) list \<Rightarrow> cache \<Rightarrow> cache" where
  "puts H [] c = c"
| "puts H ((held, snow, now, k, m) # ps) c = puts H ps (cache_put H held snow now k m c)"

lemma puts_survive:
  "distinct (od_keys (c_store c)) \<Longrightarrow> k \<in> set (od_keys (c_store c)) \<Longrightarrow>
     younger k (od_keys (c_store c)) + length ps < max_entries c \<Longrightarrow>
     k \<in> set (od_keys (c_store (puts H ps c)))"
proof (induction H ps c rule: puts.induct)
  case (2 H held snow now j m ps c)
  let ?c = "cache_put H held snow now j m c"
  from put_is_insert [of H held snow now j m c] show ?case
  proof
    assume "\<exists>e. c_store ?c = store_insert (max_entries c) j e (c_store c)"
    then obtain e where e: "c_store ?c = store_insert (max_entries c) j e (c_store c)" ..
    have "younger k (od_keys (c_store c)) + 1 < max_entries c" using "2.prems"(3) by simp
    note s = lru.insert_survives [OF "2.prems"(1,2) this, of j e]
    have "distinct (od_keys (c_store ?c))" unfolding e by (rule lru.insert_distinct [OF "2.prems"(1)])
    with "2.IH" "2.prems"(3) s show ?case by (simp add: e)
  next
    assume "c_store ?c = c_store c"
    with "2.IH" "2.prems" show ?case by simp
  qed
qed simp

text \<open>
  Eviction spares what was just used: after a lookup that hit this worker's store, fresh or
  stale, the entry is still there after any run of fewer stores than the cache has room for,
  whichever names they are for.
\<close>

theorem hit_survives_stores:
  assumes "cache_ok c" "c_enabled c" "od_get k (c_store c) = Some e"
    and "now < c_inserted e + c_ttl e \<or> allow \<and> serve_stale c \<and> now < c_stale_until e"
    and "length ps < max_entries c"
  shows "od_get k (c_store (puts H ps (fst (cache_get H held snow now allow cnt k c)))) \<noteq> None"
proof -
  let ?c = "fst (cache_get H held snow now allow cnt k c)"
  have d: "distinct (od_keys (c_store c))" and k: "k \<in> set (od_keys (c_store c))"
    using assms(1,3) od_get_None [of k "c_store c"] by (auto simp: cache_ok_def store_ok_def)
  have "max_entries ?c = max_entries c \<and> od_keys (c_store ?c) = od_keys (od_touch k (c_store c))"
    using assms(2-4) k by (auto simp: cache_get_def Let_def od_simps)
  moreover have "younger k (od_keys (od_touch k (c_store c))) = 0"
    by (rule lru.used_last [OF d k])
  ultimately have "k \<in> set (od_keys (c_store (puts H ps ?c)))"
    using puts_survive [of ?c k ps H] distinct_od(2) [OF d, of k] k assms(5)
    by (simp add: od_keys_touch)
  then show ?thesis unfolding od_get_None by blast
qed

theorem hit_survives_stores_witness:
  "od_get demo_key (c_store (puts (\<lambda>_. 0) [(\<lambda>_. True, 20, 20, demo_key\<lparr>k_qtype := 28\<rparr>, example_message)]
     (fst (cache_get (\<lambda>_. 0) (\<lambda>_. True) 10 10 False True demo_key demo_cache)))) \<noteq> None"
proof (rule hit_survives_stores)
  show "cache_ok demo_cache"
    by (simp add: cache_ok_def store_ok_def demo_cache_def new_cache_def od_keys_def entry_ok_def)
  show "c_enabled demo_cache" by (simp add: demo_cache_def new_cache_def)
  show "od_get demo_key (c_store demo_cache) = Some \<lparr>c_msg = example_message,
     c_inserted = 0, c_ttl = 300, c_stale_until = 86700, c_hits = 0\<rparr>"
    by (simp add: demo_cache_def od_get_def)
qed (simp_all add: demo_cache_def new_cache_def)

text \<open>
  A promotion from the shared cache over an expired entry is the exception: the entry is served
  but keeps its old place in the order of eviction.
\<close>

lemma promotion_keeps_place:
  "shared_get H held snow now k c = (c', Some r) \<Longrightarrow> k \<in> set (od_keys (c_store c)) \<Longrightarrow>
     length (c_store c) \<le> max_entries c \<Longrightarrow> od_keys (c_store c') = od_keys (c_store c)"
  by (auto simp: shared_get_def Let_def trim_def od_simps length_od_set split: option.splits sum.splits)

end
