(* ===== verification/Rate_Limit.thy ===== *)
theory Rate_Limit
  imports Complex_Main Ordered_Dict
begin

section \<open>Per-client rate limiting\<close>

text \<open>
  Models \<^verbatim>\<open>trench/engine/ratelimit.py\<close>: a token bucket per client address, with a bound on
  the number of buckets. Times, rates and token counts are rationals.
\<close>

subsection \<open>The limiter\<close>

record 'k limiter =
  rate :: rat
  burst :: rat
  max_keys :: nat
  buckets :: "('k, rat \<times> rat) odict"

definition MAX_KEYS :: nat where "MAX_KEYS = 65536"

definition new_limiter :: "rat \<Rightarrow> rat \<Rightarrow> nat \<Rightarrow> int \<Rightarrow> 'k limiter" where
  "new_limiter r b mk workers =
     (let w = max 1 workers;
          r' = (if r > 0 then r / of_int w else r);
          b' = (if b > 0 then b / of_int w else max 1 r')
      in \<lparr>rate = r', burst = max 1 b', max_keys = mk, buckets = []\<rparr>)"

definition rl_enabled :: "'k limiter \<Rightarrow> bool" where
  "rl_enabled l \<longleftrightarrow> rate l > 0"

text \<open>\<^verbatim>\<open>sorted\<close> is stable, as is \<^const>\<open>sort_key\<close>.\<close>

definition rl_trim :: "'k limiter \<Rightarrow> 'k limiter" where
  "rl_trim l =
     (let stale = sort_key (\<lambda>kv. snd (snd kv)) (buckets l)
      in l\<lparr>buckets := fold (\<lambda>(k, _). od_pop k) (take (max 1 (length stale div 4)) stale) (buckets l)\<rparr>)"

definition allow :: "'k \<Rightarrow> rat \<Rightarrow> 'k limiter \<Rightarrow> bool \<times> 'k limiter" where
  "allow key now l =
     (if \<not> rl_enabled l then (True, l)
      else
        let (tokens, last) = (case od_get key (buckets l) of Some b \<Rightarrow> b | None \<Rightarrow> (burst l, now));
            tokens = min (burst l) (tokens + (now - last) * rate l);
            allowed = tokens \<ge> 1;
            l = (if od_get key (buckets l) = None \<and> length (buckets l) \<ge> max_keys l
                 then rl_trim l else l)
        in (allowed,
            l\<lparr>buckets := od_set key (if allowed then tokens - 1 else tokens, now) (buckets l)\<rparr>))"

definition rl_gc :: "rat \<Rightarrow> rat \<Rightarrow> 'k limiter \<Rightarrow> 'k limiter" where
  "rl_gc now idle l =
     l\<lparr>buckets := fold od_pop (map fst (filter (\<lambda>(_, _, last). now - last > idle) (buckets l))) (buckets l)\<rparr>"

subsection \<open>Runs\<close>

datatype 'k rl_op = Allow 'k rat | Gc rat rat

fun rl_time :: "'k rl_op \<Rightarrow> rat" where
  "rl_time (Allow k now) = now"
| "rl_time (Gc now idle) = now"

fun rl_step :: "'k rl_op \<Rightarrow> 'k limiter \<Rightarrow> 'k limiter" where
  "rl_step (Allow k now) l = snd (allow k now l)"
| "rl_step (Gc now idle) l = rl_gc now idle l"

text \<open>How many queries of client \<open>k\<close> a run lets through.\<close>

fun grants :: "'k \<Rightarrow> 'k rl_op \<Rightarrow> 'k limiter \<Rightarrow> nat" where
  "grants k (Allow j now) l = (if j = k \<and> fst (allow j now l) then 1 else 0)"
| "grants k (Gc now idle) l = 0"

fun granted :: "'k \<Rightarrow> 'k rl_op list \<Rightarrow> 'k limiter \<Rightarrow> nat" where
  "granted k [] l = 0"
| "granted k (op # ops) l = grants k op l + granted k ops (rl_step op l)"

subsection \<open>The table stays bounded\<close>

lemma rl_trim_config [simp]:
  "rate (rl_trim l) = rate l" "burst (rl_trim l) = burst l" "max_keys (rl_trim l) = max_keys l"
  by (simp_all add: rl_trim_def Let_def)

lemma rl_step_config [simp]:
  "rate (rl_step op l) = rate l \<and> burst (rl_step op l) = burst l \<and> max_keys (rl_step op l) = max_keys l"
  by (cases op) (auto simp: allow_def Let_def rl_gc_def split: prod.split)

lemma fold_pop_keys: "od_keys (fold od_pop ks d) = filter (\<lambda>k. k \<notin> set ks) (od_keys d)"
  by (induction ks arbitrary: d) (auto simp: od_simps removeAll_filter_not_eq intro: filter_cong)

lemma fold_pop_get: "od_get j (fold od_pop ks d) = (if j \<in> set ks then None else od_get j d)"
  by (induction ks arbitrary: d) (auto simp: od_simps)

lemma length_fold_pop: "length (fold od_pop ks d) \<le> length d"
proof -
  have "length (od_keys (fold od_pop ks d)) \<le> length (od_keys d)"
    unfolding fold_pop_keys by (rule length_filter_le)
  then show ?thesis by simp
qed

lemma fold_pop_pairs: "fold (\<lambda>(k, _). od_pop k) kvs d = fold od_pop (map fst kvs) d"
  by (induction kvs arbitrary: d) auto

lemma trim_makes_room:
  assumes "buckets l \<noteq> []" "distinct (od_keys (buckets l))"
  shows "length (buckets (rl_trim l)) < length (buckets l)"
proof -
  let ?s = "sort_key (\<lambda>kv. snd (snd kv)) (buckets l)"
  let ?ks = "map fst (take (max 1 (length ?s div 4)) ?s)"
  have ne: "?s \<noteq> []" using assms(1) by (metis length_0_conv length_sort)
  then have h: "fst (hd ?s) \<in> set ?ks" by (cases ?s) (auto simp: take_Cons')
  have "hd ?s \<in> set (buckets l)" using ne by (metis hd_in_set set_sort)
  then have "fst (hd ?s) \<in> set (od_keys (buckets l))" by (simp add: od_keys_def)
  with h have "length (filter (\<lambda>k. k \<notin> set ?ks) (od_keys (buckets l))) < length (od_keys (buckets l))"
    by (intro length_filter_less) auto
  moreover have "od_keys (buckets (rl_trim l)) = filter (\<lambda>k. k \<notin> set ?ks) (od_keys (buckets l))"
    by (simp add: rl_trim_def Let_def fold_pop_pairs fold_pop_keys)
  ultimately show ?thesis by (metis length_od_keys)
qed

definition rl_ok :: "'k limiter \<Rightarrow> bool" where
  "rl_ok l \<longleftrightarrow> distinct (od_keys (buckets l)) \<and> length (buckets l) \<le> max_keys l"

lemma rl_trim_distinct: "distinct (od_keys (buckets l)) \<Longrightarrow> distinct (od_keys (buckets (rl_trim l)))"
  by (simp add: rl_trim_def Let_def fold_pop_pairs fold_pop_keys)

lemma length_od_set': "length (od_set k v d) = (if od_get k d = None then length d + 1 else length d)"
  using arg_cong [OF od_keys_set [of k v d], of length] od_get_None [of k d] by (simp split: if_splits)

lemma rl_step_ok:
  assumes "rl_ok l" "0 < max_keys l"
  shows "rl_ok (rl_step op l)"
proof (cases op)
  case (Gc now idle)
  with assms show ?thesis
    by (auto simp: rl_ok_def rl_gc_def fold_pop_keys intro: le_trans [OF length_fold_pop])
next
  case (Allow k now)
  let ?l = "if od_get k (buckets l) = None \<and> length (buckets l) \<ge> max_keys l then rl_trim l else l"
  have "distinct (od_keys (buckets ?l))" using assms by (simp add: rl_ok_def rl_trim_distinct)
  moreover have "length (od_set k v (buckets ?l)) \<le> max_keys l" for v
    using assms trim_makes_room [of l]
    by (cases "buckets l = []") (auto simp: rl_ok_def length_od_set')
  ultimately show ?thesis
    using assms Allow by (auto simp: allow_def Let_def rl_ok_def split: prod.split)
qed

text \<open>
  However many source addresses a flood invents, the limiter never tracks more than its bound,
  after any sequence of queries and collections.
\<close>

theorem limiter_bounded:
  assumes "0 < mk"
  shows "length (buckets (fold rl_step ops (new_limiter r b mk w))) \<le> mk"
proof -
  have "rl_ok (fold rl_step ops l) \<and> max_keys (fold rl_step ops l) = max_keys l"
    if "rl_ok l" "0 < max_keys l" for l :: "'a limiter"
    using that
  proof (induction ops arbitrary: l)
    case (Cons op ops)
    from Cons.IH [of "rl_step op l"] Cons.prems rl_step_ok [of l op] show ?case by simp
  qed simp
  from this [of "new_limiter r b mk w"] assms show ?thesis
    by (simp add: rl_ok_def new_limiter_def Let_def od_keys_def)
qed

theorem limiter_bounded_witness:
  "length (buckets (fold rl_step [Allow (1 :: nat) 0, Allow 2 0, Allow 3 1, Gc 2 300]
     (new_limiter 10 5 2 1))) \<le> 2"
  by (rule limiter_bounded) simp

subsection \<open>The rate is kept\<close>

text \<open>What the bucket of \<open>k\<close> holds at a time, an absent one being full.\<close>

definition level :: "'k \<Rightarrow> rat \<Rightarrow> 'k limiter \<Rightarrow> rat" where
  "level k now l =
     (case od_get k (buckets l) of
        None \<Rightarrow> burst l
      | Some (tokens, seen) \<Rightarrow> min (burst l) (tokens + (now - seen) * rate l))"

definition bucket_ok :: "'k \<Rightarrow> rat \<Rightarrow> 'k limiter \<Rightarrow> bool" where
  "bucket_ok k now l \<longleftrightarrow>
     (case od_get k (buckets l) of
        None \<Rightarrow> True
      | Some (tokens, seen) \<Rightarrow> 0 \<le> tokens \<and> tokens \<le> burst l \<and> seen \<le> now)"

lemma level_later:
  assumes "0 < rate l" "now \<le> t"
  shows "level k t l \<le> level k now l + rate l * (t - now)"
proof (cases "od_get k (buckets l)")
  case None
  with assms show ?thesis by (simp add: level_def)
next
  case (Some b)
  obtain tokens seen where b: "b = (tokens, seen)" by (cases b)
  have "0 \<le> rate l * (t - now)" using assms by simp
  with Some b show ?thesis by (simp add: level_def min_def algebra_simps)
qed

lemma level_nonneg: "0 < rate l \<Longrightarrow> 0 \<le> burst l \<Longrightarrow> bucket_ok k now l \<Longrightarrow> now \<le> t \<Longrightarrow> 0 \<le> level k t l"
  by (auto simp: level_def bucket_ok_def split: option.splits prod.splits)

text \<open>One query, when the table has room for it: what it takes leaves the bucket.\<close>

lemma allow_level:
  assumes r: "0 < rate l" "1 \<le> burst l" and ok: "bucket_ok k now l" "now \<le> t"
    and room: "od_get j (buckets l) \<noteq> None \<or> length (buckets l) < max_keys l"
  shows "(if j = k \<and> fst (allow j t l) then 1 else 0) + level k t (snd (allow j t l)) = level k t l \<and>
    bucket_ok k t (snd (allow j t l))"
proof -
  let ?x = "level j t l"
  have x: "(case od_get j (buckets l) of Some b \<Rightarrow> b | None \<Rightarrow> (burst l, t)) = (tok, la) \<Longrightarrow>
      min (burst l) (tok + (t - la) * rate l) = ?x" for tok la
    by (auto simp: level_def split: option.splits)
  have a: "allow j t l = (?x \<ge> 1, l\<lparr>buckets := od_set j (if ?x \<ge> 1 then ?x - 1 else ?x, t) (buckets l)\<rparr>)"
    using r(1) room x by (auto simp: allow_def rl_enabled_def Let_def split: prod.split)
  show ?thesis
  proof (cases "j = k")
    case True
    have "0 \<le> ?x" using level_nonneg [of l k now t] r ok True by simp
    moreover have "?x \<le> burst l" by (auto simp: level_def split: option.split)
    ultimately show ?thesis
      using True unfolding a by (auto simp: level_def [of k t "l\<lparr>buckets := _\<rparr>"] bucket_ok_def od_simps)
  next
    case False
    with ok show ?thesis unfolding a by (auto simp: level_def bucket_ok_def od_simps split: option.split)
  qed
qed

lemma gc_level:
  assumes r: "0 < rate l" and ok: "bucket_ok k now l" "now \<le> t" and idle: "burst l \<le> idle * rate l"
    and d: "distinct (od_keys (buckets l))"
  shows "level k t (rl_gc t idle l) = level k t l \<and> bucket_ok k t (rl_gc t idle l)"
proof -
  let ?ks = "map fst (filter (\<lambda>(_, _, seen). t - seen > idle) (buckets l))"
  have g: "od_get k (buckets (rl_gc t idle l)) = (if k \<in> set ?ks then None else od_get k (buckets l))"
    by (simp add: rl_gc_def fold_pop_get)
  show ?thesis
  proof (cases "k \<in> set ?ks")
    case True
    then obtain tokens seen where b: "(k, tokens, seen) \<in> set (buckets l)" "t - seen > idle" by auto
    then have get: "od_get k (buckets l) = Some (tokens, seen)"
      using d by (simp add: od_get_def od_keys_def)
    then have "0 \<le> tokens" using ok by (simp add: bucket_ok_def)
    moreover have "idle * rate l \<le> (t - seen) * rate l" using b(2) r by simp
    ultimately have "burst l \<le> tokens + (t - seen) * rate l" using idle by linarith
    with True g get show ?thesis by (simp add: level_def bucket_ok_def rl_gc_def)
  next
    case False
    with g ok show ?thesis by (auto simp: level_def bucket_ok_def rl_gc_def split: option.split)
  qed
qed

fun op_fits :: "'k set \<Rightarrow> 'k limiter \<Rightarrow> 'k rl_op \<Rightarrow> bool" where
  "op_fits K l (Allow k now) = (k \<in> K)"
| "op_fits K l (Gc now idle) = (burst l \<le> idle * rate l)"

lemma op_fits_step: "op_fits K (rl_step op l) = op_fits K l"
proof
  show "op_fits K (rl_step op l) op' = op_fits K l op'" for op' by (cases op') simp_all
qed

lemma rl_step_keys:
  assumes "set (od_keys (buckets l)) \<subseteq> K" "op_fits K l op" "distinct (od_keys (buckets l))"
    and "finite K" "card K \<le> max_keys l"
  shows "set (od_keys (buckets (rl_step op l))) \<subseteq> K \<and> distinct (od_keys (buckets (rl_step op l)))"
    and "op = Allow j t \<Longrightarrow> od_get j (buckets l) \<noteq> None \<or> length (buckets l) < max_keys l"
proof -
  show room: "od_get j (buckets l) \<noteq> None \<or> length (buckets l) < max_keys l" if op: "op = Allow j t" for j t
  proof (cases "od_get j (buckets l)")
    case None
    then have "set (od_keys (buckets l)) \<subset> K" using assms(1,2) op by (auto simp: od_get_None)
    then have "card (set (od_keys (buckets l))) < card K" using psubset_card_mono [OF assms(4)] by blast
    then show ?thesis using assms(3,5) by (simp add: distinct_card)
  qed simp
  show "set (od_keys (buckets (rl_step op l))) \<subseteq> K \<and> distinct (od_keys (buckets (rl_step op l)))"
  proof (cases op)
    case (Allow j t)
    with assms room [OF Allow] show ?thesis
      by (auto simp: allow_def Let_def od_simps split: prod.split)
  next
    case (Gc t idle)
    with assms show ?thesis by (auto simp: rl_gc_def fold_pop_keys)
  qed
qed

text \<open>What a run keeps of the table: the bucket of \<open>k\<close> in order at the time, and only clients of \<open>K\<close>.\<close>

definition in_order :: "'k \<Rightarrow> 'k set \<Rightarrow> rat \<Rightarrow> 'k limiter \<Rightarrow> bool" where
  "in_order k K now l \<longleftrightarrow> 0 < rate l \<and> 1 \<le> burst l \<and> bucket_ok k now l \<and> distinct (od_keys (buckets l)) \<and>
     set (od_keys (buckets l)) \<subseteq> K \<and> finite K \<and> card K \<le> max_keys l"

lemma step_granted:
  assumes o: "in_order k K now l" and fit: "op_fits K l op" and le: "now \<le> rl_time op"
  shows "of_nat (grants k op l) + level k (rl_time op) (rl_step op l) = level k (rl_time op) l \<and>
    in_order k K (rl_time op) (rl_step op l)"
proof -
  let ?t = "rl_time op" and ?l = "rl_step op l"
  have i: "0 < rate l" "1 \<le> burst l" "bucket_ok k now l" "distinct (od_keys (buckets l))"
    "set (od_keys (buckets l)) \<subseteq> K" "finite K" "card K \<le> max_keys l" using o by (simp_all add: in_order_def)
  note keys = rl_step_keys(1) [OF i(5) fit i(4,6,7)]
  have "of_nat (grants k op l) + level k ?t ?l = level k ?t l \<and> bucket_ok k ?t ?l"
  proof (cases op)
    case (Allow j u)
    then show ?thesis
      using allow_level [OF i(1-3), of u j] le rl_step_keys(2) [OF i(5) fit i(4,6,7) Allow] by (auto split: if_splits)
  next
    case (Gc u idle)
    then show ?thesis using gc_level [OF i(1,3), of u idle] le fit i(4) by simp
  qed
  with i keys show ?thesis by (simp add: in_order_def)
qed

lemma run_in_order:
  "in_order k K now l \<Longrightarrow> list_all (op_fits K l) ops \<Longrightarrow> sorted (now # map rl_time ops) \<Longrightarrow>
     in_order k K (last (now # map rl_time ops)) (fold rl_step ops l)"
proof (induction ops arbitrary: l now)
  case (Cons op ops)
  then have "in_order k K (rl_time op) (rl_step op l)" using step_granted [of k K now l op] by simp
  with Cons.IH [of "rl_time op" "rl_step op l"] Cons.prems show ?case by (simp add: op_fits_step)
qed simp

lemma in_order_later: "in_order k K now l \<Longrightarrow> now \<le> t \<Longrightarrow> in_order k K t l"
  by (auto simp: in_order_def bucket_ok_def split: option.splits)

lemma run_granted:
  assumes "in_order k K now l" "list_all (op_fits K l) ops" "sorted (now # map rl_time ops @ [t])"
  shows "of_nat (granted k ops l) \<le> level k now l + rate l * (t - now)"
  using assms
proof (induction ops arbitrary: l now)
  case Nil
  then have "0 \<le> level k now l" "0 \<le> rate l * (t - now)"
    using level_nonneg [of l k now now] by (simp_all add: in_order_def)
  then show ?case by simp
next
  case (Cons op ops)
  let ?t = "rl_time op" and ?l = "rl_step op l"
  have le: "now \<le> ?t" using Cons.prems(3) by simp
  have fit: "op_fits K l op" using Cons.prems(2) by simp
  note step = step_granted [OF Cons.prems(1) fit le]
  have "of_nat (granted k ops ?l) \<le> level k ?t ?l + rate ?l * (t - ?t)"
    by (rule Cons.IH) (use Cons.prems step in \<open>simp_all add: op_fits_step\<close>)
  moreover have "level k ?t l \<le> level k now l + rate l * (?t - now)"
    by (rule level_later [OF _ le]) (use Cons.prems(1) in \<open>simp add: in_order_def\<close>)
  ultimately show ?case
    using step by (simp add: algebra_simps)
qed

lemma level_capped: "level k now l \<le> burst l"
  by (auto simp: level_def split: option.split)

text \<open>
  C35: the limiter keeps its promise: whatever came before, in any stretch of time from \<open>t0\<close> to \<open>t1\<close>,
  and whatever the interleaving with other clients, a client gets at most the burst plus the rate times
  the length of the stretch, as long as the clients ever seen fit the table, so that none is trimmed from
  it, and collections only drop buckets idle for as long as an empty one takes to fill up.
\<close>

theorem rate_is_kept:
  fixes k :: 'k
  assumes "0 < rate (new_limiter r b mk w :: 'k limiter)"
    and "finite K" "card K \<le> mk" "list_all (op_fits K (new_limiter r b mk w)) (before @ ops)"
    and "sorted (map rl_time before @ t0 # map rl_time ops @ [t1])"
  shows "of_nat (granted k ops (fold rl_step before (new_limiter r b mk w))) \<le>
    burst (new_limiter r b mk w :: 'k limiter) + rate (new_limiter r b mk w :: 'k limiter) * (t1 - t0)"
proof -
  let ?n = "new_limiter r b mk w :: 'k limiter" and ?l = "fold rl_step before (new_limiter r b mk w :: 'k limiter)"
  define start where "start = hd (map rl_time before @ [t0])"
  have "buckets ?n = []" "max_keys ?n = mk" "1 \<le> burst ?n" by (simp_all add: new_limiter_def Let_def)
  then have "in_order k K start ?n" using assms(1-3) by (simp add: in_order_def bucket_ok_def od_get_def od_keys_def)
  moreover have srt: "sorted (start # map rl_time before)"
    using assms(5) unfolding start_def by (cases before) (simp_all add: sorted_append)
  moreover have ending: "last (start # map rl_time before) \<le> t0"
    using assms(5) unfolding start_def by (cases before rule: rev_cases) (simp_all add: sorted_append)
  ultimately have "in_order k K (last (start # map rl_time before)) ?l" using assms(4) by (intro run_in_order) simp_all
  then have o: "in_order k K t0 ?l" using ending by (rule in_order_later)
  have c: "rate (fold rl_step xs l) = rate l \<and> burst (fold rl_step xs l) = burst l \<and> op_fits K (fold rl_step xs l) = op_fits K l"
    for xs and l :: "'k limiter" by (induction xs arbitrary: l) (simp_all add: op_fits_step)
  have "of_nat (granted k ops ?l) \<le> level k t0 ?l + rate ?l * (t1 - t0)"
    by (rule run_granted [OF o]) (use assms(4,5) c [of before ?n] in \<open>simp_all add: sorted_append\<close>)
  moreover have "level k t0 ?l \<le> burst ?n" using level_capped [of k t0 ?l] c [of before ?n] by simp
  ultimately show ?thesis using c [of before ?n] by simp
qed

theorem rate_is_kept_witness:
  "(of_nat (granted 1 [Allow 1 100, Allow 2 100, Allow 1 101, Gc 102 300]
      (fold rl_step [Allow (1 :: nat) 0, Allow 2 3] (new_limiter 10 5 4 2))) :: rat)
     \<le> burst (new_limiter 10 5 4 2 :: nat limiter) + rate (new_limiter 10 5 4 2 :: nat limiter) * (102 - 100)"
  by (rule rate_is_kept [where K = "{1, 2}"]) (simp_all add: new_limiter_def Let_def)

end
