(* ===== verification/Engine_Guards.thy ===== *)
theory Engine_Guards
  imports Complex_Main Name_Text Wire_Message_Ops
begin

section \<open>Guards of the query path\<close>

text \<open>
  Models \<^verbatim>\<open>trench/engine/cookies.py\<close>, \<^verbatim>\<open>zerox20.py\<close>,
  \<^verbatim>\<open>localonly.py\<close>, \<^verbatim>\<open>rebinding.py\<close> and the block replies of
  \<^verbatim>\<open>responses.py\<close>. The keyed hash of the cookies, the random draws, the verdict of
  \<^verbatim>\<open>ipaddress\<close> on an address and the lower-casing table are arguments. Addresses are their
  octets, so the memo in front of the verdict is the verdict.
\<close>

subsection \<open>DNS cookies\<close>

record jar =
  secret :: bytes
  prev_secret :: bytes
  rotated :: rat

definition ROTATE :: rat where "ROTATE = 3600"

definition new_jar :: "bytes \<Rightarrow> rat \<Rightarrow> jar" where
  "new_jar s now = \<lparr>secret = s, prev_secret = s, rotated = now\<rparr>"

definition maybe_rotate :: "bytes \<Rightarrow> rat \<Rightarrow> jar \<Rightarrow> jar" where
  "maybe_rotate fresh now j =
     (if now - rotated j \<ge> ROTATE
      then \<lparr>secret = fresh, prev_secret = secret j, rotated = now\<rparr> else j)"

definition server_cookie :: "(bytes \<Rightarrow> bytes \<Rightarrow> bytes) \<Rightarrow> bytes \<Rightarrow> bytes \<Rightarrow> bytes \<Rightarrow> bytes" where
  "server_cookie hmac cc ip s = take 8 (hmac s (cc @ ip))"

definition make_response :: "(bytes \<Rightarrow> bytes \<Rightarrow> bytes) \<Rightarrow> bytes \<Rightarrow> rat \<Rightarrow> bytes \<Rightarrow> bytes \<Rightarrow> jar \<Rightarrow>
    bytes \<times> jar" where
  "make_response hmac fresh now cc ip j =
     (let j = maybe_rotate fresh now j
      in (take 8 cc @ server_cookie hmac (take 8 cc) ip (secret j), j))"

definition cookie_valid :: "(bytes \<Rightarrow> bytes \<Rightarrow> bytes) \<Rightarrow> bytes option \<Rightarrow> bytes \<Rightarrow> jar \<Rightarrow> bool" where
  "cookie_valid hmac full ip j =
     (case full of
        None \<Rightarrow> False
      | Some f \<Rightarrow>
          if length f < 16 then False
          else let cc = take 8 f; sc = take 8 (drop 8 f)
               in list_ex (\<lambda>s. sc = server_cookie hmac cc ip s) [secret j, prev_secret j])"

text \<open>The jar after answering other clients: each answer has its time and its random draw.\<close>

definition jar_run :: "(bytes \<times> rat) list \<Rightarrow> jar \<Rightarrow> jar" where
  "jar_run xs j = fold (\<lambda>(fresh, now). maybe_rotate fresh now) xs j"

lemma jar_run_keeps:
  "secret j = s \<or> (prev_secret j = s \<and> t0 \<le> rotated j) \<Longrightarrow>
     list_all (\<lambda>(_, now). t0 \<le> now \<and> now < t0 + ROTATE) xs \<Longrightarrow>
     secret (jar_run xs j) = s \<or> prev_secret (jar_run xs j) = s"
proof (induction xs arbitrary: j)
  case Nil
  then show ?case by (auto simp: jar_run_def)
next
  case (Cons x xs)
  obtain fresh now where x: "x = (fresh, now)" by (cases x)
  have "jar_run (x # xs) j = jar_run xs (maybe_rotate fresh now j)" by (simp add: jar_run_def x)
  moreover have "secret (maybe_rotate fresh now j) = s \<or>
      (prev_secret (maybe_rotate fresh now j) = s \<and> t0 \<le> rotated (maybe_rotate fresh now j))"
    using Cons.prems by (auto simp: maybe_rotate_def x)
  ultimately show ?case using Cons by auto
qed

text \<open>
  A cookie handed to a client is accepted from that client for at least an hour, whatever
  other answers, and so rotations of the secret, happen meanwhile.
\<close>

theorem cookie_accepted_for_an_hour:
  assumes "\<And>s d. 8 \<le> length (hmac s d)" "8 \<le> length cc"
    and "make_response hmac fresh t0 cc ip j = (cookie, j')"
    and "list_all (\<lambda>(_, now). t0 \<le> now \<and> now < t0 + ROTATE) xs"
  shows "length cookie = 16 \<and> cookie_valid hmac (Some cookie) ip (jar_run xs j')"
proof -
  obtain s where s: "s = secret j'" by simp
  have c: "cookie = take 8 cc @ server_cookie hmac (take 8 cc) ip s"
    using assms(3) by (auto simp: make_response_def Let_def s)
  have l: "length (server_cookie hmac (take 8 cc) ip s) = 8"
    using assms(1) [of s "take 8 cc @ ip"] by (simp add: server_cookie_def)
  have "secret (jar_run xs j') = s \<or> prev_secret (jar_run xs j') = s"
    by (rule jar_run_keeps [OF _ assms(4)]) (simp add: s)
  with c l assms(2) show ?thesis by (auto simp: cookie_valid_def Let_def)
qed

definition toy_hmac :: "bytes \<Rightarrow> bytes \<Rightarrow> bytes" where
  "toy_hmac s d = s @ replicate 8 0 @ d"

theorem cookie_accepted_for_an_hour_witness:
  "let (cookie, j) = make_response toy_hmac [6] 10 [1, 2, 3, 4, 5, 6, 7, 8] [9] (new_jar [5] 0)
   in length cookie = 16 \<and> cookie_valid toy_hmac (Some cookie) [9] (jar_run [([7], 20), ([8], 3601)] j)"
proof -
  obtain cookie j' where m: "make_response toy_hmac [6] 10 [1, 2, 3, 4, 5, 6, 7, 8] [9] (new_jar [5] 0)
      = (cookie, j')" by (cases "make_response toy_hmac [6] 10 [1, 2, 3, 4, 5, 6, 7, 8] [9] (new_jar [5] 0)")
  from cookie_accepted_for_an_hour [OF _ _ m, of "[([7], 20), ([8], 3601)]"] m
  show ?thesis by (simp add: ROTATE_def toy_hmac_def)
qed

subsection \<open>Query-name case randomisation\<close>

definition is_letter :: "byte \<Rightarrow> bool" where
  "is_letter b \<longleftrightarrow> 0x41 \<le> b \<and> b \<le> 0x5A \<or> 0x61 \<le> b \<and> b \<le> 0x7A"

text \<open>The inner loop: one bit is consumed per octet, letter or not.\<close>

fun flip_label :: "int \<Rightarrow> bytes \<Rightarrow> bytes \<times> int" where
  "flip_label bits [] = ([], bits)"
| "flip_label bits (b # bs) =
     (let b' = (if bits AND 1 \<noteq> 0 \<and> is_letter b then b XOR 0x20 else b);
          (out, rest) = flip_label (drop_bit 1 bits) bs
      in (b' # out, rest))"

fun flip_labels :: "int \<Rightarrow> name \<Rightarrow> name" where
  "flip_labels bits [] = []"
| "flip_labels bits (la # ls) = (let (out, rest) = flip_label bits la in out # flip_labels rest ls)"

definition randomize_name :: "int \<Rightarrow> name \<Rightarrow> name" where
  "randomize_name bits n = flip_labels bits n"

definition verify :: "message \<Rightarrow> name \<Rightarrow> bool" where
  "verify resp expected \<longleftrightarrow>
     (case first_question resp of None \<Rightarrow> False | Some q \<Rightarrow> qname q = expected)"

definition restore :: "message \<Rightarrow> name \<Rightarrow> message" where
  "restore resp original =
     resp\<lparr>questions := (case questions resp of [] \<Rightarrow> []
            | q # qs \<Rightarrow> q\<lparr>qname := original\<rparr> # qs),
          answers := map (\<lambda>x. if name_eq (rr_name x) original then x\<lparr>rr_name := original\<rparr> else x)
                       (answers resp)\<rparr>"

lemma flip_case: "is_letter b \<Longrightarrow> lower_byte (b XOR 0x20) = lower_byte b \<and> b XOR 0x20 \<noteq> b"
proof -
  assume l: "is_letter b"
  have all: "list_all (\<lambda>n. lower_byte (word_of_int n XOR 0x20) = lower_byte (word_of_int n) \<and>
      (word_of_int n :: byte) XOR 0x20 \<noteq> word_of_int n) ([65..90] @ [97..122])"
    by (simp add: upto_rec1 lower_byte_def)
  have "uint b \<in> set ([65..90] @ [97..122])"
    using l unfolding set_append set_upto is_letter_def word_le_def by auto
  with all have "lower_byte (word_of_int (uint b) XOR 0x20) = lower_byte (word_of_int (uint b)) \<and>
      (word_of_int (uint b) :: byte) XOR 0x20 \<noteq> word_of_int (uint b)"
    unfolding list_all_iff by blast
  then show ?thesis by simp
qed

lemma flip_label_lower: "lower (fst (flip_label bits la)) = lower la"
proof (induction la arbitrary: bits)
  case (Cons b la)
  from Cons.IH [of "drop_bit 1 bits"] show ?case
    by (auto simp: lower_def Let_def flip_case split: prod.split)
qed simp

lemma flip_label_length: "length (fst (flip_label bits la)) = length la"
  using arg_cong [OF flip_label_lower [of bits la], of length] by simp

lemma flip_labels_lower: "map lower (flip_labels bits n) = map lower n"
proof (induction n arbitrary: bits)
  case (Cons la n)
  obtain x r where f: "flip_label bits la = (x, r)" by (cases "flip_label bits la")
  with flip_label_lower [of bits la] Cons.IH [of r] show ?case by simp
qed simp

lemma lower_key: "map lower m = map lower n \<Longrightarrow> name_key m = name_key n"
proof (induction m arbitrary: n)
  case (Cons a m)
  then obtain b n' where n: "n = b # n'" by (cases n) auto
  with Cons have "lower a = lower b" "name_key m = name_key n'" by auto
  moreover have "length a = length b" using arg_cong [OF calculation(1), of length] by simp
  ultimately show ?case by (simp add: n)
qed simp

text \<open>How many letters a bit pattern can show.\<close>

fun letter_bits :: "int \<Rightarrow> bytes \<Rightarrow> bool list" where
  "letter_bits bits [] = []"
| "letter_bits bits (b # bs) =
     (if is_letter b then [bits AND 1 \<noteq> 0] else []) @ letter_bits (drop_bit 1 bits) bs"

lemma flip_label_inj:
  "fst (flip_label x la) = fst (flip_label y la) \<longleftrightarrow> letter_bits x la = letter_bits y la"
proof (induction la arbitrary: x y)
  case (Cons b la)
  from Cons.IH [of "drop_bit 1 x" "drop_bit 1 y"] flip_case [of b] show ?case
    by (cases "flip_label (drop_bit 1 x) la"; cases "flip_label (drop_bit 1 y) la")
      (auto simp: Let_def)
qed simp

lemma flip_label_rest: "snd (flip_label bits la) = drop_bit (length la) bits"
proof (induction la arbitrary: bits)
  case (Cons b la)
  from Cons.IH [of "drop_bit 1 bits"] show ?case
    by (cases "flip_label (drop_bit 1 bits) la") (simp add: Let_def)
qed simp

lemma letter_bits_append:
  "letter_bits bits (xs @ ys) = letter_bits bits xs @ letter_bits (drop_bit (length xs) bits) ys"
  by (induction xs arbitrary: bits) simp_all

lemma length_letter_bits: "length (letter_bits x bs) = length (filter is_letter bs)"
  by (induction bs arbitrary: x) simp_all

lemma flip_labels_inj:
  "flip_labels x n = flip_labels y n \<longleftrightarrow> letter_bits x (concat n) = letter_bits y (concat n)"
proof (induction n arbitrary: x y)
  case (Cons la n)
  have f: "flip_labels z (la # n) = fst (flip_label z la) # flip_labels (drop_bit (length la) z) n" for z
    using flip_label_rest [of z la] by (cases "flip_label z la") simp
  have "length (letter_bits x la) = length (letter_bits y la)" by (simp add: length_letter_bits)
  then show ?case
    unfolding f by (simp add: flip_label_inj Cons.IH letter_bits_append)
qed simp

lemma wf_lower: "map lower m = map lower n \<Longrightarrow> wf_name n \<Longrightarrow> wf_name m"
proof -
  assume e: "map lower m = map lower n" and n: "wf_name n"
  have "map length m = map length n"
    using arg_cong [OF e, of "map length"] by (simp add: comp_def)
  then have "list_all (\<lambda>k. 1 \<le> k \<and> k \<le> MAX_LABEL) (map length m) =
      list_all (\<lambda>k. 1 \<le> k \<and> k \<le> MAX_LABEL) (map length n)"
    "sum_list (map (\<lambda>k. k + 1) (map length m)) = sum_list (map (\<lambda>k. k + 1) (map length n))"
    by simp_all
  with n show ?thesis
    by (simp add: wf_name_def wf_label_def [abs_def] wire_len_def list_all_iff comp_def)
qed

text \<open>
  The spelling sent upstream is the same name to every server and as well formed, whatever
  was drawn; two draws give the same spelling exactly when they agree on the bit of every letter,
  so each letter of the name is one bit an off-path answer has to guess; and putting the client's
  spelling back leaves the response's question that of the client.
\<close>

theorem case_randomisation:
  "name_eq (randomize_name bits n) n \<and> wf_name (randomize_name bits n) = wf_name n \<and>
   (randomize_name bits n = randomize_name bits' n \<longleftrightarrow>
      letter_bits bits (concat n) = letter_bits bits' (concat n)) \<and>
   length (letter_bits bits (concat n)) = length (filter is_letter (concat n)) \<and>
   (questions resp = [] \<or> verify (restore resp n) n)"
proof -
  have e: "map lower (randomize_name bits n) = map lower n"
    unfolding randomize_name_def by (rule flip_labels_lower)
  have "wf_name (randomize_name bits n) = wf_name n" using wf_lower [OF e] wf_lower [OF e [symmetric]] by blast
  moreover have "questions resp = [] \<or> verify (restore resp n) n"
    by (cases "questions resp") (simp_all add: verify_def restore_def first_question_def)
  ultimately show ?thesis
    using lower_key [OF e] flip_labels_inj [of bits n bits']
    by (simp add: name_eq_def randomize_name_def length_letter_bits)
qed

subsection \<open>Names that never leave the resolver\<close>

definition special_use :: "ustr list" where
  "special_use =
     map chars [''0.in-addr.arpa'', ''10.in-addr.arpa'', ''127.in-addr.arpa'', ''254.169.in-addr.arpa'',
       ''168.192.in-addr.arpa'']
     @ map (\<lambda>i. dec i @ chars ''.172.in-addr.arpa'') [16..<32]
     @ map (\<lambda>i. dec i @ chars ''.100.in-addr.arpa'') [64..<128]
     @ [chars ''d.f.ip6.arpa'']
     @ map (\<lambda>c. c # chars ''.e.f.ip6.arpa'') (chars ''89ab'')
     @ [concat (replicate 31 (chars ''0.'')) @ chars ''0.ip6.arpa'',
        chars ''1.'' @ concat (replicate 31 (chars ''0.'')) @ chars ''ip6.arpa'']
     @ map chars [''invalid'', ''localhost'', ''local'', ''home.arpa'', ''resolver.arpa'']"

text \<open>\<^verbatim>\<open>name.partition(".")[2]\<close>\<close>

fun after_dot :: "ustr \<Rightarrow> ustr" where
  "after_dot [] = []"
| "after_dot (c # s) = (if c = 0x2E then s else after_dot s)"

lemma after_dot_shorter [simp]: "s \<noteq> [] \<Longrightarrow> length (after_dot s) < length s"
proof -
  have "length (after_dot r) \<le> length r" for r by (induction r) auto
  then show "s \<noteq> [] \<Longrightarrow> length (after_dot s) < length s" by (cases s) (auto simp: less_Suc_eq_le)
qed

function local_walk :: "ustr list \<Rightarrow> ustr \<Rightarrow> bool" where
  "local_walk zones name =
     (if name = [] then False
      else if name \<in> set zones then True
      else local_walk zones (after_dot name))"
  by pat_completeness auto
termination by (relation "measure (\<lambda>(zones, name). length name)") auto

declare local_walk.simps [simp del]

definition is_local_only :: "(nat \<Rightarrow> ustr) \<Rightarrow> ustr \<Rightarrow> ustr list \<Rightarrow> bool" where
  "is_local_only u q suffs =
     local_walk (special_use @ suffs) (str_lower u (rstrip (\<lambda>c. c = 0x2E) q))"

lemma suffix_loop_step:
  "suffix_loop s = (if 0x2E \<in> set s then after_dot s # suffix_loop (after_dot s) else [])"
  by (induction s) auto

lemma after_dot_none: "0x2E \<notin> set s \<Longrightarrow> after_dot s = []"
  by (induction s) auto

lemma local_walk_tails:
  "local_walk zones name = list_ex (\<lambda>s. s \<noteq> [] \<and> s \<in> set zones) (name # suffix_loop name)"
proof (induction zones name rule: local_walk.induct)
  case (1 zones name)
  show ?case
  proof (cases "name = [] \<or> name \<in> set zones")
    case True
    then show ?thesis by (subst local_walk.simps) auto
  next
    case False
    with 1 have IH: "local_walk zones (after_dot name) =
        list_ex (\<lambda>s. s \<noteq> [] \<and> s \<in> set zones) (after_dot name # suffix_loop (after_dot name))" by blast
    have "suffix_loop name = (if 0x2E \<in> set name then after_dot name # suffix_loop (after_dot name) else [])"
      by (rule suffix_loop_step)
    moreover have "after_dot name = []" if "0x2E \<notin> set name" using that by (rule after_dot_none)
    ultimately show ?thesis using False IH
      by (subst local_walk.simps) (cases "0x2E \<in> set name"; simp)
  qed
qed

text \<open>
  The walk that decides whether a name stays inside finds exactly the names that are, or are
  below, a listed zone: it agrees with looking every suffix of the name up in the list, as long
  as the operator's list holds no empty suffix.
\<close>

theorem local_only_exact:
  assumes "[] \<notin> set suffs"
  shows "is_local_only u q suffs = list_ex (\<lambda>s. s \<in> set (special_use @ suffs)) (suffixes u q)"
proof -
  let ?n = "str_lower u (rstrip (\<lambda>c. c = 0x2E) q)"
  have no: "[] \<notin> set special_use" by (auto simp: special_use_def chars_def dec_digits)
  have "is_local_only u q suffs = list_ex (\<lambda>s. s \<noteq> [] \<and> s \<in> set (special_use @ suffs)) (?n # suffix_loop ?n)"
    unfolding is_local_only_def by (rule local_walk_tails)
  also have "\<dots> = list_ex (\<lambda>s. s \<in> set (special_use @ suffs)) (?n # suffix_loop ?n)"
    using no assms by (auto simp: list_ex_iff)
  also have "\<dots> = list_ex (\<lambda>s. s \<in> set (special_use @ suffs)) (suffixes u q)"
    using no assms by (cases ?n) (auto simp: suffixes_def Let_def)
  finally show ?thesis .
qed

theorem local_only_exact_witness:
  "[] \<notin> set [chars ''lan''] \<and> is_local_only (\<lambda>c. [c]) (chars ''Printer.LAN.'') [chars ''lan'']"
proof -
  have "suffixes (\<lambda>c. [c]) (chars ''Printer.LAN.'') = [chars ''printer.lan'', chars ''lan'']"
    by (simp add: suffixes_def chars_def rstrip_def str_lower_def Let_def)
  with local_only_exact [of "[chars ''lan'']" "\<lambda>c. [c]" "chars ''Printer.LAN.''"]
  show ?thesis by (simp add: chars_def)
qed

subsection \<open>Rebinding protection\<close>

definition hint_size :: "int \<Rightarrow> nat option" where
  "hint_size key = map_of [(4, 4), (6, 16)] key"

text \<open>
  The loop of \<^verbatim>\<open>_scrub_hints\<close>; the position in the parameters is the rest of them.
  \<open>priv\<close> is the verdict on an address.
\<close>

function scrub_loop :: "(bytes \<Rightarrow> bool) \<Rightarrow> bytes \<Rightarrow> bytes list \<Rightarrow> bool \<Rightarrow> (bytes list \<times> bool) option" where
  "scrub_loop priv rest out changed =
     (if rest = [] then Some (out, changed)
      else if length rest < 4 then None
      else
        let key = unpack_H (rest ! 0) (rest ! 1);
            ln = nat (unpack_H (rest ! 2) (rest ! 3));
            val = take ln (drop 4 rest)
        in if length val \<noteq> ln then None
           else case hint_size key of
               Some sz \<Rightarrow>
                 if ln mod sz \<noteq> 0 then None
                 else
                   let addrs = chunks sz val;
                       good = filter (\<lambda>a. \<not> priv a) addrs
                   in if length good \<noteq> length addrs
                      then scrub_loop priv (drop (4 + ln) rest)
                             (if good \<noteq> []
                              then out @ [take 2 rest @ pack_H (int (length (concat good))) @ concat good]
                              else out) True
                      else scrub_loop priv (drop (4 + ln) rest) (out @ [take (4 + ln) rest]) changed
             | None \<Rightarrow> scrub_loop priv (drop (4 + ln) rest) (out @ [take (4 + ln) rest]) changed)"
  by pat_completeness auto
termination by (relation "measure (\<lambda>(priv, rest, out, changed). length rest)") auto

declare scrub_loop.simps [simp del]

definition scrub_hints :: "(bytes \<Rightarrow> bool) \<Rightarrow> bytes \<Rightarrow> bytes option" where
  "scrub_hints priv params =
     (case scrub_loop priv params [] False of
        None \<Rightarrow> None
      | Some (out, changed) \<Rightarrow> if changed then Some (concat out) else None)"

definition is_local_name :: "(nat \<Rightarrow> ustr) \<Rightarrow> ustr \<Rightarrow> ustr list \<Rightarrow> bool" where
  "is_local_name u q suffs =
     (let name = str_lower u (rstrip (\<lambda>c. c = 0x2E) q)
      in list_ex (\<lambda>s. name = s \<or> endswith (0x2E # s) name) suffs)"

fun address_of :: "rdata \<Rightarrow> bytes option" where
  "address_of (Rd_A a) = Some a"
| "address_of (Rd_AAAA a) = Some a"
| "address_of _ = None"

fun svcb_params :: "rdata \<Rightarrow> bytes option" where
  "svcb_params (Rd_SVCB p t ps) = Some ps"
| "svcb_params (Rd_HTTPS p t ps) = Some ps"
| "svcb_params _ = None"

fun set_params :: "bytes \<Rightarrow> rdata \<Rightarrow> rdata" where
  "set_params ps (Rd_SVCB p t _) = Rd_SVCB p t ps"
| "set_params ps (Rd_HTTPS p t _) = Rd_HTTPS p t ps"
| "set_params ps rd = rd"

text \<open>One record of \<^verbatim>\<open>scrub\<close>: what is kept of it and whether it counts as removed.\<close>

definition scrub_rr :: "(bytes \<Rightarrow> bool) \<Rightarrow> rr \<Rightarrow> rr list \<times> nat" where
  "scrub_rr priv x =
     (if (rr_type x = 1 \<or> rr_type x = 28) \<and>
         (case address_of (rr_rdata x) of None \<Rightarrow> False | Some a \<Rightarrow> priv a)
      then ([], 1)
      else if (rr_type x = 64 \<or> rr_type x = 65) \<and> svcb_params (rr_rdata x) \<noteq> None then
        (case scrub_hints priv (the (svcb_params (rr_rdata x))) of
           None \<Rightarrow> ([x], 0)
         | Some ps \<Rightarrow> ([x\<lparr>rr_rdata := set_params ps (rr_rdata x)\<rparr>], 1))
      else ([x], 0))"

definition scrub :: "(nat \<Rightarrow> ustr) \<Rightarrow> (bytes \<Rightarrow> bool) \<Rightarrow> ustr \<Rightarrow> ustr list \<Rightarrow> message \<Rightarrow> message \<times> nat" where
  "scrub u priv q suffs m =
     (if is_local_name u q suffs then (m, 0)
      else
        let rs = map (scrub_rr priv) (answers m);
            removed = sum_list (map snd rs)
        in (if removed \<noteq> 0 then m\<lparr>answers := concat (map fst rs)\<rparr> else m, removed))"

text \<open>
  The reference: service parameters as a list of keys and values, and what the scrub means on it.
\<close>

function svc_params :: "bytes \<Rightarrow> (int \<times> bytes) list option" where
  "svc_params rest =
     (if rest = [] then Some []
      else if length rest < 4 then None
      else
        let ln = nat (unpack_H (rest ! 2) (rest ! 3)); val = take ln (drop 4 rest)
        in if length val \<noteq> ln then None
           else (case svc_params (drop (4 + ln) rest) of
                   None \<Rightarrow> None
                 | Some kvs \<Rightarrow> Some ((unpack_H (rest ! 0) (rest ! 1), val) # kvs)))"
  by pat_completeness auto
termination by (relation "measure length") auto

declare svc_params.simps [simp del]

definition hint_ok :: "int \<times> bytes \<Rightarrow> bool" where
  "hint_ok kv \<longleftrightarrow> (case hint_size (fst kv) of None \<Rightarrow> True | Some n \<Rightarrow> length (snd kv) mod n = 0)"

definition hint_addresses :: "int \<times> bytes \<Rightarrow> bytes list" where
  "hint_addresses kv = (case hint_size (fst kv) of None \<Rightarrow> [] | Some n \<Rightarrow> chunks n (snd kv))"

definition param_clean :: "(bytes \<Rightarrow> bool) \<Rightarrow> int \<times> bytes \<Rightarrow> bool" where
  "param_clean priv kv \<longleftrightarrow> list_all (\<lambda>a. \<not> priv a) (hint_addresses kv)"

definition scrub_param :: "(bytes \<Rightarrow> bool) \<Rightarrow> int \<times> bytes \<Rightarrow> (int \<times> bytes) list" where
  "scrub_param priv kv =
     (let good = filter (\<lambda>a. \<not> priv a) (hint_addresses kv)
      in if param_clean priv kv then [kv]
         else if good = [] then [] else [(fst kv, concat good)])"

definition enc_param :: "int \<times> bytes \<Rightarrow> bytes" where
  "enc_param kv = pack_H (fst kv) @ pack_H (int (length (snd kv))) @ snd kv"

lemma pack_unpack_H: "pack_H (unpack_H a b) = [a, b]"
proof -
  note r = uint_byte_range [of a] uint_byte_range [of b]
  have "uint (word_of_int (drop_bit 8 (unpack_H a b)) :: byte) = uint a"
    unfolding uint_byte_of_int unpack_H_def drop_bit_eq_div using r by simp
  moreover have "uint (word_of_int (unpack_H a b) :: byte) = uint b"
    unfolding uint_byte_of_int unpack_H_def using r by simp
  ultimately show ?thesis by (simp only: pack_H_def word_uint_eq_iff list.inject)
qed

definition param_ok :: "int \<times> bytes \<Rightarrow> bool" where
  "param_ok kv \<longleftrightarrow> u16_ok (fst kv) \<and> u16_ok (int (length (snd kv)))"

lemma four_octets: "\<not> length p < 4 \<Longrightarrow> \<exists>a b c d r. p = a # b # c # d # r"
  by (auto simp: not_less numeral_eq_Suc Suc_le_length_iff)

lemma svc_params_Nil [simp]: "svc_params [] = Some []"
  by (simp add: svc_params.simps)

lemma svc_params_short: "rest \<noteq> [] \<Longrightarrow> length rest < 4 \<Longrightarrow> svc_params rest = None"
  by (simp add: svc_params.simps)

lemma four_parts:
  "(a # b # c # d # r) ! 0 = a" "(a # b # c # d # r) ! 1 = b" "(a # b # c # d # r) ! 2 = c"
  "(a # b # c # d # r) ! 3 = d" "drop 4 (a # b # c # d # r) = r"
  "drop (4 + n) (a # b # c # d # r) = drop n r" "take 2 (a # b # c # d # r) = [a, b]"
  "take (4 + n) (a # b # c # d # r) = a # b # c # d # take n r"
  "(length (a # b # c # d # r) < 4) = False" "(a # b # c # d # r = []) = False"
  by (simp_all add: eval_nat_numeral)

lemma svc_params_step:
  "svc_params (a # b # c # d # r) =
     (let n = nat (unpack_H c d) in
      if length (take n r) \<noteq> n then None
      else map_option (\<lambda>kvs. (unpack_H a b, take n r) # kvs) (svc_params (drop n r)))"
  by (subst svc_params.simps) (simp only: four_parts Let_def map_option_case if_False)

lemma filter_all_length: "(length (filter P xs) \<noteq> length xs) = (\<not> list_all P xs)"
proof (cases "list_all P xs")
  case True
  then show ?thesis by (simp add: list_all_iff)
next
  case False
  then obtain x where "x \<in> set xs" "\<not> P x" by (auto simp: list_all_iff)
  with False length_filter_less [of x xs P] show ?thesis by simp
qed

lemma scrub_loop_step:
  "scrub_loop priv (a # b # c # d # r) out changed =
     (let n = nat (unpack_H c d); kv = (unpack_H a b, take n r) in
      if length (take n r) \<noteq> n \<or> \<not> hint_ok kv then None
      else if param_clean priv kv then scrub_loop priv (drop n r) (out @ [a # b # c # d # take n r]) changed
      else scrub_loop priv (drop n r) (out @ map enc_param (scrub_param priv kv)) True)"
proof -
  let ?n = "nat (unpack_H c d)"
  have e: "[a, b] @ pack_H (int (length v)) @ v = enc_param (unpack_H a b, v)" for v
    by (simp add: enc_param_def pack_unpack_H)
  show ?thesis
  proof (cases "hint_size (unpack_H a b)")
    case None
    then show ?thesis
      by (subst scrub_loop.simps)
        (simp add: four_parts Let_def hint_ok_def param_clean_def hint_addresses_def)
  next
    case (Some sz)
    let ?k = "(unpack_H a b, take ?n r)"
    have g: "hint_addresses ?k = chunks sz (take ?n r)" by (simp add: hint_addresses_def Some)
    show ?thesis
      unfolding scrub_param_def Let_def g param_clean_def
      by (subst scrub_loop.simps)
        (simp only: four_parts Let_def Some option.case filter_all_length if_False hint_ok_def fst_conv
          snd_conv e, simp)
  qed
qed

lemma svc_params_enc:
  "list_all param_ok kvs \<Longrightarrow> svc_params (concat (map enc_param kvs)) = Some kvs"
proof (induction kvs)
  case (Cons kv kvs)
  obtain k v where kv: "kv = (k, v)" by (cases kv)
  have ok: "u16_ok k" "u16_ok (int (length v))" using Cons.prems by (simp_all add: param_ok_def kv)
  have "unpack_H (word_of_int (drop_bit 8 k)) (word_of_int k) = k"
    "unpack_H (word_of_int (drop_bit 8 (int (length v)))) (word_of_int (int (length v))) = int (length v)"
    using ok by (simp_all add: unpack_pack_H u16_ok_def del: of_int_of_nat_eq)
  then show ?case
    using Cons by (simp add: kv enc_param_def pack_H_def svc_params_step Let_def del: of_int_of_nat_eq)
qed simp

lemma enc_param_parsed:
  "length (take (nat (unpack_H c d)) r) = nat (unpack_H c d) \<Longrightarrow>
     enc_param (unpack_H a b, take (nat (unpack_H c d)) r) = a # b # c # d # take (nat (unpack_H c d)) r"
  using unpack_H_range [of c d]
  unfolding enc_param_def fst_conv snd_conv by (simp only: pack_unpack_H) (simp add: pack_unpack_H)

lemma svc_params_ok: "svc_params p = Some kvs \<Longrightarrow> list_all param_ok kvs \<and> p = concat (map enc_param kvs)"
proof (induction "length p" arbitrary: p kvs rule: less_induct)
  case less
  show ?case
  proof (cases "p = []")
    case True
    with less.prems show ?thesis by simp
  next
    case False
    with less.prems obtain a b c d r where p: "p = a # b # c # d # r"
      using svc_params_short four_octets by fastforce
    let ?n = "nat (unpack_H c d)"
    obtain kvs' where full: "length (take ?n r) = ?n" and k: "svc_params (drop ?n r) = Some kvs'"
      and kvs: "kvs = (unpack_H a b, take ?n r) # kvs'"
      using less.prems by (auto simp: p svc_params_step Let_def split: if_splits)
    have IH: "list_all param_ok kvs' \<and> drop ?n r = concat (map enc_param kvs')"
      by (rule less.hyps [OF _ k]) (simp add: p)
    have n: "int ?n = unpack_H c d" using unpack_H_range [of c d] by simp
    have "enc_param (unpack_H a b, take ?n r) = a # b # c # d # take ?n r"
      by (rule enc_param_parsed [OF full])
    moreover have "param_ok (unpack_H a b, take ?n r)"
      unfolding param_ok_def fst_conv snd_conv full n using unpack_H_range by (simp add: u16_ok_def)
    moreover have "r = take ?n r @ drop ?n r" by simp
    ultimately show ?thesis using IH unfolding p kvs list.map concat.simps list.pred_inject by simp
  qed
qed

lemma hint_size_pos: "hint_size k = Some n \<Longrightarrow> 0 < n"
  by (auto simp: hint_size_def split: if_splits)

lemma scrub_param_clean:
  "hint_ok kv \<Longrightarrow> list_all (param_clean priv) (scrub_param priv kv)"
proof (cases "hint_size (fst kv)")
  case (Some n)
  let ?good = "filter (\<lambda>a. \<not> priv a) (chunks n (snd kv))"
  assume "hint_ok kv"
  with Some have "list_all (\<lambda>x. length x = n) (chunks n (snd kv))"
    by (simp add: hint_ok_def chunks_lengths hint_size_pos)
  then have "chunks n (concat ?good) = ?good"
    by (intro chunks_concat) (auto simp: list_all_iff hint_size_pos [OF Some])
  with Some show ?thesis
    by (auto simp: scrub_param_def Let_def param_clean_def hint_addresses_def list_all_iff)
qed (simp add: scrub_param_def param_clean_def hint_addresses_def)

lemma length_concat_filter: "length (concat (filter P xs)) \<le> length (concat xs)"
  by (induction xs) auto



lemma scrub_param_ok: "param_ok kv \<Longrightarrow> list_all param_ok (scrub_param priv kv)"
proof (cases "hint_size (fst kv)")
  case (Some n)
  assume "param_ok kv"
  moreover have "length (concat (filter (\<lambda>a. \<not> priv a) (chunks n (snd kv)))) \<le> length (snd kv)"
    using length_concat_filter [of "\<lambda>a. \<not> priv a" "chunks n (snd kv)"] concat_chunks [of n "snd kv"]
      hint_size_pos [OF Some] by simp
  ultimately show ?thesis
    using Some by (auto simp: scrub_param_def Let_def param_ok_def u16_ok_def hint_addresses_def)
qed (simp add: scrub_param_def param_clean_def hint_addresses_def)

lemma scrub_loop_spec:
  "svc_params p = Some kvs \<Longrightarrow>
     (if list_all hint_ok kvs
      then \<exists>parts. scrub_loop priv p out changed =
          Some (out @ parts, changed \<or> \<not> list_all (param_clean priv) kvs) \<and>
        concat parts = concat (map enc_param (concat (map (scrub_param priv) kvs)))
      else scrub_loop priv p out changed = None)"
proof (induction kvs arbitrary: p out changed)
  case Nil
  then have "p = []" using svc_params_ok [of p "[]"] by simp
  then show ?case by (simp add: scrub_loop.simps)
next
  case (Cons kv kvs)
  then have "p \<noteq> []" by auto
  with Cons.prems obtain a b c d r where p: "p = a # b # c # d # r"
    using svc_params_short four_octets by fastforce
  let ?n = "nat (unpack_H c d)"
  have full: "length (take ?n r) = ?n" and k: "svc_params (drop ?n r) = Some kvs"
    and kv: "kv = (unpack_H a b, take ?n r)"
    using Cons.prems by (auto simp: p svc_params_step Let_def split: if_splits)
  have e: "enc_param kv = a # b # c # d # take ?n r"
    unfolding kv by (rule enc_param_parsed [OF full])
  note step = scrub_loop_step [of priv a b c d r out changed, folded p, unfolded Let_def, folded kv]
  show ?case
  proof (cases "hint_ok kv")
    case False
    then show ?thesis using step by simp
  next
    case True
    show ?thesis
    proof (cases "param_clean priv kv")
      case clean: True
      then have s: "scrub_param priv kv = [kv]" by (simp add: scrub_param_def)
      have "scrub_loop priv p out changed = scrub_loop priv (drop ?n r) (out @ [enc_param kv]) changed"
        using step full True clean e by simp
      with Cons.IH [OF k, of "out @ [enc_param kv]" changed] True clean s show ?thesis
        by (auto intro: exI [of _ "enc_param kv # parts" for parts] split: if_splits)
    next
      case dirty: False
      have "scrub_loop priv p out changed =
          scrub_loop priv (drop ?n r) (out @ map enc_param (scrub_param priv kv)) True"
        using step full True dirty by simp
      with Cons.IH [OF k, of "out @ map enc_param (scrub_param priv kv)" True] True dirty show ?thesis
        by (auto intro: exI [of _ "map enc_param (scrub_param priv kv) @ parts" for parts] split: if_splits)
    qed
  qed
qed

lemma scrub_loop_undecodable:
  "svc_params p = None \<Longrightarrow> scrub_loop priv p out changed = None"
proof (induction "length p" arbitrary: p out changed rule: less_induct)
  case less
  then have ne: "p \<noteq> []" by auto
  show ?case
  proof (cases "length p < 4")
    case True
    with ne show ?thesis by (simp add: scrub_loop.simps)
  next
    case False
    then obtain a b c d r where p: "p = a # b # c # d # r" using four_octets by blast
    let ?n = "nat (unpack_H c d)"
    show ?thesis
    proof (cases "length (take ?n r) = ?n")
      case False
      then show ?thesis by (simp only: p scrub_loop_step Let_def) simp
    next
      case True
      with less.prems have "svc_params (drop ?n r) = None" by (simp only: p svc_params_step Let_def) simp
      then have "scrub_loop priv (drop ?n r) o' ch = None" for o' ch
        by (intro less.hyps) (simp_all add: p)
      then show ?thesis by (simp only: p scrub_loop_step Let_def) simp
    qed
  qed
qed

lemma concat_singletons: "concat (map (\<lambda>x. [x]) xs) = xs"
  by (induction xs) simp_all

lemma scrub_params_list:
  "list_all param_ok kvs \<Longrightarrow> list_all hint_ok kvs \<Longrightarrow>
     list_all param_ok (concat (map (scrub_param priv) kvs)) \<and>
     list_all (param_clean priv) (concat (map (scrub_param priv) kvs))"
  by (induction kvs) (simp_all add: scrub_param_ok scrub_param_clean)

lemma scrub_hints_sound:
  "case svc_params p of
     None \<Rightarrow> scrub_hints priv p = None
   | Some kvs \<Rightarrow>
       if list_all hint_ok kvs
       then svc_params (case scrub_hints priv p of None \<Rightarrow> p | Some q \<Rightarrow> q) =
              Some (concat (map (scrub_param priv) kvs)) \<and>
            list_all (param_clean priv) (concat (map (scrub_param priv) kvs))
       else scrub_hints priv p = None"
proof (cases "svc_params p")
  case None
  then show ?thesis by (simp add: scrub_hints_def scrub_loop_undecodable)
next
  case (Some kvs)
  show ?thesis
  proof (cases "list_all hint_ok kvs")
    case False
    with Some scrub_loop_spec [OF Some, of priv "[]" False] show ?thesis by (simp add: scrub_hints_def)
  next
    case True
    let ?k = "concat (map (scrub_param priv) kvs)"
    have ok: "list_all param_ok ?k" and clean: "list_all (param_clean priv) ?k"
      using scrub_params_list [OF _ True] svc_params_ok [OF Some] by blast+
    obtain parts where l: "scrub_loop priv p [] False = Some (parts, \<not> list_all (param_clean priv) kvs)"
      "concat parts = concat (map enc_param ?k)"
      using scrub_loop_spec [OF Some, of priv "[]" False] True by auto
    show ?thesis
    proof (cases "list_all (param_clean priv) kvs")
      case same: True
      then have "map (scrub_param priv) kvs = map (\<lambda>kv. [kv]) kvs"
        by (simp add: scrub_param_def list_all_iff)
      then have "?k = kvs" by (simp only: concat_singletons)
      then have "svc_params p = Some ?k" by (simp only: Some)
      moreover have "scrub_hints priv p = None" using l same by (simp add: scrub_hints_def)
      ultimately have g: "svc_params (case scrub_hints priv p of None \<Rightarrow> p | Some q \<Rightarrow> q) = Some ?k"
        by (simp only: option.case)
      show ?thesis unfolding Some option.case by (simp only: True if_True g clean simp_thms)
    next
      case False
      with l have "scrub_hints priv p = Some (concat (map enc_param ?k))" by (simp add: scrub_hints_def)
      with Some True clean svc_params_enc [OF ok] show ?thesis by simp
    qed
  qed
qed

text \<open>
  The in-place scrub of the service parameters refines the scrub of the decoded list: on
  parameters that decode, with hints of whole addresses, what is left decodes to the same keys in
  the same order, each hint without its private addresses and dropped when none is left, every
  other parameter untouched, and no hint names a private address any more; on anything else the
  octets are left alone.
\<close>

theorem scrub_hints_refines:
  "case svc_params p of
     None \<Rightarrow> scrub_hints priv p = None
   | Some kvs \<Rightarrow>
       if list_all hint_ok kvs
       then svc_params (case scrub_hints priv p of None \<Rightarrow> p | Some q \<Rightarrow> q) =
              Some (concat (map (scrub_param priv) kvs)) \<and>
            list_all (param_clean priv) (concat (map (scrub_param priv) kvs))
       else scrub_hints priv p = None"
  by (rule scrub_hints_sound)

definition rr_clean :: "(bytes \<Rightarrow> bool) \<Rightarrow> rr \<Rightarrow> bool" where
  "rr_clean priv x \<longleftrightarrow>
     (if rr_type x = 1 \<or> rr_type x = 28
      then (case address_of (rr_rdata x) of None \<Rightarrow> True | Some a \<Rightarrow> \<not> priv a) else True) \<and>
     (if rr_type x = 64 \<or> rr_type x = 65
      then (case svcb_params (rr_rdata x) of None \<Rightarrow> True | Some p \<Rightarrow>
              (case svc_params p of None \<Rightarrow> True | Some kvs \<Rightarrow>
                 \<not> list_all hint_ok kvs \<or> list_all (param_clean priv) kvs))
      else True)"

lemma svcb_set: "svcb_params rd \<noteq> None \<Longrightarrow> svcb_params (set_params ps rd) = Some ps"
  by (cases rd) auto

lemma scrub_rr_clean: "list_all (rr_clean priv) (fst (scrub_rr priv x))"
proof (cases "(rr_type x = 64 \<or> rr_type x = 65) \<and> svcb_params (rr_rdata x) \<noteq> None")
  case True
  then obtain p where p: "svcb_params (rr_rdata x) = Some p" by blast
  show ?thesis
    using True p scrub_hints_sound [of priv p] svcb_set [of "rr_rdata x"]
    by (auto simp: scrub_rr_def rr_clean_def split: option.splits if_splits)
next
  case False
  then show ?thesis
    by (auto simp: scrub_rr_def rr_clean_def split: option.split)
qed

text \<open>
  C34: after the scrub of the answer to a name that is not local, no A or AAAA record of the
  answer section names a private address and no SVCB or HTTPS record whose parameters decode
  does; nothing but the answers changes, and when the count is zero nothing does.
\<close>

theorem scrub_removes_private:
  assumes "scrub u priv q suffs m = (m', n)" "\<not> is_local_name u q suffs"
  shows "list_all (rr_clean priv) (answers m') \<and> m' = m\<lparr>answers := answers m'\<rparr> \<and> (n \<noteq> 0 \<or> m' = m)"
proof -
  let ?rs = "map (scrub_rr priv) (answers m)"
  have m': "m' = (if n \<noteq> 0 then m\<lparr>answers := concat (map fst ?rs)\<rparr> else m)" and n: "n = sum_list (map snd ?rs)"
  proof -
    have e: "(m', n) = (if sum_list (map snd ?rs) \<noteq> 0 then m\<lparr>answers := concat (map fst ?rs)\<rparr> else m,
        sum_list (map snd ?rs))"
      using assms unfolding scrub_def Let_def by (simp only: if_False)
    then show n: "n = sum_list (map snd ?rs)" by (simp only: prod.inject)
    show "m' = (if n \<noteq> 0 then m\<lparr>answers := concat (map fst ?rs)\<rparr> else m)"
      using e unfolding n by (simp only: prod.inject)
  qed
  have all: "list_all (rr_clean priv) (concat (map fst ?rs))"
    using scrub_rr_clean [of priv] by (induction "answers m" arbitrary: m) (auto simp: list_all_iff)
  have "concat (map fst ?rs) = answers m" if "n = 0"
  proof -
    have "fst (scrub_rr priv x) = [x]" if "snd (scrub_rr priv x) = 0" for x
      using that by (auto simp: scrub_rr_def split: option.splits if_splits)
    then have "map (fst \<circ> scrub_rr priv) xs = map (\<lambda>x. [x]) xs"
      if "sum_list (map (snd \<circ> scrub_rr priv) xs) = 0" for xs
      using that by (induction xs) auto
    with \<open>n = 0\<close> n have "map (fst \<circ> scrub_rr priv) (answers m) = map (\<lambda>x. [x]) (answers m)" by simp
    then show ?thesis by (simp only: map_map concat_singletons)
  qed
  with all m' show ?thesis by (cases "n = 0") auto
qed

theorem scrub_removes_private_witness:
  "let m = example_message\<lparr>answers := [\<lparr>rr_name = [[97]], rr_type = 1, rr_class = 1, rr_ttl = 60,
        rr_rdata = Rd_A [10, 0, 0, 1]\<rparr>]\<rparr>;
       r = scrub (\<lambda>c. [c]) (\<lambda>a. a ! 0 = 10) (chars ''a.com'') [] m
   in list_all (rr_clean (\<lambda>a. a ! 0 = 10)) (answers (fst r)) \<and> snd r = 1"
proof -
  obtain m where m: "m = example_message\<lparr>answers := [\<lparr>rr_name = [[97]], rr_type = 1, rr_class = 1,
      rr_ttl = 60, rr_rdata = Rd_A [10, 0, 0, 1]\<rparr>]\<rparr>" by simp
  have l: "\<not> is_local_name (\<lambda>c. [c]) (chars ''a.com'') []" by (simp add: is_local_name_def)
  have "snd (scrub (\<lambda>c. [c]) (\<lambda>a. a ! 0 = 10) (chars ''a.com'') [] m) = 1"
    using l by (simp add: scrub_def m scrub_rr_def Let_def)
  moreover obtain m' n where "scrub (\<lambda>c. [c]) (\<lambda>a. a ! 0 = 10) (chars ''a.com'') [] m = (m', n)" by fastforce
  ultimately show ?thesis using scrub_removes_private [OF _ l] by (simp add: m)
qed

subsection \<open>Block replies\<close>

datatype block_mode = Nxdomain | Refused | Nodata | Zero_ip | Custom_ip

definition BLOCK_TTL :: int where "BLOCK_TTL = 60"

definition answer_rr :: "question \<Rightarrow> int \<Rightarrow> rdata \<Rightarrow> int \<Rightarrow> rr" where
  "answer_rr q t rd ttl = \<lparr>rr_name = qname q, rr_type = t, rr_class = 1, rr_ttl = ttl, rr_rdata = rd\<rparr>"

definition build_block :: "message \<Rightarrow> block_mode \<Rightarrow> bytes \<Rightarrow> bytes \<Rightarrow> int \<Rightarrow> message" where
  "build_block query mode ipv4 ipv6 ttl =
     (let resp = reply 0 query in
      case first_question query of
        None \<Rightarrow> set_rcode 5 resp
      | Some q \<Rightarrow>
          (case mode of
             Nxdomain \<Rightarrow> set_rcode 3 resp
           | Refused \<Rightarrow> set_rcode 5 resp
           | Nodata \<Rightarrow> resp
           | _ \<Rightarrow>
               let v4 = (if mode = Zero_ip then [0, 0, 0, 0] else ipv4);
                   v6 = (if mode = Zero_ip then replicate 16 0 else ipv6)
               in if qtype q = 1 then resp\<lparr>answers := answers resp @ [answer_rr q 1 (Rd_A v4) ttl]\<rparr>
                  else if qtype q = 28
                  then resp\<lparr>answers := answers resp @ [answer_rr q 28 (Rd_AAAA v6) ttl]\<rparr>
                  else resp))"

definition build_rewrite :: "message \<Rightarrow> int option \<Rightarrow> rdata option \<Rightarrow> int \<Rightarrow> message" where
  "build_rewrite query rc rd ttl =
     (let resp = reply 0 query;
          resp = (case rc of None \<Rightarrow> resp | Some r \<Rightarrow> set_rcode r resp)
      in if rc \<noteq> None \<and> rc \<noteq> Some 0 then resp
         else (case (rd, first_question query) of
                 (Some d, Some q) \<Rightarrow>
                   resp\<lparr>answers := answers resp @ [answer_rr q (rdata_type d) d ttl]\<rparr>
               | _ \<Rightarrow> resp))"

end
