(* ===== verification/Dhcp_Scope.thy ===== *)
theory Dhcp_Scope
  imports Complex_Main Ordered_Dict Py_Text
begin

section \<open>The DHCP address pool\<close>

text \<open>
  Models \<^verbatim>\<open>trench/dhcp/scope.py\<close>: the lease table, keyed by client hardware address,
  and the operations on it. An address is the number its dotted quad stands for (the
  \<^verbatim>\<open>ipaddress\<close> module accepts one spelling of each), times are rationals, and the
  clock is an argument of the operations that read it. An empty string where the code means that
  there is no address is \<^const>\<open>None\<close>. The properties are about runs of operations: two
  clients never hold the same address, and outstanding offers stay within their share.
\<close>

subsection \<open>State\<close>

record lease =
  l_ip :: nat
  l_mac :: ustr
  l_hostname :: ustr
  l_expire :: rat
  l_offered :: bool

record scope =
  network :: "nat \<times> nat"
  range_start :: nat
  range_end :: nat
  router :: "nat option"
  dns :: "nat list"
  lease_time :: int
  reservations :: "(ustr, nat) odict"
  max_leases :: nat
  offer_hold :: int
  offer_share :: rat
  leases :: "(ustr, lease) odict"

definition new_scope :: "nat \<times> nat \<Rightarrow> nat \<Rightarrow> nat \<Rightarrow> nat option \<Rightarrow> nat list \<Rightarrow> int \<Rightarrow> (ustr, nat) odict \<Rightarrow> scope" where
  "new_scope net lo hi rt ds lt res =
     \<lparr>network = net, range_start = lo, range_end = hi, router = rt, dns = ds, lease_time = lt,
      reservations = res, max_leases = 4096, offer_hold = 60, offer_share = 1 / 4, leases = []\<rparr>"

subsection \<open>Operations\<close>

definition in_use :: "rat \<Rightarrow> scope \<Rightarrow> nat list" where
  "in_use now s =
     map (\<lambda>(_, l). l_ip l) (filter (\<lambda>(_, l). l_expire l > now) (leases s)) @ map snd (reservations s)"

definition offers :: "rat \<Rightarrow> scope \<Rightarrow> nat" where
  "offers now s = length (filter (\<lambda>(_, l). l_offered l \<and> l_expire l > now) (leases s))"

text \<open>\<^verbatim>\<open>int()\<close> rounds towards zero; below zero the maximum is 4 all the same.\<close>

definition offer_cap :: "scope \<Rightarrow> int" where
  "offer_cap s = max 4 \<lfloor>of_int (int (range_end s) - int (range_start s) + 1) * offer_share s\<rfloor>"

definition reap :: "rat \<Rightarrow> scope \<Rightarrow> scope" where
  "reap now s =
     (if length (leases s) \<le> max_leases s then s
      else s\<lparr>leases := filter (\<lambda>(_, l). \<not> l_expire l \<le> now) (leases s)\<rparr>)"

definition in_range :: "nat \<Rightarrow> scope \<Rightarrow> bool" where
  "in_range ip s \<longleftrightarrow> range_start s \<le> ip \<and> ip \<le> range_end s"

definition grant :: "ustr \<Rightarrow> nat \<Rightarrow> ustr \<Rightarrow> rat \<Rightarrow> bool \<Rightarrow> scope \<Rightarrow> scope \<times> lease" where
  "grant mac ip hostname now offer s =
     (let hold = (if offer then min (offer_hold s) (lease_time s) else lease_time s);
          l = \<lparr>l_ip = ip, l_mac = mac, l_hostname = hostname, l_expire = now + of_int hold,
               l_offered = offer\<rparr>
      in (s\<lparr>leases := od_set mac l (leases s)\<rparr>, l))"

definition granted :: "scope \<times> lease \<Rightarrow> scope \<times> lease option" where
  "granted r = (fst r, Some (snd r))"

definition is_live :: "rat \<Rightarrow> lease option \<Rightarrow> bool" where
  "is_live now e = (case e of None \<Rightarrow> False | Some l \<Rightarrow> l_expire l > now)"

text \<open>The address for a client that has none yet: the one it asks for, or the first free one.\<close>

definition pick :: "rat \<Rightarrow> nat option \<Rightarrow> scope \<Rightarrow> nat option" where
  "pick now requested s =
     (let used = in_use now s;
          free = List.find (\<lambda>n. n \<notin> set used) [range_start s..<range_end s + 1]
      in case requested of
           Some r \<Rightarrow> if r \<notin> set used \<and> in_range r s then Some r else free
         | None \<Rightarrow> free)"

definition allocate :: "(nat \<Rightarrow> ustr) \<Rightarrow> ustr \<Rightarrow> ustr \<Rightarrow> nat option \<Rightarrow> rat \<Rightarrow> bool \<Rightarrow> scope \<Rightarrow>
    scope \<times> lease option" where
  "allocate u mac hostname requested now offer s =
     (let mac = str_lower u mac;
          s = reap now s;
          existing = od_get mac (leases s);
          live = is_live now existing
      in if offer \<and> live then (s, existing)
         else case od_get mac (reservations s) of
           Some ip \<Rightarrow> granted (grant mac ip hostname now offer s)
         | None \<Rightarrow>
             if live then granted (grant mac (l_ip (the existing)) hostname now offer s)
             else if offer \<and> int (offers now s) \<ge> offer_cap s then (s, None)
             else (case pick now requested s of
                     Some ip \<Rightarrow> granted (grant mac ip hostname now offer s)
                   | None \<Rightarrow> (s, None)))"

definition release :: "(nat \<Rightarrow> ustr) \<Rightarrow> ustr \<Rightarrow> nat option \<Rightarrow> scope \<Rightarrow> scope \<times> nat option" where
  "release u mac ciaddr s =
     (let mac = str_lower u mac
      in case od_get mac (leases s) of
           None \<Rightarrow> (s, None)
         | Some held \<Rightarrow>
             if ciaddr \<noteq> None \<and> Some (l_ip held) \<noteq> ciaddr then (s, None)
             else (s\<lparr>leases := od_pop mac (leases s)\<rparr>, Some (l_ip held)))"

definition active_leases :: "rat \<Rightarrow> scope \<Rightarrow> lease list" where
  "active_leases now s = filter (\<lambda>l. l_expire l > now \<and> \<not> l_offered l) (map snd (leases s))"

subsection \<open>Runs of operations\<close>

datatype scope_op =
  Allocate ustr ustr "nat option" rat bool
| Release ustr "nat option" rat

fun op_time :: "scope_op \<Rightarrow> rat" where
  "op_time (Allocate mac h r now offer) = now"
| "op_time (Release mac c now) = now"

fun scope_step :: "(nat \<Rightarrow> ustr) \<Rightarrow> scope_op \<Rightarrow> scope \<Rightarrow> scope" where
  "scope_step u (Allocate mac h r now offer) s = fst (allocate u mac h r now offer s)"
| "scope_step u (Release mac c now) s = fst (release u mac c s)"

text \<open>The lease of a client that is live at a time.\<close>

definition live_lease :: "rat \<Rightarrow> ustr \<Rightarrow> scope \<Rightarrow> lease option" where
  "live_lease now mac s =
     (case od_get mac (leases s) of
        Some l \<Rightarrow> if l_expire l > now then Some l else None
      | None \<Rightarrow> None)"

subsection \<open>What the operations do to the lease table\<close>

definition same_config :: "scope \<Rightarrow> scope \<Rightarrow> bool" where
  "same_config s t \<longleftrightarrow> s = t\<lparr>leases := leases s\<rparr>"

lemma live_lease_iff:
  "live_lease t m s = Some l \<longleftrightarrow> od_get m (leases s) = Some l \<and> l_expire l > t"
  by (auto simp: live_lease_def split: option.splits)

lemma od_get_filter_live:
  assumes "distinct (od_keys d)"
  shows "od_get k (filter (\<lambda>(_, l). P l) d) =
    (case od_get k d of Some l \<Rightarrow> if P l then Some l else None | None \<Rightarrow> None)"
  using assms
proof (induction d)
  case (Cons kv d)
  then have "fst kv \<notin> set (od_keys d)" by (simp add: od_keys_def)
  then have "od_get (fst kv) d = None" by (simp add: od_get_None)
  with Cons show ?case by (cases kv) (auto simp: od_get_def od_keys_def split: option.splits)
qed (simp add: od_get_def)

lemma distinct_filter_keys: "distinct (od_keys d) \<Longrightarrow> distinct (od_keys (filter P d))"
  by (simp add: od_keys_def distinct_map_filter)

lemma reap_live:
  assumes "distinct (od_keys (leases s))" "now \<le> t"
  shows "live_lease t m (reap now s) = live_lease t m s"
  using assms by (auto simp: reap_def live_lease_def od_get_filter_live split: option.split)

lemma reap_distinct: "distinct (od_keys (leases s)) \<Longrightarrow> distinct (od_keys (leases (reap now s)))"
  by (simp add: reap_def distinct_filter_keys)

lemma reap_config [simp]:
  "reservations (reap now s) = reservations s" "range_start (reap now s) = range_start s"
  "range_end (reap now s) = range_end s" "lease_time (reap now s) = lease_time s"
  "offer_hold (reap now s) = offer_hold s" "offer_cap (reap now s) = offer_cap s"
  "in_range ip (reap now s) = in_range ip s" "network (reap now s) = network s"
  "router (reap now s) = router s" "dns (reap now s) = dns s"
  by (simp_all add: reap_def offer_cap_def in_range_def)

lemma grant_config [simp]:
  "reservations (fst (grant m ip h now off s)) = reservations s"
  "range_start (fst (grant m ip h now off s)) = range_start s"
  "range_end (fst (grant m ip h now off s)) = range_end s"
  "lease_time (fst (grant m ip h now off s)) = lease_time s"
  "offer_hold (fst (grant m ip h now off s)) = offer_hold s"
  "offer_cap (fst (grant m ip h now off s)) = offer_cap s"
  "network (fst (grant m ip h now off s)) = network s"
  "router (fst (grant m ip h now off s)) = router s"
  "dns (fst (grant m ip h now off s)) = dns s"
  by (simp_all add: grant_def Let_def offer_cap_def)

lemma allocate_config [simp]:
  "reservations (fst (allocate u m h r now off s)) = reservations s"
  "range_start (fst (allocate u m h r now off s)) = range_start s"
  "range_end (fst (allocate u m h r now off s)) = range_end s"
  "lease_time (fst (allocate u m h r now off s)) = lease_time s"
  "offer_hold (fst (allocate u m h r now off s)) = offer_hold s"
  "offer_cap (fst (allocate u m h r now off s)) = offer_cap s"
  "network (fst (allocate u m h r now off s)) = network s"
  "router (fst (allocate u m h r now off s)) = router s"
  "dns (fst (allocate u m h r now off s)) = dns s"
  by (simp_all add: allocate_def granted_def Let_def split: option.split)

lemma release_config [simp]:
  "reservations (fst (release u m c s)) = reservations s" "lease_time (fst (release u m c s)) = lease_time s"
  "offer_hold (fst (release u m c s)) = offer_hold s" "offer_cap (fst (release u m c s)) = offer_cap s"
  by (simp_all add: release_def Let_def offer_cap_def split: option.split)

lemma in_use_iff:
  assumes "distinct (od_keys (leases s))"
  shows "ip \<in> set (in_use now s) \<longleftrightarrow>
    (\<exists>m l. live_lease now m s = Some l \<and> l_ip l = ip) \<or> ip \<in> set (map snd (reservations s))"
proof -
  have "od_get m (leases s) = Some l \<longleftrightarrow> (m, l) \<in> set (leases s)" for m l
    using assms by (simp add: od_get_def od_keys_def)
  then have l: "live_lease now m s = Some l \<longleftrightarrow> (m, l) \<in> set (leases s) \<and> l_expire l > now" for m l
    by (simp add: live_lease_iff)
  have "ip \<in> set (in_use now s) \<longleftrightarrow>
      (\<exists>m l. (m, l) \<in> set (leases s) \<and> l_expire l > now \<and> l_ip l = ip) \<or> ip \<in> set (map snd (reservations s))"
    by (force simp: in_use_def)
  then show ?thesis by (simp only: l) blast
qed

lemma grant_live:
  "live_lease t m' (fst (grant m ip h now off s)) =
     (if m' = m then (if l_expire (snd (grant m ip h now off s)) > t then Some (snd (grant m ip h now off s)) else None)
      else live_lease t m' s)"
  by (simp add: grant_def live_lease_def Let_def od_simps)

lemma grant_lease [simp]:
  "l_ip (snd (grant m ip h now off s)) = ip" "l_mac (snd (grant m ip h now off s)) = m"
  "l_offered (snd (grant m ip h now off s)) = off" "l_hostname (snd (grant m ip h now off s)) = h"
  by (simp_all add: grant_def Let_def)

lemma pick_free:
  assumes "pick now r s = Some ip"
  shows "ip \<notin> set (in_use now s) \<and> in_range ip s"
  using assms
  by (auto simp: pick_def Let_def in_range_def find_Some_iff simp del: upt_Suc split: option.splits if_splits)

lemma pick_none:
  "pick now r s = None \<Longrightarrow> in_range ip s \<Longrightarrow> ip \<in> set (in_use now s)"
  by (auto simp: pick_def Let_def in_range_def find_None_iff simp del: upt_Suc split: option.splits if_splits)

text \<open>What an allocation that yields a lease may have granted.\<close>

lemma allocate_cases:
  assumes "allocate u mac h r now off s = (s', res)"
  obtains (none) "s' = reap now s" "res = None"
    | (repeated) l where "s' = reap now s" "off" "res = Some l"
        "live_lease now (str_lower u mac) (reap now s) = Some l"
    | (reserved) ip where "od_get (str_lower u mac) (reservations s) = Some ip"
        "granted (grant (str_lower u mac) ip h now off (reap now s)) = (s', res)"
        "off \<Longrightarrow> live_lease now (str_lower u mac) (reap now s) = None"
    | (renewed) l where "od_get (str_lower u mac) (reservations s) = None"
        "live_lease now (str_lower u mac) (reap now s) = Some l" "\<not> off"
        "granted (grant (str_lower u mac) (l_ip l) h now off (reap now s)) = (s', res)"
    | (fresh) ip where "od_get (str_lower u mac) (reservations s) = None"
        "live_lease now (str_lower u mac) (reap now s) = None"
        "off \<Longrightarrow> int (offers now (reap now s)) < offer_cap s"
        "pick now r (reap now s) = Some ip"
        "granted (grant (str_lower u mac) ip h now off (reap now s)) = (s', res)"
proof -
  let ?m = "str_lower u mac" and ?s = "reap now s"
  let ?e = "od_get ?m (leases ?s)"
  have a: "(if off \<and> is_live now ?e then (?s, ?e)
         else case od_get ?m (reservations s) of
           Some ip \<Rightarrow> granted (grant ?m ip h now off ?s)
         | None \<Rightarrow>
             if is_live now ?e then granted (grant ?m (l_ip (the ?e)) h now off ?s)
             else if off \<and> int (offers now ?s) \<ge> offer_cap s then (?s, None)
             else (case pick now r ?s of
                     Some ip \<Rightarrow> granted (grant ?m ip h now off ?s)
                   | None \<Rightarrow> (?s, None))) = (s', res)"
    using assms by (simp only: allocate_def Let_def reap_config)
  show ?thesis
  proof (cases "is_live now ?e")
    case live: True
    then obtain l where l: "?e = Some l" "live_lease now ?m ?s = Some l"
      by (auto simp: is_live_def live_lease_def split: option.splits)
    show ?thesis
    proof (cases "off")
      case True
      with live have "off \<and> is_live now ?e" by blast
      from a [unfolded if_P [OF this]] have "s' = ?s" "res = ?e" by blast+
      with True l show ?thesis by (intro repeated) simp_all
    next
      case False
      show ?thesis
      proof (cases "od_get ?m (reservations s)")
        case None
        with False live a l(1) have "granted (grant ?m (l_ip l) h now off ?s) = (s', res)" by simp
        with None False l(2) show ?thesis by (intro renewed)
      next
        case (Some ip)
        with False a have "granted (grant ?m ip h now off ?s) = (s', res)" by simp
        with Some False show ?thesis by (intro reserved) simp_all
      qed
    qed
  next
    case dead: False
    then have n: "live_lease now ?m ?s = None"
      by (auto simp: is_live_def live_lease_def split: option.splits)
    show ?thesis
    proof (cases "od_get ?m (reservations s)")
      case (Some ip)
      with dead a have "granted (grant ?m ip h now off ?s) = (s', res)" by simp
      with Some n show ?thesis by (intro reserved) simp_all
    next
      case None
      note b = a [simplified dead None, simplified]
      show ?thesis
      proof (cases "off \<and> offer_cap s \<le> int (offers now ?s) \<or> pick now r ?s = None")
        case True
        with b have "s' = ?s" "res = None" by (auto split: if_splits)
        then show ?thesis by (rule none)
      next
        case False
        then obtain ip where p: "pick now r ?s = Some ip" by auto
        with False b have "granted (grant ?m ip h now off ?s) = (s', res)" by (auto split: if_splits)
        with False None n p show ?thesis by (intro fresh) auto
      qed
    qed
  qed
qed


subsection \<open>No two clients hold the same address\<close>

text \<open>
  At a time \<open>t\<close>: a client with a reservation holds its reserved address, any other client an
  address of the range that is reserved for nobody, and no two clients the same one.
\<close>

definition entitled :: "ustr \<Rightarrow> nat \<Rightarrow> scope \<Rightarrow> bool" where
  "entitled m ip s =
     (case od_get m (reservations s) of
        Some ip' \<Rightarrow> ip = ip'
      | None \<Rightarrow> in_range ip s \<and> ip \<notin> set (map snd (reservations s)))"

definition scope_ok :: "rat \<Rightarrow> scope \<Rightarrow> bool" where
  "scope_ok t s \<longleftrightarrow>
     distinct (od_keys (leases s)) \<and>
     (\<forall>m l. live_lease t m s = Some l \<longrightarrow> entitled m (l_ip l) s) \<and>
     (\<forall>m m' l l'. live_lease t m s = Some l \<longrightarrow> live_lease t m' s = Some l' \<longrightarrow> l_ip l = l_ip l' \<longrightarrow> m = m')"

lemma live_later: "t \<le> t' \<Longrightarrow> live_lease t' m s = Some l \<Longrightarrow> live_lease t m s = Some l"
  by (auto simp: live_lease_def split: option.splits if_splits)

lemma scope_ok_later: "scope_ok t s \<Longrightarrow> t \<le> t' \<Longrightarrow> scope_ok t' s"
  unfolding scope_ok_def by (meson live_later)

lemma entitled_cong:
  "reservations s' = reservations s \<Longrightarrow> range_start s' = range_start s \<Longrightarrow> range_end s' = range_end s \<Longrightarrow>
     entitled m ip s' = entitled m ip s"
  by (simp add: entitled_def in_range_def split: option.split)

lemma reap_ok:
  assumes "scope_ok t s"
  shows "scope_ok t (reap t s)"
proof -
  have "live_lease t m (reap t s) = live_lease t m s" for m
    using assms reap_live [of s t t m] by (simp add: scope_ok_def)
  then show ?thesis using assms entitled_cong [of "reap t s" s] by (simp add: scope_ok_def reap_distinct)
qed

lemma grant_ok:
  assumes ok: "scope_ok t s" and own: "entitled m ip s"
    and free: "\<And>m' l. m' \<noteq> m \<Longrightarrow> live_lease t m' s = Some l \<Longrightarrow> l_ip l \<noteq> ip"
  shows "scope_ok t (fst (grant m ip h now off s))"
proof -
  let ?s = "fst (grant m ip h now off s)"
  have "distinct (od_keys (leases s))" using ok by (simp add: scope_ok_def)
  then have d: "distinct (od_keys (leases ?s))"
    unfolding grant_def Let_def fst_conv by (simp add: distinct_od(1))
  have e: "entitled m' a ?s = entitled m' a s" for m' a by (rule entitled_cong) simp_all
  have l: "live_lease t m' ?s = Some l \<Longrightarrow> (m' = m \<and> l_ip l = ip) \<or> (m' \<noteq> m \<and> live_lease t m' s = Some l)" for m' l
    by (auto simp: grant_live split: if_splits)
  show ?thesis
    unfolding scope_ok_def
  proof (intro conjI d allI impI)
    fix m' l assume "live_lease t m' ?s = Some l"
    with l [OF this] ok own show "entitled m' (l_ip l) ?s"
      unfolding e scope_ok_def by blast
  next
    fix m1 m2 l1 l2
    assume "live_lease t m1 ?s = Some l1" "live_lease t m2 ?s = Some l2" "l_ip l1 = l_ip l2"
    with l [of m1 l1] l [of m2 l2] ok free show "m1 = m2"
      unfolding scope_ok_def by metis
  qed
qed

lemma reserved_elsewhere:
  assumes ok: "scope_ok t s" and inj: "distinct (map snd (reservations s))"
    and r: "od_get m (reservations s) = Some ip" and l: "live_lease t m' s = Some l" "m' \<noteq> m"
  shows "l_ip l \<noteq> ip"
proof
  assume e: "l_ip l = ip"
  have mem: "(m, ip) \<in> set (reservations s)" using r by (simp add: od_get_def map_of_SomeD)
  then have "ip \<in> set (map snd (reservations s))" by force
  moreover have "entitled m' ip s" using ok l(1) e unfolding scope_ok_def by blast
  ultimately obtain ip' where r': "od_get m' (reservations s) = Some ip'" "ip' = ip"
    by (auto simp: entitled_def split: option.splits)
  then have "(m', ip) \<in> set (reservations s)" by (simp add: od_get_def map_of_SomeD)
  with mem inj l(2) show False
    by (metis (no_types, lifting) distinct_map inj_onD prod.inject snd_conv)
qed

lemma allocate_ok:
  assumes ok: "scope_ok now s" and inj: "distinct (map snd (reservations s))"
  shows "scope_ok now (fst (allocate u mac h r now off s))"
proof -
  let ?s = "reap now s" and ?m = "str_lower u mac"
  have rk: "scope_ok now ?s" using ok by (rule reap_ok)
  have d: "distinct (od_keys (leases ?s))" using rk by (simp add: scope_ok_def)
  have i: "distinct (map snd (reservations ?s))" using inj by simp
  obtain s' res where a: "allocate u mac h r now off s = (s', res)" by fastforce
  from a have "scope_ok now s'"
  proof (cases rule: allocate_cases)
    case none
    with rk show ?thesis by simp
  next
    case (repeated l)
    with rk show ?thesis by simp
  next
    case (reserved ip)
    have "scope_ok now (fst (grant ?m ip h now off ?s))"
      by (rule grant_ok [OF rk]) (use reserved reserved_elsewhere [OF rk i] in \<open>auto simp: entitled_def\<close>)
    with reserved show ?thesis by (simp add: granted_def)
  next
    case (renewed l)
    have "scope_ok now (fst (grant ?m (l_ip l) h now off ?s))"
    proof (rule grant_ok [OF rk])
      show "entitled ?m (l_ip l) ?s" using renewed(2) rk unfolding scope_ok_def by blast
    next
      fix m' l' assume "m' \<noteq> ?m" "live_lease now m' ?s = Some l'"
      with renewed(2) rk show "l_ip l' \<noteq> l_ip l" unfolding scope_ok_def by metis
    qed
    with renewed show ?thesis by (simp add: granted_def)
  next
    case (fresh ip)
    have f: "ip \<notin> set (in_use now ?s)" "in_range ip ?s" using pick_free [OF fresh(4)] by simp_all
    have "scope_ok now (fst (grant ?m ip h now off ?s))"
      by (rule grant_ok [OF rk]) (use fresh f in_use_iff [OF d, of ip now] in \<open>auto simp: entitled_def\<close>)
    with fresh show ?thesis by (simp add: granted_def)
  qed
  with a show ?thesis by simp
qed

lemma release_ok:
  assumes "scope_ok t s"
  shows "scope_ok t (fst (release u mac c s))"
proof -
  have d: "distinct (od_keys (od_pop k (leases s)))" for k
    using assms by (auto simp: scope_ok_def)
  have l: "live_lease t m' (s\<lparr>leases := od_pop k (leases s)\<rparr>) = (if m' = k then None else live_lease t m' s)" for m' k
    by (simp add: live_lease_def od_simps)
  have e: "entitled m ip (s\<lparr>leases := x\<rparr>) = entitled m ip s" for m ip x by (rule entitled_cong) simp_all
  show ?thesis
    using assms by (auto simp: release_def Let_def scope_ok_def l d e split: option.split)
qed

lemma run_ok:
  assumes "scope_ok t s" and "distinct (map snd (reservations s))"
    and "sorted (t # map op_time ops)" and "\<forall>op \<in> set ops. op_time op \<le> t'" and "t \<le> t'"
  shows "scope_ok t' (fold (scope_step u) ops s)"
  using assms
proof (induction ops arbitrary: s t)
  case Nil
  then show ?case by (simp add: scope_ok_later)
next
  case (Cons op ops)
  have le: "t \<le> op_time op" "op_time op \<le> t'" and st: "sorted (op_time op # map op_time ops)"
    using Cons.prems(3,4) by auto
  have ok: "scope_ok (op_time op) s" using Cons.prems(1) le(1) by (rule scope_ok_later)
  have "scope_ok (op_time op) (scope_step u op s) \<and> reservations (scope_step u op s) = reservations s"
    using ok Cons.prems(2) by (cases op) (simp_all add: allocate_ok release_ok)
  then show ?case
    using Cons.IH [of "op_time op" "scope_step u op s"] Cons.prems(2,4) le st by simp
qed

text \<open>
  C38: over any run of allocations, offers and releases at times that do not go back, from an
  empty table, no two clients hold a live lease or offer on the same address, as long as the
  configuration reserves no address twice.
\<close>

theorem leases_exclusive:
  assumes "leases s = []" and "distinct (map snd (reservations s))"
    and "sorted (map op_time ops)" and "list_all (\<lambda>op. op_time op \<le> t) ops"
    and "live_lease t m (fold (scope_step u) ops s) = Some l"
    and "live_lease t m' (fold (scope_step u) ops s) = Some l'" and "m \<noteq> m'"
  shows "l_ip l \<noteq> l_ip l'"
proof -
  let ?t = "if ops = [] then t else op_time (hd ops)"
  have "scope_ok ?t s" using assms(1) by (simp add: scope_ok_def live_lease_def od_get_def od_keys_def)
  then have "scope_ok t (fold (scope_step u) ops s)"
    by (rule run_ok) (use assms in \<open>cases ops; auto simp: list_all_iff\<close>)+
  with assms(5-7) show ?thesis unfolding scope_ok_def by blast
qed

definition demo_scope :: scope where
  "demo_scope = new_scope (0, 24) 5 6 None [] 86400 [([97], 6)]"

definition demo_run :: scope where
  "demo_run = fold (scope_step (\<lambda>c. [c])) [Allocate [98] [] None 10 True, Allocate [97] [] None 11 False]
     demo_scope"

theorem leases_exclusive_witness:
  "\<exists>l l'. live_lease 20 [98] demo_run = Some l \<and> live_lease 20 [97] demo_run = Some l' \<and> l_ip l \<noteq> l_ip l'"
proof -
  have "live_lease 20 [98] demo_run \<noteq> None" "live_lease 20 [97] demo_run \<noteq> None" by code_simp+
  then obtain l l' where l: "live_lease 20 [98] demo_run = Some l" "live_lease 20 [97] demo_run = Some l'"
    by blast
  have "l_ip l \<noteq> l_ip l'"
    by (rule leases_exclusive [where s = demo_scope and t = 20 and u = "\<lambda>c. [c]" and m = "[98]" and m' = "[97]"
        and ops = "[Allocate [98] [] None 10 True, Allocate [97] [] None 11 False]"])
      (use l in \<open>simp_all add: demo_run_def demo_scope_def new_scope_def\<close>)
  with l show ?thesis by blast
qed


subsection \<open>Outstanding offers\<close>

text \<open>The clients without a reservation that hold an offer.\<close>

definition offered_to :: "rat \<Rightarrow> scope \<Rightarrow> ustr set" where
  "offered_to t s =
     {m. od_get m (reservations s) = None \<and> (\<exists>l. live_lease t m s = Some l \<and> l_offered l)}"

lemma finite_offered [simp]: "finite (offered_to t s)"
proof (rule finite_subset)
  show "offered_to t s \<subseteq> set (od_keys (leases s))"
  proof
    fix m assume "m \<in> offered_to t s"
    then have "od_get m (leases s) \<noteq> None"
      by (auto simp: offered_to_def live_lease_def split: option.splits)
    then show "m \<in> set (od_keys (leases s))" by (simp add: od_get_None)
  qed
qed simp

lemma offered_le_offers:
  assumes "distinct (od_keys (leases s))"
  shows "card (offered_to t s) \<le> offers t s"
proof -
  let ?f = "filter (\<lambda>(_, l). l_offered l \<and> l_expire l > t) (leases s)"
  have "offered_to t s \<subseteq> fst ` set ?f"
  proof
    fix m assume "m \<in> offered_to t s"
    then obtain l where l: "live_lease t m s = Some l" "l_offered l" by (auto simp: offered_to_def)
    then have g: "od_get m (leases s) = Some l" "l_expire l > t"
      by (simp_all add: live_lease_iff)
    from g(1) have "(m, l) \<in> set (leases s)" unfolding od_get_def by (rule map_of_SomeD)
    with g l(2) have "(m, l) \<in> set ?f" by simp
    then show "m \<in> fst ` set ?f" by force
  qed
  then have "card (offered_to t s) \<le> card (fst ` set ?f)" by (intro card_mono) simp_all
  also have "\<dots> \<le> length ?f" by (rule le_trans [OF card_image_le [OF finite_set] card_length])
  finally show ?thesis by (simp add: offers_def)
qed

lemma offered_later: "t \<le> t' \<Longrightarrow> offered_to t' s \<subseteq> offered_to t s"
  unfolding offered_to_def using live_later by blast

lemma offered_reap:
  assumes "distinct (od_keys (leases s))"
  shows "offered_to t (reap t s) = offered_to t s"
  using reap_live [OF assms, of t t] by (simp add: offered_to_def)

lemma offered_grant:
  "offered_to t (fst (grant m ip h now off s)) \<subseteq>
     (if off \<and> od_get m (reservations s) = None then insert m (offered_to t s) else offered_to t s)"
  by (auto simp: offered_to_def grant_live split: if_splits)

definition offers_ok :: "rat \<Rightarrow> scope \<Rightarrow> bool" where
  "offers_ok t s \<longleftrightarrow> distinct (od_keys (leases s)) \<and> int (card (offered_to t s)) \<le> offer_cap s"

lemma grant_distinct:
  "distinct (od_keys (leases s)) \<Longrightarrow> distinct (od_keys (leases (fst (grant m ip h now off s))))"
  unfolding grant_def Let_def fst_conv by (simp add: distinct_od(1))

lemma grant_offers:
  assumes "offers_ok t s" and "\<not> off \<or> od_get m (reservations s) \<noteq> None"
  shows "offers_ok t (fst (grant m ip h now off s))"
proof -
  have "offered_to t (fst (grant m ip h now off s)) \<subseteq> offered_to t s"
    using offered_grant [of t m ip h now off s] assms(2) by auto
  then have "card (offered_to t (fst (grant m ip h now off s))) \<le> card (offered_to t s)"
    by (rule card_mono [OF finite_offered])
  then show ?thesis using assms(1) by (simp add: offers_ok_def grant_distinct)
qed

lemma allocate_offers:
  assumes ok: "offers_ok now s"
  shows "offers_ok now (fst (allocate u mac h r now off s))"
proof -
  let ?s = "reap now s" and ?m = "str_lower u mac"
  have rk: "offers_ok now ?s" using ok by (simp add: offers_ok_def reap_distinct offered_reap)
  obtain s' res where a: "allocate u mac h r now off s = (s', res)" by fastforce
  from a have "offers_ok now s'"
  proof (cases rule: allocate_cases)
    case (reserved ip)
    with grant_offers [OF rk, of off ?m ip h now] show ?thesis by (simp add: granted_def)
  next
    case (renewed l)
    with grant_offers [OF rk, of off ?m "l_ip l" h now] show ?thesis by (simp add: granted_def)
  next
    case (fresh ip)
    show ?thesis
    proof (cases off)
      case False
      with fresh grant_offers [OF rk, of off ?m ip h now] show ?thesis by (simp add: granted_def)
    next
      case True
      let ?g = "fst (grant ?m ip h now off ?s)"
      have "card (offered_to now ?g) \<le> card (insert ?m (offered_to now ?s))"
        using offered_grant [of now ?m ip h now off ?s] by (intro card_mono) (auto split: if_splits)
      also have "\<dots> \<le> Suc (card (offered_to now ?s))" by (rule card_insert_le_m1) simp_all
      finally have "int (card (offered_to now ?g)) \<le> int (offers now ?s) + 1"
        using offered_le_offers [of ?s now] rk by (simp add: offers_ok_def)
      with fresh(3) [OF True] have "int (card (offered_to now ?g)) \<le> offer_cap ?g" by simp
      with rk fresh(5) show ?thesis by (auto simp: offers_ok_def grant_distinct granted_def)
    qed
  qed (use rk in simp_all)
  with a show ?thesis by simp
qed

lemma release_offers:
  assumes "offers_ok t s"
  shows "offers_ok t (fst (release u mac c s))"
proof -
  have "offered_to t (s\<lparr>leases := od_pop k (leases s)\<rparr>) \<subseteq> offered_to t s" for k
    by (auto simp: offered_to_def live_lease_def od_simps split: if_splits)
  then have "card (offered_to t (s\<lparr>leases := od_pop k (leases s)\<rparr>)) \<le> card (offered_to t s)" for k
    by (rule card_mono [OF finite_offered])
  then have "int (card (offered_to t (s\<lparr>leases := od_pop k (leases s)\<rparr>))) \<le> offer_cap s" for k
    using assms unfolding offers_ok_def by (meson of_nat_mono order_trans)
  moreover have "offer_cap (s\<lparr>leases := x\<rparr>) = offer_cap s" for x by (simp add: offer_cap_def)
  moreover have "distinct (od_keys (od_pop k (leases s)))" for k
    using assms by (auto simp: offers_ok_def)
  ultimately show ?thesis
    using assms by (auto simp: release_def Let_def offers_ok_def split: option.split)
qed

lemma run_offers:
  assumes "offers_ok t s" and "sorted (t # map op_time ops)" and "\<forall>op \<in> set ops. op_time op \<le> t'" and "t \<le> t'"
  shows "offers_ok t' (fold (scope_step u) ops s) \<and> offer_cap (fold (scope_step u) ops s) = offer_cap s"
  using assms
proof (induction ops arbitrary: s t)
  have later: "offers_ok b s" if "offers_ok a s" "a \<le> b" for a b and s :: scope
  proof -
    have "card (offered_to b s) \<le> card (offered_to a s)"
      using offered_later [OF that(2)] by (rule card_mono [OF finite_offered])
    with that(1) show ?thesis by (simp add: offers_ok_def)
  qed
  {
    case Nil
    then show ?case using later by simp
  next
    case (Cons op ops)
    have ok: "offers_ok (op_time op) s" using later [OF Cons.prems(1)] Cons.prems(2) by simp
    have "offers_ok (op_time op) (scope_step u op s) \<and> offer_cap (scope_step u op s) = offer_cap s"
      using ok by (cases op) (simp_all add: allocate_offers release_offers)
    then show ?case
      using Cons.IH [of "op_time op" "scope_step u op s"] Cons.prems(2,3) by simp
  }
qed

text \<open>
  A flood of DISCOVERs cannot take the pool: over any run at times that do not go back, the
  clients without a reservation that hold an offer never exceed the offer share of the range (and
  at least 4).
\<close>

theorem offers_bounded:
  assumes "leases s = []" and "sorted (map op_time ops)" and "list_all (\<lambda>op. op_time op \<le> t) ops"
  shows "int (card (offered_to t (fold (scope_step u) ops s))) \<le> offer_cap s"
proof -
  let ?t = "if ops = [] then t else op_time (hd ops)"
  have "offered_to ?t s = {}" using assms(1) by (simp add: offered_to_def live_lease_def od_get_def)
  then have "offers_ok ?t s"
    using assms(1) by (simp add: offers_ok_def offer_cap_def od_keys_def)
  then have "offers_ok t (fold (scope_step u) ops s) \<and> offer_cap (fold (scope_step u) ops s) = offer_cap s"
    by (rule run_offers) (use assms in \<open>cases ops; auto simp: list_all_iff\<close>)+
  then show ?thesis by (simp add: offers_ok_def)
qed

theorem offers_bounded_witness:
  "int (card (offered_to 20 (fold (scope_step (\<lambda>c. [c]))
     [Allocate [98] [] None 10 True, Allocate [99] [] None 11 True] demo_scope))) \<le> offer_cap demo_scope"
  by (rule offers_bounded) (simp_all add: demo_scope_def new_scope_def)

subsection \<open>What a client is told\<close>

text \<open>An allocation fails only when there is nothing to give: every address of the range is taken.\<close>

lemma allocate_exhausted:
  assumes "allocate u mac h r now False s = (s', None)" and "in_range ip s"
  shows "ip \<in> set (in_use now s')"
proof -
  let ?s = "reap now s" and ?m = "str_lower u mac"
  have "\<not> is_live now (od_get ?m (leases ?s)) \<and> od_get ?m (reservations s) = None \<and> pick now r ?s = None \<and> s' = ?s"
    using assms(1) by (auto simp: allocate_def Let_def granted_def split: option.splits if_splits)
  then show ?thesis using pick_none [of now r ?s ip] assms(2) by simp
qed

text \<open>A live lease stays as it is, whatever DISCOVERs arrive.\<close>

lemma offer_keeps_leases:
  assumes "distinct (od_keys (leases s))" and l: "live_lease now m s = Some l"
  shows "live_lease now m (fst (allocate u mac h r now True s)) = Some l"
proof -
  obtain s' res where a: "allocate u mac h r now True s = (s', res)" by fastforce
  have live: "live_lease now m (reap now s) = Some l" using assms reap_live by simp
  from a have "live_lease now m s' = Some l"
  proof (cases rule: allocate_cases)
    case (reserved ip)
    then have "str_lower u mac \<noteq> m" using live by auto
    with reserved live show ?thesis by (auto simp: granted_def grant_live)
  next
    case (fresh ip)
    then have "str_lower u mac \<noteq> m" using live by auto
    with fresh live show ?thesis by (auto simp: granted_def grant_live)
  qed (use live in simp_all)
  with a show ?thesis by simp
qed

text \<open>
  Reservations are looked up under the lower-cased address but stored as the configuration spells
  them: one written with capital letters never applies, and still keeps its address from everyone.
\<close>

lemma capital_reservation_ignored:
  "map_option l_ip (snd (allocate (\<lambda>c. [c]) [65] [] None 10 False
     (new_scope (0, 24) 5 6 None [] 86400 [([65], 5)]))) = Some 6"
  by code_simp

end
