(* ===== verification/Dhcp_Packet.thy ===== *)
theory Dhcp_Packet
  imports Ordered_Dict Py_Text
begin

section \<open>The DHCP packet codec\<close>

text \<open>
  Models \<^verbatim>\<open>trench/dhcp/v4.py\<close>: the packet with its options in the order they are
  written, the parser with its two checks on option lengths, and the serialiser with the splitting
  of long options. Addresses are the 32-bit numbers behind the dotted quads. The round trip holds
  for every packet whose fields fit, and what the parser accepts is such a packet.
\<close>

subsection \<open>Packets\<close>

record packet =
  p_op :: int
  p_htype :: int
  p_hlen :: int
  p_hops :: int
  p_xid :: int
  p_secs :: int
  p_flags :: int
  p_ciaddr :: int
  p_yiaddr :: int
  p_siaddr :: int
  p_giaddr :: int
  p_chaddr :: bytes
  p_options :: "(int, bytes) odict"

definition MAGIC_COOKIE :: bytes where "MAGIC_COOKIE = [0x63, 0x82, 0x53, 0x63]"

definition p_mac :: "packet \<Rightarrow> ustr" where
  "p_mac p = join_with 58 (map hex2 (take (nat (p_hlen p)) (p_chaddr p)))"

definition p_msg_type :: "packet \<Rightarrow> int option" where
  "p_msg_type p = (case od_get 53 (p_options p) of Some (b # v) \<Rightarrow> Some (uint b) | _ \<Rightarrow> None)"

text \<open>An option of exactly four octets as an address.\<close>

definition quad_option :: "int \<Rightarrow> packet \<Rightarrow> int option" where
  "quad_option c p =
     (case od_get c (p_options p) of
        Some [a, b, c, d] \<Rightarrow> Some (unpack_I a b c d)
      | _ \<Rightarrow> None)"

definition requested_ip :: "packet \<Rightarrow> int option" where
  "requested_ip p = quad_option 50 p"

definition server_id :: "packet \<Rightarrow> int option" where
  "server_id p = quad_option 54 p"

definition p_hostname :: "packet \<Rightarrow> ustr" where
  "p_hostname p = (case od_get 12 (p_options p) of Some v \<Rightarrow> map unat v | None \<Rightarrow> [])"

definition requested_options :: "packet \<Rightarrow> int set" where
  "requested_options p = (case od_get 55 (p_options p) of Some v \<Rightarrow> uint ` set v | None \<Rightarrow> {})"

subsection \<open>Parsing\<close>

text \<open>The position in the data is the rest of it.\<close>

function parse_dhcp_options :: "bytes \<Rightarrow> (int, bytes) odict \<Rightarrow> (int, bytes) odict result" where
  "parse_dhcp_options data opts =
     (case data of
        [] \<Rightarrow> Inr opts
      | code # rest \<Rightarrow>
          if code = 255 then Inr opts
          else if code = 0 then parse_dhcp_options rest opts
          else (case rest of
             [] \<Rightarrow> Inl ValueError
           | n # v \<Rightarrow>
               if length v < unat n then Inl ValueError
               else let old = (case od_get (uint code) opts of Some x \<Rightarrow> x | None \<Rightarrow> [])
                    in parse_dhcp_options (drop (unat n) v)
                         (od_set (uint code) (old @ take (unat n) v) opts)))"
  by pat_completeness auto
termination by (relation "measure (\<lambda>(data, opts). length data)") auto

declare parse_dhcp_options.simps [simp del]

definition u32_at :: "nat \<Rightarrow> bytes \<Rightarrow> int" where
  "u32_at i d = unpack_I (d ! i) (d ! (i + 1)) (d ! (i + 2)) (d ! (i + 3))"

definition u16_at :: "nat \<Rightarrow> bytes \<Rightarrow> int" where
  "u16_at i d = unpack_H (d ! i) (d ! (i + 1))"

definition parse_dhcp :: "bytes \<Rightarrow> packet result" where
  "parse_dhcp data =
     (if length data < 240 then Inl ValueError
      else if take 4 (drop 236 data) \<noteq> MAGIC_COOKIE then Inl ValueError
      else rbind (parse_dhcp_options (drop 240 data) []) (\<lambda>options.
        Inr \<lparr>p_op = uint (data ! 0), p_htype = uint (data ! 1), p_hlen = uint (data ! 2),
             p_hops = uint (data ! 3), p_xid = u32_at 4 data, p_secs = u16_at 8 data,
             p_flags = u16_at 10 data, p_ciaddr = u32_at 12 data, p_yiaddr = u32_at 16 data,
             p_siaddr = u32_at 20 data, p_giaddr = u32_at 24 data,
             p_chaddr = take 16 (drop 28 data), p_options = options\<rparr>))"

subsection \<open>Serialising\<close>

definition fits :: "nat \<Rightarrow> int \<Rightarrow> bool" where
  "fits n v \<longleftrightarrow> 0 \<le> v \<and> v < 2 ^ n"

definition write_piece :: "int \<Rightarrow> bytes \<Rightarrow> bytes" where
  "write_piece code chunk = [word_of_int code, word_of_nat (length chunk)] @ chunk"

text \<open>RFC 3396: a long value becomes consecutive instances of its code.\<close>

definition write_option :: "int \<times> bytes \<Rightarrow> bytes result" where
  "write_option kv =
     (if fits 8 (fst kv)
      then Inr (concat (map (write_piece (fst kv)) (if snd kv = [] then [[]] else chunks 255 (snd kv))))
      else Inl ValueError)"

definition write_header :: "packet \<Rightarrow> bytes result" where
  "write_header p =
     (if list_all (fits 8) [p_op p, p_htype p, p_hlen p, p_hops p] \<and> fits 32 (p_xid p) \<and>
         fits 16 (p_secs p) \<and> fits 16 (p_flags p)
      then Inr (map word_of_int [p_op p, p_htype p, p_hlen p, p_hops p] @ pack_I (p_xid p) @
                pack_H (p_secs p) @ pack_H (p_flags p))
      else Inl StructError)"

definition dhcp_to_wire :: "packet \<Rightarrow> bytes result" where
  "dhcp_to_wire p =
     rbind (write_header p) (\<lambda>h.
     rbind (rfold (\<lambda>kv out. rbind (write_option kv) (\<lambda>b. Inr (out @ b))) (p_options p)
        (h @ concat (map pack_I [p_ciaddr p, p_yiaddr p, p_siaddr p, p_giaddr p]) @
         take 16 (p_chaddr p @ replicate 16 0) @ replicate 64 0 @ replicate 128 0 @ MAGIC_COOKIE))
        (\<lambda>out. let out = out @ [255]
               in Inr (if length out < 300 then out @ replicate (300 - length out) 0 else out)))"

definition opt_u32 :: "int \<Rightarrow> bytes result" where
  "opt_u32 v = (if fits 32 v then Inr (pack_I v) else Inl StructError)"

definition opt_ip :: "int \<Rightarrow> bytes" where
  "opt_ip ip = pack_I ip"

definition opt_ips :: "int list \<Rightarrow> bytes" where
  "opt_ips ips = concat (map pack_I ips)"

subsection \<open>Well-formed packets\<close>

definition option_ok :: "int \<times> bytes \<Rightarrow> bool" where
  "option_ok kv \<longleftrightarrow> 0 < fst kv \<and> fst kv < 255"

definition packet_ok :: "packet \<Rightarrow> bool" where
  "packet_ok p \<longleftrightarrow>
     list_all (fits 8) [p_op p, p_htype p, p_hlen p, p_hops p] \<and>
     list_all (fits 32) [p_xid p, p_ciaddr p, p_yiaddr p, p_siaddr p, p_giaddr p] \<and>
     list_all (fits 16) [p_secs p, p_flags p] \<and> length (p_chaddr p) = 16 \<and>
     distinct (od_keys (p_options p)) \<and> list_all option_ok (p_options p)"

subsection \<open>Options survive the wire\<close>

lemma od_set_new: "od_get k d = None \<Longrightarrow> od_set k v d = d @ [(k, v)]"
  by (induction d) (auto simp: od_get_def split: if_splits)

lemma od_set_last: "od_get k d = None \<Longrightarrow> od_set k v (d @ [(k, w)]) = d @ [(k, v)]"
  by (induction d) (auto simp: od_get_def split: if_splits)

lemma parse_piece:
  assumes "option_ok (c, v)" and "length chunk \<le> 255"
  shows "parse_dhcp_options (write_piece c chunk @ rest) opts =
    parse_dhcp_options rest
      (od_set c ((case od_get c opts of Some x \<Rightarrow> x | None \<Rightarrow> []) @ chunk) opts)"
proof -
  have c: "uint (word_of_int c :: byte) = c"
    using assms(1) by (simp add: option_ok_def uint_byte_of_int)
  have "(word_of_int c :: byte) \<noteq> 255" "(word_of_int c :: byte) \<noteq> 0"
    using c assms(1) by (auto simp: option_ok_def)
  moreover have "unat (word_of_nat (length chunk) :: byte) = length chunk"
    using assms(2) by (simp add: unat_of_nat)
  ultimately show ?thesis
    by (subst parse_dhcp_options.simps) (simp add: write_piece_def c)
qed

lemma parse_pieces:
  assumes "option_ok (c, v)" and "od_get c opts = None"
    and "list_all (\<lambda>x. length x \<le> 255) xs"
  shows "parse_dhcp_options (concat (map (write_piece c) xs) @ rest) (opts @ [(c, w)]) =
    parse_dhcp_options rest (opts @ [(c, w @ concat xs)])"
  using assms(3)
proof (induction xs arbitrary: w)
  case (Cons x xs)
  have "od_get c (opts @ [(c, w)]) = Some w" using assms(2) by (simp add: od_get_append) (simp add: od_get_def)
  with Cons assms show ?case by (simp add: parse_piece [OF assms(1)] od_set_last)
qed simp

lemma chunks_le: "list_all (\<lambda>x. length x \<le> n) (chunks n xs)"
proof (induction n xs rule: chunks.induct)
  case (1 n xs)
  then show ?case by (subst chunks.simps) simp
qed

lemma parse_option:
  assumes k: "option_ok kv" and n: "od_get (fst kv) opts = None" and w: "write_option kv = Inr b"
  shows "parse_dhcp_options (b @ rest) opts = parse_dhcp_options rest (opts @ [kv])"
proof -
  obtain c v where kv: "kv = (c, v)" by (cases kv)
  have b: "b = concat (map (write_piece c) (if v = [] then [[]] else chunks 255 v))"
    using w by (simp add: kv write_option_def split: if_splits)
  obtain x xs where xs: "(if v = [] then [[]] else chunks 255 v) = x # xs"
    by (cases "v = []") (simp_all add: chunks.simps [of 255 v])
  have le: "list_all (\<lambda>x. length x \<le> 255) (x # xs)"
    using chunks_le [of 255 v] xs by (cases "v = []") auto
  have cc: "concat (x # xs) = v" using concat_chunks [of 255 v] xs by (cases "v = []") auto
  have "parse_dhcp_options (b @ rest) opts =
      parse_dhcp_options (concat (map (write_piece c) xs) @ rest) (opts @ [(c, x)])"
    unfolding b xs using k n le by (simp add: kv parse_piece od_set_new)
  also have "\<dots> = parse_dhcp_options rest (opts @ [(c, x @ concat xs)])"
    using k n le by (intro parse_pieces) (simp_all add: kv)
  finally show ?thesis using cc kv by simp
qed

lemma write_options_parse:
  assumes "list_all option_ok kvs" and "distinct (od_keys (opts @ kvs))"
  shows "\<exists>b. rfold (\<lambda>kv out. rbind (write_option kv) (\<lambda>b. Inr (out @ b))) kvs pre = Inr (pre @ b) \<and>
    (\<forall>rest. parse_dhcp_options (b @ rest) opts = parse_dhcp_options rest (opts @ kvs))"
  using assms
proof (induction kvs arbitrary: opts pre)
  case (Cons kv kvs)
  have k: "option_ok kv" using Cons.prems(1) by simp
  then obtain b1 where b1: "write_option kv = Inr b1" by (simp add: write_option_def option_ok_def fits_def)
  have "od_get (fst kv) opts = None" using Cons.prems(2) by (auto simp: od_get_None od_keys_def)
  note p = parse_option [OF k this b1]
  obtain b2 where "rfold (\<lambda>kv out. rbind (write_option kv) (\<lambda>b. Inr (out @ b))) kvs (pre @ b1) =
      Inr ((pre @ b1) @ b2)"
    and "\<forall>rest. parse_dhcp_options (b2 @ rest) (opts @ [kv]) = parse_dhcp_options rest ((opts @ [kv]) @ kvs)"
    using Cons.IH [of "opts @ [kv]" "pre @ b1"] Cons.prems by auto
  with b1 p show ?case by (intro exI [of _ "b1 @ b2"]) simp
qed simp


subsection \<open>Packets survive the wire\<close>

lemma layout:
  assumes "length x = 28" "length c = 16" "length z = 192" and d: "d = x @ c @ z @ MAGIC_COOKIE @ r"
  shows "\<not> length d < 240" "take 4 (drop 236 d) = MAGIC_COOKIE" "drop 240 d = r" "take 16 (drop 28 d) = c"
    "\<forall>i < 28. d ! i = x ! i"
  using assms by (simp_all add: MAGIC_COOKIE_def nth_append)

lemma word_fits [simp]: "fits 8 v \<Longrightarrow> uint (word_of_int v :: byte) = v"
  by (simp add: fits_def uint_byte_of_int)

lemma fits_unpack: "fits 16 v \<Longrightarrow> unpack_H (word_of_int (drop_bit 8 v)) (word_of_int v) = v"
  "fits 32 v \<Longrightarrow> unpack_I (word_of_int (drop_bit 24 v)) (word_of_int (drop_bit 16 v))
     (word_of_int (drop_bit 8 v)) (word_of_int v) = v"
  by (simp_all add: fits_def unpack_pack_H unpack_pack_I)

lemma dhcp_roundtrip_sound:
  assumes ok: "packet_ok p"
  shows "\<exists>w. dhcp_to_wire p = Inr w \<and> parse_dhcp w = Inr p"
proof -
  define h where "h = map word_of_int [p_op p, p_htype p, p_hlen p, p_hops p] @ pack_I (p_xid p) @
    pack_H (p_secs p) @ pack_H (p_flags p)"
  define x where "x = h @ concat (map pack_I [p_ciaddr p, p_yiaddr p, p_siaddr p, p_giaddr p])"
  define z where "z = replicate 64 (0 :: byte) @ replicate 128 0"
  have hd: "write_header p = Inr h" using ok by (simp add: write_header_def packet_ok_def h_def)
  have lens: "length x = 28" "length (p_chaddr p) = 16" "length z = 192"
    using ok by (simp_all add: x_def h_def z_def packet_ok_def)
  obtain b where w: "rfold (\<lambda>kv out. rbind (write_option kv) (\<lambda>b. Inr (out @ b))) (p_options p)
      (x @ p_chaddr p @ z @ MAGIC_COOKIE) = Inr ((x @ p_chaddr p @ z @ MAGIC_COOKIE) @ b)"
    and b: "\<forall>rest. parse_dhcp_options (b @ rest) [] = parse_dhcp_options rest (p_options p)"
    using write_options_parse [of "p_options p" "[]" "x @ p_chaddr p @ z @ MAGIC_COOKIE"] ok
    by (auto simp: packet_ok_def)
  have ch: "take 16 (p_chaddr p @ replicate 16 0) = p_chaddr p" using lens(2) by simp
  define pad where "pad = replicate (300 - length (((x @ p_chaddr p @ z @ MAGIC_COOKIE) @ b) @ [255])) (0 :: byte)"
  have lay: "h @ concat (map pack_I [p_ciaddr p, p_yiaddr p, p_siaddr p, p_giaddr p]) @ p_chaddr p @
      replicate 64 0 @ replicate 128 0 @ MAGIC_COOKIE = x @ p_chaddr p @ z @ MAGIC_COOKIE"
    by (simp add: x_def z_def)
  have padded: "(if length out < 300 then out @ replicate (300 - length out) 0 else out) =
      out @ replicate (300 - length out) 0" for out :: bytes
    by simp
  have e: "dhcp_to_wire p = Inr (x @ p_chaddr p @ z @ MAGIC_COOKIE @ b @ 255 # pad)"
    unfolding dhcp_to_wire_def hd rbind_Inr ch lay w Let_def padded by (simp add: pad_def)
  let ?d = "x @ p_chaddr p @ z @ MAGIC_COOKIE @ b @ 255 # pad"
  note l = layout [OF lens refl [of ?d]]
  have n: "?d ! i = x ! i" if "i < 28" for i using l(5) that by blast
  have o: "parse_dhcp_options (b @ 255 # pad) [] = Inr (p_options p)"
    using b by (simp add: parse_dhcp_options.simps [of "255 # pad"])
  have "parse_dhcp ?d = Inr p"
    using ok unfolding parse_dhcp_def l(2,3,4) if_not_P [OF l(1)] o
    by (simp add: u32_at_def u16_at_def n del: append.simps append_assoc)
      (simp add: x_def h_def pack_I_def pack_H_def packet_ok_def fits_unpack)
  with e show ?thesis by blast
qed

text \<open>
  C39: a DHCP packet whose fields fit and whose option codes are neither padding nor the end marker
  reads back unchanged from what is sent for it, options longer than 255 octets included.
\<close>

theorem dhcp_roundtrip:
  assumes "packet_ok p"
  shows "\<exists>w. dhcp_to_wire p = Inr w \<and> parse_dhcp w = Inr p"
  using assms by (rule dhcp_roundtrip_sound)

definition demo_packet :: packet where
  "demo_packet = \<lparr>p_op = 1, p_htype = 1, p_hlen = 6, p_hops = 0, p_xid = 7, p_secs = 0, p_flags = 0,
     p_ciaddr = 0, p_yiaddr = 0, p_siaddr = 0, p_giaddr = 0, p_chaddr = replicate 16 1,
     p_options = [(53, [1]), (162, replicate 600 3)]\<rparr>"

theorem dhcp_roundtrip_witness:
  "packet_ok demo_packet \<and> (\<exists>w. dhcp_to_wire demo_packet = Inr w \<and> parse_dhcp w = Inr demo_packet)"
proof -
  have "packet_ok demo_packet" by (simp add: packet_ok_def demo_packet_def fits_def od_keys_def option_ok_def)
  with dhcp_roundtrip show ?thesis by blast
qed

subsection \<open>What the parser accepts\<close>

lemma fits_bytes [simp]: "fits 8 (uint (b :: byte))" "fits 16 (unpack_H a b)" "fits 32 (unpack_I a b c d)"
  using uint_byte_range [of b] unpack_H_range [of a b] unpack_I_range [of a b c d]
  by (simp_all add: fits_def)

lemma parse_options_exact:
  assumes "distinct (od_keys opts)" "list_all option_ok opts"
  shows "case parse_dhcp_options data opts of
      Inl e \<Rightarrow> e = ValueError
    | Inr opts' \<Rightarrow> distinct (od_keys opts') \<and> list_all option_ok opts'"
  using assms
proof (induction data opts rule: parse_dhcp_options.induct)
  case (1 data opts)
  have set_ok: "list_all option_ok (od_set (uint c) v opts)"
    if "list_all option_ok opts" "c \<noteq> 255" "c \<noteq> 0" for c :: byte and v opts
  proof -
    have "uint c \<noteq> 255" "uint c \<noteq> 0" using that by (auto simp: word_uint_eq_iff)
    then have "0 < uint c \<and> uint c < 255" using uint_byte_range [of c] by linarith
    then have "option_ok (uint c, v)" by (simp add: option_ok_def)
    with that(1) show ?thesis by (induction opts) (auto simp: option_ok_def)
  qed
  show ?case
  proof (cases data)
    case Nil
    with 1 show ?thesis by (subst parse_dhcp_options.simps) simp
  next
    case d: (Cons c rest)
    consider "c = 255" | "c = 0" | "c \<noteq> 255" "c \<noteq> 0" by blast
    then show ?thesis
    proof cases
      case 1
      with d "1.prems" show ?thesis by (subst parse_dhcp_options.simps) simp
    next
      case 2
      with d "1.IH"(1) [OF d] "1.prems" show ?thesis by (subst parse_dhcp_options.simps) simp
    next
      case 3
      show ?thesis
      proof (cases rest)
        case Nil
        with d 3 show ?thesis by (subst parse_dhcp_options.simps) simp
      next
        case r: (Cons n v)
        show ?thesis
        proof (cases "length v < unat n")
          case True
          with d r 3 show ?thesis by (subst parse_dhcp_options.simps) simp
        next
          case False
          from "1.IH"(2) [OF d 3 r False refl distinct_od(1) [OF "1.prems"(1)] set_ok [OF "1.prems"(2) 3]]
          show ?thesis using d r 3 False by (subst parse_dhcp_options.simps) (simp add: Let_def)
        qed
      qed
    qed
  qed
qed

lemma parse_dhcp_ok: "parse_dhcp data = Inr p \<Longrightarrow> packet_ok p"
  using parse_options_exact [of "[]" "drop 240 data"]
  by (auto simp: parse_dhcp_def rbind_eq_Inr packet_ok_def u32_at_def u16_at_def od_keys_def min_def
      split: if_splits sum.splits)

lemma parse_dhcp_error: "parse_dhcp data = Inl e \<Longrightarrow> e = ValueError"
  using parse_options_exact [of "[]" "drop 240 data"]
  by (auto simp: parse_dhcp_def rbind_eq_Inl od_keys_def split: if_splits sum.splits)

text \<open>
  On any octets the parser raises only the \<^verbatim>\<open>ValueError\<close> it documents, and what it
  accepts can be sent again and then reads back the same.
\<close>

theorem parse_dhcp_safe:
  "case parse_dhcp data of
     Inl e \<Rightarrow> e = ValueError
   | Inr p \<Rightarrow> \<exists>w. dhcp_to_wire p = Inr w \<and> parse_dhcp w = Inr p"
  using parse_dhcp_error [of data] parse_dhcp_ok [of data] dhcp_roundtrip_sound
  by (auto split: sum.split)

text \<open>The address text distinguishes hardware addresses of the same length.\<close>

lemma hex2_inj: "hex2 a = hex2 b \<Longrightarrow> a = b"
proof -
  assume h: "hex2 a = hex2 b"
  have inj: "hex_digit m = hex_digit n \<Longrightarrow> m < 16 \<Longrightarrow> n < 16 \<Longrightarrow> m = n" for m n
    by (auto simp: hex_digit_def split: if_splits)
  have "unat x < 2 ^ LENGTH(8)" for x :: byte by (rule unsigned_less)
  then have "unat x div 16 < 16" for x :: byte by (simp add: less_mult_imp_div_less)
  then have r: "unat a div 16 < 16" "unat b div 16 < 16" by blast+
  with h inj have "unat a div 16 = unat b div 16" "unat a mod 16 = unat b mod 16"
    by (auto simp: hex2_def)
  then have "unat a = unat b" by (metis div_mult_mod_eq)
  then show "a = b" by (simp add: word_unat_eq_iff)
qed

end
