(* ===== verification/Dhcp_Server.thy ===== *)
theory Dhcp_Server
  imports Dhcp_Scope Dhcp_Packet
begin

section \<open>The DHCP server\<close>

text \<open>
  Models \<^verbatim>\<open>build_reply\<close> and its helpers and \<^verbatim>\<open>_Proto.datagram_received\<close> of
  \<^verbatim>\<open>trench/dhcp/server.py\<close>, over the pool of \<^theory_text>\<open>Dhcp_Scope\<close> and the codec of
  \<^theory_text>\<open>Dhcp_Packet\<close>. The callbacks into local DNS are the events they are called with;
  their exceptions are swallowed by the code. An exception of the handler is the \<^const>\<open>Inl\<close> of
  its reply, and the state it left behind is the state returned.
\<close>

subsection \<open>Building a reply\<close>

datatype dns_event = Register nat ustr | Forget nat

definition subnet_mask :: "nat \<times> nat \<Rightarrow> int" where
  "subnet_mask net = 2 ^ 32 - 2 ^ (32 - snd net)"

text \<open>\<^verbatim>\<open>_reply\<close>: the options of the lease, in the order they are written, and the packet.\<close>

definition reply_options :: "packet \<Rightarrow> scope \<Rightarrow> int \<Rightarrow> int \<Rightarrow> bytes \<Rightarrow> bytes \<Rightarrow> bytes \<Rightarrow> bytes \<Rightarrow> (int, bytes) odict" where
  "reply_options req s server_ip mtype lt t1 t2 dnr =
     (let opts = [(53, [word_of_int mtype]), (54, opt_ip server_ip), (51, lt), (58, t1), (59, t2),
                  (1, opt_ip (subnet_mask (network s)))];
          opts = (case router s of Some r \<Rightarrow> opts @ [(3, opt_ip (int r))] | None \<Rightarrow> opts);
          opts = (if dns s \<noteq> [] then opts @ [(6, opt_ips (map int (dns s)))] else opts)
      in if dnr \<noteq> [] \<and> 162 \<in> requested_options req then opts @ [(162, dnr)] else opts)"

definition dhcp_reply :: "packet \<Rightarrow> scope \<Rightarrow> int \<Rightarrow> nat \<Rightarrow> int \<Rightarrow> bytes \<Rightarrow> packet result" where
  "dhcp_reply req s server_ip yiaddr mtype dnr =
     rbind (opt_u32 (lease_time s)) (\<lambda>lt.
     rbind (opt_u32 (lease_time s div 2)) (\<lambda>t1.
     rbind (opt_u32 (lease_time s * 7 div 8)) (\<lambda>t2.
       Inr \<lparr>p_op = 2, p_htype = p_htype req, p_hlen = p_hlen req, p_hops = 0, p_xid = p_xid req,
            p_secs = 0, p_flags = p_flags req, p_ciaddr = 0, p_yiaddr = int yiaddr,
            p_siaddr = server_ip, p_giaddr = p_giaddr req, p_chaddr = p_chaddr req,
            p_options = reply_options req s server_ip mtype lt t1 t2 dnr\<rparr>)))"

definition nak :: "packet \<Rightarrow> int \<Rightarrow> packet" where
  "nak req server_ip =
     \<lparr>p_op = 2, p_htype = p_htype req, p_hlen = p_hlen req, p_hops = 0, p_xid = p_xid req, p_secs = 0,
      p_flags = p_flags req, p_ciaddr = 0, p_yiaddr = 0, p_siaddr = 0, p_giaddr = 0,
      p_chaddr = p_chaddr req, p_options = [(53, [6]), (54, opt_ip server_ip)]\<rparr>"

definition forget :: "nat option \<Rightarrow> bool \<Rightarrow> dns_event list" where
  "forget ip has_forget = (case ip of Some a \<Rightarrow> if has_forget then [Forget a] else [] | None \<Rightarrow> [])"

record server =
  sv_scope :: scope
  sv_ip :: int
  sv_register :: bool
  sv_forget :: bool
  sv_dnr :: bytes

type_synonym outcome = "scope \<times> dns_event list \<times> packet option result"

definition on_discover :: "(nat \<Rightarrow> ustr) \<Rightarrow> rat \<Rightarrow> packet \<Rightarrow> server \<Rightarrow> outcome" where
  "on_discover u now req sv =
     (let (s, l) = allocate u (p_mac req) (p_hostname req) None now True (sv_scope sv)
      in case l of
           None \<Rightarrow> (s, [], Inr None)
         | Some l \<Rightarrow>
             (s, [], rbind (dhcp_reply req s (sv_ip sv) (l_ip l) 2 (sv_dnr sv)) (\<lambda>p. Inr (Some p))))"

definition on_request :: "(nat \<Rightarrow> ustr) \<Rightarrow> rat \<Rightarrow> packet \<Rightarrow> server \<Rightarrow> outcome" where
  "on_request u now req sv =
     (let chosen = server_id req
      in if chosen \<noteq> None \<and> chosen \<noteq> Some (sv_ip sv) then (sv_scope sv, [], Inr None)
         else
           let r = map_option nat (requested_ip req);
               (s, l) = allocate u (p_mac req) (p_hostname req) r now False (sv_scope sv)
           in case l of
                None \<Rightarrow> (s, [], Inr (Some (nak req (sv_ip sv))))
              | Some l \<Rightarrow>
                  if r \<noteq> None \<and> r \<noteq> Some (l_ip l) then (s, [], Inr (Some (nak req (sv_ip sv))))
                  else (s, if sv_register sv \<and> l_hostname l \<noteq> [] then [Register (l_ip l) (l_hostname l)] else [],
                        rbind (dhcp_reply req s (sv_ip sv) (l_ip l) 5 (sv_dnr sv)) (\<lambda>p. Inr (Some p))))"

definition build_reply :: "(nat \<Rightarrow> ustr) \<Rightarrow> rat \<Rightarrow> packet \<Rightarrow> server \<Rightarrow> outcome" where
  "build_reply u now req sv =
     (let mt = p_msg_type req
      in if mt = Some 1 then on_discover u now req sv
         else if mt = Some 3 then on_request u now req sv
         else if mt = Some 7
         then let (s, ip) = release u (p_mac req) (Some (nat (p_ciaddr req))) (sv_scope sv)
              in (s, forget ip (sv_forget sv), Inr None)
         else if mt = Some 4
         then (case requested_ip req of
                 Some d \<Rightarrow>
                   let (s, ip) = release u (p_mac req) (Some (nat d)) (sv_scope sv)
                   in (s, forget ip (sv_forget sv), Inr None)
               | None \<Rightarrow> (sv_scope sv, [], Inr None))
         else (sv_scope sv, [], Inr None))"

definition datagram_received :: "(nat \<Rightarrow> ustr) \<Rightarrow> rat \<Rightarrow> bytes \<Rightarrow> server \<Rightarrow>
    scope \<times> dns_event list \<times> bytes option result" where
  "datagram_received u now data sv =
     (case parse_dhcp data of
        Inl e \<Rightarrow> (sv_scope sv, [], Inr None)
      | Inr req \<Rightarrow>
          if p_op req \<noteq> 1 then (sv_scope sv, [], Inr None)
          else let (s, ev, r) = build_reply u now req sv
               in (s, ev, rbind r (\<lambda>rep. case rep of
                      None \<Rightarrow> Inr None
                    | Some p \<Rightarrow> rbind (dhcp_to_wire p) (\<lambda>w. Inr (Some w)))))"

subsection \<open>One client cannot touch another's lease\<close>

lemma lower_mac [simp]: "str_lower u (p_mac p) = p_mac p"
proof -
  have "hex_digit n < 128 \<and> \<not> (65 \<le> hex_digit n \<and> hex_digit n \<le> 90)" if "n < 16" for n
    using that by (auto simp: hex_digit_def)
  moreover have "unat b < 2 ^ LENGTH(8)" for b :: byte by (rule unsigned_less)
  then have "unat b div 16 < 16" for b :: byte by (simp add: less_mult_imp_div_less)
  ultimately have "str_lower u (hex2 b) = hex2 b" for b :: byte by (simp add: hex2_def str_lower_def)
  moreover have "str_lower u (s @ 58 # t) = str_lower u s @ 58 # str_lower u t" for s t
    by (simp add: str_lower_def)
  ultimately have "str_lower u (join_with 58 (map hex2 bs)) = join_with 58 (map hex2 bs)" for bs
    by (induction bs rule: induct_list012) (simp_all, simp add: str_lower_def)
  then show ?thesis by (simp add: p_mac_def)
qed

lemma allocate_others:
  assumes d: "distinct (od_keys (leases s))" and m: "m \<noteq> str_lower u mac"
  shows "live_lease now m (fst (allocate u mac h r now off s)) = live_lease now m s"
proof -
  obtain s' res where a: "allocate u mac h r now off s = (s', res)" by fastforce
  have "live_lease now m s' = live_lease now m (reap now s)"
    using a by (cases rule: allocate_cases) (auto simp: granted_def grant_live m)
  with a d show ?thesis by (simp add: reap_live)
qed

lemma release_others:
  "m \<noteq> str_lower u mac \<Longrightarrow> live_lease t m (fst (release u mac c s)) = live_lease t m s"
  by (auto simp: release_def Let_def live_lease_def od_simps split: option.split)

lemma build_reply_others:
  assumes "distinct (od_keys (leases (sv_scope sv)))" and "m \<noteq> p_mac req"
  shows "live_lease now m (fst (build_reply u now req sv)) = live_lease now m (sv_scope sv)"
proof -
  have a: "live_lease now m (fst (allocate u (p_mac req) h r now off (sv_scope sv))) = live_lease now m (sv_scope sv)"
    for h r off using allocate_others assms by simp
  have b: "live_lease now m (fst (release u (p_mac req) c (sv_scope sv))) = live_lease now m (sv_scope sv)"
    for c using release_others assms(2) by simp
  have "fst (on_discover u now req sv) = fst (allocate u (p_mac req) (p_hostname req) None now True (sv_scope sv))"
    by (simp add: on_discover_def split: prod.split option.split)
  moreover have "fst (on_request u now req sv) = sv_scope sv \<or> fst (on_request u now req sv) =
      fst (allocate u (p_mac req) (p_hostname req) (map_option nat (requested_ip req)) now False (sv_scope sv))"
    by (simp add: on_request_def Let_def split: prod.split option.split)
  ultimately show ?thesis
    using a b by (auto simp: build_reply_def Let_def split: prod.split option.split) (metis fst_conv)+
qed

text \<open>
  Whatever datagram arrives, only the lease of the hardware address it carries can change: the
  live lease or offer of every other client is what it was.
\<close>

theorem datagram_isolation:
  assumes "distinct (od_keys (leases (sv_scope sv)))" and "parse_dhcp data = Inr req" and "m \<noteq> p_mac req"
  shows "live_lease now m (fst (datagram_received u now data sv)) = live_lease now m (sv_scope sv)"
  using build_reply_others [OF assms(1,3), of now u] assms(2)
  by (cases "build_reply u now req sv") (simp add: datagram_received_def)


text \<open>A release that names the wrong address, from anyone: the neighbour's lease stays.\<close>

definition demo_server :: server where
  "demo_server = \<lparr>sv_scope = demo_run, sv_ip = 1, sv_register = True, sv_forget = True, sv_dnr = []\<rparr>"

definition demo_release :: packet where
  "demo_release = demo_packet\<lparr>p_options := [(53, [7])]\<rparr>"

theorem datagram_isolation_witness:
  "\<exists>w. parse_dhcp w = Inr demo_release \<and>
     live_lease 20 [98] (fst (datagram_received (\<lambda>c. [c]) 20 w demo_server)) = live_lease 20 [98] demo_run"
proof -
  have "packet_ok demo_release"
    by (simp add: packet_ok_def demo_release_def demo_packet_def fits_def od_keys_def option_ok_def)
  then obtain w where w: "parse_dhcp w = Inr demo_release" using dhcp_roundtrip_sound by blast
  have "scope_ok 20 demo_run"
    unfolding demo_run_def by (rule run_ok [where t = 0])
      (simp_all add: demo_scope_def new_scope_def scope_ok_def live_lease_def od_get_def od_keys_def)
  then have d: "distinct (od_keys (leases (sv_scope demo_server)))"
    by (simp add: scope_ok_def demo_server_def)
  have "[98] \<noteq> p_mac demo_release"
    by code_simp
  from datagram_isolation [OF d w this, of 20 "\<lambda>c. [c]"] w show ?thesis
    by (auto simp: demo_server_def)
qed

subsection \<open>What the server acknowledges\<close>

definition addrs_ok :: "scope \<Rightarrow> bool" where
  "addrs_ok s \<longleftrightarrow> range_end s < 2 ^ 32 \<and> list_all (\<lambda>(_, a). a < 2 ^ 32) (reservations s) \<and>
     list_all (\<lambda>(_, l). l_ip l < 2 ^ 32) (leases s)"

lemma list_all_od_get: "list_all (\<lambda>(_, v). P v) d \<Longrightarrow> od_get k d = Some v \<Longrightarrow> P v"
  by (auto simp: list_all_iff od_get_def dest: map_of_SomeD)

lemma grant_stored:
  "od_get m (leases (fst (grant m ip h now off s))) = Some (snd (grant m ip h now off s)) \<and>
   l_expire (snd (grant m ip h now False s)) = now + of_int (lease_time s)"
  by (simp add: grant_def Let_def od_simps)

lemma allocate_lease:
  assumes a: "allocate u mac h r now off s = (s', Some l)" and ok: "addrs_ok s"
  shows "od_get (str_lower u mac) (leases s') = Some l \<and> l_ip l < 2 ^ 32 \<and>
    (\<not> off \<longrightarrow> \<not> l_offered l \<and> l_expire l = now + of_int (lease_time s))"
proof -
  let ?s = "reap now s" and ?m = "str_lower u mac"
  have leases: "l_ip l' < 2 ^ 32" if "live_lease now m' ?s = Some l'" for m' l'
  proof -
    have "list_all (\<lambda>(_, l). l_ip l < 2 ^ 32) (leases ?s)"
      using ok by (auto simp: addrs_ok_def reap_def list_all_iff)
    moreover have "od_get m' (leases ?s) = Some l'" using that by (simp add: live_lease_iff)
    ultimately show ?thesis by (rule list_all_od_get)
  qed
  have g: ?thesis if "granted (grant ?m ip h now off ?s) = (s', Some l)" "ip < 2 ^ 32" for ip
    using that grant_stored [of ?m ip h now off ?s] grant_stored [of ?m ip h now False ?s]
      grant_lease [of ?m ip h now off ?s]
    by (auto simp: granted_def)
  from a show ?thesis
  proof (cases rule: allocate_cases)
    case (repeated l')
    with leases [OF repeated(4)] show ?thesis by (simp add: live_lease_iff)
  next
    case (reserved ip)
    have "ip < 2 ^ 32" using ok reserved(1) list_all_od_get unfolding addrs_ok_def by metis
    with g reserved(2) show ?thesis by blast
  next
    case (renewed l')
    with g leases show ?thesis by blast
  next
    case (fresh ip)
    have "in_range ip s" using pick_free [OF fresh(4)] by simp
    then have "ip < 2 ^ 32" using ok by (auto simp: in_range_def addrs_ok_def)
    with g fresh(5) show ?thesis by blast
  qed simp
qed

lemma reply_options_ok:
  "distinct (od_keys (reply_options req s ip t lt t1 t2 dnr)) \<and>
   list_all option_ok (reply_options req s ip t lt t1 t2 dnr) \<and>
   od_get 53 (reply_options req s ip t lt t1 t2 dnr) = Some [word_of_int t]"
  by (cases "router s") (simp_all add: reply_options_def Let_def od_keys_def option_ok_def od_get_def)

lemma dhcp_reply_ok:
  assumes r: "dhcp_reply req s ip y t dnr = Inr p" and q: "packet_ok req" and ip: "fits 32 ip" "y < 2 ^ 32"
    and t: "0 < t" "t < 256"
  shows "packet_ok p \<and> p_op p = 2 \<and> p_xid p = p_xid req \<and> p_chaddr p = p_chaddr req \<and>
    p_yiaddr p = int y \<and> p_msg_type p = Some t"
proof -
  have y: "fits 32 (int y)" using ip(2) by (simp add: fits_def)
  have f: "fits 8 2" "fits 8 0" "fits 16 0" "fits 32 0" by (simp_all add: fits_def)
  obtain lt t1 t2 where p: "p_options p = reply_options req s ip t lt t1 t2 dnr"
    using r by (auto simp: dhcp_reply_def rbind_eq_Inr)
  note o = reply_options_ok [of req s ip t lt t1 t2 dnr, folded p]
  have "p_msg_type p = Some t"
    using o t by (simp add: p_msg_type_def uint_byte_of_int)
  moreover have "p_op p = 2 \<and> p_htype p = p_htype req \<and> p_hlen p = p_hlen req \<and> p_hops p = 0 \<and>
      p_xid p = p_xid req \<and> p_secs p = 0 \<and> p_flags p = p_flags req \<and> p_ciaddr p = 0 \<and>
      p_yiaddr p = int y \<and> p_siaddr p = ip \<and> p_giaddr p = p_giaddr req \<and> p_chaddr p = p_chaddr req"
    using r unfolding dhcp_reply_def rbind_eq_Inr by auto
  ultimately show ?thesis using q o y f ip(1) by (simp add: packet_ok_def)
qed

lemma nak_ok:
  "packet_ok req \<Longrightarrow> fits 32 ip \<Longrightarrow>
     packet_ok (nak req ip) \<and> p_op (nak req ip) = 2 \<and> p_xid (nak req ip) = p_xid req \<and>
     p_chaddr (nak req ip) = p_chaddr req \<and> p_msg_type (nak req ip) = Some 6"
  by (simp add: packet_ok_def nak_def fits_def od_keys_def option_ok_def p_msg_type_def od_get_def)

text \<open>What a reply to \<open>req\<close> may say, given the lease table after it.\<close>

definition answers_for :: "rat \<Rightarrow> packet \<Rightarrow> scope \<Rightarrow> packet \<Rightarrow> bool" where
  "answers_for now req s rep \<longleftrightarrow>
     p_op rep = 2 \<and> p_xid rep = p_xid req \<and> p_chaddr rep = p_chaddr req \<and>
     (p_msg_type rep = Some 6 \<and> p_msg_type req = Some 3 \<or>
      (\<exists>l. od_get (p_mac req) (leases s) = Some l \<and> p_yiaddr rep = int (l_ip l) \<and>
         (p_msg_type rep = Some 2 \<and> p_msg_type req = Some 1 \<or>
          p_msg_type rep = Some 5 \<and> p_msg_type req = Some 3 \<and> \<not> l_offered l \<and>
          l_expire l = now + of_int (lease_time s) \<and>
          requested_ip req \<in> {None, Some (p_yiaddr rep)})))"

lemma requested_range: "requested_ip req = Some a \<Longrightarrow> 0 \<le> a"
  using unpack_I_range by (auto simp: requested_ip_def quad_option_def split: option.splits list.splits)

lemma build_reply_answers:
  assumes q: "packet_ok req" and ok: "addrs_ok (sv_scope sv)" and ip: "fits 32 (sv_ip sv)"
    and b: "build_reply u now req sv = (s', ev, Inr (Some rep))"
  shows "packet_ok rep \<and> answers_for now req s' rep"
proof -
  consider (discover) "p_msg_type req = Some 1" "on_discover u now req sv = (s', ev, Inr (Some rep))"
    | (request) "p_msg_type req = Some 3" "on_request u now req sv = (s', ev, Inr (Some rep))"
    using b by (auto simp: build_reply_def Let_def split: if_splits option.splits prod.splits)
  then show ?thesis
  proof cases
    case discover
    obtain s1 x where a: "allocate u (p_mac req) (p_hostname req) None now True (sv_scope sv) = (s1, x)"
      by fastforce
    with discover(2) obtain l where l: "x = Some l" "s1 = s'"
      and r: "dhcp_reply req s' (sv_ip sv) (l_ip l) 2 (sv_dnr sv) = Inr rep"
      by (auto simp: on_discover_def rbind_eq_Inr split: option.splits)
    note al = allocate_lease [OF a [unfolded l] ok]
    with dhcp_reply_ok [OF r q ip] discover(1) show ?thesis by (auto simp: answers_for_def)
  next
    case request
    let ?r = "map_option nat (requested_ip req)"
    obtain s1 x where a: "allocate u (p_mac req) (p_hostname req) ?r now False (sv_scope sv) = (s1, x)"
      by fastforce
    with request(2) consider (nak) "rep = nak req (sv_ip sv)"
      | (ack) l where "x = Some l" "s1 = s'" "?r = None \<or> ?r = Some (l_ip l)"
          "dhcp_reply req s' (sv_ip sv) (l_ip l) 5 (sv_dnr sv) = Inr rep"
      by (auto simp: on_request_def Let_def rbind_eq_Inr split: option.splits if_splits)
    then show ?thesis
    proof cases
      case nak
      with nak_ok [OF q ip] request(1) show ?thesis by (simp add: answers_for_def)
    next
      case ack
      note al = allocate_lease [OF a [unfolded ack(1,2)] ok]
      have lt: "lease_time s' = lease_time (sv_scope sv)"
        using allocate_config(4) [of u "p_mac req" "p_hostname req" ?r now False "sv_scope sv"] a ack(2) by simp
      have "requested_ip req \<in> {None, Some (int (l_ip l))}"
        using ack(3) requested_range [of req] by (cases "requested_ip req") (auto simp: eq_nat_nat_iff)
      with al lt dhcp_reply_ok [OF ack(4) q ip] request(1) show ?thesis
        by (auto simp: answers_for_def)
    qed
  qed
qed

text \<open>
  C40: every datagram the server sends is a well-formed reply to the request it answers: same
  transaction and hardware address, an OFFER or ACK only for an address the lease table holds for
  this client, an ACK only for a committed lease that runs from now and, when the client asked for
  an address, only for that address.
\<close>

theorem ack_is_lease:
  assumes ok: "addrs_ok (sv_scope sv)" and ip: "fits 32 (sv_ip sv)"
    and d: "datagram_received u now data sv = (s', ev, Inr (Some w))"
  shows "\<exists>req rep. parse_dhcp data = Inr req \<and> parse_dhcp w = Inr rep \<and> answers_for now req s' rep"
proof -
  obtain req where req: "parse_dhcp data = Inr req" "p_op req = 1"
    using d by (auto simp: datagram_received_def split: sum.splits if_splits)
  obtain r where b: "build_reply u now req sv = (s', ev, r)" "rbind r (\<lambda>rep. case rep of None \<Rightarrow> Inr None
      | Some p \<Rightarrow> rbind (dhcp_to_wire p) (\<lambda>w. Inr (Some w))) = Inr (Some w)"
    using d req by (auto simp: datagram_received_def split: prod.splits)
  then obtain rep where rep: "r = Inr (Some rep)" "dhcp_to_wire rep = Inr w"
    by (auto simp: rbind_eq_Inr split: option.splits)
  note a = build_reply_answers [OF parse_dhcp_ok [OF req(1)] ok ip b(1) [unfolded rep(1)]]
  then obtain w' where "dhcp_to_wire rep = Inr w'" "parse_dhcp w' = Inr rep"
    using dhcp_roundtrip_sound by blast
  with rep(2) req(1) a show ?thesis by auto
qed


definition discover_packet :: packet where
  "discover_packet = demo_packet\<lparr>p_options := [(53, [1])]\<rparr>"

definition fresh_server :: server where
  "fresh_server = \<lparr>sv_scope = demo_scope, sv_ip = 1, sv_register = True, sv_forget = True, sv_dnr = []\<rparr>"

theorem ack_is_lease_witness:
  "\<exists>data s' ev w rep. datagram_received (\<lambda>c. [c]) 20 data fresh_server = (s', ev, Inr (Some w)) \<and>
     parse_dhcp w = Inr rep \<and> answers_for 20 discover_packet s' rep"
proof -
  have "packet_ok discover_packet"
    by (simp add: packet_ok_def discover_packet_def demo_packet_def fits_def od_keys_def option_ok_def)
  then obtain data where data: "parse_dhcp data = Inr discover_packet" using dhcp_roundtrip_sound by blast
  obtain s' ev r where b: "build_reply (\<lambda>c. [c]) 20 discover_packet fresh_server = (s', ev, r)"
    by (cases "build_reply (\<lambda>c. [c]) 20 discover_packet fresh_server")
  have "case snd (snd (build_reply (\<lambda>c. [c]) 20 discover_packet fresh_server)) of
      Inr (Some p) \<Rightarrow> packet_ok p | _ \<Rightarrow> False"
    by code_simp
  with b obtain p where r: "r = Inr (Some p)" "packet_ok p" by (auto split: sum.splits option.splits)
  then obtain w where w: "dhcp_to_wire p = Inr w" using dhcp_roundtrip_sound by blast
  have d: "datagram_received (\<lambda>c. [c]) 20 data fresh_server = (s', ev, Inr (Some w))"
    using data b r w by (simp add: datagram_received_def discover_packet_def demo_packet_def)
  have "addrs_ok (sv_scope fresh_server)"
    by (simp add: addrs_ok_def fresh_server_def demo_scope_def new_scope_def)
  moreover have "fits 32 (sv_ip fresh_server)" by (simp add: fits_def fresh_server_def)
  ultimately have "\<exists>req rep. parse_dhcp data = Inr req \<and> parse_dhcp w = Inr rep \<and> answers_for 20 req s' rep"
    by (rule ack_is_lease) (rule d)
  then obtain rep where "parse_dhcp w = Inr rep" "answers_for 20 discover_packet s' rep"
    using data by auto
  with d show ?thesis by blast
qed

text \<open>
  A REQUEST for an address that another client holds is refused, and yet the table now holds a
  lease of the whole lease time for the sender, on an address it was never told.
\<close>

lemma refused_request_commits:
  "let (s, ev, r) = build_reply (\<lambda>c. [c]) 20 (demo_packet\<lparr>p_options := [(53, [3]), (50, [0, 0, 0, 9])]\<rparr>)
       fresh_server
   in (case r of Inr (Some p) \<Rightarrow> p_msg_type p = Some 6 | _ \<Rightarrow> False) \<and>
      map l_ip (active_leases 80000 s) = [5]"
  by code_simp

end
