(* ===== verification/Rdata_Text.thy ===== *)
theory Rdata_Text
  imports Wire_Rdata Name_Text
begin

section \<open>Record data as text\<close>

text \<open>
  Models the \<^verbatim>\<open>to_text\<close> methods of \<^verbatim>\<open>trench/wire/rdata.py\<close>, which the
  dynamic update compares records by. Hexadecimal, base 64 and base 32 are spelled out; the text
  of an IPv6 address is the argument \<open>ntop6\<close>, the C library's \<^verbatim>\<open>inet_ntop\<close>. The
  tag of a CAA record is decoded as ASCII, so its text may be an exception.
\<close>

subsection \<open>Encodings of octets\<close>

definition upper_ascii :: "ustr \<Rightarrow> ustr" where
  "upper_ascii s = map (\<lambda>c. if 97 \<le> c \<and> c \<le> 122 then c - 32 else c) s"

definition bits8 :: "byte \<Rightarrow> bool list" where
  "bits8 b = map (bit b) [7, 6, 5, 4, 3, 2, 1, 0]"

definition bits_value :: "bool list \<Rightarrow> nat" where
  "bits_value bs = foldl (\<lambda>v b. 2 * v + of_bool b) 0 bs"

text \<open>Digits of \<open>n\<close> bits each over an alphabet, the last one filled up with zero bits.\<close>

definition base_digits :: "nat \<Rightarrow> ustr \<Rightarrow> bytes \<Rightarrow> ustr" where
  "base_digits n alphabet bs =
     map (\<lambda>c. alphabet ! bits_value (take n (c @ replicate n False))) (chunks n (concat (map bits8 bs)))"

definition b64 :: "bytes \<Rightarrow> ustr" where
  "b64 bs = base_digits 6 (chars ''ABCDEFGHIJKLMNOPQRSTUVWXYZabcdefghijklmnopqrstuvwxyz0123456789+/'') bs
     @ replicate ((3 - length bs mod 3) mod 3) 61"

text \<open>Base 32 without its padding, which the code always strips.\<close>

definition b32 :: "bytes \<Rightarrow> ustr" where
  "b32 bs = base_digits 5 (chars ''ABCDEFGHIJKLMNOPQRSTUVWXYZ234567'') bs"

definition latin1 :: "bytes \<Rightarrow> ustr" where
  "latin1 bs = map unat bs"

definition decode_ascii :: "bytes \<Rightarrow> ustr result" where
  "decode_ascii bs = (if list_all (\<lambda>b. unat b < 128) bs then Inr (map unat bs) else Inl UnicodeError)"

definition quoted :: "ustr \<Rightarrow> ustr" where
  "quoted s = [34] @ s @ [34]"

definition words :: "ustr list \<Rightarrow> ustr" where
  "words ps = join_with 32 ps"

definition salt_text :: "bytes \<Rightarrow> ustr" where
  "salt_text salt = (if salt \<noteq> [] then upper_ascii (hex salt) else [45])"

text \<open>\<^verbatim>\<open>s.replace('"', '\\"')\<close>\<close>

definition escape_quotes :: "ustr \<Rightarrow> ustr" where
  "escape_quotes s = concat (map (\<lambda>c. if c = 34 then [92, 34] else [c]) s)"

subsection \<open>The text of each class\<close>

definition name_text :: "name \<Rightarrow> ustr" where
  "name_text n = to_text False n"

definition text_A :: "bytes \<Rightarrow> ustr" where
  "text_A a = join_with 46 (map (\<lambda>b. dec (unat b)) a)"

definition text_SOA :: "name \<Rightarrow> name \<Rightarrow> int list \<Rightarrow> ustr" where
  "text_SOA m r ns = words ([name_text m, name_text r] @ map dec_int ns)"

definition text_MX :: "int \<Rightarrow> name \<Rightarrow> ustr" where
  "text_MX p n = words [dec_int p, name_text n]"

definition text_SRV :: "int \<Rightarrow> int \<Rightarrow> int \<Rightarrow> name \<Rightarrow> ustr" where
  "text_SRV p w port n = words [dec_int p, dec_int w, dec_int port, name_text n]"

definition text_TXT :: "bytes list \<Rightarrow> ustr" where
  "text_TXT ss = words (map (\<lambda>s. quoted (escape_quotes (latin1 s))) ss)"

definition text_HINFO :: "bytes \<Rightarrow> bytes \<Rightarrow> ustr" where
  "text_HINFO c os = words [quoted (latin1 c), quoted (latin1 os)]"

definition text_CAA :: "int \<Rightarrow> bytes \<Rightarrow> bytes \<Rightarrow> ustr result" where
  "text_CAA f tag v = rbind (decode_ascii tag) (\<lambda>t. Inr (words [dec_int f, t, quoted (latin1 v)]))"

definition text_SSHFP :: "int \<Rightarrow> int \<Rightarrow> bytes \<Rightarrow> ustr" where
  "text_SSHFP a f fp = words [dec_int a, dec_int f, hex fp]"

definition text_TLSA :: "int \<Rightarrow> int \<Rightarrow> int \<Rightarrow> bytes \<Rightarrow> ustr" where
  "text_TLSA u s m c = words [dec_int u, dec_int s, dec_int m, hex c]"

definition text_DS :: "int \<Rightarrow> int \<Rightarrow> int \<Rightarrow> bytes \<Rightarrow> ustr" where
  "text_DS k a d h = words [dec_int k, dec_int a, dec_int d, upper_ascii (hex h)]"

definition text_DNSKEY :: "int \<Rightarrow> int \<Rightarrow> int \<Rightarrow> bytes \<Rightarrow> ustr" where
  "text_DNSKEY f p a k = words [dec_int f, dec_int p, dec_int a, b64 k]"

definition text_RRSIG :: "int \<Rightarrow> int list \<Rightarrow> name \<Rightarrow> bytes \<Rightarrow> ustr" where
  "text_RRSIG t ns n sig = words (type_to_text t # map dec_int ns @ [name_text n, b64 sig])"

definition text_NSEC :: "name \<Rightarrow> bytes \<Rightarrow> ustr" where
  "text_NSEC n bm = words [name_text n, hex bm]"

definition text_NSEC3PARAM :: "int \<Rightarrow> int \<Rightarrow> int \<Rightarrow> bytes \<Rightarrow> ustr" where
  "text_NSEC3PARAM h f i salt = words [dec_int h, dec_int f, dec_int i, salt_text salt]"

definition text_NSEC3 :: "int \<Rightarrow> int \<Rightarrow> int \<Rightarrow> bytes \<Rightarrow> bytes \<Rightarrow> bytes \<Rightarrow> ustr" where
  "text_NSEC3 h f i salt nh bm = words [dec_int h, dec_int f, dec_int i, salt_text salt, b32 nh, hex bm]"

definition text_NAPTR :: "int \<Rightarrow> int \<Rightarrow> bytes \<Rightarrow> bytes \<Rightarrow> bytes \<Rightarrow> name \<Rightarrow> ustr" where
  "text_NAPTR ord p f s re n =
     words [dec_int ord, dec_int p, quoted (latin1 f), quoted (latin1 s), quoted (latin1 re), name_text n]"

definition text_URI :: "int \<Rightarrow> int \<Rightarrow> bytes \<Rightarrow> ustr" where
  "text_URI p w t = words [dec_int p, dec_int w, quoted (latin1 t)]"

definition text_SVCB :: "int \<Rightarrow> name \<Rightarrow> bytes \<Rightarrow> ustr" where
  "text_SVCB p n ps = words [dec_int p, name_text n, hex ps]"

definition text_TSIG :: "name \<Rightarrow> int \<Rightarrow> int \<Rightarrow> bytes \<Rightarrow> int \<Rightarrow> int \<Rightarrow> ustr" where
  "text_TSIG n t f mac i e = words [name_text n, dec_int t, dec_int f, b64 mac, dec_int i, dec_int e]"

definition text_Unknown :: "bytes \<Rightarrow> ustr" where
  "text_Unknown d =
     (if d \<noteq> [] then words [[92, 35], dec (length d), hex d] else words [[92, 35], [48]])"

fun rdata_text :: "(bytes \<Rightarrow> ustr) \<Rightarrow> rdata \<Rightarrow> ustr result" where
  "rdata_text ntop6 (Rd_A a) = Inr (text_A a)"
| "rdata_text ntop6 (Rd_AAAA a) = Inr (ntop6 a)"
| "rdata_text ntop6 (Rd_NS n) = Inr (name_text n)"
| "rdata_text ntop6 (Rd_CNAME n) = Inr (name_text n)"
| "rdata_text ntop6 (Rd_PTR n) = Inr (name_text n)"
| "rdata_text ntop6 (Rd_DNAME n) = Inr (name_text n)"
| "rdata_text ntop6 (Rd_SOA m r s rf rt e mi) = Inr (text_SOA m r [s, rf, rt, e, mi])"
| "rdata_text ntop6 (Rd_MX p n) = Inr (text_MX p n)"
| "rdata_text ntop6 (Rd_SRV p w port n) = Inr (text_SRV p w port n)"
| "rdata_text ntop6 (Rd_TXT ss) = Inr (text_TXT ss)"
| "rdata_text ntop6 (Rd_SPF ss) = Inr (text_TXT ss)"
| "rdata_text ntop6 (Rd_HINFO c os) = Inr (text_HINFO c os)"
| "rdata_text ntop6 (Rd_CAA f t v) = text_CAA f t v"
| "rdata_text ntop6 (Rd_SSHFP a f fp) = Inr (text_SSHFP a f fp)"
| "rdata_text ntop6 (Rd_TLSA u s m c) = Inr (text_TLSA u s m c)"
| "rdata_text ntop6 (Rd_DS k a d h) = Inr (text_DS k a d h)"
| "rdata_text ntop6 (Rd_CDS k a d h) = Inr (text_DS k a d h)"
| "rdata_text ntop6 (Rd_DNSKEY f p a k) = Inr (text_DNSKEY f p a k)"
| "rdata_text ntop6 (Rd_CDNSKEY f p a k) = Inr (text_DNSKEY f p a k)"
| "rdata_text ntop6 (Rd_RRSIG t a l o' e i k n sig) = Inr (text_RRSIG t [a, l, o', e, i, k] n sig)"
| "rdata_text ntop6 (Rd_NSEC n bm) = Inr (text_NSEC n bm)"
| "rdata_text ntop6 (Rd_NSEC3PARAM h f i s) = Inr (text_NSEC3PARAM h f i s)"
| "rdata_text ntop6 (Rd_NSEC3 h f i s nh bm) = Inr (text_NSEC3 h f i s nh bm)"
| "rdata_text ntop6 (Rd_NAPTR ord p f s re n) = Inr (text_NAPTR ord p f s re n)"
| "rdata_text ntop6 (Rd_URI p w t) = Inr (text_URI p w t)"
| "rdata_text ntop6 (Rd_SVCB p n ps) = Inr (text_SVCB p n ps)"
| "rdata_text ntop6 (Rd_HTTPS p n ps) = Inr (text_SVCB p n ps)"
| "rdata_text ntop6 (Rd_TSIG n t f mac i e other) = Inr (text_TSIG n t f mac i e)"
| "rdata_text ntop6 (Rd_Unknown t d) = Inr (text_Unknown d)"

subsection \<open>What the text tells apart\<close>

lemma rdata_text_error: "rdata_text ntop6 rd = Inl e \<Longrightarrow> e = UnicodeError \<and> (\<exists>f t v. rd = Rd_CAA f t v)"
  by (cases rd) (auto simp: text_CAA_def decode_ascii_def split: if_splits)

text \<open>Equal names whose spelling differs have different texts.\<close>

lemma name_text_case_sensitive:
  "name_eq [[97]] [[65]] \<and> rdata_text f (Rd_NS [[97]]) \<noteq> rdata_text f (Rd_NS [[65]])"
  by (simp add: name_eq_def lower_def lower_byte_def name_text_def to_text_def escape_def
      safe_octet_def escape_octet_def)

text \<open>The strings of a HINFO record are not escaped: two different records share a text.\<close>

lemma hinfo_text_ambiguous:
  "rdata_text f (Rd_HINFO [97, 34, 32, 34, 98] [99]) = rdata_text f (Rd_HINFO [97] [98, 34, 32, 34, 99])"
  by (simp add: text_HINFO_def words_def quoted_def latin1_def)

end
