(* ===== verification/Zone.thy ===== *)
theory Zone
  imports Ordered_Dict Wire_Message Rdata_Text "HOL-Library.List_Lexorder"
begin

section \<open>Authoritative zones\<close>

text \<open>
  Models \<^verbatim>\<open>trench/auth_zone/zone.py\<close>: the record store of a zone and the lookup that
  answers from it, with delegations, wildcards, CNAME chains and the denial records of a signed
  zone. A dictionary keyed by names is keyed by \<^const>\<open>name_key\<close>, which is what the equality
  and the hash of a name are; the name it was created under is kept beside the node. The hash of
  NSEC3 is the argument \<open>H\<close> (SHA-1 of the standard library).
\<close>

subsection \<open>The record store\<close>

type_synonym node = "(int, rdata list) odict"

record delta =
  d_from :: int
  d_to :: int
  d_delete :: "rr list"
  d_add :: "rr list"

record zone =
  origin :: name
  records :: "(bytes, name \<times> node) odict"
  ttls :: "bytes \<times> int \<Rightarrow> int option"
  rrsigs :: "bytes \<times> int \<Rightarrow> rdata option"
  signed :: bool
  nsec3_salt :: bytes
  nsec3_iterations :: nat
  journal :: "delta list"

record zone_answer =
  a_rcode :: int
  a_aa :: bool
  a_answers :: "rr list"
  a_authority :: "rr list"
  a_additional :: "rr list"

definition T_A :: int where "T_A = 1"
definition T_NS :: int where "T_NS = 2"
definition T_CNAME :: int where "T_CNAME = 5"
definition T_SOA :: int where "T_SOA = 6"
definition T_AAAA :: int where "T_AAAA = 28"
definition T_DS :: int where "T_DS = 43"
definition T_RRSIG :: int where "T_RRSIG = 46"
definition T_NSEC :: int where "T_NSEC = 47"
definition T_NSEC3 :: int where "T_NSEC3 = 50"
definition T_NSEC3PARAM :: int where "T_NSEC3PARAM = 51"
definition DEFAULT_TTL :: int where "DEFAULT_TTL = 3600"
definition MAX_CNAME_CHAIN :: nat where "MAX_CNAME_CHAIN = 16"

lemmas type_defs = T_A_def T_NS_def T_CNAME_def T_SOA_def T_AAAA_def T_DS_def T_RRSIG_def T_NSEC_def
  T_NSEC3_def T_NSEC3PARAM_def

definition new_zone :: "name \<Rightarrow> zone" where
  "new_zone n = \<lparr>origin = n, records = [], ttls = (\<lambda>_. None), rrsigs = (\<lambda>_. None), signed = False,
     nsec3_salt = [], nsec3_iterations = 0, journal = []\<rparr>"

definition zget :: "zone \<Rightarrow> name \<Rightarrow> node option" where
  "zget z n = map_option snd (od_get (name_key n) (records z))"

definition zget_or_empty :: "zone \<Rightarrow> name \<Rightarrow> node" where
  "zget_or_empty z n = (case zget z n of Some nd \<Rightarrow> nd | None \<Rightarrow> [])"

definition rdatas :: "int \<Rightarrow> node \<Rightarrow> rdata list" where
  "rdatas t nd = (case od_get t nd of Some rds \<Rightarrow> rds | None \<Rightarrow> [])"

definition zadd :: "name \<Rightarrow> int \<Rightarrow> rdata \<Rightarrow> int \<Rightarrow> zone \<Rightarrow> zone" where
  "zadd n t rd ttl z =
     (let (owner, nd) = (case od_get (name_key n) (records z) of Some x \<Rightarrow> x | None \<Rightarrow> (n, []))
      in z\<lparr>records := od_set (name_key n) (owner, od_set t (rdatas t nd @ [rd]) nd) (records z),
           ttls := (ttls z)((name_key n, t) := Some ttl)\<rparr>)"

definition soa :: "zone \<Rightarrow> rdata option" where
  "soa z = (case rdatas T_SOA (zget_or_empty z (origin z)) of [] \<Rightarrow> None | rd # _ \<Rightarrow> Some rd)"

definition ttl_of :: "zone \<Rightarrow> name \<Rightarrow> int \<Rightarrow> int" where
  "ttl_of z n t = (case ttls z (name_key n, t) of Some v \<Rightarrow> v | None \<Rightarrow> DEFAULT_TTL)"

definition nsec3_only :: "node \<Rightarrow> bool" where
  "nsec3_only nd \<longleftrightarrow> nd \<noteq> [] \<and> T_NSEC3 \<in> set (od_keys nd) \<and>
     list_all (\<lambda>t. t = T_NSEC3 \<or> t = T_RRSIG) (od_keys nd)"

subsection \<open>Signatures and negative answers\<close>

definition zrr :: "name \<Rightarrow> int \<Rightarrow> int \<Rightarrow> rdata \<Rightarrow> rr" where
  "zrr n t ttl rd = \<lparr>rr_name = n, rr_type = t, rr_class = 1, rr_ttl = ttl, rr_rdata = rd\<rparr>"

text \<open>\<^verbatim>\<open>a or b\<close> on optional names: the root name has length 0 and counts as false.\<close>

definition name_or :: "name option \<Rightarrow> name \<Rightarrow> name" where
  "name_or a b = (case a of Some n \<Rightarrow> if n = [] then b else n | None \<Rightarrow> b)"

definition attach_sig :: "zone \<Rightarrow> rr list \<Rightarrow> name \<Rightarrow> int \<Rightarrow> bool \<Rightarrow> name option \<Rightarrow> int option \<Rightarrow> rr list" where
  "attach_sig z rrs n t want shown ttl =
     (if \<not> (want \<and> signed z) then rrs
      else (case rrsigs z (name_key n, t) of
              None \<Rightarrow> rrs
            | Some sg \<Rightarrow> rrs @ [zrr (name_or shown n) T_RRSIG
                                (case ttl of Some v \<Rightarrow> v | None \<Rightarrow> ttl_of z n t) sg]))"

definition soa_min :: "rdata \<Rightarrow> int result" where
  "soa_min rd = (case rd of Rd_SOA _ _ _ _ _ _ m \<Rightarrow> Inr m | _ \<Rightarrow> Inl AttributeError)"

definition negative_ttl :: "zone \<Rightarrow> int result" where
  "negative_ttl z =
     (let ttl = ttl_of z (origin z) T_SOA
      in case soa z of None \<Rightarrow> Inr ttl | Some s \<Rightarrow> rbind (soa_min s) (\<lambda>m. Inr (min ttl m)))"

definition soa_rr :: "zone \<Rightarrow> bool \<Rightarrow> rr list result" where
  "soa_rr z want =
     (case soa z of
        None \<Rightarrow> Inr []
      | Some s \<Rightarrow> rbind (negative_ttl z) (\<lambda>ttl.
          Inr (attach_sig z [zrr (origin z) T_SOA ttl s] (origin z) T_SOA want None (Some ttl))))"

definition proving :: "zone \<Rightarrow> bool \<Rightarrow> bool" where
  "proving z want \<longleftrightarrow> want \<and> signed z"

subsection \<open>Denial of existence\<close>

text \<open>Canonical order (\<^verbatim>\<open>name_lt\<close> of \<^verbatim>\<open>trench/resolver/dnssec/nsec.py\<close>): the labels
  from the right, lower-cased, as octet strings.\<close>

definition canon_key :: "name \<Rightarrow> bytes list" where
  "canon_key n = map lower (rev n)"

fun octets_lt :: "bytes \<Rightarrow> bytes \<Rightarrow> bool" where
  "octets_lt [] ys = (ys \<noteq> [])"
| "octets_lt (x # xs) [] = False"
| "octets_lt (x # xs) (y # ys) = (if x = y then octets_lt xs ys else x < y)"

fun keys_lt :: "bytes list \<Rightarrow> bytes list \<Rightarrow> bool" where
  "keys_lt (x # xs) (y # ys) = (if x \<noteq> y then octets_lt x y else keys_lt xs ys)"
| "keys_lt xs ys = (length xs < length ys)"

definition name_lt :: "name \<Rightarrow> name \<Rightarrow> bool" where
  "name_lt a b = keys_lt (canon_key a) (canon_key b)"

definition nsec_predecessor :: "zone \<Rightarrow> name \<Rightarrow> name" where
  "nsec_predecessor z n =
     fold (\<lambda>(_, owner, nd) best.
             if T_NSEC \<in> set (od_keys nd) \<and> name_lt owner n \<and> name_lt best owner then owner else best)
       (records z) (origin z)"

definition nsec3_hash :: "(bytes \<Rightarrow> bytes) \<Rightarrow> name \<Rightarrow> bytes \<Rightarrow> nat \<Rightarrow> bytes" where
  "nsec3_hash H n salt iterations = ((\<lambda>d. H (d @ salt)) ^^ iterations) (H (name_key n @ salt))"

definition b32hex_char :: "nat \<Rightarrow> nat" where
  "b32hex_char c = chars ''0123456789abcdefghijklmnopqrstuv'' ! (if 65 \<le> c then c - 65 else c - 24)"

definition nsec3_b32 :: "bytes \<Rightarrow> ustr" where
  "nsec3_b32 h = map b32hex_char (b32 h)"

definition lower_ascii :: "ustr \<Rightarrow> ustr" where
  "lower_ascii s = map (\<lambda>c. if 65 \<le> c \<and> c \<le> 90 then c + 32 else c) s"

text \<open>
  The chain sorted by the hash in the owner names. Pairs with equal hashes would have Python compare
  the names, which have no order.
\<close>

definition nsec3_chain :: "zone \<Rightarrow> (ustr \<times> name) list result" where
  "nsec3_chain z =
     rbind (rmap (\<lambda>(_, owner, _). rbind (decode_ascii (hd owner)) (\<lambda>s. Inr (lower_ascii s, owner)))
        (filter (\<lambda>(_, owner, nd). T_NSEC3 \<in> set (od_keys nd) \<and> owner \<noteq> []) (records z)))
       (\<lambda>ps. if distinct (map fst ps) then Inr (sort_key fst ps) else Inl TypeError)"

fun nsec3_search :: "ustr \<Rightarrow> name \<Rightarrow> (ustr \<times> name) list \<Rightarrow> name + name" where
  "nsec3_search h prev [] = Inr prev"
| "nsec3_search h prev ((oh, owner) # ch) =
     (if oh = h then Inl owner else if h < oh then Inr prev else nsec3_search h owner ch)"

definition nsec3_owner :: "(bytes \<Rightarrow> bytes) \<Rightarrow> zone \<Rightarrow> (ustr \<times> name) list \<Rightarrow> name \<Rightarrow> bool \<Rightarrow> name option" where
  "nsec3_owner H z ch n match =
     (case nsec3_search (nsec3_b32 (nsec3_hash H n (nsec3_salt z) (nsec3_iterations z)))
             (snd (ch ! (length ch - 1))) ch of
        Inl owner \<Rightarrow> Some owner
      | Inr prev \<Rightarrow> if match then None else Some prev)"

fun denial_rrs :: "zone \<Rightarrow> name list \<Rightarrow> int \<Rightarrow> int \<Rightarrow> bytes list \<Rightarrow> rr list \<Rightarrow> rr list" where
  "denial_rrs z [] t ttl seen out = out"
| "denial_rrs z (owner # owners) t ttl seen out =
     (if name_key owner \<in> set seen then denial_rrs z owners t ttl seen out
      else (case rdatas t (zget_or_empty z owner) of
              [] \<Rightarrow> denial_rrs z owners t ttl (name_key owner # seen) out
            | rd # _ \<Rightarrow> denial_rrs z owners t ttl (name_key owner # seen)
                (attach_sig z (out @ [zrr owner t ttl rd]) owner t True None (Some ttl))))"

datatype denial_kind = K_nodata | K_nxdomain | K_wildcard | K_wildcard_nodata

definition wild :: "name \<Rightarrow> name" where
  "wild n = [0x2A] # n"

definition somes :: "'a option list \<Rightarrow> 'a list" where
  "somes xs = concat (map (\<lambda>x. case x of Some v \<Rightarrow> [v] | None \<Rightarrow> []) xs)"

definition nsec3_denial :: "(bytes \<Rightarrow> bytes) \<Rightarrow> zone \<Rightarrow> name \<Rightarrow> name \<Rightarrow> denial_kind \<Rightarrow> name option \<Rightarrow> rr list result" where
  "nsec3_denial H z qn encloser kind wildcard =
     rbind (nsec3_chain z) (\<lambda>ch.
       if ch = [] then Inr []
       else
         let next_closer = (if length qn > length encloser
                            then drop (length qn - length encloser - 1) qn else qn);
             want = (case kind of
                 K_nodata \<Rightarrow> [nsec3_owner H z ch qn True]
               | K_wildcard \<Rightarrow> [nsec3_owner H z ch next_closer False]
               | _ \<Rightarrow> [nsec3_owner H z ch encloser True, nsec3_owner H z ch next_closer False] @
                   (if kind = K_nxdomain then [nsec3_owner H z ch (wild encloser) False]
                    else (case wildcard of Some w \<Rightarrow> [nsec3_owner H z ch w True] | None \<Rightarrow> [])))
         in rbind (negative_ttl z) (\<lambda>ttl. Inr (denial_rrs z (somes want) T_NSEC3 ttl [] [])))"

definition denial :: "(bytes \<Rightarrow> bytes) \<Rightarrow> zone \<Rightarrow> name \<Rightarrow> name \<Rightarrow> denial_kind \<Rightarrow> name option \<Rightarrow> rr list result" where
  "denial H z qn encloser kind wildcard =
     (if T_NSEC3PARAM \<in> set (od_keys (zget_or_empty z (origin z)))
      then nsec3_denial H z qn encloser kind wildcard
      else
        let want = (case kind of
              K_nodata \<Rightarrow> if T_NSEC \<in> set (od_keys (zget_or_empty z qn)) then [qn]
                          else [nsec_predecessor z qn]
            | K_nxdomain \<Rightarrow> [nsec_predecessor z qn, nsec_predecessor z (wild encloser)]
            | K_wildcard \<Rightarrow> [nsec_predecessor z qn]
            | K_wildcard_nodata \<Rightarrow> nsec_predecessor z qn #
                (case wildcard of Some w \<Rightarrow> [w] | None \<Rightarrow> []))
        in rbind (negative_ttl z) (\<lambda>ttl. Inr (denial_rrs z want T_NSEC ttl [] [])))"


subsection \<open>Lookup\<close>

definition nodata :: "(bytes \<Rightarrow> bytes) \<Rightarrow> zone \<Rightarrow> bool \<Rightarrow> name \<Rightarrow> name option \<Rightarrow> name option \<Rightarrow> zone_answer result" where
  "nodata H z want qn wildcard encloser =
     rbind (soa_rr z want) (\<lambda>auth.
     rbind (if proving z want
            then (case wildcard of
                    Some w \<Rightarrow> denial H z qn (name_or encloser (parent w))
                                K_wildcard_nodata (Some w)
                  | None \<Rightarrow> denial H z qn (name_or encloser qn) K_nodata None)
            else Inr []) (\<lambda>proof_rrs.
       Inr \<lparr>a_rcode = 0, a_aa = True, a_answers = [], a_authority = auth @ proof_rrs,
            a_additional = []\<rparr>))"

definition nxdomain :: "(bytes \<Rightarrow> bytes) \<Rightarrow> zone \<Rightarrow> bool \<Rightarrow> name \<Rightarrow> name \<Rightarrow> zone_answer result" where
  "nxdomain H z want qn encloser =
     rbind (soa_rr z want) (\<lambda>auth.
     rbind (if proving z want then denial H z qn encloser K_nxdomain None else Inr []) (\<lambda>proof_rrs.
       Inr \<lparr>a_rcode = 3, a_aa = True, a_answers = [], a_authority = auth @ proof_rrs,
            a_additional = []\<rparr>))"

text \<open>The \<^verbatim>\<open>name\<close> field, which only the classes that hold a single name have.\<close>

definition rd_name :: "rdata \<Rightarrow> name option" where
  "rd_name rd = (case rd of Rd_NS n \<Rightarrow> Some n | Rd_CNAME n \<Rightarrow> Some n | Rd_PTR n \<Rightarrow> Some n
                 | Rd_DNAME n \<Rightarrow> Some n | _ \<Rightarrow> None)"

lemma attach_sig_longer: "length rrs \<le> length (attach_sig z rrs n t want shown ttl)"
  by (simp add: attach_sig_def split: option.split)

text \<open>The loop that follows CNAME records inside the zone.\<close>

function chase :: "zone \<Rightarrow> int \<Rightarrow> bool \<Rightarrow> bytes list \<Rightarrow> name \<Rightarrow> node \<Rightarrow> name \<Rightarrow> rr list \<Rightarrow> rr list result" where
  "chase z qt want seen cur nd shown ans =
     (case od_get T_CNAME nd of
        None \<Rightarrow> Inr ans
      | Some rds \<Rightarrow>
          if \<not> length ans < MAX_CNAME_CHAIN \<or> name_key cur \<in> set seen then Inr ans
          else (case rds of
             [] \<Rightarrow> Inl IndexError
           | rd # _ \<Rightarrow>
               let ans = attach_sig z (ans @ [zrr shown T_CNAME (ttl_of z cur T_CNAME) rd]) cur T_CNAME want
                           (Some shown) None
               in (case rd_name rd of
                  None \<Rightarrow> Inl AttributeError
                | Some target \<Rightarrow>
                    if name_key target \<in> set (name_key cur # seen) \<or> \<not> is_subdomain_of target (origin z)
                    then Inr ans
                    else (case zget z target of
                       None \<Rightarrow> Inr ans
                     | Some nxt \<Rightarrow>
                         if qt \<in> set (od_keys nxt)
                         then Inr (ans @ attach_sig z (map (zrr target qt (ttl_of z target qt)) (rdatas qt nxt))
                                          target qt want None None)
                         else chase z qt want (name_key cur # seen) target nxt target ans))))"
  by pat_completeness auto
termination
proof (relation "measure (\<lambda>(z, qt, want, seen, cur, nd, shown, ans). MAX_CNAME_CHAIN - length ans)", goal_cases)
  case 1
  show ?case by simp
next
  case (2 z qt want seen cur nd shown ans rds rd rest ans' target nxt)
  then have "length ans < length ans'"
    using attach_sig_longer [of "ans @ [zrr shown T_CNAME (ttl_of z cur T_CNAME) rd]" z cur T_CNAME want "Some shown" None]
    by simp
  with 2 show ?case by (simp add: diff_less_mono2)
qed

declare chase.simps [simp del]

definition answer_at :: "(bytes \<Rightarrow> bytes) \<Rightarrow> zone \<Rightarrow> name \<Rightarrow> node \<Rightarrow> int \<Rightarrow> bool \<Rightarrow> name option \<Rightarrow> name option \<Rightarrow>
    zone_answer result" where
  "answer_at H z owner nd qt want synth encloser =
     (let shown = name_or synth owner
      in if \<not> (qt \<noteq> T_CNAME \<and> T_CNAME \<in> set (od_keys nd)) \<and> qt \<notin> set (od_keys nd)
         then nodata H z want shown (if synth \<noteq> None \<and> synth \<noteq> Some [] then Some owner else None) encloser
         else
           rbind (if qt \<noteq> T_CNAME \<and> T_CNAME \<in> set (od_keys nd)
                  then chase z qt want [] owner nd shown []
                  else Inr (attach_sig z (map (zrr shown qt (ttl_of z owner qt)) (rdatas qt nd)) owner qt want
                              (Some shown) None)) (\<lambda>ans.
           rbind (case synth of
                    Some s \<Rightarrow> if proving z want
                              then denial H z s (name_or encloser (parent owner))
                                     K_wildcard None
                              else Inr []
                  | None \<Rightarrow> Inr []) (\<lambda>auth.
             Inr \<lparr>a_rcode = 0, a_aa = True, a_answers = ans, a_authority = auth, a_additional = []\<rparr>)))"

text \<open>The walk up from the query name to a delegation point, and the referral it makes.\<close>

fun cut_walk :: "zone \<Rightarrow> name \<Rightarrow> int \<Rightarrow> name \<Rightarrow> (name \<times> node) option" where
  "cut_walk z qn qt [] = None"
| "cut_walk z qn qt (la # n) =
     (if length (la # n) \<le> length (origin z) then None
      else if qt = T_DS \<and> name_eq (la # n) qn then cut_walk z qn qt n
      else (case zget z (la # n) of
              None \<Rightarrow> cut_walk z qn qt n
            | Some nd \<Rightarrow>
                if nd \<noteq> [] \<and> T_NS \<in> set (od_keys nd) \<and> T_SOA \<notin> set (od_keys nd) then Some (la # n, nd)
                else cut_walk z qn qt n))"

definition glue :: "zone \<Rightarrow> name \<Rightarrow> rdata \<Rightarrow> rr list result" where
  "glue z ct rd =
     (case rd_name rd of
        None \<Rightarrow> Inl AttributeError
      | Some target \<Rightarrow>
          if \<not> is_subdomain_of target ct then Inr []
          else Inr (concat (map (\<lambda>gt. map (zrr target gt (ttl_of z target gt)) (rdatas gt (zget_or_empty z target)))
                      [T_A, T_AAAA])))"

definition referral :: "zone \<Rightarrow> name \<Rightarrow> node \<Rightarrow> zone_answer result" where
  "referral z ct nd =
     rbind (rmap (glue z ct) (rdatas T_NS nd)) (\<lambda>extra.
       Inr \<lparr>a_rcode = 0, a_aa = False, a_answers = [],
            a_authority = map (zrr ct T_NS (ttl_of z ct T_NS)) (rdatas T_NS nd) @
                          map (zrr ct T_DS (ttl_of z ct T_DS)) (rdatas T_DS nd),
            a_additional = concat extra\<rparr>)"

fun match_len :: "'a list \<Rightarrow> 'a list \<Rightarrow> nat" where
  "match_len (x # xs) (y # ys) = (if x = y then Suc (match_len xs ys) else 0)"
| "match_len xs ys = 0"

fun encloser_loop :: "bytes list \<Rightarrow> nat \<Rightarrow> nat \<Rightarrow> (name \<times> node) list \<Rightarrow> nat" where
  "encloser_loop labels base best [] = best"
| "encloser_loop labels base best ((owner, nd) # rest) =
     (if nsec3_only nd then encloser_loop labels base best rest
      else let k = base + match_len (drop base (canon_key owner)) (drop base labels)
           in if k > best
              then (if k = length labels then k else encloser_loop labels base k rest)
              else encloser_loop labels base best rest)"

definition closest_encloser :: "zone \<Rightarrow> name \<Rightarrow> name" where
  "closest_encloser z qn =
     (let base = length (origin z);
          best = encloser_loop (canon_key qn) base base (map snd (records z))
      in slice_from (int (length qn) - int best) qn)"

definition lookup_below :: "(bytes \<Rightarrow> bytes) \<Rightarrow> zone \<Rightarrow> name \<Rightarrow> int \<Rightarrow> bool \<Rightarrow> zone_answer result" where
  "lookup_below H z qn qt want =
     (let encloser = closest_encloser z qn
      in if name_eq encloser qn then nodata H z want qn None (Some encloser)
         else (case zget z (wild encloser) of
                 Some nd \<Rightarrow> answer_at H z (wild encloser) nd qt want (Some qn) (Some encloser)
               | None \<Rightarrow> nxdomain H z want qn encloser))"

definition zlookup :: "(bytes \<Rightarrow> bytes) \<Rightarrow> zone \<Rightarrow> name \<Rightarrow> int \<Rightarrow> bool \<Rightarrow> zone_answer result" where
  "zlookup H z qn qt want =
     (case cut_walk z qn qt qn of
        Some (ct, nd) \<Rightarrow> referral z ct nd
      | None \<Rightarrow>
          (case zget z qn of
             Some nd \<Rightarrow>
               if \<not> nsec3_only nd then answer_at H z qn nd qt want None None
               else lookup_below H z qn qt want
           | None \<Rightarrow> lookup_below H z qn qt want))"

end
