(* ===== verification/Zone_Props.thy ===== *)
theory Zone_Props
  imports Zone
begin

section \<open>What a zone answers\<close>

text \<open>
  The lookup of \<^theory_text>\<open>Zone\<close> against RFC 4592: the closest encloser is the deepest
  existing ancestor of the query name, NXDOMAIN is only said of names that do not exist and that no
  wildcard covers, and every record of an answer is a record of the zone.
\<close>

subsection \<open>Existence of names\<close>

text \<open>One name is another or an ancestor of it, without regard to case.\<close>

definition anc :: "name \<Rightarrow> name \<Rightarrow> bool" where
  "anc a n \<longleftrightarrow> (\<exists>p. canon_key n = canon_key a @ p)"

text \<open>A name exists when it owns records or a name below it does.\<close>

definition exists_in :: "zone \<Rightarrow> name \<Rightarrow> bool" where
  "exists_in z n \<longleftrightarrow> (\<exists>(k, owner, nd) \<in> set (records z). \<not> nsec3_only nd \<and> anc n owner)"

definition zone_ok :: "zone \<Rightarrow> bool" where
  "zone_ok z \<longleftrightarrow> wf_name (origin z) \<and>
     list_all (\<lambda>(k, owner, nd). k = name_key owner \<and> wf_name owner \<and> anc (origin z) owner) (records z) \<and>
     distinct (od_keys (records z))"

lemma match_len_le: "match_len xs ys \<le> length xs" "match_len xs ys \<le> length ys"
  by (induction xs ys rule: match_len.induct) auto

lemma match_len_take: "take (match_len xs ys) xs = take (match_len xs ys) ys"
  by (induction xs ys rule: match_len.induct) auto

lemma take_shorter: "take m xs = take m ys \<Longrightarrow> n \<le> m \<Longrightarrow> take n xs = take n ys"
proof -
  assume e: "take m xs = take m ys" and l: "n \<le> m"
  have "take n xs = take n (take m xs)" "take n ys = take n (take m ys)" using l by simp_all
  with e show ?thesis by simp
qed

lemma match_len_max: "n \<le> length xs \<Longrightarrow> n \<le> length ys \<Longrightarrow> take n xs = take n ys \<Longrightarrow> n \<le> match_len xs ys"
proof (induction xs ys arbitrary: n rule: match_len.induct)
  case (1 x xs y ys)
  then show ?case by (cases n) auto
qed auto

lemma match_len_prefix: "match_len (p @ xs) (p @ ys) = length p + match_len xs ys"
  by (induction p) auto

lemma encloser_loop_ge: "best \<le> encloser_loop labels base best items"
  by (induction labels base best items rule: encloser_loop.induct)
    (auto simp: Let_def intro: le_trans less_imp_le)

definition depths :: "bytes list \<Rightarrow> nat \<Rightarrow> (name \<times> node) list \<Rightarrow> nat list" where
  "depths labels base items =
     map (\<lambda>(owner, nd). base + match_len (drop base (canon_key owner)) (drop base labels))
       (filter (\<lambda>(owner, nd). \<not> nsec3_only nd) items)"

lemma depths_simps [simp]:
  "depths labels base [] = []"
  "depths labels base ((owner, nd) # items) =
     (if nsec3_only nd then depths labels base items
      else (base + match_len (drop base (canon_key owner)) (drop base labels)) # depths labels base items)"
  by (simp_all add: depths_def)

lemma depths_ex:
  "(\<exists>d \<in> set (depths labels base (map snd rs)). m \<le> d) \<longleftrightarrow>
   (\<exists>(k, owner, nd) \<in> set rs. \<not> nsec3_only nd \<and>
      m \<le> base + match_len (drop base (canon_key owner)) (drop base labels))"
proof (induction rs)
  case (Cons r rs)
  then show ?case by (cases r) simp
qed simp

lemma depths_le: "d \<in> set (depths labels base items) \<Longrightarrow> base \<le> length labels \<Longrightarrow> d \<le> length labels"
proof -
  assume d: "d \<in> set (depths labels base items)" and b: "base \<le> length labels"
  from d obtain owner where "d = base + match_len (drop base (canon_key owner)) (drop base labels)"
    by (auto simp: depths_def)
  moreover have "match_len (drop base (canon_key owner)) (drop base labels) \<le> length (drop base labels)"
    by (rule match_len_le)
  ultimately show "d \<le> length labels" using b by simp
qed

lemma encloser_loop_mem: "encloser_loop labels base best items \<in> insert best (set (depths labels base items))"
proof (induction labels base best items rule: encloser_loop.induct)
  case (2 labels base best owner nd rest)
  let ?k = "base + match_len (drop base (canon_key owner)) (drop base labels)"
  consider "nsec3_only nd" | "\<not> nsec3_only nd" "?k > best" "?k = length labels"
    | "\<not> nsec3_only nd" "?k > best" "?k \<noteq> length labels" | "\<not> nsec3_only nd" "\<not> ?k > best" by blast
  then show ?case
  proof cases
    case 1
    with "2.IH"(1) show ?thesis by simp
  next
    case 2
    then show ?thesis by simp
  next
    case 3
    with "2.IH"(2) [OF 3(1) refl 3(2,3)] show ?thesis by (simp add: Let_def)
  next
    case 4
    with "2.IH"(3) [OF 4(1) refl 4(2)] show ?thesis by (simp add: Let_def) blast
  qed
qed simp

lemma encloser_loop_max:
  "base \<le> length labels \<Longrightarrow> d \<in> set (depths labels base items) \<Longrightarrow>
     d \<le> encloser_loop labels base best items"
proof (induction labels base best items rule: encloser_loop.induct)
  case (2 labels base best owner nd rest)
  let ?k = "base + match_len (drop base (canon_key owner)) (drop base labels)"
  have le: "d \<le> length labels" using "2.prems"(2,1) by (rule depths_le)
  show ?case
  proof (cases "nsec3_only nd")
    case True
    with "2.IH"(1) [OF True] "2.prems" show ?thesis by simp
  next
    case False
    then have "d = ?k \<or> d \<in> set (depths labels base rest)" using "2.prems"(2) by simp
    then consider "?k > best" "?k = length labels" | "?k > best" "?k \<noteq> length labels" | "\<not> ?k > best" "d = ?k"
      | "\<not> ?k > best" "d \<in> set (depths labels base rest)" by blast
    then show ?thesis
    proof cases
      case 1
      with False le show ?thesis by simp
    next
      case 2
      have "d \<le> encloser_loop labels base ?k rest"
        using \<open>d = ?k \<or> _\<close> 2 False "2.IH"(2) [OF False refl] "2.prems"(1) encloser_loop_ge [of ?k labels base rest]
        by blast
      with 2 False show ?thesis by (simp add: Let_def)
    next
      case 3
      with False encloser_loop_ge [of best labels base rest] show ?thesis by simp
    next
      case 4
      with False "2.IH"(3) [OF False refl] "2.prems"(1) show ?thesis by (simp add: Let_def)
    qed
  qed
qed (simp add: depths_def)

lemma canon_key_take: "canon_key (drop (length n - k) n) = take k (canon_key n)"
  by (cases "k \<le> length n") (simp_all add: canon_key_def rev_drop take_map)

lemma anc_take: "anc a n \<longleftrightarrow> length a \<le> length n \<and> take (length a) (canon_key n) = canon_key a"
proof -
  have l: "length (canon_key x) = length x" for x by (simp add: canon_key_def)
  show ?thesis unfolding anc_def
    by (metis append_eq_conv_conj append_take_drop_id l le_add1 length_append)
qed

lemma length_canon_key [simp]: "length (canon_key n) = length n"
  by (simp add: canon_key_def)

lemma depth_of:
  assumes "anc o' owner" "anc o' qn" "base = length o'"
  shows "base + match_len (drop base (canon_key owner)) (drop base (canon_key qn)) =
    match_len (canon_key owner) (canon_key qn)"
  using assms match_len_prefix [of "canon_key o'"] by (auto simp: anc_def)

lemma exists_iff_depth:
  assumes "zone_ok z" "anc (origin z) qn" "length n \<ge> length (origin z)" "anc n qn"
  shows "exists_in z n \<longleftrightarrow>
    (\<exists>d \<in> set (depths (canon_key qn) (length (origin z)) (map snd (records z))). length n \<le> d)"
proof -
  have "anc n owner \<longleftrightarrow>
      length n \<le> length (origin z) + match_len (drop (length (origin z)) (canon_key owner))
        (drop (length (origin z)) (canon_key qn))"
    if "(k, owner, nd) \<in> set (records z)" for k owner nd
  proof -
    have o: "anc (origin z) owner" using assms(1) that by (auto simp: zone_ok_def list_all_iff)
    have "anc n owner \<longleftrightarrow> length n \<le> match_len (canon_key owner) (canon_key qn)"
    proof
      assume "anc n owner"
      then show "length n \<le> match_len (canon_key owner) (canon_key qn)"
        using assms(4) by (intro match_len_max) (auto simp: anc_take)
    next
      assume l: "length n \<le> match_len (canon_key owner) (canon_key qn)"
      have "take (length n) (canon_key owner) = take (length n) (canon_key qn)"
        using match_len_take l by (rule take_shorter)
      moreover have "length n \<le> length owner"
        using l match_len_le(1) [of "canon_key owner" "canon_key qn"] by simp
      ultimately show "anc n owner" using assms(4) by (simp add: anc_take)
    qed
    then show ?thesis using depth_of [OF o assms(2) refl] by simp
  qed
  note eq = this
  have "(case x of (k, owner, nd) \<Rightarrow> \<not> nsec3_only nd \<and> anc n owner) =
      (case x of (k, owner, nd) \<Rightarrow> \<not> nsec3_only nd \<and>
         length n \<le> length (origin z) + match_len (drop (length (origin z)) (canon_key owner))
           (drop (length (origin z)) (canon_key qn)))" if "x \<in> set (records z)" for x
    using eq [of "fst x" "fst (snd x)" "snd (snd x)"] that by (simp add: split_beta)
  then show ?thesis unfolding exists_in_def depths_ex by (rule bex_cong [OF refl])
qed

lemma closest_encloser_sound:
  assumes ok: "zone_ok z" and q: "anc (origin z) qn"
  defines "e \<equiv> closest_encloser z qn"
  shows "anc (origin z) e \<and> anc e qn \<and> e = drop (length qn - length e) qn \<and>
    (exists_in z e \<or> length e = length (origin z)) \<and>
    (\<forall>n. anc n qn \<longrightarrow> exists_in z n \<longrightarrow> length n \<le> length e)"
proof -
  let ?b = "length (origin z)" and ?ds = "depths (canon_key qn) (length (origin z)) (map snd (records z))"
  define best where "best = encloser_loop (canon_key qn) ?b ?b (map snd (records z))"
  have bq: "?b \<le> length (canon_key qn)" using q by (simp add: anc_take)
  have mem: "best = ?b \<or> best \<in> set ?ds" using encloser_loop_mem unfolding best_def by fastforce
  have ge: "?b \<le> best" unfolding best_def by (rule encloser_loop_ge)
  have mx: "d \<le> best" if "d \<in> set ?ds" for d unfolding best_def using bq that by (rule encloser_loop_max)
  have le: "best \<le> length qn" using mem depths_le [OF _ bq, of best] bq by auto
  have e: "e = drop (length qn - best) qn"
    using le by (simp add: e_def closest_encloser_def Let_def best_def [symmetric] slice_from_def flip: of_nat_diff)
  have len: "length e = best" using le by (simp add: e)
  have eq: "anc e qn" using le canon_key_take [of qn best] by (simp add: anc_take len e [symmetric])
  have "anc (origin z) e"
    using q ge le eq by (simp add: anc_take len) (metis min.absorb1 take_take)
  moreover have "exists_in z e \<or> length e = ?b"
    using mem exists_iff_depth [OF ok q _ eq] ge len by auto
  moreover have "length n \<le> length e" if n: "anc n qn" "exists_in z n" for n
  proof (cases "?b \<le> length n")
    case True
    with exists_iff_depth [OF ok q True n(1)] n(2) mx len show ?thesis by (meson le_trans)
  qed (use ge len in simp)
  ultimately show ?thesis using eq e len by simp
qed


text \<open>
  C22: the single pass over the owner names finds the closest encloser of a query name in the zone: an
  ancestor of the query name or the name itself, which exists or is the apex, and no existing
  ancestor is longer.
\<close>

theorem closest_encloser_exact:
  assumes "zone_ok z" and "anc (origin z) qn"
  shows "anc (closest_encloser z qn) qn \<and>
    (exists_in z (closest_encloser z qn) \<or> length (closest_encloser z qn) = length (origin z)) \<and>
    (\<forall>n. anc n qn \<longrightarrow> exists_in z n \<longrightarrow> length n \<le> length (closest_encloser z qn))"
  using closest_encloser_sound [OF assms] by blast

subsection \<open>NXDOMAIN\<close>

lemma name_key_cong: "canon_key a = canon_key b \<Longrightarrow> name_key a = name_key b"
proof -
  assume "canon_key a = canon_key b"
  then have m: "map lower a = map lower b" by (simp add: canon_key_def rev_map [symmetric])
  have "name_key n = concat (map (\<lambda>la. word_of_nat (length la) # la) (map lower n)) @ [0]" for n
    by (simp add: name_key_def comp_def)
  then show "name_key a = name_key b" by (simp only: m)
qed

lemma nodata_code: "nodata H z want qn w e = Inr a \<Longrightarrow> a_rcode a = 0 \<and> a_answers a = []"
  by (auto simp: nodata_def rbind_eq_Inr)

lemma answer_at_code: "answer_at H z owner nd qt want synth e = Inr a \<Longrightarrow> a_rcode a = 0"
  using nodata_code by (auto simp: answer_at_def Let_def rbind_eq_Inr split: if_splits)

lemma referral_code: "referral z ct nd = Inr a \<Longrightarrow> a_rcode a = 0 \<and> \<not> a_aa a \<and> a_answers a = []"
  by (auto simp: referral_def rbind_eq_Inr)

lemma nxdomain_code: "nxdomain H z want qn e = Inr a \<Longrightarrow> a_rcode a = 3 \<and> a_answers a = []"
  by (auto simp: nxdomain_def rbind_eq_Inr)

lemma zget_stored:
  assumes "zget z n = Some nd"
  shows "\<exists>owner. (name_key n, owner, nd) \<in> set (records z)"
proof -
  obtain owner where "od_get (name_key n) (records z) = Some (owner, nd)"
    using assms by (auto simp: zget_def)
  then have "(name_key n, owner, nd) \<in> set (records z)" unfolding od_get_def by (rule map_of_SomeD)
  then show ?thesis by blast
qed

lemma same_key_canon: "wf_name a \<Longrightarrow> wf_name b \<Longrightarrow> name_key a = name_key b \<Longrightarrow> canon_key a = canon_key b"
  using name_key_inj [of a b] by (simp add: canon_key_def wf_name_def rev_map [symmetric])

lemma stored_exists:
  assumes "zone_ok z" "wf_name n" "zget z n = Some nd" "\<not> nsec3_only nd"
  shows "exists_in z n"
proof -
  obtain owner where o: "(name_key n, owner, nd) \<in> set (records z)" using zget_stored assms(3) by blast
  then have "wf_name owner" "name_key owner = name_key n" using assms(1) by (auto simp: zone_ok_def list_all_iff)
  then have "canon_key owner = canon_key n" using assms(2) same_key_canon by blast
  then have "anc n owner" by (simp add: anc_def)
  with o assms(4) show ?thesis by (force simp: exists_in_def)
qed

lemma wf_name_drop: "wf_name n \<Longrightarrow> wf_name (drop k n)"
proof (induction k arbitrary: n)
  case (Suc k)
  then show ?case using wf_name_Cons by (cases n) auto
qed simp

lemma encloser_is_name:
  assumes ok: "zone_ok z" and q: "anc (origin z) qn" and w: "wf_name qn" and o: "exists_in z (origin z)"
  shows "name_eq (closest_encloser z qn) qn \<longleftrightarrow> exists_in z qn"
proof -
  let ?e = "closest_encloser z qn"
  note c = closest_encloser_sound [OF ok q]
  have cong: "exists_in z a = exists_in z b" if "canon_key a = canon_key b" for a b
    using that by (simp add: exists_in_def anc_def)
  show ?thesis
  proof
    assume "exists_in z qn"
    moreover have "anc qn qn" by (simp add: anc_def)
    ultimately have "length qn \<le> length ?e" using c by blast
    with c have "?e = qn" by (metis diff_is_0_eq drop0)
    then show "name_eq ?e qn" by (simp add: name_eq_def)
  next
    assume e: "name_eq ?e qn"
    obtain k where "?e = drop k qn" using c by blast
    then have "wf_name ?e" using w by (simp add: wf_name_drop)
    from same_key_canon [OF this w] e have "canon_key ?e = canon_key qn" unfolding name_eq_def by blast
    moreover have "exists_in z ?e"
    proof (cases "exists_in z ?e")
      case False
      then have "length ?e = length (origin z)" using c by blast
      then have "canon_key ?e = canon_key (origin z)" using c by (auto simp: anc_take)
      with o cong show ?thesis by blast
    qed
    ultimately show "exists_in z qn" using cong by blast
  qed
qed

text \<open>
  C9: inside a zone whose apex has records and outside its delegations, the answer is NXDOMAIN
  exactly when the query name does not exist and no wildcard stands at its closest encloser.
\<close>

theorem nxdomain_exact:
  assumes ok: "zone_ok z" and o: "exists_in z (origin z)" and q: "anc (origin z) qn" and w: "wf_name qn"
    and c: "cut_walk z qn qt qn = None" and l: "zlookup H z qn qt want = Inr a"
  shows "a_rcode a = 3 \<longleftrightarrow>
    \<not> exists_in z qn \<and> zget z (wild (closest_encloser z qn)) = None"
proof (cases "\<exists>nd. zget z qn = Some nd \<and> \<not> nsec3_only nd")
  case True
  then obtain nd where nd: "zget z qn = Some nd" "\<not> nsec3_only nd" by blast
  then have "answer_at H z qn nd qt want None None = Inr a" using l c by (simp add: zlookup_def)
  then have "a_rcode a = 0" by (rule answer_at_code)
  with stored_exists [OF ok w nd] show ?thesis by simp
next
  case False
  then have l: "lookup_below H z qn qt want = Inr a"
    using l c by (auto simp: zlookup_def split: option.splits if_splits)
  show ?thesis
  proof (cases "name_eq (closest_encloser z qn) qn")
    case True
    with l have "a_rcode a = 0" using nodata_code by (auto simp: lookup_below_def Let_def)
    with True encloser_is_name [OF ok q w o] show ?thesis by simp
  next
    case ne: False
    then have "\<not> exists_in z qn" using encloser_is_name [OF ok q w o] by blast
    with ne l show ?thesis
      using answer_at_code nxdomain_code
      by (fastforce simp: lookup_below_def Let_def split: option.splits)
  qed
qed


definition demo_zone :: zone where
  "demo_zone = zadd [[119], [97]] T_A (Rd_A [1, 2, 3, 4]) 60
     (zadd [[97]] T_SOA (Rd_SOA [] [] 1 1 1 1 1) 60 (new_zone [[97]]))"

lemma demo_zone_ok: "zone_ok demo_zone" "exists_in demo_zone (origin demo_zone)"
  by (simp_all add: demo_zone_def zadd_def new_zone_def zone_ok_def exists_in_def od_get_def od_keys_def
      wf_name_def wf_label_def MAX_LABEL_def MAX_NAME_def anc_def canon_key_def rdatas_def nsec3_only_def
      type_defs)

theorem nxdomain_exact_witness:
  "\<exists>a. zlookup id demo_zone [[120], [97]] T_A False = Inr a \<and> a_rcode a = 3 \<and>
     \<not> exists_in demo_zone [[120], [97]]"
proof -
  have "case zlookup id demo_zone [[120], [97]] T_A False of Inr a \<Rightarrow> a_rcode a = 3 | _ \<Rightarrow> False"
    by code_simp
  then obtain a where a: "zlookup id demo_zone [[120], [97]] T_A False = Inr a" "a_rcode a = 3"
    by (auto split: sum.splits)
  have "cut_walk demo_zone [[120], [97]] T_A [[120], [97]] = None" by code_simp
  moreover have "anc (origin demo_zone) [[120], [97]]" "wf_name [[120], [97]]"
    by (simp_all add: demo_zone_def zadd_def new_zone_def od_get_def anc_def canon_key_def wf_name_def
        wf_label_def MAX_LABEL_def MAX_NAME_def wire_len_def)
  ultimately show ?thesis using nxdomain_exact [OF demo_zone_ok _ _ _ a(1)] a by blast
qed

theorem closest_encloser_exact_witness:
  "anc (closest_encloser demo_zone [[120], [119], [97]]) [[120], [119], [97]] \<and>
   closest_encloser demo_zone [[120], [119], [97]] = [[119], [97]]"
proof -
  have "anc (origin demo_zone) [[120], [119], [97]]"
    by (simp add: demo_zone_def zadd_def new_zone_def od_get_def anc_def canon_key_def)
  from closest_encloser_exact [OF demo_zone_ok(1) this]
  have "anc (closest_encloser demo_zone [[120], [119], [97]]) [[120], [119], [97]]" by blast
  moreover have "closest_encloser demo_zone [[120], [119], [97]] = [[119], [97]]" by code_simp
  ultimately show ?thesis by blast
qed


subsection \<open>Answers come from the zone\<close>

text \<open>
  A record is backed by the zone when its owner holds it, or when it is what the wildcard \<open>w\<close> holds,
  shown under the query name. Signatures are kept beside the records.
\<close>

definition backed :: "zone \<Rightarrow> name \<Rightarrow> name \<Rightarrow> rr \<Rightarrow> bool" where
  "backed z qn w r \<longleftrightarrow>
     rr_type r = T_RRSIG \<and> rr_rdata r \<in> ran (rrsigs z) \<or>
     rr_rdata r \<in> set (rdatas (rr_type r) (zget_or_empty z (rr_name r))) \<or>
     rr_name r = qn \<and> rr_rdata r \<in> set (rdatas (rr_type r) (zget_or_empty z w))"

lemma attach_sig_backed:
  "list_all (backed z qn w) rrs \<Longrightarrow> list_all (backed z qn w) (attach_sig z rrs n t want shown ttl)"
  by (auto simp: attach_sig_def backed_def zrr_def ran_def split: option.split)

lemma zrr_backed:
  assumes "zget z owner = Some nd" "shown = owner \<or> shown = qn \<and> owner = w" "rd \<in> set (rdatas t nd)"
  shows "backed z qn w (zrr shown t ttl rd)"
  using assms by (auto simp: backed_def zrr_def zget_or_empty_def)

lemma zrrs_backed:
  assumes "zget z owner = Some nd" "shown = owner \<or> shown = qn \<and> owner = w"
  shows "list_all (backed z qn w) (map (zrr shown t ttl) (rdatas t nd))"
  using zrr_backed [OF assms] by (simp add: list_all_iff)

lemma chase_backed:
  assumes "chase z qt want seen cur nd shown ans = Inr ans'" and "list_all (backed z qn w) ans"
    and "zget z cur = Some nd" and "shown = cur \<or> shown = qn \<and> cur = w"
  shows "list_all (backed z qn w) ans'"
  using assms
proof (induction z qt want seen cur nd shown ans arbitrary: ans' rule: chase.induct)
  case (1 z qt want seen cur nd shown ans)
  note eq = "1.prems"(1) [unfolded chase.simps [of z qt want seen cur nd shown ans]]
  show ?case
  proof (cases "od_get T_CNAME nd")
    case None
    with eq "1.prems" show ?thesis by simp
  next
    case c: (Some rds)
    show ?thesis
    proof (cases "\<not> length ans < MAX_CNAME_CHAIN \<or> name_key cur \<in> set seen")
      case True
      with eq c "1.prems" show ?thesis by simp
    next
      case f: False
      then obtain rd rest where rds: "rds = rd # rest" using eq c by (cases rds) auto
      let ?ans = "attach_sig z (ans @ [zrr shown T_CNAME (ttl_of z cur T_CNAME) rd]) cur T_CNAME want (Some shown) None"
      have "rd \<in> set (rdatas T_CNAME nd)" using c rds by (simp add: rdatas_def)
      then have b: "list_all (backed z qn w) ?ans"
        using "1.prems" zrr_backed [OF "1.prems"(3,4)] by (intro attach_sig_backed) simp
      obtain target where t: "rd_name rd = Some target" using eq c f rds by (auto simp: Let_def split: option.splits)
      show ?thesis
      proof (cases "name_key target \<in> set (name_key cur # seen) \<or> \<not> is_subdomain_of target (origin z)")
        case True
        with eq c f rds t b show ?thesis by (simp add: Let_def)
      next
        case g: False
        show ?thesis
        proof (cases "zget z target")
          case None
          with eq c f rds t g b show ?thesis by (simp add: Let_def)
        next
          case n: (Some nxt)
          show ?thesis
          proof (cases "qt \<in> set (od_keys nxt)")
            case True
            with eq c f rds t g n have "ans' = ?ans @ attach_sig z (map (zrr target qt (ttl_of z target qt)) (rdatas qt nxt))
                target qt want None None" by (simp add: Let_def)
            moreover have "list_all (backed z qn w) (attach_sig z (map (zrr target qt (ttl_of z target qt)) (rdatas qt nxt))
                target qt want None None)"
              by (intro attach_sig_backed zrrs_backed [OF n]) simp
            ultimately show ?thesis using b by simp
          next
            case h: False
            have r: "chase z qt want (name_key cur # seen) target nxt target ?ans = Inr ans'"
              using eq c f rds t g n h by (simp add: Let_def)
            show ?thesis by (rule "1.IH" [OF c f rds refl t g n h r b n]) simp
          qed
        qed
      qed
    qed
  qed
qed

lemma answer_at_backed:
  assumes a: "answer_at H z owner nd qt want synth e = Inr a" and nd: "zget z owner = Some nd"
    and s: "name_or synth owner = owner \<or> name_or synth owner = qn \<and> owner = w"
  shows "list_all (backed z qn w) (a_answers a)"
proof -
  let ?shown = "name_or synth owner"
  have c: "list_all (backed z qn w) ans" if "chase z qt want [] owner nd ?shown [] = Inr ans" for ans
    by (rule chase_backed [OF that _ nd s]) simp
  have d: "list_all (backed z qn w)
      (attach_sig z (map (zrr ?shown qt (ttl_of z owner qt)) (rdatas qt nd)) owner qt want (Some ?shown) None)"
    by (intro attach_sig_backed zrrs_backed [OF nd]) (rule s)
  show ?thesis
  proof (cases "\<not> (qt \<noteq> T_CNAME \<and> T_CNAME \<in> set (od_keys nd)) \<and> qt \<notin> set (od_keys nd)")
    case True
    from a [unfolded answer_at_def Let_def if_P [OF True]] have "a_answers a = []"
      by (rule nodata_code [THEN conjunct2])
    then show ?thesis by simp
  next
    case False
    from a [unfolded answer_at_def Let_def if_not_P [OF False]] obtain ans
      where "(if qt \<noteq> T_CNAME \<and> T_CNAME \<in> set (od_keys nd) then chase z qt want [] owner nd ?shown []
          else Inr (attach_sig z (map (zrr ?shown qt (ttl_of z owner qt)) (rdatas qt nd)) owner qt want
                     (Some ?shown) None)) = Inr ans" and "a_answers a = ans"
      unfolding rbind_eq_Inr by auto
    with c d show ?thesis by (simp split: if_splits)
  qed
qed

text \<open>
  C21: whatever is asked, every record in the answer section is one the zone holds under that name,
  or one its wildcard at the closest encloser holds, shown under the query name, or a signature of
  the zone.
\<close>

theorem answers_from_zone:
  assumes "zlookup H z qn qt want = Inr a"
  shows "list_all (backed z qn (wild (closest_encloser z qn))) (a_answers a)"
proof -
  let ?w = "wild (closest_encloser z qn)"
  have below: "list_all (backed z qn ?w) (a_answers a)" if l: "lookup_below H z qn qt want = Inr a"
  proof (cases "name_eq (closest_encloser z qn) qn")
    case True
    with l nodata_code show ?thesis by (auto simp: lookup_below_def Let_def)
  next
    case False
    show ?thesis
    proof (cases "zget z ?w")
      case None
      with False l nxdomain_code show ?thesis by (auto simp: lookup_below_def Let_def)
    next
      case (Some nd)
      with False l have "answer_at H z ?w nd qt want (Some qn) (Some (closest_encloser z qn)) = Inr a"
        by (simp add: lookup_below_def Let_def)
      then show ?thesis using Some by (rule answer_at_backed) (simp add: name_or_def)
    qed
  qed
  show ?thesis
  proof (cases "cut_walk z qn qt qn")
    case (Some c)
    with assms referral_code show ?thesis by (cases c) (auto simp: zlookup_def)
  next
    case None
    show ?thesis
    proof (cases "\<exists>nd. zget z qn = Some nd \<and> \<not> nsec3_only nd")
      case True
      then obtain nd where nd: "zget z qn = Some nd" "\<not> nsec3_only nd" by blast
      with None assms have "answer_at H z qn nd qt want None None = Inr a" by (simp add: zlookup_def)
      then show ?thesis using nd(1) by (rule answer_at_backed) (simp add: name_or_def)
    next
      case False
      with None assms have "lookup_below H z qn qt want = Inr a"
        by (auto simp: zlookup_def split: option.splits if_splits)
      then show ?thesis by (rule below)
    qed
  qed
qed

theorem answers_from_zone_witness:
  "\<exists>a. zlookup id demo_zone [[119], [97]] T_A False = Inr a \<and> length (a_answers a) = 1 \<and>
     list_all (backed demo_zone [[119], [97]] (wild (closest_encloser demo_zone [[119], [97]]))) (a_answers a)"
proof -
  have "case zlookup id demo_zone [[119], [97]] T_A False of Inr a \<Rightarrow> length (a_answers a) = 1 | _ \<Rightarrow> False"
    by code_simp
  then obtain a where a: "zlookup id demo_zone [[119], [97]] T_A False = Inr a" "length (a_answers a) = 1"
    by (auto split: sum.splits)
  with answers_from_zone [OF a(1)] show ?thesis by blast
qed

end
