(* ===== verification/Zone_Update.thy ===== *)
theory Zone_Update
  imports Zone_Props Wire_Message_Safe
begin

section \<open>Dynamic update\<close>

text \<open>
  Models \<^verbatim>\<open>trench/auth_zone/update.py\<close> (RFC 2136). The text that records are compared by
  is \<open>T\<close>, an instance of \<^const>\<open>rdata_text\<close>; the signer that a signed zone is handed to is the
  argument \<open>sign\<close>. An update returns the zone it leaves behind together with the response code or
  the exception it ended in, because an exception does not undo what was applied before it.
\<close>

definition C_IN :: int where "C_IN = 1"
definition C_NONE :: int where "C_NONE = 254"
definition C_ANY :: int where "C_ANY = 255"
definition T_ANY :: int where "T_ANY = 255"
definition MAX_JOURNAL :: nat where "MAX_JOURNAL = 64"

lemmas class_defs = C_IN_def C_NONE_def C_ANY_def T_ANY_def

subsection \<open>Policy and prerequisites\<close>

record update_policy =
  up_allow :: bool
  up_names :: "name list option"

definition permits :: "update_policy \<Rightarrow> zone \<Rightarrow> name \<Rightarrow> bool" where
  "permits p z n =
     (if \<not> up_allow p \<or> \<not> is_subdomain_of n (origin z) then False
      else (case up_names p of None \<Rightarrow> True | Some ns \<Rightarrow> list_ex (name_eq n) ns))"

definition rdata_set :: "(rdata \<Rightarrow> ustr result) \<Rightarrow> rr list \<Rightarrow> name \<Rightarrow> int \<Rightarrow> ustr set result" where
  "rdata_set T rrs n t =
     rbind (rmap (\<lambda>r. T (rr_rdata r)) (filter (\<lambda>r. name_eq (rr_name r) n \<and> rr_type r = t) rrs))
       (\<lambda>xs. Inr (set xs))"

definition prerequisite :: "(rdata \<Rightarrow> ustr result) \<Rightarrow> zone \<Rightarrow> rr list \<Rightarrow> rr \<Rightarrow> int result" where
  "prerequisite T z prereqs r =
     (if rr_ttl r \<noteq> 0 then Inr 1
      else
        let nd = zget_or_empty z (rr_name r); t = rr_type r; present = t \<in> set (od_keys nd)
        in if rr_class r = C_ANY
           then Inr (if t = T_ANY then (if nd = [] then 3 else 0) else if \<not> present then 8 else 0)
           else if rr_class r = C_NONE
           then Inr (if t = T_ANY then (if nd \<noteq> [] then 6 else 0) else if present then 7 else 0)
           else rbind (rdata_set T prereqs (rr_name r) t) (\<lambda>want.
                rbind (rmap T (rdatas t nd)) (\<lambda>have.
                  Inr (if want \<noteq> set have then 8 else 0))))"

fun prerequisites :: "(rdata \<Rightarrow> ustr result) \<Rightarrow> zone \<Rightarrow> rr list \<Rightarrow> rr list \<Rightarrow> int result" where
  "prerequisites T z prereqs [] = Inr 0"
| "prerequisites T z prereqs (r # rs) =
     rbind (prerequisite T z prereqs r) (\<lambda>rc. if rc \<noteq> 0 then Inr rc else prerequisites T z prereqs rs)"

definition check_prerequisites :: "(rdata \<Rightarrow> ustr result) \<Rightarrow> zone \<Rightarrow> rr list \<Rightarrow> int result" where
  "check_prerequisites T z prereqs = prerequisites T z prereqs prereqs"

subsection \<open>Applying one record\<close>

text \<open>\<^verbatim>\<open>all(rd.to_text() != rr.rdata.to_text() for rd in existing)\<close>\<close>

fun not_among :: "(rdata \<Rightarrow> ustr result) \<Rightarrow> rdata \<Rightarrow> rdata list \<Rightarrow> bool result" where
  "not_among T x [] = Inr True"
| "not_among T x (rd # rds) =
     rbind (T rd) (\<lambda>a. rbind (T x) (\<lambda>b. if a = b then Inr False else not_among T x rds))"

text \<open>\<^verbatim>\<open>[rd for rd in rds if rd.to_text() != rr.rdata.to_text()]\<close>\<close>

fun keep_others :: "(rdata \<Rightarrow> ustr result) \<Rightarrow> rdata \<Rightarrow> rdata list \<Rightarrow> rdata list result" where
  "keep_others T x [] = Inr []"
| "keep_others T x (rd # rds) =
     rbind (T rd) (\<lambda>a. rbind (T x) (\<lambda>b. rbind (keep_others T x rds) (\<lambda>ks.
       Inr (if a = b then ks else rd # ks))))"

text \<open>The node of a name becomes \<open>nd\<close>; a node without records leaves the zone.\<close>

definition put_node :: "name \<Rightarrow> node \<Rightarrow> zone \<Rightarrow> zone" where
  "put_node n nd z =
     z\<lparr>records := (if nd = [] then od_pop (name_key n) (records z)
                   else (case od_get (name_key n) (records z) of
                           Some (owner, _) \<Rightarrow> od_set (name_key n) (owner, nd) (records z)
                         | None \<Rightarrow> records z))\<rparr>"

definition deleted :: "name \<Rightarrow> int \<Rightarrow> rdata \<Rightarrow> rr" where
  "deleted n t rd = \<lparr>rr_name = n, rr_type = t, rr_class = 1, rr_ttl = 0, rr_rdata = rd\<rparr>"

type_synonym changes = "zone \<times> rr list \<times> rr list"

definition apex_kept :: "zone \<Rightarrow> name \<Rightarrow> int \<Rightarrow> bool" where
  "apex_kept z n t \<longleftrightarrow> name_eq n (origin z) \<and> (t = T_SOA \<or> t = T_NS)"

definition delete_name :: "name \<Rightarrow> changes \<Rightarrow> changes" where
  "delete_name n = (\<lambda>(z, dels, adds).
     (let nd = zget_or_empty z n
      in if nd = [] then (z, dels, adds)
         else (put_node n (filter (\<lambda>(t, _). apex_kept z n t) nd) z,
               dels @ concat (map (\<lambda>(t, rds). map (deleted n t) rds) (filter (\<lambda>(t, _). \<not> apex_kept z n t) nd)),
               adds)))"

definition delete_rrset :: "name \<Rightarrow> int \<Rightarrow> changes \<Rightarrow> changes" where
  "delete_rrset n t = (\<lambda>(z, dels, adds).
     (let nd = zget_or_empty z n
      in if apex_kept z n t \<or> t \<notin> set (od_keys nd) then (z, dels, adds)
         else ((put_node n (od_pop t nd) z)\<lparr>rrsigs := (rrsigs z)((name_key n, t) := None)\<rparr>,
               dels @ map (deleted n t) (rdatas t nd), adds)))"

definition delete_record :: "(rdata \<Rightarrow> ustr result) \<Rightarrow> rr \<Rightarrow> changes \<Rightarrow> changes result" where
  "delete_record T r = (\<lambda>(z, dels, adds).
     (let n = rr_name r; t = rr_type r; nd = zget_or_empty z n
      in if name_eq n (origin z) \<and> t = T_SOA then Inr (z, dels, adds)
         else if name_eq n (origin z) \<and> t = T_NS \<and> nd \<noteq> [] \<and> length (rdatas T_NS nd) \<le> 1
         then Inr (z, dels, adds)
         else if t \<notin> set (od_keys nd) then Inr (z, dels, adds)
         else rbind (keep_others T (rr_rdata r) (rdatas t nd)) (\<lambda>keep.
           Inr (put_node n (if keep \<noteq> [] then od_set t keep nd else od_pop t nd) z,
                (if length keep \<noteq> length (rdatas t nd) then dels @ [deleted n t (rr_rdata r)] else dels), adds))))"

definition add_record :: "(rdata \<Rightarrow> ustr result) \<Rightarrow> rr \<Rightarrow> changes \<Rightarrow> changes result" where
  "add_record T r = (\<lambda>(z, dels, adds).
     rbind (not_among T (rr_rdata r) (rdatas (rr_type r) (zget_or_empty z (rr_name r)))) (\<lambda>new.
       Inr (if new then (zadd (rr_name r) (rr_type r) (rr_rdata r) (rr_ttl r) z, dels, adds @ [r])
            else (z, dels, adds))))"

definition apply_one :: "(rdata \<Rightarrow> ustr result) \<Rightarrow> rr \<Rightarrow> changes \<Rightarrow> changes result" where
  "apply_one T r c =
     (if rr_class r = C_ANY
      then Inr (if rr_type r = T_ANY then delete_name (rr_name r) c
                else delete_rrset (rr_name r) (rr_type r) c)
      else if rr_class r = C_NONE then delete_record T r c
      else add_record T r c)"

subsection \<open>Applying an update\<close>

fun apply_all :: "(rdata \<Rightarrow> ustr result) \<Rightarrow> rr list \<Rightarrow> changes \<Rightarrow> changes \<times> error option" where
  "apply_all T [] c = (c, None)"
| "apply_all T (r # rs) c =
     (case apply_one T r c of Inl e \<Rightarrow> (c, Some e) | Inr c' \<Rightarrow> apply_all T rs c')"

definition soa_serial_of :: "rdata \<Rightarrow> int result" where
  "soa_serial_of rd = (case rd of Rd_SOA _ _ s _ _ _ _ \<Rightarrow> Inr s | _ \<Rightarrow> Inl AttributeError)"

definition set_serial :: "int \<Rightarrow> rdata \<Rightarrow> rdata" where
  "set_serial s rd = (case rd of Rd_SOA m r _ rf rt e mi \<Rightarrow> Rd_SOA m r s rf rt e mi | _ \<Rightarrow> rd)"

text \<open>The SOA record is changed in place: it is the first of its apex_slot at the apex.\<close>

definition bump_serial :: "zone \<Rightarrow> (zone \<times> int \<times> int) result" where
  "bump_serial z =
     (let nd = zget_or_empty z (origin z)
      in case rdatas T_SOA nd of
           [] \<Rightarrow> Inl AttributeError
         | rd # rds \<Rightarrow> rbind (soa_serial_of rd) (\<lambda>old.
             let new = (old + 1) AND 0xFFFFFFFF
             in Inr (put_node (origin z) (od_set T_SOA (set_serial new rd # rds) nd) z, old, new)))"

definition add_journal :: "int \<Rightarrow> int \<Rightarrow> rr list \<Rightarrow> rr list \<Rightarrow> zone \<Rightarrow> zone" where
  "add_journal old new dels adds z =
     (let j = journal z @ [\<lparr>d_from = old, d_to = new, d_delete = dels, d_add = adds\<rparr>]
      in z\<lparr>journal := drop (length j - MAX_JOURNAL) j\<rparr>)"

definition DNSSEC_TYPES :: "int list" where
  "DNSSEC_TYPES = [T_NSEC, T_NSEC3, T_NSEC3PARAM, 48, 59, 60]"

text \<open>Strip what the signer made, on a copy, and sign again; a failing signer leaves the zone alone.\<close>

definition strip_dnssec :: "zone \<Rightarrow> zone" where
  "strip_dnssec z =
     z\<lparr>records := filter (\<lambda>(_, _, nd). nd \<noteq> [])
          (map (\<lambda>(k, owner, nd). (k, owner, filter (\<lambda>(t, _). t \<notin> set DNSSEC_TYPES) nd)) (records z)),
        ttls := (\<lambda>(k, t). if t \<in> set DNSSEC_TYPES \<and> k \<in> set (od_keys (records z)) then None else ttls z (k, t)),
        rrsigs := (\<lambda>_. None), signed := False\<rparr>"

definition resign :: "(zone \<Rightarrow> zone result) \<Rightarrow> zone \<Rightarrow> zone \<times> error option" where
  "resign sign z =
     (case sign (strip_dnssec z) of
        Inl e \<Rightarrow> (z, Some e)
      | Inr s \<Rightarrow> (z\<lparr>records := records s, ttls := ttls s, rrsigs := rrsigs s, signed := signed s,
                    nsec3_salt := nsec3_salt s, nsec3_iterations := nsec3_iterations s\<rparr>, None))"

text \<open>The loop that authorises every record, and the one that checks classes.\<close>

fun authorise :: "update_policy \<Rightarrow> zone \<Rightarrow> rr list \<Rightarrow> int" where
  "authorise p z [] = 0"
| "authorise p z (r # rs) =
     (if \<not> is_subdomain_of (rr_name r) (origin z) then 10
      else if \<not> permits p z (rr_name r) then 5
      else authorise p z rs)"

definition commit :: "(rdata \<Rightarrow> ustr result) \<Rightarrow> (zone \<Rightarrow> zone result) \<Rightarrow> rr list \<Rightarrow> zone \<Rightarrow> zone \<times> int result" where
  "commit T sign rrs z =
     (case apply_all T rrs (z, [], []) of
        ((z', dels, adds), Some e) \<Rightarrow> (z', Inl e)
      | ((z', dels, adds), None) \<Rightarrow>
          if adds = [] \<and> dels = [] then (z', Inr 0)
          else (case bump_serial z' of
                  Inl e \<Rightarrow> (z', Inl e)
                | Inr (z2, old, new) \<Rightarrow>
                    let z3 = add_journal old new dels adds z2
                    in if signed z3
                       then (case resign sign z3 of (z4, Some e) \<Rightarrow> (z4, Inl e) | (z4, None) \<Rightarrow> (z4, Inr 0))
                       else (z3, Inr 0)))"

definition apply_update :: "(rdata \<Rightarrow> ustr result) \<Rightarrow> (zone \<Rightarrow> zone result) \<Rightarrow> update_policy \<Rightarrow> message \<Rightarrow> zone \<Rightarrow>
    zone \<times> int result" where
  "apply_update T sign p msg z =
     (case first_question msg of
        None \<Rightarrow> (z, Inr 1)
      | Some q \<Rightarrow>
          if qtype q \<noteq> T_SOA then (z, Inr 1)
          else if \<not> name_eq (origin z) (qname q) then (z, Inr 9)
          else (case check_prerequisites T z (answers msg) of
                  Inl e \<Rightarrow> (z, Inl e)
                | Inr rc \<Rightarrow>
                    if rc \<noteq> 0 then (z, Inr rc)
                    else if authorise p z (authority msg) \<noteq> 0 then (z, Inr (authorise p z (authority msg)))
                    else if \<not> list_all (\<lambda>r. rr_class r \<in> {C_IN, C_ANY, C_NONE}) (authority msg) then (z, Inr 1)
                    else if soa z = None then (z, Inr 2)
                    else commit T sign (authority msg) z))"


subsection \<open>A refused update changes nothing\<close>

lemma commit_code: "commit T sign rrs z = (z', Inr rc) \<Longrightarrow> rc = 0"
  by (auto simp: commit_def Let_def split: prod.splits option.splits if_splits sum.splits)

text \<open>
  C24: an update answered with any code but NOERROR, because a prerequisite fails, a record is outside
  the zone or the policy, or a class is foreign, leaves the zone as it was.
\<close>

theorem refused_update_changes_nothing:
  assumes "apply_update T sign p msg z = (z', Inr rc)" and "rc \<noteq> 0"
  shows "z' = z"
  using assms commit_code by (fastforce simp: apply_update_def split: option.splits if_splits sum.splits)

subsection \<open>The apex survives\<close>

definition apex_slot :: "zone \<Rightarrow> int \<Rightarrow> rdata list" where
  "apex_slot z t = rdatas t (zget_or_empty z (origin z))"

definition is_soa :: "rdata \<Rightarrow> bool" where
  "is_soa rd = (case rd of Rd_SOA _ _ _ _ _ _ _ \<Rightarrow> True | _ \<Rightarrow> False)"

text \<open>The apex has a SOA record first in its apex_slot and name servers, no two of the same text.\<close>

definition apex_ok :: "(rdata \<Rightarrow> ustr result) \<Rightarrow> zone \<Rightarrow> bool" where
  "apex_ok T z \<longleftrightarrow>
     apex_slot z T_SOA \<noteq> [] \<and> is_soa (hd (apex_slot z T_SOA)) \<and> apex_slot z T_NS \<noteq> [] \<and>
     (\<exists>ts. rmap T (apex_slot z T_NS) = Inr ts \<and> distinct ts)"

lemma zget_put:
  assumes "zget_or_empty z n \<noteq> []"
  shows "zget_or_empty (put_node n nd z) m = (if name_eq m n then nd else zget_or_empty z m)"
proof -
  obtain owner nd' where g: "od_get (name_key n) (records z) = Some (owner, nd')"
    using assms by (auto simp: zget_or_empty_def zget_def split: option.splits)
  show ?thesis
  proof (cases "nd = []")
    case True
    then show ?thesis by (simp add: put_node_def zget_or_empty_def zget_def od_simps name_eq_def)
  next
    case False
    then show ?thesis by (simp add: put_node_def g zget_or_empty_def zget_def od_simps name_eq_def)
  qed
qed

lemma zget_zadd:
  "zget_or_empty (zadd n t rd ttl z) m =
     (if name_eq m n then od_set t (rdatas t (zget_or_empty z n) @ [rd]) (zget_or_empty z n)
      else zget_or_empty z m)"
  by (auto simp: zadd_def Let_def zget_or_empty_def zget_def od_simps name_eq_def split: option.split prod.split)

lemma put_node_origin [simp]: "origin (put_node n nd z) = origin z" "signed (put_node n nd z) = signed z"
  by (simp_all add: put_node_def)

lemma zadd_origin [simp]: "origin (zadd n t rd ttl z) = origin z" "signed (zadd n t rd ttl z) = signed z"
  by (simp_all add: zadd_def Let_def split: prod.split)

lemma name_eq_sym: "name_eq a b = name_eq b a"
  by (auto simp: name_eq_def)

lemma zget_name_eq: "name_eq a b \<Longrightarrow> zget_or_empty z a = zget_or_empty z b"
  by (simp add: zget_or_empty_def zget_def name_eq_def)

lemma rdatas_simps:
  "rdatas t (od_set t' v nd) = (if t = t' then v else rdatas t nd)"
  "rdatas t (od_pop t' nd) = (if t = t' then [] else rdatas t nd)"
  by (simp_all add: rdatas_def od_simps)

lemma rdatas_filter_keys: "P t \<Longrightarrow> rdatas t (filter (\<lambda>(t, _). P t) nd) = rdatas t nd"
  by (induction nd) (auto simp: rdatas_def od_get_def)

lemma slot_empty: "apex_slot z t = [] \<or> zget_or_empty z (origin z) \<noteq> []"
  by (auto simp: apex_slot_def rdatas_def od_get_def)

lemma apex_ok_cong:
  "apex_slot z' T_SOA = apex_slot z T_SOA \<Longrightarrow> apex_slot z' T_NS = apex_slot z T_NS \<Longrightarrow> apex_ok T z' = apex_ok T z"
  by (simp add: apex_ok_def)

lemma keep_others_texts:
  "keep_others T x rds = Inr ks \<Longrightarrow> T x = Inr b \<Longrightarrow> rmap T rds = Inr ts \<Longrightarrow>
     rmap T ks = Inr (filter (\<lambda>t. t \<noteq> b) ts)"
  by (induction rds arbitrary: ks ts) (auto simp: rbind_eq_Inr split: if_splits)

lemma keep_others_reads: "keep_others T x rds = Inr ks \<Longrightarrow> rds \<noteq> [] \<Longrightarrow> \<exists>b. T x = Inr b"
  by (cases rds) (auto simp: rbind_eq_Inr)

lemma not_among_texts:
  "not_among T x rds = Inr True \<Longrightarrow> rds \<noteq> [] \<Longrightarrow> rmap T rds = Inr ts \<Longrightarrow>
     \<exists>b. T x = Inr b \<and> b \<notin> set ts"
proof (induction rds arbitrary: ts)
  case (Cons rd rds)
  then show ?case by (cases rds) (auto simp: rbind_eq_Inr split: if_splits)
qed simp

lemma rmap_append: "rmap f (xs @ ys) = rbind (rmap f xs) (\<lambda>a. rbind (rmap f ys) (\<lambda>b. Inr (a @ b)))"
proof (induction xs)
  case Nil
  then show ?case by (cases "rmap f ys") auto
next
  case (Cons x xs)
  then show ?case by (cases "f x"; cases "rmap f xs"; cases "rmap f ys") auto
qed

lemma rmap_length: "rmap f xs = Inr ys \<Longrightarrow> length ys = length xs"
  by (induction xs arbitrary: ys) (auto simp: rbind_eq_Inr)

lemma distinct_two: "distinct ts \<Longrightarrow> 1 < length ts \<Longrightarrow> filter (\<lambda>t. t \<noteq> b) ts \<noteq> []"
proof -
  assume d: "distinct ts" and l: "1 < length ts"
  then obtain x y rest where "ts = x # y # rest" by (cases ts; cases "tl ts") auto
  with d show ?thesis by auto
qed

lemma put_slot:
  assumes "zget_or_empty z n \<noteq> []"
  shows "apex_slot (put_node n nd z) t = (if name_eq n (origin z) then rdatas t nd else apex_slot z t)"
  using zget_put [OF assms, of nd "origin z"] by (simp add: apex_slot_def name_eq_sym)

lemma slot_at: "name_eq n (origin z) \<Longrightarrow> apex_slot z t = rdatas t (zget_or_empty z n)"
  by (simp add: apex_slot_def zget_name_eq [of n "origin z"])

lemma delete_record_apex:
  assumes ok: "apex_ok T z" and d: "delete_record T r (z, dels, adds) = Inr (z', dels', adds')"
  shows "apex_ok T z'"
proof (cases "z' = z")
  case False
  let ?n = "rr_name r" and ?t = "rr_type r"
  let ?nd = "zget_or_empty z ?n"
  have g: "\<not> (name_eq ?n (origin z) \<and> ?t = T_SOA)"
    "\<not> (name_eq ?n (origin z) \<and> ?t = T_NS \<and> ?nd \<noteq> [] \<and> length (rdatas T_NS ?nd) \<le> 1)" "?t \<in> set (od_keys ?nd)"
    using d False by (auto simp: delete_record_def Let_def split: if_splits)
  obtain keep where k: "keep_others T (rr_rdata r) (rdatas ?t ?nd) = Inr keep"
    and z': "z' = put_node ?n (if keep \<noteq> [] then od_set ?t keep ?nd else od_pop ?t ?nd) z"
    using d g by (auto simp: delete_record_def Let_def rbind_eq_Inr)
  have ne: "?nd \<noteq> []" using g(3) by (auto simp: od_keys_def)
  show ?thesis
  proof (cases "name_eq ?n (origin z)")
    case at: False
    with z' put_slot [OF ne] ok show ?thesis by (simp add: apex_ok_def)
  next
    case at: True
    have s: "apex_slot z' t = rdatas t (if keep \<noteq> [] then od_set ?t keep ?nd else od_pop ?t ?nd)" for t
      using z' put_slot [OF ne] at by simp
    have soa: "apex_slot z' T_SOA = apex_slot z T_SOA"
      using g(1) at by (simp add: s rdatas_simps slot_at type_defs split: if_splits)
    show ?thesis
    proof (cases "?t = T_NS")
      case False
      have "apex_slot z' T_NS = apex_slot z T_NS" using False by (simp add: s rdatas_simps slot_at [OF at])
      with soa ok show ?thesis by (simp add: apex_ok_def)
    next
      case True
      obtain ts where ts: "rmap T (apex_slot z T_NS) = Inr ts" "distinct ts" using ok by (auto simp: apex_ok_def)
      have long: "1 < length (apex_slot z T_NS)" using g(2) at ne True by (simp add: slot_at)
      have kk: "keep_others T (rr_rdata r) (apex_slot z T_NS) = Inr keep" using k at True by (simp add: slot_at)
      have "apex_slot z T_NS \<noteq> []" using long by auto
      then obtain b where b: "T (rr_rdata r) = Inr b" using keep_others_reads [OF kk] by blast
      have r: "rmap T keep = Inr (filter (\<lambda>t. t \<noteq> b) ts)" by (rule keep_others_texts [OF kk b ts(1)])
      have "1 < length ts" using rmap_length [OF ts(1)] long by simp
      with r have "keep \<noteq> []" using distinct_two [OF ts(2), of b] by auto
      then have "apex_slot z' T_NS = keep" using True by (simp add: s rdatas_simps)
      with soa ok r ts(2) \<open>keep \<noteq> []\<close> show ?thesis by (simp add: apex_ok_def)
    qed
  qed
qed (use ok in simp)

lemma add_record_apex:
  assumes ok: "apex_ok T z" and a: "add_record T r (z, dels, adds) = Inr (z', dels', adds')"
  shows "apex_ok T z'"
proof (cases "z' = z")
  case False
  let ?n = "rr_name r" and ?t = "rr_type r"
  have new: "not_among T (rr_rdata r) (rdatas ?t (zget_or_empty z ?n)) = Inr True"
    and z': "z' = zadd ?n ?t (rr_rdata r) (rr_ttl r) z"
    using a False by (auto simp: add_record_def rbind_eq_Inr split: if_splits)
  have s: "apex_slot z' t = (if name_eq ?n (origin z) \<and> t = ?t then apex_slot z t @ [rr_rdata r] else apex_slot z t)" for t
    using zget_zadd [of ?n ?t "rr_rdata r" "rr_ttl r" z "origin z"]
    by (auto simp: z' apex_slot_def rdatas_simps name_eq_sym [of "origin z"] zget_name_eq [of ?n "origin z"])
  show ?thesis
  proof (cases "name_eq ?n (origin z) \<and> ?t = T_NS")
    case False
    with s ok show ?thesis by (auto simp: apex_ok_def type_defs)
  next
    case True
    obtain ts where ts: "rmap T (apex_slot z T_NS) = Inr ts" "distinct ts" using ok by (auto simp: apex_ok_def)
    have "apex_slot z T_NS = rdatas ?t (zget_or_empty z ?n)" using True slot_at [of ?n z T_NS] by simp
    with new have "not_among T (rr_rdata r) (apex_slot z T_NS) = Inr True" by (simp only:)
    then obtain b where "T (rr_rdata r) = Inr b" "b \<notin> set ts"
      using not_among_texts [OF _ _ ts(1)] ok by (auto simp: apex_ok_def)
    with ts have "rmap T (apex_slot z T_NS @ [rr_rdata r]) = Inr (ts @ [b])" "distinct (ts @ [b])"
      by (simp_all add: rmap_append)
    with True s ok show ?thesis by (auto simp: apex_ok_def type_defs)
  qed
qed (use ok in simp)

lemma delete_rrset_apex:
  assumes ok: "apex_ok T z" and d: "delete_rrset n t (z, dels, adds) = (z', dels', adds')"
  shows "apex_ok T z'"
proof (cases "apex_kept z n t \<or> t \<notin> set (od_keys (zget_or_empty z n))")
  case True
  with d ok show ?thesis by (auto simp: delete_rrset_def Let_def)
next
  case False
  then have ne: "zget_or_empty z n \<noteq> []" by (auto simp: od_keys_def)
  have r: "apex_slot (x\<lparr>rrsigs := y\<rparr>) t' = apex_slot x t'" for x y t'
    by (simp add: apex_slot_def zget_or_empty_def zget_def)
  have "apex_slot z' t' = (if name_eq n (origin z) then rdatas t' (od_pop t (zget_or_empty z n)) else apex_slot z t')" for t'
    using d False put_slot [OF ne] by (auto simp: delete_rrset_def Let_def r)
  then have "apex_slot z' T_SOA = apex_slot z T_SOA" "apex_slot z' T_NS = apex_slot z T_NS"
    using False by (auto simp: rdatas_simps slot_at apex_kept_def)
  with ok show ?thesis by (simp add: apex_ok_def)
qed

lemma delete_name_apex:
  assumes ok: "apex_ok T z" and d: "delete_name n (z, dels, adds) = (z', dels', adds')"
  shows "apex_ok T z'"
proof (cases "zget_or_empty z n = []")
  case True
  with d ok show ?thesis by (auto simp: delete_name_def Let_def)
next
  case False
  have "apex_slot z' t = (if name_eq n (origin z) then rdatas t (filter (\<lambda>(t, _). apex_kept z n t) (zget_or_empty z n))
      else apex_slot z t)" for t
    using d False put_slot [OF False] by (auto simp: delete_name_def Let_def)
  then have "apex_slot z' T_SOA = apex_slot z T_SOA" "apex_slot z' T_NS = apex_slot z T_NS"
    using rdatas_filter_keys [of "apex_kept z n"] by (auto simp: slot_at apex_kept_def)
  with ok show ?thesis by (simp add: apex_ok_def)
qed

lemma apply_one_apex:
  assumes "apex_ok T z" and "apply_one T r (z, dels, adds) = Inr (z', dels', adds')"
  shows "apex_ok T z'"
proof -
  consider "apply_one T r (z, dels, adds) = Inr (delete_name (rr_name r) (z, dels, adds))"
    | "apply_one T r (z, dels, adds) = Inr (delete_rrset (rr_name r) (rr_type r) (z, dels, adds))"
    | "apply_one T r (z, dels, adds) = delete_record T r (z, dels, adds)"
    | "apply_one T r (z, dels, adds) = add_record T r (z, dels, adds)"
    unfolding apply_one_def by (cases "rr_class r = C_ANY"; cases "rr_type r = T_ANY"; cases "rr_class r = C_NONE") simp_all
  then show ?thesis
    using assms delete_name_apex [OF assms(1)] delete_rrset_apex [OF assms(1)]
      delete_record_apex [OF assms(1)] add_record_apex [OF assms(1)]
    by cases simp_all
qed

lemma apply_all_apex:
  assumes "apex_ok T z"
  shows "apex_ok T (fst (fst (apply_all T rs (z, dels, adds))))"
  using assms
proof (induction rs arbitrary: z dels adds)
  case (Cons r rs)
  show ?case
  proof (cases "apply_one T r (z, dels, adds)")
    case (Inl e)
    with Cons.prems show ?thesis by simp
  next
    case (Inr c)
    obtain z' dels' adds' where c: "c = (z', dels', adds')" by (cases c)
    with Inr Cons.IH apply_one_apex [OF Cons.prems] show ?thesis by simp
  qed
qed simp


lemma bump_serial_apex:
  assumes ok: "apex_ok T z" and b: "bump_serial z = Inr (z', old, new)"
  shows "apex_ok T z' \<and> signed z' = signed z \<and> journal z' = journal z \<and> origin z' = origin z"
proof -
  let ?nd = "zget_or_empty z (origin z)"
  obtain rd rds where s: "rdatas T_SOA ?nd = rd # rds" using ok by (cases "rdatas T_SOA ?nd") (auto simp: apex_ok_def apex_slot_def)
  have ne: "?nd \<noteq> []" using s by (auto simp: rdatas_def od_get_def)
  have z': "z' = put_node (origin z) (od_set T_SOA (set_serial new rd # rds) ?nd) z"
    using b s by (auto simp: bump_serial_def rbind_eq_Inr Let_def)
  have "apex_slot z' t = rdatas t (od_set T_SOA (set_serial new rd # rds) ?nd)" for t
    using put_slot [OF ne] z' by (simp add: name_eq_def)
  then have "apex_slot z' T_SOA = set_serial new rd # rds" "apex_slot z' T_NS = apex_slot z T_NS"
    by (simp_all add: rdatas_simps apex_slot_def type_defs)
  moreover have "is_soa rd" using ok s by (simp add: apex_ok_def apex_slot_def)
  then have "is_soa (set_serial new rd)" by (simp add: is_soa_def set_serial_def split: rdata.splits)
  ultimately show ?thesis using ok z' by (simp add: apex_ok_def put_node_def)
qed

lemma apply_one_signed:
  "apply_one T r (z, dels, adds) = Inr (z', dels', adds') \<Longrightarrow> signed z' = signed z \<and> journal z' = journal z"
  by (auto simp: apply_one_def delete_name_def delete_rrset_def delete_record_def add_record_def Let_def
      rbind_eq_Inr put_node_def zadd_def split: if_splits prod.splits)

lemma apply_all_signed:
  "signed (fst (fst (apply_all T rs (z, dels, adds)))) = signed z \<and>
   journal (fst (fst (apply_all T rs (z, dels, adds)))) = journal z"
proof (induction rs arbitrary: z dels adds)
  case (Cons r rs)
  show ?case
  proof (cases "apply_one T r (z, dels, adds)")
    case (Inr c)
    obtain z' dels' adds' where c: "c = (z', dels', adds')" by (cases c)
    with Inr Cons.IH [of z' dels' adds'] apply_one_signed show ?thesis by simp
  qed simp
qed simp

lemma add_journal_slots [simp]: "apex_slot (add_journal old new dels adds z) t = apex_slot z t"
  "signed (add_journal old new dels adds z) = signed z"
  by (simp_all add: add_journal_def apex_slot_def zget_or_empty_def zget_def Let_def)

text \<open>
  The signer is an argument of the model; it adds keys, proofs and signatures, and leaves the SOA record
  and the name servers of the apex alone.
\<close>

definition keeps_apex :: "(zone \<Rightarrow> zone result) \<Rightarrow> bool" where
  "keeps_apex sign \<longleftrightarrow> (\<forall>z z'. sign z = Inr z' \<longrightarrow> origin z' = origin z \<and>
     apex_slot z' T_SOA = apex_slot z T_SOA \<and> apex_slot z' T_NS = apex_slot z T_NS)"

lemma strip_get:
  "od_get k rs = Some (owner, nd) \<Longrightarrow> filter (\<lambda>(t, _). P t) nd \<noteq> [] \<Longrightarrow>
     od_get k (filter (\<lambda>(_, _, nd). nd \<noteq> []) (map (\<lambda>(k, owner, nd). (k, owner, filter (\<lambda>(t, _). P t) nd)) rs)) =
       Some (owner, filter (\<lambda>(t, _). P t) nd)"
  by (induction rs) (auto simp: od_get_def split: if_splits)

lemma strip_slot:
  assumes "apex_slot z T_SOA \<noteq> []" "t \<notin> set DNSSEC_TYPES"
  shows "apex_slot (strip_dnssec z) t = apex_slot z t"
proof -
  let ?P = "\<lambda>t. t \<notin> set DNSSEC_TYPES"
  obtain owner nd where g: "od_get (name_key (origin z)) (records z) = Some (owner, nd)"
    using assms(1) by (auto simp: apex_slot_def zget_or_empty_def zget_def rdatas_def od_get_def split: option.splits)
  have k: "rdatas u (filter (\<lambda>(t, _). ?P t) nd) = rdatas u nd" if "?P u" for u
    using that by (rule rdatas_filter_keys)
  have "rdatas T_SOA nd \<noteq> []" using assms(1) g by (simp add: apex_slot_def zget_or_empty_def zget_def)
  moreover have "?P T_SOA" by (simp add: DNSSEC_TYPES_def type_defs)
  ultimately have "filter (\<lambda>(t, _). ?P t) nd \<noteq> []" using k [of T_SOA] by (auto simp: rdatas_def od_get_def)
  from strip_get [OF g this] k [OF assms(2)] g show ?thesis
    by (simp add: apex_slot_def zget_or_empty_def zget_def strip_dnssec_def)
qed

lemma resign_apex:
  assumes "apex_ok T z" "keeps_apex sign"
  shows "apex_ok T (fst (resign sign z))"
proof (cases "sign (strip_dnssec z)")
  case (Inl e)
  with assms(1) show ?thesis by (simp add: resign_def)
next
  case (Inr s)
  let ?z = "fst (resign sign z)"
  have k: "origin s = origin z" "apex_slot s T_SOA = apex_slot (strip_dnssec z) T_SOA"
    "apex_slot s T_NS = apex_slot (strip_dnssec z) T_NS"
    using assms(2) Inr by (auto simp: keeps_apex_def strip_dnssec_def)
  have "apex_slot ?z t = apex_slot s t" for t
    using k(1) by (simp add: resign_def Inr apex_slot_def zget_or_empty_def zget_def)
  moreover have "apex_slot z T_SOA \<noteq> []" using assms(1) by (simp add: apex_ok_def)
  ultimately have "apex_slot ?z T_SOA = apex_slot z T_SOA" "apex_slot ?z T_NS = apex_slot z T_NS"
    using k strip_slot [of z] by (simp_all add: DNSSEC_TYPES_def type_defs)
  with assms(1) show ?thesis using apex_ok_cong by blast
qed

lemma commit_apex:
  assumes ok: "apex_ok T z" and k: "signed z \<longrightarrow> keeps_apex sign"
  shows "apex_ok T (fst (commit T sign rrs z))"
proof -
  obtain z' dels adds e where a: "apply_all T rrs (z, [], []) = ((z', dels, adds), e)" by (metis prod.exhaust)
  have ok': "apex_ok T z'" "signed z' = signed z"
    using apply_all_apex [OF ok, of rrs "[]" "[]"] apply_all_signed [of T rrs z "[]" "[]"] a by simp_all
  show ?thesis
  proof (cases e)
    case (Some x)
    with a ok' show ?thesis by (simp add: commit_def)
  next
    case None
    show ?thesis
    proof (cases "bump_serial z'")
      case (Inl x)
      with a None ok' show ?thesis by (simp add: commit_def)
    next
      case (Inr b)
      obtain z2 old new where b: "b = (z2, old, new)" by (cases b)
      let ?z3 = "add_journal old new dels adds z2"
      have 3: "apex_ok T ?z3" "signed ?z3 = signed z"
        using bump_serial_apex [OF ok'(1) Inr [unfolded b]] apex_ok_cong [of ?z3 z2 T] ok'(2) by simp_all
      then have "apex_ok T (fst (resign sign ?z3))" if "signed z" using k that by (intro resign_apex) simp_all
      with a None ok' Inr b 3 show ?thesis
        by (auto simp: commit_def Let_def split: prod.splits option.splits)
    qed
  qed
qed

lemma apply_update_cases:
  "fst (apply_update T sign p msg z) = z \<or>
   apply_update T sign p msg z = commit T sign (authority msg) z"
  by (simp add: apply_update_def split: option.split sum.split)

lemma apply_update_apex:
  "apex_ok T z \<Longrightarrow> signed z \<longrightarrow> keeps_apex sign \<Longrightarrow> apex_ok T (fst (apply_update T sign p msg z))"
  using apply_update_cases [of T sign p msg z] commit_apex [of T z sign "authority msg"] by auto

lemma apply_update_signed:
  assumes "\<not> signed z"
  shows "\<not> signed (fst (apply_update T sign p msg z))"
proof -
  obtain z' dels adds e where a: "apply_all T (authority msg) (z, [], []) = ((z', dels, adds), e)"
    by (metis prod.exhaust)
  have s: "\<not> signed z'" using apply_all_signed [of T "authority msg" z "[]" "[]"] a assms by simp
  have "\<not> signed z2" if "bump_serial z' = Inr (z2, old, new)" for z2 old new
    using that s by (auto simp: bump_serial_def rbind_eq_Inr Let_def split: list.splits)
  then have "\<not> signed (fst (commit T sign (authority msg) z))"
    using a s by (auto simp: commit_def Let_def split: option.split sum.split)
  then show ?thesis using apply_update_cases [of T sign p msg z] assms by auto
qed

text \<open>
  C23: where the name servers at the apex have distinct texts, and the signer of a signed zone leaves its
  SOA and NS alone, no sequence of updates, accepted, refused or ended by an exception, takes the SOA record or the last name
  server from the apex of the zone. (A name server the zone file lists twice is outside this: see
  \<open>doubled_name_server_lost\<close> below.)
\<close>

theorem apex_survives:
  assumes "apex_ok T z" and "signed z \<longrightarrow> keeps_apex sign"
  shows "apex_ok T (fold (\<lambda>(p, msg) z. fst (apply_update T sign p msg z)) updates z)"
  using assms
proof (induction updates arbitrary: z)
  case (Cons u us)
  obtain p msg where u: "u = (p, msg)" by (cases u)
  show ?case
    using Cons.IH [OF apply_update_apex [OF Cons.prems, of p msg]] apply_update_signed [of z T sign p msg] Cons.prems(2)
    by (auto simp: u)
qed simp

definition update_zone :: zone where
  "update_zone = zadd [[97]] T_NS (Rd_NS [[110]]) 60 demo_zone"

definition update_of :: "rr list \<Rightarrow> message" where
  "update_of rrs = example_message\<lparr>questions := [\<lparr>qname = [[97]], qtype = 6, qclass = 1\<rparr>],
     answers := [], authority := rrs\<rparr>"

definition full_policy :: update_policy where
  "full_policy = \<lparr>up_allow = True, up_names = None\<rparr>"

definition text_of :: "rdata \<Rightarrow> ustr result" where
  "text_of = rdata_text (\<lambda>a. map unat a)"

definition delete_ns :: rr where
  "delete_ns = \<lparr>rr_name = [[97]], rr_type = 2, rr_class = 254, rr_ttl = 0, rr_rdata = Rd_NS [[110]]\<rparr>"

theorem apex_survives_witness:
  "apex_ok text_of update_zone \<and>
   apex_ok text_of (fold (\<lambda>(p, msg) z. fst (apply_update text_of Inr p msg z))
     [(full_policy, update_of [delete_ns])] update_zone)"
proof -
  have "apex_ok text_of update_zone"
  proof -
    have "apex_slot update_zone T_SOA = [Rd_SOA [] [] 1 1 1 1 1]" "apex_slot update_zone T_NS = [Rd_NS [[110]]]" by code_simp+
    moreover have "rmap text_of [Rd_NS [[110]]] = Inr [name_text [[110]]]" by (simp add: text_of_def)
    ultimately show ?thesis by (simp add: apex_ok_def is_soa_def)
  qed
  moreover have "signed update_zone \<longrightarrow> keeps_apex Inr" by (simp add: keeps_apex_def)
  ultimately show ?thesis using apex_survives by blast
qed

text \<open>
  Neither a zone file nor \<^verbatim>\<open>Zone.add\<close> drops a record that is already there. Where the one name server of
  the apex is written twice, the guard of the last one counts two, the deletion by text takes both, and
  the apex is left without a name server.
\<close>

lemma doubled_name_server_lost:
  "let z = zadd [[97]] T_NS (Rd_NS [[110]]) 60 update_zone;
       (z', rc) = apply_update text_of Inr full_policy (update_of [delete_ns]) z
   in apex_slot z T_NS = [Rd_NS [[110]], Rd_NS [[110]]] \<and> (case rc of Inr c \<Rightarrow> c = 0 | _ \<Rightarrow> False) \<and> apex_slot z' T_NS = []"
  by code_simp

theorem refused_update_changes_nothing_witness:
  "\<exists>z'. apply_update text_of Inr full_policy (update_of [delete_ns\<lparr>rr_class := 3\<rparr>]) update_zone = (z', Inr 1) \<and>
     z' = update_zone"
proof -
  have "case snd (apply_update text_of Inr full_policy (update_of [delete_ns\<lparr>rr_class := 3\<rparr>]) update_zone) of
      Inr rc \<Rightarrow> rc = 1 | _ \<Rightarrow> False" by code_simp
  then obtain z' where a: "apply_update text_of Inr full_policy (update_of [delete_ns\<lparr>rr_class := 3\<rparr>]) update_zone
      = (z', Inr 1)" by (cases "apply_update text_of Inr full_policy (update_of [delete_ns\<lparr>rr_class := 3\<rparr>]) update_zone")
      (auto split: sum.splits)
  with refused_update_changes_nothing [OF a] show ?thesis by simp
qed

subsection \<open>Where an update is not atomic\<close>

text \<open>
  A CAA record whose tag is not ASCII has no text. Added where one is already stored, it ends the
  update in an exception after the records before it were applied: they stay, without a new serial
  number or a journal entry.
\<close>

definition bad_caa :: rr where
  "bad_caa = \<lparr>rr_name = [[119], [97]], rr_type = 257, rr_class = 1, rr_ttl = 60, rr_rdata = Rd_CAA 0 [255] [1]\<rparr>"

definition new_address :: rr where
  "new_address = \<lparr>rr_name = [[120], [97]], rr_type = 1, rr_class = 1, rr_ttl = 60, rr_rdata = Rd_A [5, 6, 7, 8]\<rparr>"

lemma failed_update_half_applied:
  "let z1 = fst (apply_update text_of Inr full_policy (update_of [bad_caa]) update_zone);
       (z2, rc) = apply_update text_of Inr full_policy (update_of [new_address, bad_caa]) z1
   in (case rc of Inl e \<Rightarrow> e = UnicodeError | _ \<Rightarrow> False) \<and>
      rdatas T_A (zget_or_empty z2 [[120], [97]]) = [Rd_A [5, 6, 7, 8]] \<and>
      apex_slot z2 T_SOA = apex_slot z1 T_SOA \<and> length (journal z2) = 1"
  by code_simp

text \<open>
  A record added and deleted again by one update is gone from the zone, but the journal names it
  under both, and an incremental transfer applies deletions before additions.
\<close>

lemma journal_of_add_then_delete:
  "let z = fst (apply_update text_of Inr full_policy
       (update_of [new_address, new_address\<lparr>rr_class := 254, rr_ttl := 0\<rparr>]) update_zone)
   in zget_or_empty z [[120], [97]] = [] \<and> map (\<lambda>d. (length (d_delete d), length (d_add d))) (journal z) = [(1, 1)]"
  by code_simp

end
