(* ===== verification/Zone_Transfer.thy ===== *)
theory Zone_Transfer
  imports Zone_Update
begin

section \<open>Zone transfer\<close>

text \<open>
  Models \<^verbatim>\<open>trench/auth_zone/xfr.py\<close>: the record streams of full (AXFR) and incremental
  (IXFR) transfers, their split into messages, the completion test of the receiving side and the
  application of a stream to the zone held, and the choice of zone in
  \<^verbatim>\<open>trench/auth_zone/store.py\<close>. A zone without a SOA record cannot be transferred; the
  code finds that out when it serialises the missing record, the model when it asks for it.
\<close>

subsection \<open>Serial numbers\<close>

definition serial_gt :: "int \<Rightarrow> int \<Rightarrow> bool" where
  "serial_gt a b =
     (if a = b then False else (a < b \<and> b - a > 2 ^ 31) \<or> (a > b \<and> a - b < 2 ^ 31))"

definition the_soa :: "zone \<Rightarrow> rdata result" where
  "the_soa z = (case soa z of Some rd \<Rightarrow> Inr rd | None \<Rightarrow> Inl AttributeError)"

definition xfr_soa_rr :: "zone \<Rightarrow> rr result" where
  "xfr_soa_rr z = rbind (the_soa z) (\<lambda>s. Inr (zrr (origin z) T_SOA (ttl_of z (origin z) T_SOA) s))"

subsection \<open>Full transfer\<close>

definition zone_names :: "zone \<Rightarrow> name list" where
  "zone_names z = sort_key canon_key (map (\<lambda>(_, owner, _). owner) (records z))"

definition sig_rr :: "zone \<Rightarrow> name \<Rightarrow> int \<Rightarrow> rr list" where
  "sig_rr z n t =
     (case rrsigs z (name_key n, t) of Some sg \<Rightarrow> [zrr n T_RRSIG (ttl_of z n t) sg] | None \<Rightarrow> [])"

definition name_rrs :: "zone \<Rightarrow> name \<Rightarrow> rr list" where
  "name_rrs z n =
     (let nd = zget_or_empty z n
      in concat (map (\<lambda>t. if name_eq n (origin z) \<and> t = T_SOA then []
                          else map (zrr n t (ttl_of z n t)) (rdatas t nd) @ sig_rr z n t)
           (sort (od_keys nd))))"

definition axfr_records :: "zone \<Rightarrow> rr list result" where
  "axfr_records z =
     rbind (xfr_soa_rr z) (\<lambda>s.
       Inr ([s] @ concat (map (name_rrs z) (zone_names z)) @ sig_rr z (origin z) T_SOA @ [s]))"

subsection \<open>Splitting into messages\<close>

definition RRS_PER_MSG :: nat where "RRS_PER_MSG = 100"
definition MAX_MSG_BYTES :: nat where "MAX_MSG_BYTES = 60000"

definition xfr_message :: "message \<Rightarrow> rr list \<Rightarrow> message" where
  "xfr_message query batch = (set_flag F_AA True (reply 0 query))\<lparr>answers := batch\<rparr>"

function flush :: "message \<Rightarrow> rr list \<Rightarrow> message list result" where
  "flush query batch =
     (let m = xfr_message query batch
      in if length batch \<le> 1 then Inr [m]
         else (case to_wire None True m of
                 Inl e \<Rightarrow> Inl e
               | Inr d \<Rightarrow>
                   if length d \<le> MAX_MSG_BYTES then Inr [m]
                   else let half = length batch div 2
                        in (case flush query (take half batch) of
                              Inl e \<Rightarrow> Inl e
                            | Inr a \<Rightarrow> (case flush query (drop half batch) of
                                         Inl e \<Rightarrow> Inl e
                                       | Inr b \<Rightarrow> Inr (a @ b)))))"
  by pat_completeness auto
termination by (relation "measure (\<lambda>(query, batch). length batch)") auto

declare flush.simps [simp del]

definition chunk_into_messages :: "message \<Rightarrow> rr list \<Rightarrow> message list result" where
  "chunk_into_messages query rrs =
     (if rrs = [] then Inr [reply 0 query]
      else rbind (rmap (flush query) (chunks RRS_PER_MSG rrs)) (\<lambda>ms. Inr (concat ms)))"

definition axfr_messages :: "message \<Rightarrow> zone \<Rightarrow> message list result" where
  "axfr_messages query z = rbind (axfr_records z) (chunk_into_messages query)"

subsection \<open>Incremental transfer\<close>

fun journal_from :: "int \<Rightarrow> delta list \<Rightarrow> delta list option" where
  "journal_from s [] = None"
| "journal_from s (d # ds) = (if d_from d = s then Some (d # ds) else journal_from s ds)"

definition soa_serial_rr :: "zone \<Rightarrow> int \<Rightarrow> rr result" where
  "soa_serial_rr z serial =
     rbind (the_soa z) (\<lambda>s. rbind (soa_serial_of s) (\<lambda>_.
       Inr (zrr (origin z) T_SOA (ttl_of z (origin z) T_SOA) (set_serial serial s))))"

definition ixfr_step :: "zone \<Rightarrow> delta \<Rightarrow> rr list result" where
  "ixfr_step z d =
     rbind (soa_serial_rr z (d_from d)) (\<lambda>a. rbind (soa_serial_rr z (d_to d)) (\<lambda>b.
       Inr ([a] @ d_delete d @ [b] @ d_add d)))"

definition ixfr_records :: "zone \<Rightarrow> delta list \<Rightarrow> rr list result" where
  "ixfr_records z ds =
     rbind (xfr_soa_rr z) (\<lambda>s. rbind (rmap (ixfr_step z) ds) (\<lambda>steps. Inr ([s] @ concat steps @ [s])))"

definition ixfr_messages :: "message \<Rightarrow> zone \<Rightarrow> int \<Rightarrow> message list result" where
  "ixfr_messages query z client_serial =
     rbind (case soa z of Some s \<Rightarrow> soa_serial_of s | None \<Rightarrow> Inr 0) (\<lambda>cur.
       if \<not> serial_gt cur client_serial then rbind (xfr_soa_rr z) (\<lambda>s. Inr [xfr_message query [s]])
       else (case (if signed z then None else journal_from client_serial (journal z)) of
               None \<Rightarrow> axfr_messages query z
             | Some ds \<Rightarrow> rbind (ixfr_records z ds) (chunk_into_messages query)))"

subsection \<open>The receiving side\<close>

definition build_xfr_query :: "name \<Rightarrow> int \<Rightarrow> int option \<Rightarrow> int \<Rightarrow> message" where
  "build_xfr_query n qt client_serial msgid =
     \<lparr>mid = msgid, mflags = 0, questions = [\<lparr>qname = n, qtype = qt, qclass = 1\<rparr>], answers = [],
      authority = (if qt = 251 \<and> client_serial \<noteq> None
                   then [zrr n T_SOA 0 (Rd_SOA [] [] (the client_serial) 0 0 0 0)] else []),
      additional = [], medns = None\<rparr>"

definition is_soa_rr :: "rr \<Rightarrow> bool" where
  "is_soa_rr r \<longleftrightarrow> rr_type r = T_SOA"

definition rr_serial :: "rr \<Rightarrow> int result" where
  "rr_serial r = soa_serial_of (rr_rdata r)"

definition covered_type :: "rdata \<Rightarrow> int result" where
  "covered_type rd = (case rd of Rd_RRSIG t _ _ _ _ _ _ _ _ \<Rightarrow> Inr t | _ \<Rightarrow> Inl AttributeError)"

fun load_records :: "rr list \<Rightarrow> bool \<Rightarrow> zone \<Rightarrow> zone result" where
  "load_records [] seen z = Inr z"
| "load_records (r # rs) seen z =
     (if is_soa_rr r
      then load_records rs True (if seen then z else zadd (rr_name r) (rr_type r) (rr_rdata r) (rr_ttl r) z)
      else if rr_type r = T_RRSIG
      then rbind (covered_type (rr_rdata r)) (\<lambda>t.
             load_records rs seen (z\<lparr>rrsigs := (rrsigs z)((name_key (rr_name r), t) := Some (rr_rdata r)),
                                      signed := True\<rparr>))
      else load_records rs seen (zadd (rr_name r) (rr_type r) (rr_rdata r) (rr_ttl r) z))"

definition zone_from_records :: "rr list \<Rightarrow> name \<Rightarrow> zone result" where
  "zone_from_records rrs n = load_records rrs False (new_zone n)"

definition ixfr_complete :: "rr list \<Rightarrow> bool result" where
  "ixfr_complete rrs =
     (case rrs of
        [] \<Rightarrow> Inr False
      | r0 # rest \<Rightarrow>
          if \<not> is_soa_rr r0 then Inr False
          else rbind (rr_serial r0) (\<lambda>first.
               rbind (rmap rr_serial (filter is_soa_rr rrs)) (\<lambda>serials.
                 let n_first = length (filter (\<lambda>s. s = first) serials)
                 in case rest of
                      [] \<Rightarrow> Inr True
                    | r1 # _ \<Rightarrow>
                        if \<not> is_soa_rr (last rrs) then Inr False
                        else if is_soa_rr r1
                        then rbind (rr_serial r1) (\<lambda>s1. Inr (if s1 \<noteq> first then n_first \<ge> 3 else n_first \<ge> 2))
                        else Inr (n_first \<ge> 2))))"

definition remove_rr :: "(rdata \<Rightarrow> ustr result) \<Rightarrow> rr \<Rightarrow> zone \<Rightarrow> zone result" where
  "remove_rr T r z =
     (let nd = zget_or_empty z (rr_name r); t = rr_type r
      in if t \<notin> set (od_keys nd) then Inr z
         else rbind (T (rr_rdata r)) (\<lambda>_.
              rbind (keep_others T (rr_rdata r) (rdatas t nd)) (\<lambda>keep.
                Inr (put_node (rr_name r) (if keep \<noteq> [] then od_set t keep nd else od_pop t nd) z))))"

text \<open>The loop over the steps of a delta; the position in the stream is the rest of it.\<close>

function apply_deltas :: "(rdata \<Rightarrow> ustr result) \<Rightarrow> int \<Rightarrow> rr list \<Rightarrow> zone \<Rightarrow> zone result" where
  "apply_deltas T new rrs z =
     (case rrs of
        [] \<Rightarrow> Inr z
      | r # rest \<Rightarrow>
          rbind (if is_soa_rr r then rbind (rr_serial r) (\<lambda>s. Inr (s = new)) else Inr False) (\<lambda>stop.
            if stop then Inr z
            else rbind (rfold (remove_rr T) (takeWhile (\<lambda>x. \<not> is_soa_rr x) rest) z) (\<lambda>z1.
              (case dropWhile (\<lambda>x. \<not> is_soa_rr x) rest of
                 [] \<Rightarrow> Inl ValueError
               | _ # body \<Rightarrow>
                   apply_deltas T new (dropWhile (\<lambda>x. \<not> is_soa_rr x) body)
                     (fold (\<lambda>x. zadd (rr_name x) (rr_type x) (rr_rdata x) (rr_ttl x))
                        (takeWhile (\<lambda>x. \<not> is_soa_rr x) body) z1)))))"
  by pat_completeness auto
termination
proof (relation "measure (\<lambda>(T, new, rrs, z). length rrs)", goal_cases)
  case (2 T new rrs z r rest stop z1 sr body)
  have "length (dropWhile (\<lambda>x. \<not> is_soa_rr x) body) \<le> length body" by (rule length_dropWhile_le)
  moreover have "length (sr # body) \<le> length rest" using length_dropWhile_le 2(3) by metis
  ultimately show ?case using 2(1) by simp
qed simp

declare apply_deltas.simps [simp del]

definition set_soa_serial :: "int \<Rightarrow> zone \<Rightarrow> zone result" where
  "set_soa_serial new z =
     (let nd = zget_or_empty z (origin z)
      in case rdatas T_SOA nd of
           [] \<Rightarrow> Inl ValueError
         | rd # rds \<Rightarrow> Inr (put_node (origin z) (od_set T_SOA (set_serial new rd # rds) nd) z))"

definition apply_ixfr :: "(rdata \<Rightarrow> ustr result) \<Rightarrow> zone option \<Rightarrow> rr list \<Rightarrow> name \<Rightarrow> zone result" where
  "apply_ixfr T current rrs n =
     (case rrs of
        [] \<Rightarrow> Inl ValueError
      | r0 # rest \<Rightarrow>
          if \<not> is_soa_rr r0 then Inl ValueError
          else (case rest of
             [] \<Rightarrow> (case current of None \<Rightarrow> Inl ValueError | Some z \<Rightarrow> Inr z)
           | r1 # _ \<Rightarrow>
               rbind (if \<not> is_soa_rr r1 then Inr True
                      else rbind (rr_serial r1) (\<lambda>s1. rbind (rr_serial r0) (\<lambda>s0. Inr (s1 = s0)))) (\<lambda>full.
                 if full then zone_from_records rrs n
                 else (case current of
                    None \<Rightarrow> Inl ValueError
                  | Some z \<Rightarrow> rbind (rr_serial r0) (\<lambda>new.
                               rbind (apply_deltas T new rest z) (set_soa_serial new))))))"

subsection \<open>Which zone answers\<close>

fun best_zone :: "name \<Rightarrow> zone list \<Rightarrow> zone option \<Rightarrow> int \<Rightarrow> zone option" where
  "best_zone n [] best best_len = best"
| "best_zone n (z # zs) best best_len =
     (if int (length (origin z)) \<le> best_len then best_zone n zs best best_len
      else if soa z \<noteq> None
      then (if is_subdomain_of n (origin z) then best_zone n zs (Some z) (int (length (origin z)))
            else best_zone n zs best best_len)
      else if name_eq n (origin z) then best_zone n zs (Some z) (int (length (origin z)))
      else best_zone n zs best best_len)"

definition authoritative_for :: "zone list \<Rightarrow> name \<Rightarrow> zone option" where
  "authoritative_for zs n = best_zone n zs None (- 1)"

definition store_replace :: "zone \<Rightarrow> zone list \<Rightarrow> zone list" where
  "store_replace z zs = filter (\<lambda>x. \<not> name_eq (origin x) (origin z)) zs @ [z]"

definition store_resolve :: "(bytes \<Rightarrow> bytes) \<Rightarrow> zone list \<Rightarrow> message \<Rightarrow> message option result" where
  "store_resolve H zs query =
     (case first_question query of
        None \<Rightarrow> Inr None
      | Some q \<Rightarrow>
          (case authoritative_for zs (qname q) of
             None \<Rightarrow> Inr None
           | Some z \<Rightarrow>
               rbind (zlookup H z (qname q) (qtype q) (wants_dnssec query)) (\<lambda>ans.
                 Inr (Some ((set_flag F_AA (a_aa ans) (reply (a_rcode ans) query))
                   \<lparr>answers := a_answers ans, authority := a_authority ans,
                    additional := a_additional ans\<rparr>)))))"

end
