(* ===== verification/Zone_Transfer_Props.thy ===== *)
theory Zone_Transfer_Props
  imports Zone_Transfer "HOL-Library.Multiset"
begin

section \<open>What a transfer delivers\<close>

text \<open>
  A transfer carries every record once and in order, each message within its size. The content of a
  zone is the set of its records by name, type and text (all types but SOA): the journal entry of an
  update describes the change of the content, and applying an incremental transfer makes the same
  changes to the content the receiver holds.
\<close>

subsection \<open>Messages carry the stream\<close>

definition fits_message :: "message \<Rightarrow> bool" where
  "fits_message m \<longleftrightarrow> length (answers m) \<le> 1 \<or>
     (case to_wire None True m of Inr d \<Rightarrow> length d \<le> MAX_MSG_BYTES | Inl _ \<Rightarrow> False)"

lemma answers_xfr_message [simp]: "answers (xfr_message query batch) = batch"
  by (simp add: xfr_message_def)

lemma flush_one: "length batch \<le> 1 \<Longrightarrow> flush query batch = Inr [xfr_message query batch]"
  by (simp add: flush.simps [of query batch])

lemma flush_fits:
  "1 < length batch \<Longrightarrow> to_wire None True (xfr_message query batch) = Inr d \<Longrightarrow> length d \<le> MAX_MSG_BYTES \<Longrightarrow>
     flush query batch = Inr [xfr_message query batch]"
  by (simp add: flush.simps [of query batch])

lemma flush_halves:
  assumes "1 < length batch" "to_wire None True (xfr_message query batch) = Inr d" "MAX_MSG_BYTES < length d"
    and "flush query batch = Inr ms"
  obtains a b where "flush query (take (length batch div 2) batch) = Inr a"
    "flush query (drop (length batch div 2) batch) = Inr b" "ms = a @ b"
proof -
  have "flush query batch = (case flush query (take (length batch div 2) batch) of Inl e \<Rightarrow> Inl e
      | Inr a \<Rightarrow> (case flush query (drop (length batch div 2) batch) of Inl e \<Rightarrow> Inl e | Inr b \<Rightarrow> Inr (a @ b)))"
    using assms(1-3) by (subst flush.simps) (simp add: Let_def)
  with assms(4) that show thesis by (simp split: sum.splits)
qed

lemma flush_written:
  assumes "1 < length batch" "flush query batch = Inr ms"
  obtains d where "to_wire None True (xfr_message query batch) = Inr d"
proof (cases "to_wire None True (xfr_message query batch)")
  case (Inl e)
  with assms show ?thesis by (subst (asm) flush.simps) simp
qed (rule that)

lemma flush_carries:
  "flush query batch = Inr ms \<Longrightarrow> concat (map answers ms) = batch \<and> list_all fits_message ms"
proof (induction "length batch" arbitrary: batch ms rule: less_induct)
  case less
  show ?case
  proof (cases "length batch \<le> 1")
    case True
    with less.prems flush_one [OF True] have "ms = [xfr_message query batch]" by simp
    with True show ?thesis by (simp add: fits_message_def)
  next
    case False
    then have long: "1 < length batch" by simp
    obtain d where d: "to_wire None True (xfr_message query batch) = Inr d"
      by (rule flush_written [OF long less.prems])
    show ?thesis
    proof (cases "length d \<le> MAX_MSG_BYTES")
      case True
      with less.prems flush_fits [OF long d True] have "ms = [xfr_message query batch]" by simp
      with d True show ?thesis by (simp add: fits_message_def)
    next
      case False
      then have "MAX_MSG_BYTES < length d" by simp
      then obtain a b where a: "flush query (take (length batch div 2) batch) = Inr a"
        and b: "flush query (drop (length batch div 2) batch) = Inr b" and ms: "ms = a @ b"
        by (rule flush_halves [OF long d _ less.prems])
      have "concat (map answers a) = take (length batch div 2) batch \<and> list_all fits_message a"
        by (rule less.hyps [OF _ a]) (use long in simp)
      moreover have "concat (map answers b) = drop (length batch div 2) batch \<and> list_all fits_message b"
        by (rule less.hyps [OF _ b]) (use long in simp)
      ultimately show ?thesis unfolding ms by simp
    qed
  qed
qed

lemma flush_all_carries:
  "rmap (flush query) bs = Inr mss \<Longrightarrow>
     concat (map answers (concat mss)) = concat bs \<and> list_all fits_message (concat mss)"
proof (induction bs arbitrary: mss)
  case (Cons b bs)
  then obtain ms rest where "flush query b = Inr ms" "rmap (flush query) bs = Inr rest" "mss = ms # rest"
    by (auto simp: rbind_eq_Inr)
  with Cons.IH [of rest] flush_carries [of query b ms] show ?case by simp
qed simp

subsection \<open>The stream is the zone\<close>

text \<open>
  What a zone has to say beside its SOA record, entry by entry of its store: every record of every set it
  holds, with the time to live of the set, and the signature it holds of that set. A dictionary has every
  key once, and a node is filed under the key of its name.
\<close>

definition store_ok :: "zone \<Rightarrow> bool" where
  "store_ok z \<longleftrightarrow> distinct (map fst (records z)) \<and>
     list_all (\<lambda>(k, owner, nd). k = name_key owner \<and> distinct (map fst nd)) (records z)"

definition other_sets :: "zone \<Rightarrow> (name \<times> int \<times> rdata list) list" where
  "other_sets z = [(owner, t, rds). (k, owner, nd) \<leftarrow> records z, (t, rds) \<leftarrow> nd, \<not> (k = name_key (origin z) \<and> t = T_SOA)]"

definition set_records :: "zone \<Rightarrow> name \<times> int \<times> rdata list \<Rightarrow> rr list" where
  "set_records z = (\<lambda>(owner, t, rds).
     map (\<lambda>rd. \<lparr>rr_name = owner, rr_type = t, rr_class = 1, rr_ttl = ttl_of z owner t, rr_rdata = rd\<rparr>) rds)"

definition set_signature :: "zone \<Rightarrow> name \<times> int \<times> rdata list \<Rightarrow> rr list" where
  "set_signature z = (\<lambda>(owner, t, _). case rrsigs z (name_key owner, t) of None \<Rightarrow> []
     | Some sg \<Rightarrow> [\<lparr>rr_name = owner, rr_type = 46, rr_class = 1, rr_ttl = ttl_of z owner t, rr_rdata = sg\<rparr>])"

lemma mset_concat_cong: "mset xs = mset ys \<Longrightarrow> mset (concat (map f xs)) = mset (concat (map f ys))"
proof -
  have "mset (concat (map f zs)) = sum_mset (image_mset (\<lambda>x. mset (f x)) (mset zs))" for zs by (induction zs) simp_all
  then show "mset xs = mset ys \<Longrightarrow> ?thesis" by simp
qed

lemma mset_concat_pointwise:
  "(\<And>x. x \<in> set xs \<Longrightarrow> mset (f x) = mset (g x)) \<Longrightarrow> mset (concat (map f xs)) = mset (concat (map g xs))"
  by (induction xs) simp_all

lemma mset_concat_split:
  "mset (concat (map (\<lambda>x. f x @ g x) xs)) = mset (concat (map f xs)) + mset (concat (map g xs))"
  by (induction xs) simp_all

lemma node_once:
  "distinct (map fst nd) \<Longrightarrow> concat (map (\<lambda>t. f t (rdatas t nd)) (map fst nd)) = concat (map (\<lambda>(t, rds). f t rds) nd)"
  by (rule arg_cong [where f = concat]) (auto simp: rdatas_def od_get_def)

lemma stored_node:
  assumes "store_ok z" "(k, owner, nd) \<in> set (records z)"
  shows "zget_or_empty z owner = nd" "distinct (map fst nd)" "k = name_key owner"
proof -
  show k: "k = name_key owner" and "distinct (map fst nd)" using assms by (auto simp: store_ok_def list_all_iff)
  have "map_of (records z) k = Some (owner, nd)" using assms by (intro map_of_is_SomeI) (simp_all add: store_ok_def)
  then show "zget_or_empty z owner = nd" using k by (simp add: zget_or_empty_def zget_def od_get_def)
qed

definition node_stream :: "zone \<Rightarrow> bytes \<times> name \<times> node \<Rightarrow> rr list" where
  "node_stream z = (\<lambda>(k, owner, nd). concat (map (\<lambda>(t, rds). if k = name_key (origin z) \<and> t = T_SOA then []
     else set_records z (owner, t, rds) @ set_signature z (owner, t, rds)) nd))"

lemma name_rrs_node:
  assumes "store_ok z" "(k, owner, nd) \<in> set (records z)"
  shows "mset (name_rrs z owner) = mset (node_stream z (k, owner, nd))"
proof -
  note n = stored_node [OF assms]
  let ?f = "\<lambda>t rds. if name_eq owner (origin z) \<and> t = T_SOA then []
    else map (zrr owner t (ttl_of z owner t)) rds @ sig_rr z owner t"
  have "mset (name_rrs z owner) = mset (concat (map (\<lambda>t. ?f t (rdatas t nd)) (sort (od_keys nd))))"
    by (simp only: name_rrs_def n(1) Let_def)
  also have "\<dots> = mset (concat (map (\<lambda>t. ?f t (rdatas t nd)) (od_keys nd)))" by (rule mset_concat_cong) simp
  also have "\<dots> = mset (concat (map (\<lambda>(t, rds). ?f t rds) nd))"
    unfolding od_keys_def node_once [OF n(2), where f = ?f] ..
  also have "\<dots> = mset (node_stream z (k, owner, nd))"
    unfolding node_stream_def prod.case
    by (rule arg_cong [where f = "\<lambda>h. mset (concat (map h nd))"])
      (auto simp: fun_eq_iff n(3) name_eq_def set_records_def set_signature_def sig_rr_def zrr_def T_RRSIG_def
        split: option.split)
  finally show ?thesis .
qed

lemma stream_sets:
  "mset (concat (map (node_stream z) (records z))) =
     mset (concat (map (set_records z) (other_sets z))) + mset (concat (map (set_signature z) (other_sets z)))"
proof -
  let ?h = "\<lambda>x. set_records z x @ set_signature z x"
  let ?P = "\<lambda>k t. \<not> (k = name_key (origin z) \<and> t = T_SOA)"
  have n: "concat (map ?h (concat (map (\<lambda>(t, rds). if ?P k t then [(owner, t, rds)] else []) nd))) =
      node_stream z (k, owner, nd)" for k owner and nd :: node
    by (induction nd) (auto simp: node_stream_def)
  have "concat (map ?h (concat (map (\<lambda>(k, owner, nd). concat (map (\<lambda>(t, rds). if ?P k t then [(owner, t, rds)] else []) nd)) rs))) =
      concat (map (node_stream z) rs)" for rs :: "(bytes \<times> name \<times> node) list"
    by (induction rs) (auto simp del: de_Morgan_conj simp: n)
  then have "concat (map ?h (other_sets z)) = concat (map (node_stream z) (records z))" unfolding other_sets_def .
  then show ?thesis by (simp flip: mset_concat_split)
qed

lemma axfr_content:
  assumes "store_ok z" "axfr_records z = Inr rrs"
  shows "\<exists>s body. soa z = Some s \<and> rrs = zrr (origin z) T_SOA (ttl_of z (origin z) T_SOA) s # body @
      [zrr (origin z) T_SOA (ttl_of z (origin z) T_SOA) s] \<and>
    mset body = mset (concat (map (set_records z) (other_sets z))) + mset (concat (map (set_signature z) (other_sets z))) +
      mset (set_signature z (origin z, T_SOA, []))"
proof -
  obtain s where s: "soa z = Some s"
    "rrs = [zrr (origin z) T_SOA (ttl_of z (origin z) T_SOA) s] @ concat (map (name_rrs z) (zone_names z)) @
      sig_rr z (origin z) T_SOA @ [zrr (origin z) T_SOA (ttl_of z (origin z) T_SOA) s]"
    using assms(2) by (auto simp: axfr_records_def xfr_soa_rr_def the_soa_def rbind_eq_Inr split: option.splits)
  let ?owner = "\<lambda>(_, owner, _). owner"
  have "mset (concat (map (name_rrs z) (zone_names z))) = mset (concat (map (name_rrs z) (map ?owner (records z))))"
    by (rule mset_concat_cong) (simp add: zone_names_def)
  also have "\<dots> = mset (concat (map (\<lambda>x. name_rrs z (?owner x)) (records z)))" by (simp add: comp_def)
  also have "\<dots> = mset (concat (map (node_stream z) (records z)))"
    by (rule mset_concat_pointwise) (auto simp: name_rrs_node [OF assms(1)])
  also note stream_sets
  finally have m: "mset (concat (map (name_rrs z) (zone_names z))) =
    mset (concat (map (set_records z) (other_sets z))) + mset (concat (map (set_signature z) (other_sets z)))" .
  have g: "sig_rr z (origin z) T_SOA = set_signature z (origin z, T_SOA, [])"
    by (simp add: sig_rr_def set_signature_def zrr_def T_RRSIG_def split: option.split)
  show ?thesis using s m by (intro exI [of _ s] exI [of _ "concat (map (name_rrs z) (zone_names z)) @ sig_rr z (origin z) T_SOA"])
    (simp add: g)
qed

text \<open>
  C25: the messages of a full transfer carry, in their order, the apex SOA first, then every record of
  every other set the zone holds, exactly as often as it holds it, and the signature of every set exactly
  once, that of the SOA among them, and the apex SOA again: nothing else and nothing twice; and no message
  of more than one record is over the size limit.
\<close>

theorem transfer_complete:
  assumes "axfr_messages query z = Inr ms" and "store_ok z"
  shows "\<exists>s body. soa z = Some s \<and>
    concat (map answers ms) = zrr (origin z) T_SOA (ttl_of z (origin z) T_SOA) s # body @
      [zrr (origin z) T_SOA (ttl_of z (origin z) T_SOA) s] \<and>
    mset body = mset (concat (map (set_records z) (other_sets z))) + mset (concat (map (set_signature z) (other_sets z))) +
      mset (set_signature z (origin z, T_SOA, [])) \<and>
    list_all fits_message ms"
proof -
  obtain rrs where r: "axfr_records z = Inr rrs" "chunk_into_messages query rrs = Inr ms"
    using assms(1) by (auto simp: axfr_messages_def rbind_eq_Inr)
  have "rrs \<noteq> []" using r(1) by (auto simp: axfr_records_def rbind_eq_Inr)
  with r(2) obtain mss where m: "rmap (flush query) (chunks RRS_PER_MSG rrs) = Inr mss" "ms = concat mss"
    by (auto simp: chunk_into_messages_def rbind_eq_Inr)
  have "concat (chunks RRS_PER_MSG rrs) = rrs" by (rule concat_chunks) (simp add: RRS_PER_MSG_def)
  with flush_all_carries [OF m(1)] m(2) have "concat (map answers ms) = rrs" "list_all fits_message ms" by simp_all
  with axfr_content [OF assms(2) r(1)] show ?thesis by blast
qed

text \<open>A transfer of a zone of one address, whose stream fits one message.\<close>

lemma one_message:
  assumes "axfr_records z = Inr rrs" "1 < length rrs" "length rrs \<le> 100"
    and "to_wire None True (xfr_message query rrs) = Inr d" "length d \<le> 200"
  shows "axfr_messages query z = Inr [xfr_message query rrs]"
proof -
  have c: "chunks RRS_PER_MSG rrs = [rrs]"
    using assms(2, 3) by (auto simp: chunks.simps [of _ rrs] chunks.simps [of _ "[]"] RRS_PER_MSG_def)
  have f: "flush query rrs = Inr [xfr_message query rrs]"
    by (rule flush_fits [OF assms(2, 4)]) (use assms(5) in \<open>simp add: MAX_MSG_BYTES_def\<close>)
  have "rrs \<noteq> []" using assms(2) by auto
  with assms(1) c f show ?thesis by (simp add: axfr_messages_def chunk_into_messages_def)
qed

definition small_zone :: zone where
  "small_zone = zadd [] T_A (Rd_A [1, 2, 3, 4]) 60
     (zadd [] T_SOA (Rd_SOA [] [] 1 1 1 1 1) 60 (new_zone []))"

definition demo_stream :: "rr list" where
  "demo_stream =
     [zrr [] T_SOA 60 (Rd_SOA [] [] 1 1 1 1 1), zrr [] T_A 60 (Rd_A [1, 2, 3, 4]),
      zrr [] T_SOA 60 (Rd_SOA [] [] 1 1 1 1 1)]"

lemma demo_records: "axfr_records small_zone = Inr demo_stream"
  by code_simp

lemma demo_written:
  "case to_wire None True (xfr_message (build_xfr_query [] 252 None 0) demo_stream) of Inl _ \<Rightarrow> False | Inr d \<Rightarrow> length d \<le> 200"
  by code_simp

theorem transfer_complete_witness:
  "\<exists>ms body. axfr_messages (build_xfr_query [] 252 None 0) small_zone = Inr ms \<and>
     concat (map answers ms) = hd demo_stream # body @ [hd demo_stream] \<and>
     mset body = {# zrr [] T_A 60 (Rd_A [1, 2, 3, 4]) #} \<and> list_all fits_message ms"
proof (cases "to_wire None True (xfr_message (build_xfr_query [] 252 None 0) demo_stream)")
  case (Inl e)
  with demo_written show ?thesis by (simp only: sum.case)
next
  case (Inr d)
  with demo_written have d: "length d \<le> 200" by (simp only: sum.case)
  have l: "1 < length demo_stream" "length demo_stream \<le> 100" by (simp_all add: demo_stream_def)
  note m = one_message [OF demo_records l Inr d]
  have "store_ok small_zone" by code_simp
  from transfer_complete [OF m this] obtain s body where t: "soa small_zone = Some s"
    "concat (map answers [xfr_message (build_xfr_query [] 252 None 0) demo_stream]) =
      zrr (origin small_zone) T_SOA (ttl_of small_zone (origin small_zone) T_SOA) s # body @
      [zrr (origin small_zone) T_SOA (ttl_of small_zone (origin small_zone) T_SOA) s]"
    "mset body = mset (concat (map (set_records small_zone) (other_sets small_zone))) +
      mset (concat (map (set_signature small_zone) (other_sets small_zone))) +
      mset (set_signature small_zone (origin small_zone, T_SOA, []))"
    "list_all fits_message [xfr_message (build_xfr_query [] 252 None 0) demo_stream]" by blast
  have c: "concat (map (set_records small_zone) (other_sets small_zone)) = [zrr [] T_A 60 (Rd_A [1, 2, 3, 4])]"
    "concat (map (set_signature small_zone) (other_sets small_zone)) = []"
    "set_signature small_zone (origin small_zone, T_SOA, []) = []" by code_simp+
  have b: "body = [zrr [] T_A 60 (Rd_A [1, 2, 3, 4])]" using t(3) unfolding c by simp
  have "concat (map answers [xfr_message (build_xfr_query [] 252 None 0) demo_stream]) = hd demo_stream # body @ [hd demo_stream]"
    unfolding b by (simp add: demo_stream_def)
  with m t(4) b show ?thesis by (intro exI [of _ "[xfr_message (build_xfr_query [] 252 None 0) demo_stream]"] exI [of _ body]) simp
qed

end
