(* ===== verification/Block_Table.thy ===== *)
theory Block_Table
  imports Name_Text Ordered_Dict
begin

section \<open>The shared blocklist table\<close>

text \<open>
  Models \<^verbatim>\<open>trench/filter/shared.py\<close>: the blocked domains as one blob of octets and an
  open-addressed table of packed slots over it. The checksum that picks the first slot is the argument
  \<open>crc\<close>: nothing shown here depends on it. Probing may run forever on a full table, so it is a
  \<open>partial_function\<close> and not returning is the value \<^const>\<open>None\<close>; that it returns on every
  table that \<open>table_build\<close> makes is shown. The file behind the mapping and its header are not
  modelled.
\<close>

type_synonym 'a run = "'a result option"

definition ubind :: "'a run \<Rightarrow> ('a \<Rightarrow> 'b run) \<Rightarrow> 'b run" where
  "ubind m f = (case m of None \<Rightarrow> None | Some (Inl e) \<Rightarrow> Some (Inl e) | Some (Inr x) \<Rightarrow> f x)"

lemma ubind_simps [simp]:
  "ubind None f = None" "ubind (Some (Inl e)) f = Some (Inl e)" "ubind (Some (Inr x)) f = f x"
  by (simp_all add: ubind_def)

lemma ubind_eq: "ubind m f = Some (Inr y) \<longleftrightarrow> (\<exists>x. m = Some (Inr x) \<and> f x = Some (Inr y))"
  by (cases m; cases "the m") (auto simp: ubind_def split: sum.splits)

subsection \<open>\<^verbatim>\<open>str.encode()\<close>\<close>

definition utf8_char :: "nat \<Rightarrow> bytes result" where
  "utf8_char c =
     (if c < 0x80 then Inr [of_nat c]
      else if c < 0x800 then Inr [of_nat (0xC0 + c div 64), of_nat (0x80 + c mod 64)]
      else if 0xD800 \<le> c \<and> c \<le> 0xDFFF then Inl UnicodeError
      else if c < 0x10000
      then Inr [of_nat (0xE0 + c div 4096), of_nat (0x80 + c div 64 mod 64), of_nat (0x80 + c mod 64)]
      else if c < 0x110000
      then Inr [of_nat (0xF0 + c div 262144), of_nat (0x80 + c div 4096 mod 64),
                of_nat (0x80 + c div 64 mod 64), of_nat (0x80 + c mod 64)]
      else Inl UnicodeError)"

definition utf8 :: "ustr \<Rightarrow> bytes result" where
  "utf8 s = rbind (rmap utf8_char s) (\<lambda>bs. Inr (concat bs))"

lemma utf8_char_nonempty: "utf8_char c \<noteq> Inr []"
  by (simp add: utf8_char_def)

lemma utf8_Nil [simp]: "utf8 [] = Inr []"
  by (simp add: utf8_def)

lemma utf8_Cons: "utf8 (c # s) = rbind (utf8_char c) (\<lambda>a. rbind (utf8 s) (\<lambda>b. Inr (a @ b)))"
  by (cases "utf8_char c"; cases "rmap utf8_char s") (simp_all add: utf8_def)

lemma utf8_append: "utf8 (a @ b) = rbind (utf8 a) (\<lambda>x. rbind (utf8 b) (\<lambda>y. Inr (x @ y)))"
proof (induction a)
  case Nil
  then show ?case by (cases "utf8 b") simp_all
next
  case (Cons c a)
  then show ?case by (cases "utf8_char c"; cases "utf8 a"; cases "utf8 b") (simp_all add: utf8_Cons)
qed

lemma utf8_eq_Nil: "utf8 s = Inr [] \<longleftrightarrow> s = []"
  by (cases s) (auto simp: utf8_Cons rbind_eq_Inr utf8_char_nonempty)

lemma utf8_length: "utf8 s = Inr b \<Longrightarrow> length s \<le> length b"
proof (induction s arbitrary: b)
  case (Cons c s)
  then obtain x y where x: "utf8_char c = Inr x" and y: "utf8 s = Inr y" "b = x @ y"
    by (auto simp: utf8_Cons rbind_eq_Inr)
  have "x \<noteq> []" using x utf8_char_nonempty by auto
  with Cons.IH [OF y(1)] y(2) show ?case by (cases x) auto
qed simp

lemma utf8_ascii: "list_all (\<lambda>c. c < 128) s \<Longrightarrow> utf8 s = Inr (map of_nat s)"
  by (induction s) (simp_all add: utf8_Cons utf8_char_def)

text \<open>An encoding that is ASCII encodes itself and nothing else.\<close>

lemma utf8_char_high: "utf8_char c = Inr x \<Longrightarrow> 128 \<le> c \<Longrightarrow> 128 \<le> unat (hd x)"
proof -
  assume a: "utf8_char c = Inr x" "128 \<le> c"
  have u: "unat (of_nat k :: byte) = k" if "k < 256" for k using that by (simp add: unat_of_nat)
  have "c div 64 < 32" if "c < 0x800" using that by linarith
  moreover have "c div 4096 < 16" if "c < 0x10000" using that by linarith
  moreover have "c div 262144 < 8" if "c < 0x110000" using that by linarith
  ultimately show ?thesis using a by (auto simp: utf8_char_def u simp del: of_nat_add split: if_splits)
qed

lemma utf8_inj_ascii: "utf8 d = Inr (map of_nat s) \<Longrightarrow> list_all (\<lambda>c. c < 128) s \<Longrightarrow> d = s"
proof (induction s arbitrary: d)
  case Nil
  then show ?case by (simp add: utf8_eq_Nil)
next
  case (Cons k s)
  then obtain c d' where d: "d = c # d'" by (cases d) auto
  obtain x y where x: "utf8_char c = Inr x" and y: "utf8 d' = Inr y" and e: "x @ y = of_nat k # map of_nat s"
    using Cons.prems(1) d by (auto simp: utf8_Cons rbind_eq_Inr)
  have k: "k < 128" using Cons.prems(2) by simp
  have ne: "x \<noteq> []" using x utf8_char_nonempty by auto
  have "unat (of_nat k :: byte) = k" using k by (simp add: unat_of_nat)
  then have hd: "unat (hd x) = k" using e ne by (cases x) auto
  then have c: "c < 128" using utf8_char_high [OF x] k by (cases "c < 128") auto
  then have "x = [of_nat c]" using x by (simp add: utf8_char_def)
  moreover have "unat (of_nat c :: byte) = c" using c by (simp add: unat_of_nat)
  ultimately show ?case using hd e y Cons d by auto
qed

subsection \<open>Packed slots\<close>

definition slot_pack :: "nat \<Rightarrow> nat \<Rightarrow> nat \<Rightarrow> nat" where
  "slot_pack off ln sid = push_bit 24 off OR push_bit 16 ln OR sid"

definition slot_off :: "nat \<Rightarrow> nat" where "slot_off v = drop_bit 24 v"
definition slot_len :: "nat \<Rightarrow> nat" where "slot_len v = drop_bit 16 v AND 0xFF"
definition slot_sid :: "nat \<Rightarrow> nat" where "slot_sid v = v AND 0xFFFF"

lemma bit_below: "x < 2 ^ n \<Longrightarrow> n \<le> k \<Longrightarrow> \<not> bit (x :: nat) k"
proof -
  assume "x < 2 ^ n" "n \<le> k"
  then have "x < 2 ^ k" by (meson less_le_trans one_le_numeral power_increasing)
  then show ?thesis by (simp add: bit_iff_odd)
qed

lemma slot_fields:
  assumes "ln < 2 ^ 8" and "sid < 2 ^ 16"
  shows "slot_off (slot_pack off ln sid) = off" "slot_len (slot_pack off ln sid) = ln"
    "slot_sid (slot_pack off ln sid) = sid"
proof -
  have l: "\<not> bit ln (8 + k)" and s: "\<not> bit sid (16 + k)" for k
    using bit_below [OF assms(1)] bit_below [OF assms(2)] by simp_all
  have m8: "(255 :: nat) = mask 8" and m16: "(65535 :: nat) = mask 16" by (simp_all add: mask_eq_exp_minus_1)
  show "slot_off (slot_pack off ln sid) = off"
  proof (rule bit_eqI)
    fix k :: nat
    have "24 + k - 16 = 8 + k" by simp
    moreover have "\<not> bit sid (24 + k)" using s [of "8 + k"] by (simp add: add.assoc [symmetric])
    ultimately show "bit (slot_off (slot_pack off ln sid)) k = bit off k"
      using l [of k] by (simp add: slot_off_def slot_pack_def bit_simps)
  qed
  show "slot_len (slot_pack off ln sid) = ln"
  proof (rule bit_eqI)
    fix k
    show "bit (slot_len (slot_pack off ln sid)) k = bit ln k"
    proof (cases "k < 8")
      case True
      then show ?thesis using s [of k] unfolding slot_len_def m8 slot_pack_def by (simp add: bit_simps)
    next
      case False
      then show ?thesis using l [of "k - 8"] unfolding slot_len_def m8 slot_pack_def by (simp add: bit_simps)
    qed
  qed
  show "slot_sid (slot_pack off ln sid) = sid"
  proof (rule bit_eqI)
    fix k
    show "bit (slot_sid (slot_pack off ln sid)) k = bit sid k"
    proof (cases "k < 16")
      case True
      then show ?thesis unfolding slot_sid_def m16 slot_pack_def by (simp add: bit_simps)
    next
      case False
      then show ?thesis using s [of "k - 16"] unfolding slot_sid_def m16 slot_pack_def by (simp add: bit_simps)
    qed
  qed
qed

lemma slot_pack_nonzero: "0 < ln \<Longrightarrow> ln < 2 ^ 8 \<Longrightarrow> sid < 2 ^ 16 \<Longrightarrow> slot_pack off ln sid \<noteq> 0"
  using slot_fields(2) [of ln sid off] by (metis and_zero_eq drop_bit_of_0 less_nat_zero_code slot_len_def zero_and_eq)

subsection \<open>Building and looking up\<close>

record block_table =
  t_slots :: "nat list"
  t_blob :: bytes
  t_n :: nat
  t_sources :: "ustr list"
  t_counts :: "(ustr, nat) odict"
  t_removed :: "ustr set"

definition empty_table :: block_table where
  "empty_table = \<lparr>t_slots = [], t_blob = [], t_n = 0, t_sources = [], t_counts = [], t_removed = {}\<rparr>"

definition MIN_SLOTS :: nat where "MIN_SLOTS = 1024"
definition MAX_LEN :: nat where "MAX_LEN = 0xFF"
definition MAX_SOURCES :: nat where "MAX_SOURCES = 0xFFFF"

function double_until :: "nat \<Rightarrow> nat \<Rightarrow> nat" where
  "double_until p n = (if p < n \<and> 0 < p then double_until (push_bit 1 p) n else p)"
  by pat_completeness auto
termination by (relation "measure (\<lambda>(p, n). n - p)") (auto simp: push_bit_eq_mult)

declare double_until.simps [simp del]

definition next_pow2 :: "nat \<Rightarrow> nat" where
  "next_pow2 n = double_until MIN_SLOTS n"

definition slot_key :: "bytes \<Rightarrow> nat \<Rightarrow> bytes" where
  "slot_key blob v = take (slot_len v) (drop (slot_off v) blob)"

definition stops :: "nat list \<Rightarrow> bytes \<Rightarrow> bytes \<Rightarrow> nat \<Rightarrow> bool" where
  "stops slots blob raw i \<longleftrightarrow> slots ! i = 0 \<or> slot_key blob (slots ! i) = raw"

text \<open>The \<^verbatim>\<open>while\<close> loops of \<^verbatim>\<open>build\<close> and \<^verbatim>\<open>get\<close>.\<close>

partial_function (option) probe :: "(nat \<Rightarrow> bool) \<Rightarrow> nat \<Rightarrow> nat \<Rightarrow> nat option" where
  "probe stop m i = (if stop i then Some i else probe stop m ((i + 1) AND m))"

declare probe.simps [code]

record builder =
  b_slots :: "nat list"
  b_blob :: bytes
  b_write :: nat
  b_n :: nat
  b_sources :: "ustr list"
  b_ids :: "(ustr, nat) odict"
  b_counts :: "(ustr, nat) odict"

definition source_id :: "ustr \<Rightarrow> builder \<Rightarrow> (nat \<times> builder) option" where
  "source_id s b =
     (case od_get s (b_ids b) of
        Some k \<Rightarrow> Some (k, b)
      | None \<Rightarrow> if MAX_SOURCES \<le> length (b_sources b) then None
                else Some (length (b_sources b),
                           b\<lparr>b_sources := b_sources b @ [s], b_ids := od_set s (length (b_sources b)) (b_ids b)\<rparr>))"

definition store_item :: "nat \<Rightarrow> bytes \<Rightarrow> ustr \<Rightarrow> nat \<Rightarrow> builder \<Rightarrow> builder result" where
  "store_item i raw s sid b =
     (if length (b_blob b) < b_write b + length raw then Inl ValueError
      else Inr (b\<lparr>b_blob := take (b_write b) (b_blob b) @ raw @ drop (b_write b + length raw) (b_blob b),
                  b_slots := (b_slots b)[i := slot_pack (b_write b) (length raw) sid],
                  b_write := b_write b + length raw, b_n := b_n b + 1,
                  b_counts := od_set s ((case od_get s (b_counts b) of Some c \<Rightarrow> c | None \<Rightarrow> 0) + 1) (b_counts b)\<rparr>))"

definition build_item :: "(bytes \<Rightarrow> nat) \<Rightarrow> nat \<Rightarrow> ustr \<times> ustr \<Rightarrow> builder \<Rightarrow> builder run" where
  "build_item crc m = (\<lambda>(d, s) b.
     ubind (Some (utf8 d)) (\<lambda>raw.
       if raw = [] \<or> MAX_LEN < length raw then Some (Inr b)
       else (case probe (stops (b_slots b) (b_blob b) raw) m (crc raw AND m) of
               None \<Rightarrow> None
             | Some i \<Rightarrow>
                 if b_slots b ! i \<noteq> 0 then Some (Inr b)
                 else (case source_id s b of
                         None \<Rightarrow> Some (Inr b)
                       | Some (sid, b') \<Rightarrow> Some (store_item i raw s sid b')))))"

fun build_items :: "(bytes \<Rightarrow> nat) \<Rightarrow> nat \<Rightarrow> (ustr \<times> ustr) list \<Rightarrow> builder \<Rightarrow> builder run" where
  "build_items crc m [] b = Some (Inr b)"
| "build_items crc m (x # xs) b = ubind (build_item crc m x b) (build_items crc m xs)"

text \<open>
  \<^verbatim>\<open>int(len(items) / 0.7) + 1\<close> is \<open>10 * len(items) div 7 + 1\<close> for every length a list can
  have: the quotient of doubles is within one part in 2^53 of the quotient.
\<close>

definition table_size :: "(ustr \<times> ustr) list \<Rightarrow> nat" where
  "table_size items = (if items = [] then MIN_SLOTS else next_pow2 (10 * length items div 7 + 1))"

definition start_build :: "(ustr \<times> ustr) list \<Rightarrow> builder" where
  "start_build items =
     \<lparr>b_slots = replicate (table_size items) 0,
      b_blob = replicate (let c = sum_list (map (length \<circ> fst) items) in if c = 0 then 1 else c) 0,
      b_write = 0, b_n = 0, b_sources = [], b_ids = [], b_counts = []\<rparr>"

definition table_build :: "(bytes \<Rightarrow> nat) \<Rightarrow> (ustr \<times> ustr) list \<Rightarrow> block_table run" where
  "table_build crc items =
     ubind (build_items crc (table_size items - 1) items (start_build items)) (\<lambda>b.
       Some (Inr \<lparr>t_slots = b_slots b, t_blob = take (b_write b) (b_blob b), t_n = b_n b,
                  t_sources = b_sources b, t_counts = b_counts b, t_removed = {}\<rparr>))"

definition table_get :: "(bytes \<Rightarrow> nat) \<Rightarrow> block_table \<Rightarrow> ustr \<Rightarrow> ustr option run" where
  "table_get crc t d =
     (if t_n t = 0 then Some (Inr None)
      else ubind (Some (utf8 d)) (\<lambda>raw.
        let m = length (t_slots t) - 1
        in (case probe (stops (t_slots t) (t_blob t) raw) m (crc raw AND m) of
              None \<Rightarrow> None
            | Some i \<Rightarrow>
                Some (Inr (if t_slots t ! i = 0 \<or> d \<in> t_removed t then None
                           else Some (t_sources t ! slot_sid (t_slots t ! i)))))))"

definition table_len :: "block_table \<Rightarrow> int" where
  "table_len t = int (t_n t) - int (card (t_removed t))"

definition table_discard :: "(bytes \<Rightarrow> nat) \<Rightarrow> ustr \<Rightarrow> block_table \<Rightarrow> block_table run" where
  "table_discard crc d t =
     ubind (table_get crc t d) (\<lambda>r. Some (Inr (if r \<noteq> None then t\<lparr>t_removed := insert d (t_removed t)\<rparr> else t)))"

subsection \<open>Probing returns\<close>

lemma next_pow2_ge: "n \<le> next_pow2 n"
proof -
  have "0 < p \<Longrightarrow> n \<le> double_until p n" for p
    by (induction p n rule: double_until.induct) (subst double_until.simps, auto simp: push_bit_eq_mult)
  then show ?thesis by (simp add: next_pow2_def MIN_SLOTS_def)
qed

lemma next_pow2_power: "\<exists>k. next_pow2 n = 2 ^ k \<and> 0 < k"
proof -
  have "\<exists>k. double_until (2 ^ j) n = 2 ^ k \<and> j \<le> k" for j
  proof (induction "2 ^ j :: nat" n arbitrary: j rule: double_until.induct)
    case (1 n)
    show ?case
    proof (cases "2 ^ j < n")
      case True
      have "push_bit 1 (2 ^ j) = (2 ^ Suc j :: nat)" by (simp add: push_bit_eq_mult)
      from 1 [OF _ this] True obtain k where "double_until (push_bit 1 (2 ^ j)) n = 2 ^ k" "Suc j \<le> k"
        unfolding \<open>push_bit 1 (2 ^ j) = (2 ^ Suc j :: nat)\<close> by auto
      with True show ?thesis by (subst double_until.simps) (auto dest: Suc_leD)
    next
      case False
      then show ?thesis by (subst double_until.simps) auto
    qed
  qed
  from this [of 10] show ?thesis by (fastforce simp: next_pow2_def MIN_SLOTS_def)
qed

definition reaches :: "(nat \<Rightarrow> bool) \<Rightarrow> nat \<Rightarrow> nat \<Rightarrow> nat \<Rightarrow> bool" where
  "reaches stop n i k \<longleftrightarrow> stop ((i + k) mod n) \<and> (\<forall>j < k. \<not> stop ((i + j) mod n))"

lemma and_pow2: "x AND (2 ^ k - 1) = x mod (2 ^ k :: nat)"
  by (simp add: take_bit_eq_mod [symmetric] take_bit_eq_mask mask_eq_exp_minus_1)

lemma probe_reaches:
  assumes n: "n = 2 ^ b"
  shows "reaches stop n i k \<Longrightarrow> probe stop (n - 1) (i mod n) = Some ((i + k) mod n)"
proof (induction k arbitrary: i)
  case 0
  then show ?case by (subst probe.simps) (simp add: reaches_def)
next
  case (Suc k)
  then have no: "\<not> stop (i mod n)" by (force simp: reaches_def)
  have "reaches stop n (Suc i) k" using Suc.prems by (fastforce simp: reaches_def)
  with Suc.IH have "probe stop (n - 1) (Suc i mod n) = Some ((Suc i + k) mod n)" by blast
  moreover have "(i mod n + 1) AND (n - 1) = Suc i mod n" unfolding n and_pow2 by (simp add: mod_Suc_eq)
  ultimately show ?case using no by (subst probe.simps) simp
qed

lemma reaches_exists:
  assumes "stop j" "j < n" "i < n"
  obtains k where "reaches stop n i k"
proof -
  have "stop ((i + (n + j - i)) mod n)" using assms by simp
  then have "\<exists>k. stop ((i + k) mod n)" by blast
  then have "\<exists>k. reaches stop n i k" unfolding reaches_def by (subst (asm) exists_least_iff) blast
  then show thesis using that by blast
qed

lemma probe_iff:
  assumes n: "n = 2 ^ b" and "stop j'" "j' < n" "i < n"
  shows "probe stop (n - 1) i = Some j \<longleftrightarrow> (\<exists>k. reaches stop n i k \<and> j = (i + k) mod n)"
proof -
  obtain k where k: "reaches stop n i k" using reaches_exists [of stop j' n i] assms(2-4) by blast
  have p: "reaches stop n i k' \<Longrightarrow> probe stop (n - 1) i = Some ((i + k') mod n)" for k'
    using probe_reaches [OF n, of stop i k'] assms(4) by simp
  show ?thesis
  proof
    assume "probe stop (n - 1) i = Some j"
    with p [OF k] have "j = (i + k) mod n" by (simp only: option.inject)
    with k show "\<exists>k. reaches stop n i k \<and> j = (i + k) mod n" by blast
  next
    assume "\<exists>k. reaches stop n i k \<and> j = (i + k) mod n"
    then show "probe stop (n - 1) i = Some j" using p by blast
  qed
qed

subsection \<open>What a built table holds\<close>

definition found :: "(bytes \<Rightarrow> nat) \<Rightarrow> nat list \<Rightarrow> bytes \<Rightarrow> bytes \<Rightarrow> nat \<Rightarrow> bool" where
  "found crc slots blob raw j \<longleftrightarrow>
     (\<exists>k. reaches (stops slots blob raw) (length slots) (crc raw) k \<and> j = (crc raw + k) mod length slots)"

text \<open>Every used slot lies in the written part of the blob and is the one its own key probes to.\<close>

definition slots_ok :: "(bytes \<Rightarrow> nat) \<Rightarrow> nat list \<Rightarrow> bytes \<Rightarrow> nat \<Rightarrow> bool" where
  "slots_ok crc slots blob w \<longleftrightarrow> (\<exists>b. length slots = 2 ^ b) \<and> w \<le> length blob \<and>
     (\<forall>j < length slots. slots ! j \<noteq> 0 \<longrightarrow>
        0 < slot_len (slots ! j) \<and> slot_off (slots ! j) + slot_len (slots ! j) \<le> w \<and>
        found crc slots blob (slot_key blob (slots ! j)) j)"

definition holds :: "nat list \<Rightarrow> bytes \<Rightarrow> bytes \<Rightarrow> nat \<Rightarrow> bool" where
  "holds slots blob raw v \<longleftrightarrow> v \<in> set slots \<and> v \<noteq> 0 \<and> slot_key blob v = raw"

lemma reaches_unique: "reaches stop n i k \<Longrightarrow> reaches stop n i k' \<Longrightarrow> k = k'"
  by (metis linorder_neqE_nat reaches_def)

lemma found_unique: "found crc slots blob raw j \<Longrightarrow> found crc slots blob raw j' \<Longrightarrow> j = j'"
  using reaches_unique by (fastforce simp: found_def)

lemma found_stops: "found crc slots blob raw j \<Longrightarrow> stops slots blob raw j"
  by (auto simp: found_def reaches_def)

lemma found_less: "found crc slots blob raw j \<Longrightarrow> slots \<noteq> [] \<Longrightarrow> j < length slots"
  by (auto simp: found_def)

lemma reaches_start: "reaches stop n (i mod n) k = reaches stop n i k"
  by (simp add: reaches_def mod_add_left_eq)

lemma found_exists:
  assumes "0 \<in> set slots"
  obtains j where "found crc slots blob raw j" "j < length slots"
proof -
  obtain z where z: "z < length slots" "slots ! z = 0" using assms by (auto simp: in_set_conv_nth)
  have "stops slots blob raw z" using z by (simp add: stops_def)
  moreover have "crc raw mod length slots < length slots" using z(1) by (cases slots) auto
  ultimately obtain k where "reaches (stops slots blob raw) (length slots) (crc raw mod length slots) k"
    using reaches_exists z(1) by blast
  then have "found crc slots blob raw ((crc raw + k) mod length slots)"
    unfolding reaches_start by (auto simp: found_def)
  with found_less [OF this] z(1) that show thesis by fastforce
qed

lemma probe_found:
  assumes "length slots = 2 ^ b" and "found crc slots blob raw j"
  shows "probe (stops slots blob raw) (length slots - 1) (crc raw AND (length slots - 1)) = Some j"
proof -
  obtain k where k: "reaches (stops slots blob raw) (length slots) (crc raw) k" "j = (crc raw + k) mod length slots"
    using assms(2) by (auto simp: found_def)
  have "crc raw AND (length slots - 1) = crc raw mod length slots" unfolding assms(1) by (rule and_pow2)
  with probe_reaches [OF assms(1) k(1)] k(2) show ?thesis by simp
qed

lemma found_store:
  assumes f: "found crc slots blob raw j" and i: "slots ! i = 0" "i < length slots"
    and v: "j \<noteq> i \<or> slot_key blob v = raw"
  shows "found crc (slots[i := v]) blob raw j"
proof -
  obtain k where k: "reaches (stops slots blob raw) (length slots) (crc raw) k" "j = (crc raw + k) mod length slots"
    using f by (auto simp: found_def)
  have "\<not> stops (slots[i := v]) blob raw ((crc raw + l) mod length slots)" if "l < k" for l
    using k(1) that i by (auto simp: reaches_def stops_def nth_list_update)
  moreover have "stops (slots[i := v]) blob raw j"
    using found_stops [OF f] v i by (auto simp: stops_def nth_list_update)
  ultimately have "reaches (stops (slots[i := v]) blob raw) (length slots) (crc raw) k"
    using k(2) by (simp add: reaches_def)
  with k(2) show ?thesis by (auto simp: found_def)
qed

lemma found_blob:
  assumes "\<And>v. v \<in> set slots \<Longrightarrow> v \<noteq> 0 \<Longrightarrow> slot_key blob' v = slot_key blob v" and "slots \<noteq> []"
  shows "found crc slots blob' raw j = found crc slots blob raw j"
proof -
  have "stops slots blob' raw (x mod length slots) = stops slots blob raw (x mod length slots)" for x
    using assms by (cases "slots ! (x mod length slots) = 0") (auto simp: stops_def)
  then show ?thesis by (simp add: found_def reaches_def)
qed

lemma holds_found:
  assumes ok: "slots_ok crc slots blob w" and z: "0 \<in> set slots" and f: "found crc slots blob raw j"
  shows "holds slots blob raw v \<longleftrightarrow> slots ! j = v \<and> v \<noteq> 0"
proof
  assume "holds slots blob raw v"
  then obtain j' where j': "j' < length slots" "slots ! j' = v" "v \<noteq> 0" "slot_key blob v = raw"
    by (auto simp: holds_def in_set_conv_nth)
  then have "found crc slots blob raw j'" using ok by (auto simp: slots_ok_def)
  with found_unique [OF f] j' show "slots ! j = v \<and> v \<noteq> 0" by blast
next
  assume a: "slots ! j = v \<and> v \<noteq> 0"
  have "slots \<noteq> []" using z by (cases slots) auto
  then have "j < length slots" by (rule found_less [OF f])
  with a found_stops [OF f] show "holds slots blob raw v"
    by (auto simp: holds_def stops_def)
qed

text \<open>Writing a new key behind the old ones and pointing a free slot at it.\<close>

lemma slot_key_take:
  assumes "slot_off v + slot_len v \<le> w" and "w \<le> length blob"
  shows "slot_key (take w blob @ rest) v = slot_key blob v"
proof -
  have "drop (slot_off v) (take w blob @ rest) = take (w - slot_off v) (drop (slot_off v) blob) @ rest"
    using assms by (simp add: drop_take)
  moreover have "take (slot_len v) (take (w - slot_off v) (drop (slot_off v) blob)) = take (slot_len v) (drop (slot_off v) blob)"
    using assms by simp
  ultimately show ?thesis using assms unfolding slot_key_def by simp
qed

lemma slots_ok_store:
  assumes ok: "slots_ok crc slots blob w" and f: "found crc slots blob raw i" and free: "slots ! i = 0"
    and i: "i < length slots" and raw: "raw \<noteq> []" "length raw \<le> MAX_LEN"
    and room: "w + length raw \<le> length blob" and sid: "sid < 2 ^ 16"
  defines "blob' \<equiv> take w blob @ raw @ drop (w + length raw) blob"
    and "slots' \<equiv> slots[i := slot_pack w (length raw) sid]"
  shows "slots_ok crc slots' blob' (w + length raw)"
    and "holds slots' blob' key v \<longleftrightarrow>
      (if key = raw then v = slot_pack w (length raw) sid else holds slots blob key v)"
proof -
  let ?v = "slot_pack w (length raw) sid"
  have len: "length raw < 2 ^ 8" "0 < length raw" using raw by (auto simp: MAX_LEN_def)
  note fields = slot_fields [OF len(1) sid, of w]
  have nz: "?v \<noteq> 0" by (rule slot_pack_nonzero [OF len(2, 1) sid])
  have w: "w \<le> length blob" using ok by (simp add: slots_ok_def)
  have key: "slot_key blob' ?v = raw" using w by (simp add: slot_key_def fields blob'_def)
  have old: "slot_key blob' u = slot_key blob u" if "u \<in> set slots" "u \<noteq> 0" for u
  proof -
    have "slot_off u + slot_len u \<le> w" using ok that by (auto simp: slots_ok_def in_set_conv_nth)
    then show ?thesis unfolding blob'_def by (rule slot_key_take [OF _ w])
  qed
  have ne: "slots \<noteq> []" using i by auto
  note fb = found_blob [OF old ne]
  have fresh: "slot_key blob u \<noteq> raw" if u: "u \<in> set slots" "u \<noteq> 0" for u
  proof
    assume r: "slot_key blob u = raw"
    obtain j where j: "j < length slots" "slots ! j = u" using u(1) by (auto simp: in_set_conv_nth)
    then have "found crc slots blob raw j" using ok u(2) r by (auto simp: slots_ok_def)
    then have "i = j" by (rule found_unique [OF f])
    with free j(2) u(2) show False by simp
  qed
  have new: "found crc slots' blob' raw i"
    unfolding slots'_def by (rule found_store [OF _ free i]) (use f fb key in auto)
  have stay: "found crc slots' blob' (slot_key blob' (slots ! j)) j"
    if j: "j < length slots" "slots ! j \<noteq> 0" for j
  proof -
    have "found crc slots blob (slot_key blob (slots ! j)) j" using ok j by (auto simp: slots_ok_def)
    then have "found crc slots blob' (slot_key blob' (slots ! j)) j" using fb old j by (simp add: fb)
    then show ?thesis unfolding slots'_def by (rule found_store [OF _ free i]) (use j free in auto)
  qed
  show "slots_ok crc slots' blob' (w + length raw)"
  proof -
    have "0 < slot_len (slots' ! j) \<and> slot_off (slots' ! j) + slot_len (slots' ! j) \<le> w + length raw \<and>
        found crc slots' blob' (slot_key blob' (slots' ! j)) j"
      if j: "j < length slots'" "slots' ! j \<noteq> 0" for j
    proof (cases "j = i")
      case True
      then have "slots' ! j = ?v" using i by (simp add: slots'_def)
      with True new key fields len show ?thesis by simp
    next
      case False
      then have e: "slots' ! j = slots ! j" by (simp add: slots'_def)
      have "j < length slots" "slots ! j \<noteq> 0" using j e by (simp_all add: slots'_def)
      with stay [OF this] ok e show ?thesis by (auto simp: slots_ok_def)
    qed
    moreover have "\<exists>b. length slots' = 2 ^ b" using ok by (simp add: slots_ok_def slots'_def)
    moreover have "w + length raw \<le> length blob'" using room by (simp add: blob'_def)
    ultimately show ?thesis by (auto simp: slots_ok_def)
  qed
  show "holds slots' blob' key v \<longleftrightarrow> (if key = raw then v = ?v else holds slots blob key v)"
  proof -
    have mem: "u \<in> set slots' \<and> u \<noteq> 0 \<longleftrightarrow> u = ?v \<or> (u \<in> set slots \<and> u \<noteq> 0)" for u
    proof -
      have "set slots' = insert ?v (set (take i slots @ drop (Suc i) slots))"
        using i by (simp add: slots'_def upd_conv_take_nth_drop)
      moreover have "set slots = insert 0 (set (take i slots @ drop (Suc i) slots))"
        using id_take_nth_drop [OF i] free by (metis Un_insert_right list.simps(15) set_append)
      ultimately show ?thesis using nz by auto
    qed
    have m: "holds slots' blob' key v \<longleftrightarrow> (v = ?v \<or> (v \<in> set slots \<and> v \<noteq> 0)) \<and> slot_key blob' v = key"
      unfolding holds_def using mem [of v] by blast
    show ?thesis
    proof (cases "v \<in> set slots \<and> v \<noteq> 0")
      case True
      then have "slot_key blob' v = slot_key blob v" "slot_key blob v \<noteq> raw" using old fresh by blast+
      with m True key show ?thesis by (auto simp: holds_def)
    next
      case False
      with m key show ?thesis by (auto simp: holds_def)
    qed
  qed
qed

subsection \<open>The table of a list is the first source of every domain\<close>

definition first_source :: "(ustr \<times> ustr) list \<Rightarrow> bytes \<Rightarrow> ustr option" where
  "first_source items raw =
     (case filter (\<lambda>(d, s). utf8 d = Inr raw) items of [] \<Rightarrow> None | (d, s) # _ \<Rightarrow> Some s)"

lemma first_source_snoc:
  "first_source (xs @ [(d, s)]) raw =
     (case first_source xs raw of Some t \<Rightarrow> Some t | None \<Rightarrow> if utf8 d = Inr raw then Some s else None)"
  by (simp add: first_source_def split: list.split)

lemma first_source_mem: "first_source items raw = Some s \<Longrightarrow> \<exists>d. (d, s) \<in> set items \<and> utf8 d = Inr raw"
proof -
  assume a: "first_source items raw = Some s"
  then obtain d rest where "filter (\<lambda>(d, s). utf8 d = Inr raw) items = (d, s) # rest"
    by (auto simp: first_source_def split: list.splits)
  then have "(d, s) \<in> set (filter (\<lambda>(d, s). utf8 d = Inr raw) items)" by simp
  then show ?thesis by auto
qed

lemma first_source_None: "first_source items raw = None \<longleftrightarrow> (\<forall>(d, s) \<in> set items. utf8 d \<noteq> Inr raw)"
proof -
  have "first_source items raw = None \<longleftrightarrow> filter (\<lambda>(d, s). utf8 d = Inr raw) items = []"
    by (auto simp: first_source_def split: list.split)
  then show ?thesis by (auto simp: filter_empty_conv)
qed

definition built :: "(bytes \<Rightarrow> nat) \<Rightarrow> (ustr \<times> ustr) list \<Rightarrow> builder \<Rightarrow> bool" where
  "built crc items b \<longleftrightarrow>
     slots_ok crc (b_slots b) (b_blob b) (b_write b) \<and>
     length (filter (\<lambda>v. v \<noteq> 0) (b_slots b)) = b_n b \<and> b_n b \<le> length items \<and>
     (\<forall>s k. od_get s (b_ids b) = Some k \<longleftrightarrow> k < length (b_sources b) \<and> b_sources b ! k = s) \<and>
     length (b_sources b) \<le> MAX_SOURCES \<and> set (b_sources b) \<subseteq> snd ` set items \<and>
     (\<forall>raw. (\<exists>v. holds (b_slots b) (b_blob b) raw v) \<longleftrightarrow>
        raw \<noteq> [] \<and> length raw \<le> MAX_LEN \<and> first_source items raw \<noteq> None) \<and>
     (\<forall>raw v. holds (b_slots b) (b_blob b) raw v \<longrightarrow>
        slot_sid v < length (b_sources b) \<and> first_source items raw = Some (b_sources b ! slot_sid v))"

lemma built_has:
  "built crc items b \<Longrightarrow> (\<exists>v. holds (b_slots b) (b_blob b) raw v) \<longleftrightarrow>
     raw \<noteq> [] \<and> length raw \<le> MAX_LEN \<and> first_source items raw \<noteq> None"
  unfolding built_def by blast

lemma built_source:
  "built crc items b \<Longrightarrow> holds (b_slots b) (b_blob b) raw v \<Longrightarrow>
     slot_sid v < length (b_sources b) \<and> first_source items raw = Some (b_sources b ! slot_sid v)"
  unfolding built_def by blast

lemma distinct_sources:
  assumes "\<forall>s k. od_get s ids = Some k \<longleftrightarrow> k < length sources \<and> sources ! k = s"
  shows "distinct sources"
  unfolding distinct_conv_nth using assms by (metis option.inject)

lemma source_id_ok:
  assumes b: "built crc items b" and few: "card (insert s (snd ` set items)) \<le> MAX_SOURCES"
  obtains k b' where "source_id s b = Some (k, b')" "k < length (b_sources b')" "b_sources b' ! k = s"
    "k < 2 ^ 16"
    "b_slots b' = b_slots b" "b_blob b' = b_blob b" "b_write b' = b_write b" "b_n b' = b_n b"
    "\<forall>s k. od_get s (b_ids b') = Some k \<longleftrightarrow> k < length (b_sources b') \<and> b_sources b' ! k = s"
    "length (b_sources b') \<le> MAX_SOURCES" "set (b_sources b') \<subseteq> insert s (snd ` set items)"
    "\<forall>i < length (b_sources b). i < length (b_sources b') \<and> b_sources b' ! i = b_sources b ! i"
proof (cases "od_get s (b_ids b)")
  case (Some k)
  with b have k: "k < length (b_sources b)" "b_sources b ! k = s" by (auto simp: built_def)
  have "k < 2 ^ 16" using k(1) b by (simp add: built_def MAX_SOURCES_def)
  moreover have "source_id s b = Some (k, b)" using Some by (simp add: source_id_def)
  ultimately show thesis using k b by (intro that [of k b]) (auto simp: built_def)
next
  case None
  have ids: "\<forall>s k. od_get s (b_ids b) = Some k \<longleftrightarrow> k < length (b_sources b) \<and> b_sources b ! k = s"
    and sub: "set (b_sources b) \<subseteq> snd ` set items" using b by (auto simp: built_def)
  have "s \<notin> set (b_sources b)" using None ids by (metis in_set_conv_nth option.distinct(1))
  moreover have "card (set (b_sources b)) = length (b_sources b)"
    by (rule distinct_card [OF distinct_sources [OF ids]])
  moreover have "card (insert s (set (b_sources b))) \<le> card (insert s (snd ` set items))"
    by (rule card_mono) (use sub in auto)
  ultimately have room: "length (b_sources b) < MAX_SOURCES" using few by simp
  let ?b = "b\<lparr>b_sources := b_sources b @ [s], b_ids := od_set s (length (b_sources b)) (b_ids b)\<rparr>"
  have id: "source_id s b = Some (length (b_sources b), ?b)" using None room by (simp add: source_id_def)
  have "\<forall>t k. od_get t (b_ids ?b) = Some k \<longleftrightarrow> k < length (b_sources ?b) \<and> b_sources ?b ! k = t"
    using ids None \<open>s \<notin> set (b_sources b)\<close> by (auto simp: od_simps nth_append less_Suc_eq in_set_conv_nth)
  with id room sub show thesis
    by (intro that [of "length (b_sources b)" ?b]) (auto simp: nth_append MAX_SOURCES_def)
qed

lemma free_slot:
  assumes "length (filter (\<lambda>v. v \<noteq> 0) slots) < length slots"
  shows "0 \<in> set (slots :: nat list)"
proof (rule ccontr)
  assume "0 \<notin> set slots"
  then have "filter (\<lambda>v. v \<noteq> 0) slots = slots" by (intro filter_True ballI) (metis)
  with assms show False by simp
qed

lemma used_slots_store:
  "slots ! i = 0 \<Longrightarrow> i < length slots \<Longrightarrow> v \<noteq> 0 \<Longrightarrow>
     length (filter (\<lambda>v. v \<noteq> 0) (slots[i := v])) = length (filter (\<lambda>v. v \<noteq> (0 :: nat)) slots) + 1"
proof -
  assume a: "slots ! i = 0" "i < length slots" "v \<noteq> 0"
  have "slots = take i slots @ slots ! i # drop (Suc i) slots" using a(2) by (rule id_take_nth_drop)
  then have "length (filter (\<lambda>v. v \<noteq> 0) slots) =
      length (filter (\<lambda>v. v \<noteq> 0) (take i slots @ slots ! i # drop (Suc i) slots))" by (rule arg_cong)
  with a show ?thesis by (simp add: upd_conv_take_nth_drop)
qed

text \<open>An item that is not stored: it is unrepresentable, or an earlier list supplied it.\<close>

lemma built_skip:
  assumes b: "built crc items b" and raw: "utf8 d = Inr raw"
    and skip: "raw = [] \<or> MAX_LEN < length raw \<or> first_source items raw \<noteq> None"
  shows "built crc (items @ [(d, s)]) b"
proof -
  have e: "first_source (items @ [(d, s)]) r = first_source items r \<or> r = [] \<or> MAX_LEN < length r" for r
    using raw skip by (auto simp: first_source_snoc split: option.splits)
  have "(\<exists>v. holds (b_slots b) (b_blob b) r v) \<longleftrightarrow>
      r \<noteq> [] \<and> length r \<le> MAX_LEN \<and> first_source (items @ [(d, s)]) r \<noteq> None" for r
    unfolding built_has [OF b] using e [of r] by (metis linorder_not_less)
  moreover have "slot_sid v < length (b_sources b) \<and>
      first_source (items @ [(d, s)]) r = Some (b_sources b ! slot_sid v)"
    if h: "holds (b_slots b) (b_blob b) r v" for r v
  proof -
    have "r \<noteq> [] \<and> length r \<le> MAX_LEN" using h built_has [OF b, of r] by blast
    with e [of r] have "first_source (items @ [(d, s)]) r = first_source items r" by auto
    with built_source [OF b h] show ?thesis by simp
  qed
  ultimately show ?thesis using b by (auto simp: built_def)
qed

lemma store_item_ok:
  assumes b: "built crc items b" and few: "card (insert s (snd ` set items)) \<le> MAX_SOURCES"
    and raw: "utf8 d = Inr raw" "raw \<noteq> []" "length raw \<le> MAX_LEN"
    and i: "found crc (b_slots b) (b_blob b) raw i" "i < length (b_slots b)" "b_slots b ! i = 0"
    and new: "first_source items raw = None"
  obtains sid b1 where "source_id s b = Some (sid, b1)"
    "\<And>b'. store_item i raw s sid b1 = Inr b' \<Longrightarrow>
       built crc (items @ [(d, s)]) b' \<and> length (b_slots b') = length (b_slots b)"
proof -
  obtain sid b1 where id: "source_id s b = Some (sid, b1)"
    and sid: "sid < length (b_sources b1)" "b_sources b1 ! sid = s" "sid < 2 ^ 16"
    and same: "b_slots b1 = b_slots b" "b_blob b1 = b_blob b" "b_write b1 = b_write b" "b_n b1 = b_n b"
    and ids: "\<forall>s k. od_get s (b_ids b1) = Some k \<longleftrightarrow> k < length (b_sources b1) \<and> b_sources b1 ! k = s"
    and bound: "length (b_sources b1) \<le> MAX_SOURCES" and sub: "set (b_sources b1) \<subseteq> insert s (snd ` set items)"
    and old: "\<forall>i < length (b_sources b). i < length (b_sources b1) \<and> b_sources b1 ! i = b_sources b ! i"
    by (rule source_id_ok [OF b few])
  have ok: "slots_ok crc (b_slots b) (b_blob b) (b_write b)" using b by (simp add: built_def)
  have "built crc (items @ [(d, s)]) b' \<and> length (b_slots b') = length (b_slots b)"
    if st: "store_item i raw s sid b1 = Inr b'" for b'
  proof -
    have room: "b_write b + length raw \<le> length (b_blob b)"
      and b': "b_slots b' = (b_slots b)[i := slot_pack (b_write b) (length raw) sid]"
        "b_blob b' = take (b_write b) (b_blob b) @ raw @ drop (b_write b + length raw) (b_blob b)"
        "b_write b' = b_write b + length raw" "b_n b' = b_n b + 1" "b_sources b' = b_sources b1" "b_ids b' = b_ids b1"
      using st same by (auto simp: store_item_def split: if_splits)
    note store = slots_ok_store [OF ok i(1,3,2) raw(2,3) room sid(3)]
    let ?v = "slot_pack (b_write b) (length raw) sid"
    have len: "length raw < 2 ^ 8" "0 < length raw" using raw by (auto simp: MAX_LEN_def)
    have nz: "?v \<noteq> 0" and sv: "slot_sid ?v = sid"
      by (rule slot_pack_nonzero [OF len(2,1) sid(3)]) (rule slot_fields(3) [OF len(1) sid(3)])
    have hold: "holds (b_slots b') (b_blob b') r v \<longleftrightarrow>
        (if r = raw then v = ?v else holds (b_slots b) (b_blob b) r v)" for r v
      unfolding b' by (rule store(2))
    have fs: "first_source (items @ [(d, s)]) r = (if r = raw then Some s else first_source items r)" for r
      using raw(1) new by (auto simp: first_source_snoc split: option.splits)
    have "slots_ok crc (b_slots b') (b_blob b') (b_write b')" unfolding b' by (rule store(1))
    moreover have "length (filter (\<lambda>v. v \<noteq> 0) (b_slots b')) = b_n b'" "b_n b' \<le> length (items @ [(d, s)])"
      using used_slots_store [OF i(3,2) nz] b unfolding b' by (simp_all add: built_def)
    moreover have "(\<exists>v. holds (b_slots b') (b_blob b') r v) \<longleftrightarrow>
        r \<noteq> [] \<and> length r \<le> MAX_LEN \<and> first_source (items @ [(d, s)]) r \<noteq> None" for r
      using built_has [OF b, of r] raw unfolding hold fs by auto
    moreover have "slot_sid v < length (b_sources b') \<and>
        first_source (items @ [(d, s)]) r = Some (b_sources b' ! slot_sid v)"
      if h: "holds (b_slots b') (b_blob b') r v" for r v
    proof (cases "r = raw")
      case True
      with h have "v = ?v" unfolding hold by simp
      with True sid sv show ?thesis unfolding fs b' by simp
    next
      case False
      with h have "holds (b_slots b) (b_blob b) r v" unfolding hold by simp
      with built_source [OF b] have "slot_sid v < length (b_sources b)"
        "first_source items r = Some (b_sources b ! slot_sid v)" by blast+
      with old False show ?thesis unfolding fs b' by simp
    qed
    moreover have "\<forall>s k. od_get s (b_ids b') = Some k \<longleftrightarrow> k < length (b_sources b') \<and> b_sources b' ! k = s"
      "length (b_sources b') \<le> MAX_SOURCES" "set (b_sources b') \<subseteq> snd ` set (items @ [(d, s)])"
      using ids bound sub unfolding b' by auto
    moreover have "length (b_slots b') = length (b_slots b)" unfolding b' by simp
    ultimately show ?thesis unfolding built_def by blast
  qed
  with id that show thesis by blast
qed

lemma build_item_ok:
  assumes b: "built crc items b" and room: "length items < length (b_slots b)"
    and few: "card (insert s (snd ` set items)) \<le> MAX_SOURCES"
  shows "\<exists>r. build_item crc (length (b_slots b) - 1) (d, s) b = Some r \<and>
    (\<forall>b'. r = Inr b' \<longrightarrow> built crc (items @ [(d, s)]) b' \<and> length (b_slots b') = length (b_slots b))"
proof (cases "utf8 d")
  case (Inl e)
  then show ?thesis by (simp add: build_item_def)
next
  case (Inr raw)
  show ?thesis
  proof (cases "raw = [] \<or> MAX_LEN < length raw")
    case True
    have "built crc (items @ [(d, s)]) b" by (rule built_skip [OF b Inr]) (use True in blast)
    with True Inr show ?thesis by (auto simp: build_item_def)
  next
    case len: False
    have z: "0 \<in> set (b_slots b)" by (rule free_slot) (use b room in \<open>auto simp: built_def\<close>)
    obtain i where i: "found crc (b_slots b) (b_blob b) raw i" "i < length (b_slots b)"
      by (rule found_exists [OF z])
    have ok: "slots_ok crc (b_slots b) (b_blob b) (b_write b)" using b by (simp add: built_def)
    then obtain e where "length (b_slots b) = 2 ^ e" by (auto simp: slots_ok_def)
    note p = probe_found [OF this i(1)]
    have hold: "holds (b_slots b) (b_blob b) raw v \<longleftrightarrow> b_slots b ! i = v \<and> v \<noteq> 0" for v
      by (rule holds_found [OF ok z i(1)])
    show ?thesis
    proof (cases "b_slots b ! i = 0")
      case False
      with hold have "\<exists>v. holds (b_slots b) (b_blob b) raw v" by blast
      with built_has [OF b, of raw] have "first_source items raw \<noteq> None" by blast
      then have "built crc (items @ [(d, s)]) b" by (intro built_skip [OF b Inr]) blast
      with False p Inr len show ?thesis by (simp add: build_item_def)
    next
      case True
      then have "\<not> (\<exists>v. holds (b_slots b) (b_blob b) raw v)" using hold by simp
      with built_has [OF b, of raw] len have "first_source items raw = None" by simp
      from len have "raw \<noteq> []" "length raw \<le> MAX_LEN" by simp_all
      from store_item_ok [OF b few Inr this i True \<open>first_source items raw = None\<close>]
      obtain sid b1 where id: "source_id s b = Some (sid, b1)"
        and st: "\<And>b'. store_item i raw s sid b1 = Inr b' \<Longrightarrow>
          built crc (items @ [(d, s)]) b' \<and> length (b_slots b') = length (b_slots b)" by metis
      have "build_item crc (length (b_slots b) - 1) (d, s) b = Some (store_item i raw s sid b1)"
        using len p True Inr id by (simp add: build_item_def)
      with st show ?thesis by blast
    qed
  qed
qed

lemma build_items_ok:
  "built crc items b \<Longrightarrow> length items + length xs < length (b_slots b) \<Longrightarrow>
     card (snd ` set (items @ xs)) \<le> MAX_SOURCES \<Longrightarrow>
     \<exists>r. build_items crc (length (b_slots b) - 1) xs b = Some r \<and> (\<forall>b'. r = Inr b' \<longrightarrow> built crc (items @ xs) b')"
proof (induction xs arbitrary: items b)
  case Nil
  then show ?case by simp
next
  case (Cons x xs)
  obtain d s where x: "x = (d, s)" by (cases x) auto
  have "card (insert s (snd ` set items)) \<le> card (snd ` set (items @ x # xs))"
    by (rule card_mono) (auto simp: x)
  then have few: "card (insert s (snd ` set items)) \<le> MAX_SOURCES" using Cons.prems(3) by simp
  have room: "length items < length (b_slots b)" using Cons.prems(2) by simp
  obtain r where r: "build_item crc (length (b_slots b) - 1) (d, s) b = Some r"
    and ok: "\<And>b'. r = Inr b' \<Longrightarrow> built crc (items @ [(d, s)]) b' \<and> length (b_slots b') = length (b_slots b)"
    using build_item_ok [OF Cons.prems(1) room few] by blast
  show ?case
  proof (cases r)
    case (Inl e)
    with r x show ?thesis by simp
  next
    case (Inr b1)
    from ok [OF Inr] have b1: "built crc (items @ [(d, s)]) b1" "length (b_slots b1) = length (b_slots b)" by blast+
    have "\<exists>r. build_items crc (length (b_slots b1) - 1) xs b1 = Some r \<and>
        (\<forall>b'. r = Inr b' \<longrightarrow> built crc ((items @ [(d, s)]) @ xs) b')"
      by (rule Cons.IH [OF b1(1)]) (use Cons.prems(2,3) b1(2) x in auto)
    with r Inr x b1(2) show ?thesis by simp
  qed
qed

lemma table_size_power: "\<exists>k. table_size items = 2 ^ k"
  using next_pow2_power [of "10 * length items div 7 + 1"]
  by (auto simp: table_size_def MIN_SLOTS_def intro: exI [of _ 10])

lemma table_size_room: "length items < table_size items"
  using next_pow2_ge [of "10 * length items div 7 + 1"] by (simp add: table_size_def MIN_SLOTS_def) linarith

lemma start_built: "built crc [] (start_build items)"
proof -
  have "\<not> holds (replicate n 0) blob raw v" for n blob raw v by (auto simp: holds_def)
  then show ?thesis using table_size_power [of items]
    by (auto simp: built_def start_build_def slots_ok_def first_source_def od_get_def)
qed

lemma table_build_sound:
  assumes few: "card (snd ` set items) \<le> MAX_SOURCES"
  shows "\<exists>r. build_items crc (table_size items - 1) items (start_build items) = Some r \<and>
    (\<forall>b. r = Inr b \<longrightarrow> built crc items b)"
proof -
  have l: "length (b_slots (start_build items)) = table_size items" by (simp add: start_build_def)
  have "\<exists>r. build_items crc (length (b_slots (start_build items)) - 1) items (start_build items) = Some r \<and>
      (\<forall>b'. r = Inr b' \<longrightarrow> built crc ([] @ items) b')"
    by (rule build_items_ok [OF start_built]) (use few table_size_room [of items] l in simp_all)
  with l show ?thesis by simp
qed

text \<open>
  C29: building a table returns, with a table or an exception, whatever the checksum and however the
  keys collide: a free slot remains at every step, and probing cannot walk past it forever.
\<close>

theorem table_build_returns:
  assumes "card (snd ` set items) \<le> MAX_SOURCES"
  shows "table_build crc items \<noteq> None"
  using table_build_sound [OF assms, of crc] by (auto simp: table_build_def ubind_def split: sum.split)

lemma build_item_slots: "build_item crc m x b = Some (Inr b') \<Longrightarrow> length (b_slots b') = length (b_slots b)"
  by (auto simp: build_item_def source_id_def store_item_def ubind_eq split: prod.splits option.splits if_splits)

lemma build_items_slots: "build_items crc m xs b = Some (Inr b') \<Longrightarrow> length (b_slots b') = length (b_slots b)"
proof (induction xs arbitrary: b)
  case (Cons x xs)
  then obtain b1 where "build_item crc m x b = Some (Inr b1)" "build_items crc m xs b1 = Some (Inr b')"
    by (auto simp: ubind_eq)
  with Cons.IH build_item_slots show ?case by fastforce
qed simp

lemma built_free:
  assumes "build_items crc m items (start_build items) = Some (Inr b)" and "built crc items b"
  shows "0 \<in> set (b_slots b)"
proof (rule free_slot)
  have "length (b_slots b) = table_size items" using build_items_slots [OF assms(1)] by (simp add: start_build_def)
  with table_size_room [of items] assms(2) show "length (filter (\<lambda>v. v \<noteq> 0) (b_slots b)) < length (b_slots b)"
    unfolding built_def by linarith
qed

text \<open>Cutting the unwritten rest off the blob changes no key.\<close>

lemma slots_ok_cut:
  assumes ok: "slots_ok crc slots blob w" and z: "0 \<in> set slots"
  shows "slots_ok crc slots (take w blob) w" and "holds slots (take w blob) raw v = holds slots blob raw v"
proof -
  have w: "w \<le> length blob" using ok by (simp add: slots_ok_def)
  have key: "slot_key (take w blob) u = slot_key blob u" if u: "u \<in> set slots" "u \<noteq> 0" for u
  proof -
    have "slot_off u + slot_len u \<le> w" using ok u by (auto simp: slots_ok_def in_set_conv_nth)
    from slot_key_take [OF this w, of "[]"] show ?thesis by simp
  qed
  have "slots \<noteq> []" using z by (cases slots) auto
  note fb = found_blob [OF key this]
  show "slots_ok crc slots (take w blob) w" using ok w key by (auto simp: slots_ok_def fb)
  show "holds slots (take w blob) raw v = holds slots blob raw v" using key by (auto simp: holds_def)
qed

definition listed_source :: "(ustr \<times> ustr) list \<Rightarrow> bytes \<Rightarrow> ustr option" where
  "listed_source items raw = (if raw = [] \<or> MAX_LEN < length raw then None else first_source items raw)"

lemma table_get_sound:
  assumes few: "card (snd ` set items) \<le> MAX_SOURCES" and t: "table_build crc items = Some (Inr t)"
    and d: "utf8 d = Inr raw"
  shows "table_get crc t d = Some (Inr (listed_source items raw))"
proof -
  obtain b where items: "build_items crc (table_size items - 1) items (start_build items) = Some (Inr b)"
    and teq: "t = \<lparr>t_slots = b_slots b, t_blob = take (b_write b) (b_blob b), t_n = b_n b,
      t_sources = b_sources b, t_counts = b_counts b, t_removed = {}\<rparr>"
    using t by (auto simp: table_build_def ubind_eq)
  have b: "built crc items b" using table_build_sound [OF few, of crc] items by auto
  have has: "(\<exists>v. holds (b_slots b) (b_blob b) raw v) \<longleftrightarrow> listed_source items raw \<noteq> None"
    using built_has [OF b, of raw] by (auto simp: listed_source_def)
  show ?thesis
  proof (cases "b_n b = 0")
    case True
    have "filter (\<lambda>v. v \<noteq> 0) (b_slots b) = []" using b True unfolding built_def by auto
    then have "\<not> (\<exists>v. holds (b_slots b) (b_blob b) raw v)" by (auto simp: holds_def filter_empty_conv)
    with has True teq show ?thesis by (simp add: table_get_def)
  next
    case False
    have ok: "slots_ok crc (b_slots b) (b_blob b) (b_write b)" using b by (simp add: built_def)
    have z: "0 \<in> set (b_slots b)" by (rule built_free [OF items b])
    note cut' = slots_ok_cut [OF ok z]
    obtain i where i: "found crc (b_slots b) (take (b_write b) (b_blob b)) raw i" "i < length (b_slots b)"
      by (rule found_exists [OF z])
    obtain e where "length (b_slots b) = 2 ^ e" using ok by (auto simp: slots_ok_def)
    note p = probe_found [OF this i(1)]
    have hold: "holds (b_slots b) (b_blob b) raw v \<longleftrightarrow> b_slots b ! i = v \<and> v \<noteq> 0" for v
      using holds_found [OF cut'(1) z i(1)] cut'(2) by simp
    have get: "table_get crc t d = Some (Inr (if b_slots b ! i = 0 then None
        else Some (b_sources b ! slot_sid (b_slots b ! i))))"
      using False p d teq by (simp add: table_get_def Let_def)
    show ?thesis
    proof (cases "b_slots b ! i = 0")
      case True
      then have "\<not> (\<exists>v. holds (b_slots b) (b_blob b) raw v)" using hold by simp
      with has get True show ?thesis by simp
    next
      case False
      then have h: "holds (b_slots b) (b_blob b) raw (b_slots b ! i)" using hold by simp
      with has have "listed_source items raw \<noteq> None" by blast
      then have "listed_source items raw = first_source items raw" by (auto simp: listed_source_def)
      with built_source [OF b h] get False show ?thesis by simp
    qed
  qed
qed

text \<open>
  C28: looking a domain up in a built table gives the source of the first item that names it, and nothing
  for a domain that no item names: collisions, long probe chains and duplicates never invent or lose a
  blocked domain. A domain whose encoding is empty or longer than 255 octets is never stored.
\<close>

theorem table_get_exact:
  assumes "card (snd ` set items) \<le> MAX_SOURCES" and "table_build crc items = Some (Inr t)"
    and "utf8 d = Inr raw"
  shows "table_get crc t d =
    Some (Inr (if raw = [] \<or> MAX_LEN < length raw then None else first_source items raw))"
  using table_get_sound [OF assms] by (simp add: listed_source_def)

subsection \<open>Domains in ASCII fit, others may not\<close>

definition ascii_items :: "(ustr \<times> ustr) list \<Rightarrow> bool" where
  "ascii_items items \<longleftrightarrow> list_all (\<lambda>(d, s). list_all (\<lambda>c. c < 128) d) items"

lemma build_item_ascii:
  assumes "list_all (\<lambda>c. c < 128) d" and "b_write b + length d \<le> length (b_blob b)"
  shows "build_item crc m (d, s) b \<noteq> Some (Inl e)"
    and "build_item crc m (d, s) b = Some (Inr b') \<Longrightarrow>
      b_write b' \<le> b_write b + length d \<and> length (b_blob b') = length (b_blob b)"
  using assms utf8_ascii [OF assms(1)]
  by (auto simp: build_item_def source_id_def store_item_def split: option.splits if_splits)

lemma build_items_ascii:
  "ascii_items xs \<Longrightarrow> b_write b + sum_list (map (length \<circ> fst) xs) \<le> length (b_blob b) \<Longrightarrow>
     build_items crc m xs b \<noteq> Some (Inl e)"
proof (induction xs arbitrary: b)
  case (Cons x xs)
  obtain d s where x: "x = (d, s)" by (cases x) auto
  have a: "list_all (\<lambda>c. c < 128) d" "ascii_items xs" using Cons.prems(1) x by (simp_all add: ascii_items_def)
  have r: "b_write b + length d + sum_list (map (length \<circ> fst) xs) \<le> length (b_blob b)"
    using Cons.prems(2) x by (simp add: comp_def)
  then have "b_write b + length d \<le> length (b_blob b)" by simp
  note step = build_item_ascii [OF a(1) this]
  show ?case
  proof (cases "build_item crc m x b")
    case (Some r')
    show ?thesis
    proof (cases r')
      case (Inl e')
      with step(1) Some x show ?thesis by auto
    next
      case (Inr b1)
      with step(2) Some x have "b_write b1 \<le> b_write b + length d \<and> length (b_blob b1) = length (b_blob b)" by auto
      then have "b_write b1 + sum_list (map (length \<circ> fst) xs) \<le> length (b_blob b1)" using r by linarith
      from Cons.IH [OF a(2) this] Some Inr show ?thesis by simp
    qed
  qed simp
qed simp

lemma table_build_ascii:
  assumes "ascii_items items" and few: "card (snd ` set items) \<le> MAX_SOURCES"
  obtains t where "table_build crc items = Some (Inr t)"
proof -
  have room: "b_write (start_build items) + sum_list (map (length \<circ> fst) items) \<le> length (b_blob (start_build items))"
  proof -
    define c where "c = sum_list (map (length \<circ> fst) items)"
    show ?thesis unfolding start_build_def c_def [symmetric] by (simp add: Let_def)
  qed
  have "build_items crc (table_size items - 1) items (start_build items) \<noteq> Some (Inl e)" for e
    by (rule build_items_ascii [OF assms(1) room])
  then obtain b where "build_items crc (table_size items - 1) items (start_build items) = Some (Inr b)"
    using table_build_sound [OF few, of crc] by (metis sum.exhaust)
  then show thesis using that by (simp add: table_build_def)
qed

text \<open>
  The blob is sized by the characters of the domains and filled with their octets: one domain outside
  ASCII, with no duplicates to leave slack, ends the build in an exception.
\<close>

lemma non_ascii_overflows: "table_build crc [([233], s)] = Some (Inl ValueError)"
proof -
  have size: "table_size [([233], s)] = 1024"
    by (simp add: table_size_def next_pow2_def MIN_SLOTS_def double_until.simps)
  have "x AND 1023 < (1024 :: nat)" for x
    using and_pow2 [of x 10] by simp
  then have "stops (replicate 1024 0) blob raw (x AND 1023)" for blob raw x by (simp add: stops_def)
  then have "probe (stops (replicate 1024 0) blob raw) 1023 (x AND 1023) = Some (x AND 1023)" for blob raw x
    by (subst probe.simps) simp
  then show ?thesis using \<open>\<And>x. x AND 1023 < 1024\<close>
    by (simp add: table_build_def size start_build_def build_item_def utf8_Cons utf8_char_def MAX_LEN_def
        source_id_def od_get_def MAX_SOURCES_def store_item_def)
qed

theorem table_build_returns_witness: "table_build (\<lambda>_. 0) [([97], [115]), ([98], [116])] \<noteq> None"
  by (rule table_build_returns) (simp add: MAX_SOURCES_def)

theorem table_get_exact_witness:
  "\<exists>t. table_build (\<lambda>_. 0) [([97], [115]), ([98], [116]), ([97], [116])] = Some (Inr t) \<and>
     table_get (\<lambda>_. 0) t [97] = Some (Inr (Some [115])) \<and> table_get (\<lambda>_. 0) t [99] = Some (Inr None)"
proof -
  let ?items = "[([97], [115]), ([98], [116]), ([97], [116])] :: (ustr \<times> ustr) list"
  have few: "card (snd ` set ?items) \<le> MAX_SOURCES" by (simp add: MAX_SOURCES_def)
  have "ascii_items ?items" by (simp add: ascii_items_def)
  then obtain t where t: "table_build (\<lambda>_. 0) ?items = Some (Inr t)" by (rule table_build_ascii [OF _ few])
  have u: "utf8 [97] = Inr [97]" "utf8 [98] = Inr [98]" "utf8 [99] = Inr [99]" by (simp_all add: utf8_Cons utf8_char_def)
  from table_get_exact [OF few t u(1)] table_get_exact [OF few t u(3)] t u
  show ?thesis by (auto simp: first_source_def MAX_LEN_def)
qed

subsection \<open>Removals\<close>

lemma table_discard_exact:
  assumes "table_discard crc d t = Some (Inr t')" and "t_removed t = {}"
  shows "table_get crc t' d = Some (Inr None)"
    and "d' \<noteq> d \<Longrightarrow> table_get crc t' d' = table_get crc t d'"
proof -
  obtain r where r: "table_get crc t d = Some (Inr r)"
    and t': "t' = (if r \<noteq> None then t\<lparr>t_removed := insert d (t_removed t)\<rparr> else t)"
    using assms(1) by (auto simp: table_discard_def ubind_eq)
  show "table_get crc t' d = Some (Inr None)"
    using r t' by (auto simp: table_get_def ubind_eq Let_def split: option.splits if_splits)
  show "table_get crc t' d' = table_get crc t d'" if "d' \<noteq> d"
    using t' that by (auto simp: table_get_def Let_def ubind_def split: option.splits sum.splits)
qed

subsection \<open>What the filter relies on\<close>

text \<open>A store of domains in which the first source of a domain wins, as the filter engine uses it.\<close>

locale domain_table =
  fixes build :: "(ustr \<times> ustr) list \<Rightarrow> 't run"
    and get :: "'t \<Rightarrow> ustr \<Rightarrow> ustr option run"
  assumes get_built: "card (snd ` set items) \<le> MAX_SOURCES \<Longrightarrow> build items = Some (Inr t) \<Longrightarrow> utf8 d = Inr raw \<Longrightarrow>
    get t d = Some (Inr (listed_source items raw))"
begin

lemma answers:
  assumes few: "card (snd ` set items) \<le> MAX_SOURCES" and t: "build items = Some (Inr t)"
    and k: "list_all (\<lambda>c. c < 128) k" "k \<noteq> []" "length k \<le> MAX_LEN"
  shows "\<exists>src. get t k = Some (Inr src) \<and> (src \<noteq> None \<longleftrightarrow> k \<in> fst ` set items)"
proof -
  have u: "utf8 k = Inr (map of_nat k)" by (rule utf8_ascii [OF k(1)])
  have "utf8 d = Inr (map of_nat k) \<longleftrightarrow> d = k" for d using utf8_inj_ascii [OF _ k(1)] u by blast
  then have "first_source items (map of_nat k) \<noteq> None \<longleftrightarrow> k \<in> fst ` set items"
    by (force simp: first_source_None)
  moreover have "get t k = Some (Inr (first_source items (map of_nat k)))"
    using get_built [OF few t u] k by (simp add: listed_source_def)
  ultimately show ?thesis by blast
qed

lemma answers_first:
  assumes few: "card (snd ` set items) \<le> MAX_SOURCES" and t: "build items = Some (Inr t)"
    and k: "list_all (\<lambda>c. c < 128) k" "k \<noteq> []" "length k \<le> MAX_LEN"
  shows "get t k = Some (Inr (map_of items k))"
proof -
  have u: "utf8 k = Inr (map of_nat k)" by (rule utf8_ascii [OF k(1)])
  have d: "utf8 d = Inr (map of_nat k) \<longleftrightarrow> d = k" for d using utf8_inj_ascii [OF _ k(1)] u by blast
  have "first_source items (map of_nat k) = map_of items k"
    unfolding first_source_def d by (induction items) (auto split: list.split)
  moreover have "get t k = Some (Inr (first_source items (map of_nat k)))"
    using get_built [OF few t u] k by (simp add: listed_source_def)
  ultimately show ?thesis by simp
qed

lemma order_of_duplicates:
  assumes few: "card (snd ` set (items @ later)) \<le> MAX_SOURCES" and t: "build items = Some (Inr t)"
    and t': "build (items @ later) = Some (Inr t')" and d: "utf8 d = Inr raw" "listed_source items raw \<noteq> None"
  shows "get t' d = get t d"
proof -
  have "card (snd ` set items) \<le> card (snd ` set (items @ later))" by (rule card_mono) auto
  then have few': "card (snd ` set items) \<le> MAX_SOURCES" using few by simp
  have "first_source (items @ later) raw = first_source items raw"
    using d(2) by (auto simp: listed_source_def first_source_def split: list.splits if_splits)
  then have "listed_source (items @ later) raw = listed_source items raw" by (simp add: listed_source_def)
  with get_built [OF few' t d(1)] get_built [OF few t' d(1)] show ?thesis by simp
qed

end

interpretation bt: domain_table "table_build crc" "table_get crc" for crc
  by unfold_locales (rule table_get_sound)

end
