(* ===== verification/Filter_Rule.thy ===== *)
theory Filter_Rule
  imports Block_Table Rdata_Text
begin

section \<open>Filter rules\<close>

text \<open>
  Models \<^verbatim>\<open>trench/filter/rule.py\<close> and the wildcard patterns of
  \<^verbatim>\<open>trench/filter/parser.py\<close>. A regular expression is its pattern; whether it is found in
  a name is the argument \<open>rx\<close> of the definitions that search with it. Lower-casing above ASCII is
  the argument \<open>u\<close>.
\<close>

subsection \<open>Searching strings\<close>

text \<open>\<^verbatim>\<open>s.find(sub, start, stop)\<close> and \<^verbatim>\<open>sub in s\<close>.\<close>

definition str_find :: "ustr \<Rightarrow> nat \<Rightarrow> nat \<Rightarrow> ustr \<Rightarrow> nat option" where
  "str_find sub start stop s =
     List.find (\<lambda>i. take (length sub) (drop i s) = sub) [start ..< stop + 1 - length sub]"

definition contains :: "ustr \<Rightarrow> ustr \<Rightarrow> bool" where
  "contains sub s \<longleftrightarrow> str_find sub 0 (length s) s \<noteq> None"

text \<open>\<^verbatim>\<open>s.partition(sep)\<close> without the separator, for a separator of one character.\<close>

definition partition_at :: "nat \<Rightarrow> ustr \<Rightarrow> ustr \<times> ustr" where
  "partition_at sep s = (takeWhile (\<lambda>c. c \<noteq> sep) s, drop 1 (dropWhile (\<lambda>c. c \<noteq> sep) s))"

subsection \<open>Wildcard patterns\<close>

datatype pattern = Regex ustr | Glob ustr

definition pattern_text :: "pattern \<Rightarrow> ustr" where
  "pattern_text p = (case p of Regex s \<Rightarrow> s | Glob s \<Rightarrow> s)"

definition new_glob :: "(nat \<Rightarrow> ustr) \<Rightarrow> ustr \<Rightarrow> pattern" where
  "new_glob u s = Glob (str_lower u s)"

fun glob_pieces :: "ustr list \<Rightarrow> nat \<Rightarrow> nat \<Rightarrow> ustr \<Rightarrow> bool" where
  "glob_pieces [] pos stop s = True"
| "glob_pieces (p # ps) pos stop s =
     (case str_find p pos stop s of None \<Rightarrow> False | Some at \<Rightarrow> glob_pieces ps (at + length p) stop s)"

definition glob_search :: "(nat \<Rightarrow> ustr) \<Rightarrow> ustr \<Rightarrow> ustr \<Rightarrow> bool" where
  "glob_search u pattern name =
     (let s = str_lower u name; parts = split_on 42 pattern; head = hd parts; tail = last parts;
          mid = filter (\<lambda>p. p \<noteq> []) (butlast (tl parts))
      in if 42 \<notin> set pattern then s = pattern
         else if length s < length head + length tail \<or> \<not> startswith head s \<or> \<not> endswith tail s then False
         else glob_pieces mid (length head) (length s - length tail) s)"

definition pattern_search :: "(nat \<Rightarrow> ustr) \<Rightarrow> (ustr \<Rightarrow> ustr \<Rightarrow> bool) \<Rightarrow> pattern \<Rightarrow> ustr \<Rightarrow> bool" where
  "pattern_search u rx p name = (case p of Regex s \<Rightarrow> rx s name | Glob s \<Rightarrow> glob_search u s name)"

subsection \<open>Rules\<close>

datatype forged = Forged_A ustr | Forged_AAAA ustr | Forged_CNAME name | Forged_TXT "bytes list"
  | Forged_MX int name

record rewrite =
  rw_rcode :: "int option"
  rw_rdata :: "forged option"
  rw_rtype :: int

record rule =
  r_raw :: ustr
  r_block :: bool
  r_suffix :: "ustr option"
  r_exact :: "ustr option"
  r_regex :: "pattern option"
  r_important :: bool
  r_badfilter :: bool
  r_dnstypes :: "int set option"
  r_dnstypes_not :: "int set option"
  r_ctags :: "ustr set option"
  r_ctags_not :: "ustr set option"
  r_clients :: "ustr set option"
  r_clients_not :: "ustr set option"
  r_denyallow :: "ustr list"
  r_rewrite :: "rewrite option"
  r_source :: ustr

text \<open>\<^verbatim>\<open>Rule(raw=raw, block=block, source=source)\<close>, the other fields at their defaults.\<close>

definition new_rule :: "ustr \<Rightarrow> bool \<Rightarrow> ustr \<Rightarrow> rule" where
  "new_rule raw block source =
     \<lparr>r_raw = raw, r_block = block, r_suffix = None, r_exact = None, r_regex = None, r_important = False,
      r_badfilter = False, r_dnstypes = None, r_dnstypes_not = None, r_ctags = None, r_ctags_not = None,
      r_clients = None, r_clients_not = None, r_denyallow = [], r_rewrite = None, r_source = source\<rparr>"

definition suffix_rule :: "ustr \<Rightarrow> ustr \<Rightarrow> ustr \<Rightarrow> rule" where
  "suffix_rule raw suffix source = (new_rule raw True source)\<lparr>r_suffix := Some suffix\<rparr>"

definition operator_rules :: "(nat \<Rightarrow> ustr) \<Rightarrow> ustr list \<Rightarrow> ustr list \<Rightarrow> rule list" where
  "operator_rules u allow deny =
     map (\<lambda>d. (suffix_rule d (str_lower u d) (chars ''allowlist''))\<lparr>r_block := False, r_important := True\<rparr>) allow
     @ map (\<lambda>d. suffix_rule d (str_lower u d) (chars ''denylist'')) deny"

subsection \<open>\<^verbatim>\<open>$dnsrewrite\<close>\<close>

definition RCODES :: "(ustr \<times> int) list" where
  "RCODES =
     [(chars ''NOERROR'', 0), (chars ''FORMERR'', 1), (chars ''SERVFAIL'', 2), (chars ''NXDOMAIN'', 3),
      (chars ''NOTIMP'', 4), (chars ''REFUSED'', 5), (chars ''YXDOMAIN'', 6), (chars ''YXRRSET'', 7),
      (chars ''NXRRSET'', 8), (chars ''NOTAUTH'', 9), (chars ''NOTZONE'', 10), (chars ''BADVERS'', 16),
      (chars ''BADKEY'', 17), (chars ''BADTIME'', 18)]"

text \<open>\<open>ud\<close>: the code points above ASCII that are decimal digits, with the value \<^verbatim>\<open>int\<close> gives them.\<close>

definition digit_value :: "(nat \<Rightarrow> nat option) \<Rightarrow> nat \<Rightarrow> nat option" where
  "digit_value ud c = (if c < 128 then (if is_digit c then Some (c - 48) else None) else ud c)"

definition is_ipv4 :: "(nat \<Rightarrow> nat option) \<Rightarrow> ustr \<Rightarrow> bool" where
  "is_ipv4 ud s =
     (let parts = split_on 46 s
      in length parts = 4 \<and>
         list_all (\<lambda>p. 1 \<le> length p \<and> length p \<le> 3 \<and> list_all (\<lambda>c. digit_value ud c \<noteq> None) p) parts \<and>
         list_all (\<lambda>p. foldl (\<lambda>v c. v * 10 + the (digit_value ud c)) 0 p \<le> 255) parts)"

definition rdata_for :: "(nat \<Rightarrow> ustr) \<Rightarrow> ustr \<Rightarrow> ustr \<Rightarrow> (forged option \<times> int) result" where
  "rdata_for u rtype_s value =
     (if value = []
      then (if rtype_s = [] then Inr (None, 0) else rbind (type_from_text u rtype_s) (\<lambda>t. Inr (None, t)))
      else rbind (type_from_text u rtype_s) (\<lambda>t.
        if t = 1 then Inr (Some (Forged_A value), t)
        else if t = 28 then Inr (Some (Forged_AAAA value), t)
        else if t = 5 then rbind (from_text value) (\<lambda>n. Inr (Some (Forged_CNAME n), t))
        else if t = 16 then rbind (utf8 value) (\<lambda>b. Inr (Some (Forged_TXT [b]), t))
        else if t = 15
        then (let (pref, exch) = partition_at 32 value
              in if exch = [] then rbind (from_text value) (\<lambda>n. Inr (Some (Forged_MX 0 n), t))
                 else rbind (py_int pref) (\<lambda>p. rbind (from_text exch) (\<lambda>n. Inr (Some (Forged_MX p n), t))))
        else Inr (None, t)))"

definition plain_rcode :: "ustr \<Rightarrow> int option" where
  "plain_rcode s =
     (if s \<in> {chars ''REFUSED'', chars ''NXDOMAIN'', chars ''NOERROR'', chars ''SERVFAIL''}
      then map_of RCODES s else None)"

text \<open>Every error of the explicit form becomes \<^const>\<open>ValueError\<close>; \<open>pton6\<close> tells IPv6 addresses.\<close>

definition parse_dnsrewrite ::
  "(nat \<Rightarrow> ustr) \<Rightarrow> (nat \<Rightarrow> nat option) \<Rightarrow> (ustr \<Rightarrow> bool) \<Rightarrow> ustr \<Rightarrow> rewrite result" where
  "parse_dnsrewrite u ud pton6 spec0 =
     (let spec = strip spec0; up = str_upper u spec
      in if plain_rcode up \<noteq> None then Inr \<lparr>rw_rcode = plain_rcode up, rw_rdata = None, rw_rtype = 0\<rparr>
         else if 59 \<in> set spec
         then (let parts = split_on 59 spec;
                   rcode_s = str_upper u (strip (parts ! 0)); rtype_s = str_upper u (strip (parts ! 1));
                   value = (if length parts > 2 then strip (parts ! 2) else [])
               in (case rdata_for u rtype_s value of
                     Inl e \<Rightarrow> Inl ValueError
                   | Inr (rd, t) \<Rightarrow>
                       Inr \<lparr>rw_rcode = Some (case map_of RCODES rcode_s of Some c \<Rightarrow> c | None \<Rightarrow> 0),
                            rw_rdata = rd, rw_rtype = t\<rparr>))
         else if is_ipv4 ud spec then Inr \<lparr>rw_rcode = None, rw_rdata = Some (Forged_A spec), rw_rtype = 1\<rparr>
         else if 58 \<in> set spec \<and> pton6 spec
         then Inr \<lparr>rw_rcode = None, rw_rdata = Some (Forged_AAAA spec), rw_rtype = 28\<rparr>
         else (case from_text spec of
                 Inl e \<Rightarrow> Inl ValueError
               | Inr n \<Rightarrow> Inr \<lparr>rw_rcode = None, rw_rdata = Some (Forged_CNAME n), rw_rtype = 5\<rparr>))"

subsection \<open>What a wildcard pattern matches\<close>

text \<open>The language of a pattern: a star stands for any string, every other character for itself.\<close>

fun glob_match :: "ustr \<Rightarrow> ustr \<Rightarrow> bool" where
  "glob_match [] s = (s = [])"
| "glob_match (c # p) s =
     (if c = 42 then list_ex (\<lambda>k. glob_match p (drop k s)) [0 ..< Suc (length s)]
      else (case s of [] \<Rightarrow> False | x # xs \<Rightarrow> x = c \<and> glob_match p xs))"

text \<open>The pieces between the stars, matched one after the other.\<close>

fun pieces_match :: "ustr list \<Rightarrow> ustr \<Rightarrow> bool" where
  "pieces_match [] s = False"
| "pieces_match [p] s = (s = p)"
| "pieces_match (p # q # ps) s =
     (startswith p s \<and> (\<exists>k \<le> length s - length p. pieces_match (q # ps) (drop (length p + k) s)))"

lemma startswith_drop: "startswith p s \<longleftrightarrow> (\<exists>r. s = p @ r)"
  by (metis append_eq_conv_conj append_take_drop_id startswith_def)

lemma glob_match_plain: "42 \<notin> set p \<Longrightarrow> glob_match (p @ q) s \<longleftrightarrow> startswith p s \<and> glob_match q (drop (length p) s)"
proof (induction p arbitrary: s)
  case Nil
  then show ?case by (simp add: startswith_def)
next
  case (Cons c p)
  then show ?case by (cases s) (auto simp: startswith_def)
qed

lemma ex_upto: "list_ex P [0 ..< Suc n] \<longleftrightarrow> (\<exists>k \<le> n. P k)"
  by (auto simp: list_ex_iff less_Suc_eq_le simp del: upt_Suc)

lemma glob_match_join:
  "ps \<noteq> [] \<Longrightarrow> list_all (\<lambda>p. 42 \<notin> set p) ps \<Longrightarrow> glob_match (join_with 42 ps) s \<longleftrightarrow> pieces_match ps s"
proof (induction ps s rule: pieces_match.induct)
  case (2 p s)
  then show ?case using glob_match_plain [of p "[]" s] by (auto simp: startswith_drop)
next
  case (3 p q ps s)
  have p: "42 \<notin> set p" and q: "list_all (\<lambda>p. 42 \<notin> set p) (q # ps)" using "3.prems" by simp_all
  have "glob_match (join_with 42 (p # q # ps)) s \<longleftrightarrow>
      startswith p s \<and> (\<exists>k \<le> length s - length p. glob_match (join_with 42 (q # ps)) (drop (length p + k) s))"
    using glob_match_plain [OF p, of "42 # join_with 42 (q # ps)" s]
    by (simp add: ex_upto add.commute del: upt_Suc)
  with "3.IH" [OF _ q] show ?case by auto
qed simp

text \<open>The pieces between head and tail at increasing places, the last before \<open>stop\<close>.\<close>

fun fits :: "ustr list \<Rightarrow> nat \<Rightarrow> nat \<Rightarrow> ustr \<Rightarrow> bool" where
  "fits [] pos stop s = (pos \<le> stop)"
| "fits (p # ps) pos stop s =
     (\<exists>at \<ge> pos. at + length p \<le> stop \<and> take (length p) (drop at s) = p \<and> fits ps (at + length p) stop s)"

lemma fits_le: "fits ps pos stop s \<Longrightarrow> pos \<le> stop"
  by (induction ps arbitrary: pos) fastforce+

lemma fits_earlier: "fits ps pos stop s \<Longrightarrow> pos' \<le> pos \<Longrightarrow> fits ps pos' stop s"
  by (cases ps) (auto intro: le_trans)

lemma fits_empty: "fits ([] # ps) pos stop s \<longleftrightarrow> fits ps pos stop s"
  using fits_earlier fits_le by fastforce

lemma fits_filter: "fits (filter (\<lambda>p. p \<noteq> []) ps) pos stop s = fits ps pos stop s"
proof (induction ps arbitrary: pos)
  case (Cons p ps)
  show ?case
  proof (cases "p = []")
    case True
    with Cons show ?thesis by (simp only: fits_empty filter.simps) simp
  next
    case False
    with Cons show ?thesis by simp
  qed
qed simp

lemma find_least:
  "List.find P [a ..< b] = (if \<exists>i. a \<le> i \<and> i < b \<and> P i then Some (LEAST i. a \<le> i \<and> P i) else None)"
proof (cases "\<exists>i. a \<le> i \<and> i < b \<and> P i")
  case True
  then obtain i where i: "a \<le> i" "i < b" "P i" by blast
  let ?l = "LEAST i. a \<le> i \<and> P i"
  have l: "a \<le> ?l \<and> P ?l" "?l \<le> i" using i LeastI [of "\<lambda>i. a \<le> i \<and> P i" i] Least_le [of "\<lambda>i. a \<le> i \<and> P i" i] by auto
  have "[a ..< b] ! (?l - a) = ?l" "?l - a < length [a ..< b]" using l i(2) by auto
  moreover have "\<not> P ([a ..< b] ! j)" if "j < ?l - a" for j
    using not_less_Least [of "a + j" "\<lambda>i. a \<le> i \<and> P i"] that l i(2) by auto
  ultimately have "List.find P [a ..< b] = Some ?l"
    unfolding find_Some_iff using l by (intro exI [of _ "?l - a"]) auto
  with True show ?thesis by simp
next
  case False
  then show ?thesis by (auto simp: find_None_iff)
qed

lemma glob_pieces_fits: "pos \<le> stop \<Longrightarrow> glob_pieces ps pos stop s = fits ps pos stop s"
proof (induction ps arbitrary: pos)
  case (Cons p ps)
  let ?at = "\<lambda>i. pos \<le> i \<and> i + length p \<le> stop \<and> take (length p) (drop i s) = p"
  show ?case
  proof (cases "\<exists>i. ?at i")
    case False
    then have "str_find p pos stop s = None"
      by (auto simp: str_find_def find_None_iff)
    with False show ?thesis by auto
  next
    case True
    then obtain i where i: "?at i" by blast
    let ?l = "LEAST i. pos \<le> i \<and> take (length p) (drop i s) = p"
    have l: "pos \<le> ?l \<and> take (length p) (drop ?l s) = p" "?l \<le> i"
      using i LeastI [of "\<lambda>i. pos \<le> i \<and> take (length p) (drop i s) = p" i]
        Least_le [of "\<lambda>i. pos \<le> i \<and> take (length p) (drop i s) = p" i] by auto
    have "i < stop + 1 - length p" using i by linarith
    with i have f: "str_find p pos stop s = Some ?l" unfolding str_find_def find_least by auto
    have le: "?l + length p \<le> stop" using l i by linarith
    have "fits ps (?l + length p) stop s \<longleftrightarrow> fits (p # ps) pos stop s"
    proof
      assume "fits ps (?l + length p) stop s"
      with l le show "fits (p # ps) pos stop s" by auto
    next
      assume "fits (p # ps) pos stop s"
      then obtain j where j: "?at j" "fits ps (j + length p) stop s" by auto
      have "?l \<le> j" by (rule Least_le) (use j in simp)
      with fits_earlier [OF j(2), of "?l + length p"] show "fits ps (?l + length p) stop s" by simp
    qed
    with f Cons.IH [OF le] show ?thesis by simp
  qed
qed simp

lemma pieces_fits:
  assumes "pos \<le> length s"
  shows "(\<exists>k \<le> length s - pos. pieces_match (ps @ [tail]) (drop (pos + k) s)) \<longleftrightarrow>
    length tail \<le> length s \<and> endswith tail s \<and> fits ps pos (length s - length tail) s"
  using assms
proof (induction ps arbitrary: pos)
  case Nil
  show ?case
  proof
    assume "\<exists>k \<le> length s - pos. pieces_match ([] @ [tail]) (drop (pos + k) s)"
    then obtain k where k: "k \<le> length s - pos" "drop (pos + k) s = tail" by auto
    then have "length tail = length s - (pos + k)" by auto
    then have "pos + k = length s - length tail" "length tail \<le> length s" using k(1) Nil by auto
    with k show "length tail \<le> length s \<and> endswith tail s \<and> fits [] pos (length s - length tail) s"
      by (auto simp: endswith_def)
  next
    assume a: "length tail \<le> length s \<and> endswith tail s \<and> fits [] pos (length s - length tail) s"
    then show "\<exists>k \<le> length s - pos. pieces_match ([] @ [tail]) (drop (pos + k) s)"
      by (intro exI [of _ "length s - length tail - pos"]) (auto simp: endswith_def)
  qed
next
  case (Cons p ps)
  let ?stop = "length s - length tail"
  obtain q qs where q: "ps @ [tail] = q # qs" by (cases ps) auto
  have step: "pieces_match (p # ps @ [tail]) (drop (pos + k) s) \<longleftrightarrow>
      take (length p) (drop (pos + k) s) = p \<and> length tail \<le> length s \<and> endswith tail s \<and>
      fits ps (pos + k + length p) ?stop s" if k: "pos + k \<le> length s" for k
  proof (cases "startswith p (drop (pos + k) s)")
    case False
    then show ?thesis unfolding q by (simp add: startswith_def)
  next
    case True
    then have "length p \<le> length (drop (pos + k) s)" unfolding startswith_drop by (metis le_add1 length_append)
    then have le: "pos + k + length p \<le> length s" using k by simp
    have "pieces_match (p # ps @ [tail]) (drop (pos + k) s) \<longleftrightarrow>
        (\<exists>j \<le> length s - (pos + k + length p). pieces_match (ps @ [tail]) (drop (pos + k + length p + j) s))"
      unfolding q using True by (simp add: add.commute add.left_commute diff_diff_left)
    with Cons.IH [OF le] True show ?thesis by (simp add: startswith_def)
  qed
  have "(\<exists>k \<le> length s - pos. pieces_match ((p # ps) @ [tail]) (drop (pos + k) s)) \<longleftrightarrow>
      (\<exists>k \<le> length s - pos. take (length p) (drop (pos + k) s) = p \<and> length tail \<le> length s \<and> endswith tail s \<and>
        fits ps (pos + k + length p) ?stop s)"
    using step Cons.prems by (auto simp: le_diff_conv2)
  also have "\<dots> \<longleftrightarrow> length tail \<le> length s \<and> endswith tail s \<and> fits (p # ps) pos ?stop s"
  proof
    assume "\<exists>k \<le> length s - pos. take (length p) (drop (pos + k) s) = p \<and> length tail \<le> length s \<and> endswith tail s \<and>
        fits ps (pos + k + length p) ?stop s"
    then obtain k where k: "take (length p) (drop (pos + k) s) = p" "length tail \<le> length s" "endswith tail s"
        "fits ps (pos + k + length p) ?stop s" by blast
    with fits_le [OF k(4)] show "length tail \<le> length s \<and> endswith tail s \<and> fits (p # ps) pos ?stop s"
      by (auto intro: exI [of _ "pos + k"])
  next
    assume a: "length tail \<le> length s \<and> endswith tail s \<and> fits (p # ps) pos ?stop s"
    then obtain i where i: "pos \<le> i" "i + length p \<le> ?stop" "take (length p) (drop i s) = p"
        "fits ps (i + length p) ?stop s" by auto
    then show "\<exists>k \<le> length s - pos. take (length p) (drop (pos + k) s) = p \<and> length tail \<le> length s \<and> endswith tail s \<and>
        fits ps (pos + k + length p) ?stop s"
      using a by (intro exI [of _ "i - pos"]) auto
  qed
  finally show ?case .
qed

text \<open>
  C30: the linear search of a wildcard pattern, leftmost piece by leftmost piece without backtracking,
  finds exactly the names in the language of the pattern.
\<close>

theorem glob_search_exact: "glob_search u p name \<longleftrightarrow> glob_match p (str_lower u name)"
proof -
  define s where "s = str_lower u name"
  define parts where "parts = split_on 42 p"
  have j: "join_with 42 parts = p" unfolding parts_def by (rule join_split)
  have plain: "list_all (\<lambda>q. 42 \<notin> set q) parts" unfolding parts_def by (rule split_no_sep)
  have ne: "parts \<noteq> []" by (simp add: parts_def)
  have spec: "glob_match p s \<longleftrightarrow> pieces_match parts s" using glob_match_join [OF ne plain, of s] j by simp
  show ?thesis
  proof (cases "tl parts = []")
    case True
    then obtain q where q: "parts = [q]" using ne by (cases parts) auto
    then have "q = p" "42 \<notin> set p" using j plain by auto
    with q spec show ?thesis by (auto simp: glob_search_def s_def)
  next
    case False
    then obtain head ps where hp: "parts = head # ps" "ps \<noteq> []" using ne by (cases parts) auto
    define mid where "mid = butlast ps"
    define tail where "tail = last ps"
    have ps: "ps = mid @ [tail]" using hp(2) by (simp add: mid_def tail_def)
    have star: "42 \<in> set p"
    proof (rule ccontr)
      assume "42 \<notin> set p"
      then have "parts = [p]" unfolding parts_def by (rule split_on_plain)
      with False show False by simp
    qed
    obtain q qs where q: "ps = q # qs" using hp(2) by (cases ps) auto
    have "pieces_match parts s \<longleftrightarrow> startswith head s \<and> length head + length tail \<le> length s \<and> endswith tail s \<and>
        fits mid (length head) (length s - length tail) s"
    proof (cases "startswith head s")
      case False
      then show ?thesis by (simp add: hp(1) q)
    next
      case True
      then have le: "length head \<le> length s" by (auto simp: startswith_drop)
      have "pieces_match parts s \<longleftrightarrow> (\<exists>k \<le> length s - length head. pieces_match ps (drop (length head + k) s))"
        using True by (simp add: hp(1) q)
      with pieces_fits [OF le, of mid tail] True fits_le [of mid "length head" "length s - length tail" s]
      show ?thesis unfolding ps by auto
    qed
    moreover have "glob_search u p name \<longleftrightarrow> length head + length tail \<le> length s \<and> startswith head s \<and>
        endswith tail s \<and> glob_pieces (filter (\<lambda>p. p \<noteq> []) mid) (length head) (length s - length tail) s"
      using star hp by (auto simp: glob_search_def Let_def s_def [symmetric] parts_def [symmetric] mid_def tail_def)
    moreover have "glob_pieces (filter (\<lambda>p. p \<noteq> []) mid) (length head) (length s - length tail) s =
        fits mid (length head) (length s - length tail) s" if "length head + length tail \<le> length s"
    proof -
      have "length head \<le> length s - length tail" using that by linarith
      from glob_pieces_fits [OF this] show ?thesis by (simp only: fits_filter)
    qed
    ultimately show ?thesis using spec by (auto simp: s_def)
  qed
qed

end
