(* ===== verification/Filter_Engine.thy ===== *)
theory Filter_Engine
  imports Filter_Rule Wire_Message
begin

section \<open>The filter engine\<close>

text \<open>
  Models \<^verbatim>\<open>trench/filter/engine.py\<close>, \<^verbatim>\<open>groups.py\<close> and
  \<^verbatim>\<open>cnamecloak.py\<close>: the index of compiled rules and the decision on a name. Whether a
  regular expression is found in a name (\<open>rx\<close>) and whether an address lies in a network (\<open>innet\<close>,
  False where the library raises) are arguments; so is the checksum of the blocklist table. The index
  returns what \<^const>\<open>table_get\<close> returns, so a decision is a run.
\<close>

subsection \<open>Decisions\<close>

datatype action = NONE | BLOCK | ALLOW | REWRITE

record decision =
  d_action :: action
  d_rdata :: "forged option"
  d_rcode :: "int option"
  d_rule :: ustr
  d_source :: ustr
  d_reason :: ustr

definition no_decision :: decision where
  "no_decision = \<lparr>d_action = NONE, d_rdata = None, d_rcode = None, d_rule = [], d_source = [], d_reason = []\<rparr>"

definition blocked :: "decision \<Rightarrow> bool" where
  "blocked d \<longleftrightarrow> d_action d = BLOCK"

subsection \<open>The index\<close>

definition OPERATOR_SOURCES :: "ustr set" where
  "OPERATOR_SOURCES = {chars ''custom'', chars ''denylist'', chars ''allowlist''}"

definition is_plain :: "rule \<Rightarrow> bool" where
  "is_plain r \<longleftrightarrow>
     r_block r \<and> r_suffix r \<noteq> None \<and> \<not> r_important r \<and> \<not> r_badfilter r \<and> r_dnstypes r = None \<and>
     r_ctags r = None \<and> r_clients r = None \<and> r_dnstypes_not r = None \<and> r_ctags_not r = None \<and>
     r_clients_not r = None \<and> r_denyallow r = [] \<and> r_rewrite r = None"

type_synonym rule_table = "(ustr, rule list) odict"

record engine =
  block_plain :: "(ustr, ustr) odict"
  the_table :: block_table
  block_suffix :: rule_table
  allow_suffix :: rule_table
  block_exact :: rule_table
  allow_exact :: rule_table
  block_regex :: "rule list"
  allow_regex :: "rule list"
  n_rules :: nat
  has_client_rules :: bool

definition new_engine :: engine where
  "new_engine =
     \<lparr>block_plain = [], the_table = empty_table, block_suffix = [], allow_suffix = [], block_exact = [],
      allow_exact = [], block_regex = [], allow_regex = [], n_rules = 0, has_client_rules = False\<rparr>"

text \<open>\<^verbatim>\<open>d.setdefault(k, []).append(r)\<close>\<close>

definition file_under :: "ustr \<Rightarrow> rule \<Rightarrow> rule_table \<Rightarrow> rule_table" where
  "file_under k r d = od_set k ((case od_get k d of Some rs \<Rightarrow> rs | None \<Rightarrow> []) @ [r]) d"

type_synonym pattern_key = "ustr option \<times> ustr option \<times> ustr option \<times> bool"

definition pattern_id :: "rule \<Rightarrow> pattern_key" where
  "pattern_id r = (r_suffix r, r_exact r, map_option pattern_text (r_regex r), r_block r)"

definition live_rules :: "pattern_key set option \<Rightarrow> rule list \<Rightarrow> rule list" where
  "live_rules keys rules =
     (let bad = (case keys of Some k \<Rightarrow> k | None \<Rightarrow> pattern_id ` set (filter r_badfilter rules))
      in filter (\<lambda>r. \<not> r_badfilter r \<and> \<not> (pattern_id r \<in> bad \<and> r_rewrite r = None)) rules)"

text \<open>\<open>imported\<close> is \<^const>\<open>None\<close> when the table is adopted and nothing is routed to it.\<close>

definition engine_add :: "rule \<Rightarrow> engine \<times> (ustr \<times> ustr) list option \<Rightarrow> engine \<times> (ustr \<times> ustr) list option" where
  "engine_add r = (\<lambda>(e, imported).
     (let e = e\<lparr>n_rules := n_rules e + 1,
               has_client_rules := has_client_rules e \<or> r_clients r \<noteq> None \<or> r_clients_not r \<noteq> None\<rparr>
      in (case r_regex r of
            Some _ \<Rightarrow> (if r_block r then e\<lparr>block_regex := block_regex e @ [r]\<rparr>
                       else e\<lparr>allow_regex := allow_regex e @ [r]\<rparr>, imported)
          | None \<Rightarrow>
         (case r_exact r of
            Some x \<Rightarrow> (if r_block r then e\<lparr>block_exact := file_under x r (block_exact e)\<rparr>
                       else e\<lparr>allow_exact := file_under x r (allow_exact e)\<rparr>, imported)
          | None \<Rightarrow>
         (case r_suffix r of
            None \<Rightarrow> (e, imported)
          | Some x \<Rightarrow>
              if is_plain r
              then (if r_source r \<in> OPERATOR_SOURCES \<or> imported = None
                    then (if od_get x (block_plain e) = None
                          then e\<lparr>block_plain := od_set x (r_source r) (block_plain e)\<rparr> else e, imported)
                    else (e, Some (the imported @ [(x, r_source r)])))
              else (if r_block r then e\<lparr>block_suffix := file_under x r (block_suffix e)\<rparr>
                    else e\<lparr>allow_suffix := file_under x r (allow_suffix e)\<rparr>, imported))))))"

definition compile_rules :: "(bytes \<Rightarrow> nat) \<Rightarrow> rule list \<Rightarrow> pattern_key set option \<Rightarrow> engine run" where
  "compile_rules crc rules keys =
     (let (e, imported) = fold engine_add (live_rules keys rules) (new_engine, Some [])
      in ubind (table_build crc (the imported)) (\<lambda>t. Some (Inr (e\<lparr>the_table := t\<rparr>))))"

definition from_table :: "block_table \<Rightarrow> rule list \<Rightarrow> engine" where
  "from_table t rules = (fst (fold engine_add (live_rules None rules) (new_engine, None)))\<lparr>the_table := t\<rparr>"

definition engine_size :: "engine \<Rightarrow> int" where
  "engine_size e = int (length (block_plain e)) + table_len (the_table e) + int (length (block_suffix e))
     + int (length (block_exact e)) + int (length (block_regex e))"

definition picked :: "rule_table \<Rightarrow> ustr list" where
  "picked d = map fst (filter (\<lambda>(k, rs). list_ex (\<lambda>r. r_source r \<in> OPERATOR_SOURCES) rs) d)"

definition custom_rules :: "engine \<Rightarrow> ustr set \<times> ustr set" where
  "custom_rules e =
     (set (picked (block_suffix e)) \<union> set (map fst (filter (\<lambda>(k, s). s \<in> OPERATOR_SOURCES) (block_plain e))),
      set (picked (allow_suffix e)))"

definition plain_source_counts :: "engine \<Rightarrow> (ustr, nat) odict" where
  "plain_source_counts e =
     fold (\<lambda>(k, s) d. od_set s ((case od_get s d of Some n \<Rightarrow> n | None \<Rightarrow> 0) + 1) d) (block_plain e)
       (t_counts (the_table e))"

subsection \<open>Candidates\<close>

definition filed :: "ustr \<Rightarrow> rule_table \<Rightarrow> rule list" where
  "filed k d = (case od_get k d of Some rs \<Rightarrow> rs | None \<Rightarrow> [])"

definition plain_source :: "(bytes \<Rightarrow> nat) \<Rightarrow> engine \<Rightarrow> ustr \<Rightarrow> ustr option run" where
  "plain_source crc e cand =
     (case od_get cand (block_plain e) of
        Some s \<Rightarrow> if s \<noteq> [] then Some (Inr (Some s)) else table_get crc (the_table e) cand
      | None \<Rightarrow> table_get crc (the_table e) cand)"

fun plain_hits :: "(bytes \<Rightarrow> nat) \<Rightarrow> engine \<Rightarrow> ustr list \<Rightarrow> rule list run" where
  "plain_hits crc e [] = Some (Inr [])"
| "plain_hits crc e (cand # cands) =
     ubind (plain_source crc e cand) (\<lambda>src. ubind (plain_hits crc e cands) (\<lambda>rest.
       Some (Inr (case src of None \<Rightarrow> rest | Some s \<Rightarrow> suffix_rule cand cand s # rest))))"

definition regex_hits :: "(nat \<Rightarrow> ustr) \<Rightarrow> (ustr \<Rightarrow> ustr \<Rightarrow> bool) \<Rightarrow> ustr \<Rightarrow> rule list \<Rightarrow> rule list" where
  "regex_hits u rx name rs =
     filter (\<lambda>r. case r_regex r of None \<Rightarrow> False | Some p \<Rightarrow> pattern_search u rx p name) rs"

definition candidates ::
  "(bytes \<Rightarrow> nat) \<Rightarrow> (nat \<Rightarrow> ustr) \<Rightarrow> (ustr \<Rightarrow> ustr \<Rightarrow> bool) \<Rightarrow> engine \<Rightarrow> ustr list \<Rightarrow> ustr \<Rightarrow> rule_table \<Rightarrow>
   rule_table \<Rightarrow> rule list \<Rightarrow> bool \<Rightarrow> rule list run" where
  "candidates crc u rx e cands name suffix_table exact_table regexes plain =
     ubind (if plain then plain_hits crc e cands else Some (Inr [])) (\<lambda>hits.
       Some (Inr (concat (map (\<lambda>c. filed c suffix_table) cands) @ hits @ filed name exact_table
                  @ regex_hits u rx name regexes)))"

subsection \<open>Modifiers\<close>

record client_ctx =
  x_ctags :: "ustr set"
  x_client :: ustr
  x_names :: "ustr set"

definition client_in :: "(ustr \<Rightarrow> ustr \<Rightarrow> bool) \<Rightarrow> ustr set \<Rightarrow> ustr \<Rightarrow> ustr set \<Rightarrow> bool" where
  "client_in innet spec client names \<longleftrightarrow>
     spec \<noteq> {} \<and> ((client \<noteq> [] \<and> client \<in> spec) \<or> names \<inter> spec \<noteq> {} \<or>
       (\<exists>entry \<in> spec. 47 \<in> set entry \<and> client \<noteq> [] \<and> innet client entry))"

definition under_any :: "ustr \<Rightarrow> ustr list \<Rightarrow> bool" where
  "under_any name ds = list_ex (\<lambda>d. name = d \<or> endswith (46 # d) name) ds"

definition applies :: "(ustr \<Rightarrow> ustr \<Rightarrow> bool) \<Rightarrow> ustr \<Rightarrow> int \<Rightarrow> client_ctx \<Rightarrow> rule \<Rightarrow> bool" where
  "applies innet name qt x r =
     (if (case r_dnstypes r of Some s \<Rightarrow> qt \<notin> s | None \<Rightarrow> False) then False
      else if (case r_dnstypes_not r of Some s \<Rightarrow> qt \<in> s | None \<Rightarrow> False) then False
      else if (case r_ctags r of Some s \<Rightarrow> x_ctags x \<inter> s = {} | None \<Rightarrow> False) then False
      else if (case r_ctags_not r of Some s \<Rightarrow> x_ctags x \<inter> s \<noteq> {} | None \<Rightarrow> False) then False
      else if (case r_clients_not r of Some s \<Rightarrow> client_in innet s (x_client x) (x_names x) | None \<Rightarrow> False) then False
      else if (case r_clients r of Some s \<Rightarrow> \<not> client_in innet s (x_client x) (x_names x) | None \<Rightarrow> False) then False
      else if r_denyallow r \<noteq> [] \<and> under_any name (r_denyallow r) then False
      else True)"

definition score :: "rule \<Rightarrow> bool \<times> nat" where
  "score r = (r_important r,
     length (case r_suffix r of Some s \<Rightarrow> (if s \<noteq> [] then s else (case r_exact r of Some x \<Rightarrow> x | None \<Rightarrow> []))
                              | None \<Rightarrow> (case r_exact r of Some x \<Rightarrow> x | None \<Rightarrow> [])))"

definition score_less :: "bool \<times> nat \<Rightarrow> bool \<times> nat \<Rightarrow> bool" where
  "score_less a b \<longleftrightarrow> (\<not> fst a \<and> fst b) \<or> (fst a = fst b \<and> snd a < snd b)"

text \<open>\<^verbatim>\<open>max(rules, key=score)\<close>: the first of the greatest.\<close>

fun most_specific :: "rule \<Rightarrow> rule list \<Rightarrow> rule" where
  "most_specific r [] = r"
| "most_specific r (x # xs) = most_specific (if score_less (score r) (score x) then x else r) xs"

subsection \<open>The decision\<close>

definition decide :: "rule list \<Rightarrow> rule list \<Rightarrow> decision" where
  "decide block allow =
     (if block = [] \<and> allow = [] then no_decision
      else let block_imp = list_ex r_important block; allow_imp = list_ex r_important allow
      in if allow \<noteq> [] \<and> \<not> (block_imp \<and> \<not> allow_imp)
         then let r = most_specific (hd allow) (tl allow)
              in no_decision\<lparr>d_action := ALLOW, d_rule := r_raw r, d_source := r_source r,
                             d_reason := chars ''allowed by '' @ r_raw r\<rparr>
         else if block \<noteq> []
         then let r = most_specific (hd block) (tl block)
              in (case r_rewrite r of
                    Some w \<Rightarrow> no_decision\<lparr>d_action := REWRITE, d_rdata := rw_rdata w, d_rcode := rw_rcode w,
                                d_rule := r_raw r, d_source := r_source r,
                                d_reason := chars ''rewritten by '' @ r_raw r\<rparr>
                  | None \<Rightarrow> no_decision\<lparr>d_action := BLOCK, d_rule := r_raw r, d_source := r_source r,
                              d_reason := chars ''blocked by '' @ r_raw r\<rparr>)
         else no_decision)"

definition match_name ::
  "(bytes \<Rightarrow> nat) \<Rightarrow> (nat \<Rightarrow> ustr) \<Rightarrow> (ustr \<Rightarrow> ustr \<Rightarrow> bool) \<Rightarrow> (ustr \<Rightarrow> ustr \<Rightarrow> bool) \<Rightarrow> engine \<Rightarrow> ustr \<Rightarrow> int \<Rightarrow>
   client_ctx \<Rightarrow> decision run" where
  "match_name crc u rx innet e q qt x =
     (case suffixes u q of
        [] \<Rightarrow> Some (Inr no_decision)
      | name # rest \<Rightarrow>
          ubind (candidates crc u rx e (name # rest) name (block_suffix e) (block_exact e) (block_regex e) True)
            (\<lambda>block.
          ubind (candidates crc u rx e (name # rest) name (allow_suffix e) (allow_exact e) (allow_regex e) False)
            (\<lambda>allow.
          if block = [] \<and> allow = [] then Some (Inr no_decision)
          else Some (Inr (decide (filter (applies innet name qt x) block) (filter (applies innet name qt x) allow))))))"

subsection \<open>Groups\<close>

text \<open>A group's own rules in front of the shared ones; \<open>base\<close> is the engine current when it is asked.\<close>

definition layered_match ::
  "(bytes \<Rightarrow> nat) \<Rightarrow> (nat \<Rightarrow> ustr) \<Rightarrow> (ustr \<Rightarrow> ustr \<Rightarrow> bool) \<Rightarrow> (ustr \<Rightarrow> ustr \<Rightarrow> bool) \<Rightarrow> engine \<Rightarrow> engine \<Rightarrow> bool \<Rightarrow>
   ustr \<Rightarrow> int \<Rightarrow> client_ctx \<Rightarrow> decision run" where
  "layered_match crc u rx innet own base inherit q qt x =
     ubind (match_name crc u rx innet own q qt x) (\<lambda>d.
       if d_action d \<noteq> NONE then Some (Inr d)
       else if \<not> inherit then Some (Inr no_decision)
       else match_name crc u rx innet base q qt x)"

subsection \<open>CNAME cloaking\<close>

definition rdata_name :: "rdata \<Rightarrow> name option" where
  "rdata_name rd = (case rd of Rd_NS n \<Rightarrow> Some n | Rd_CNAME n \<Rightarrow> Some n | Rd_PTR n \<Rightarrow> Some n
     | Rd_DNAME n \<Rightarrow> Some n | _ \<Rightarrow> None)"

text \<open>The loop over the answers; \<open>m\<close> is the engine's match under the client's context.\<close>

fun inspect_cnames :: "(ustr \<Rightarrow> decision run) \<Rightarrow> rr list \<Rightarrow> decision option run" where
  "inspect_cnames m [] = Some (Inr None)"
| "inspect_cnames m (r # rs) =
     (if rr_type r = 5
      then (case rdata_name (rr_rdata r) of
              None \<Rightarrow> Some (Inl AttributeError)
            | Some n \<Rightarrow>
                (let target = rstrip (\<lambda>c. c = 46) (to_text False n)
                 in ubind (m target) (\<lambda>d.
                      if blocked d
                      then Some (Inr (Some (d\<lparr>d_reason := chars ''CNAME cloak: '' @ target @ [32] @ d_reason d\<rparr>)))
                      else inspect_cnames m rs)))
      else inspect_cnames m rs)"

end
