(* ===== verification/Filter_Engine_Props.thy ===== *)
theory Filter_Engine_Props
  imports Filter_Engine
begin

section \<open>What the filter engine decides\<close>

text \<open>
  The index of hash tables, the shared blocklist and the pattern lists decides as the list of rules it
  was compiled from: a reference relation says which rules cover a name and apply to a query, and the
  precedence of important rules, exceptions and blocks is stated over it. An engine built from rules
  and one that adopts another process's table are shown to index the same rules.
\<close>

subsection \<open>The reference relation\<close>

definition covers :: "(nat \<Rightarrow> ustr) \<Rightarrow> (ustr \<Rightarrow> ustr \<Rightarrow> bool) \<Rightarrow> ustr \<Rightarrow> rule \<Rightarrow> bool" where
  "covers u rx name r \<longleftrightarrow>
     (case r_regex r of Some p \<Rightarrow> pattern_search u rx p name
      | None \<Rightarrow> (case r_exact r of Some x \<Rightarrow> name = x
      | None \<Rightarrow> (case r_suffix r of Some s \<Rightarrow> name = s \<or> endswith (46 # s) name | None \<Rightarrow> False)))"

definition by_suffix :: "rule \<Rightarrow> bool" where
  "by_suffix r \<longleftrightarrow> r_regex r = None \<and> r_exact r = None \<and> r_suffix r \<noteq> None"

definition by_exact :: "rule \<Rightarrow> bool" where
  "by_exact r \<longleftrightarrow> r_regex r = None \<and> r_exact r \<noteq> None"

definition plain_of :: "rule list \<Rightarrow> ustr \<Rightarrow> rule list" where
  "plain_of rs k = filter (\<lambda>r. by_suffix r \<and> is_plain r \<and> r_suffix r = Some k) rs"

lemma endswith_append: "endswith t s \<longleftrightarrow> (\<exists>p. s = p @ t)"
  by (metis append_take_drop_id diff_add_inverse2 drop_append drop_eq_Nil2 endswith_def le_add2
      length_append order_refl append_Nil diff_diff_cancel diff_self_eq_0 drop0)

lemma suffix_loop_set: "t \<in> set (suffix_loop s) \<longleftrightarrow> (\<exists>p. s = p @ 46 # t)"
proof (induction s)
  case (Cons c s)
  have "(\<exists>p. c # s = p @ 46 # t) \<longleftrightarrow> (c = 46 \<and> s = t) \<or> (\<exists>p. s = p @ 46 # t)"
  proof
    assume "\<exists>p. c # s = p @ 46 # t"
    then obtain p where "c # s = p @ 46 # t" by blast
    then show "(c = 46 \<and> s = t) \<or> (\<exists>p. s = p @ 46 # t)" by (cases p) auto
  next
    assume "(c = 46 \<and> s = t) \<or> (\<exists>p. s = p @ 46 # t)"
    then show "\<exists>p. c # s = p @ 46 # t" by (metis append_Cons append_Nil)
  qed
  with Cons show ?case by auto
qed simp

lemma suffixes_set:
  assumes "suffixes u q = name # rest"
  shows "t \<in> set (name # rest) \<longleftrightarrow> name = t \<or> endswith (46 # t) name"
proof -
  have "rest = suffix_loop name" using assms by (auto simp: suffixes_def Let_def split: if_splits)
  then show ?thesis by (auto simp: suffix_loop_set endswith_append)
qed

subsection \<open>The index holds the rules\<close>

definition indexed :: "(bytes \<Rightarrow> nat) \<Rightarrow> engine \<Rightarrow> rule list \<Rightarrow> bool" where
  "indexed crc e rs \<longleftrightarrow>
     (\<forall>k. filed k (block_suffix e) = filter (\<lambda>r. by_suffix r \<and> r_suffix r = Some k \<and> \<not> is_plain r \<and> r_block r) rs) \<and>
     (\<forall>k. filed k (allow_suffix e) = filter (\<lambda>r. by_suffix r \<and> r_suffix r = Some k \<and> \<not> is_plain r \<and> \<not> r_block r) rs) \<and>
     (\<forall>k. filed k (block_exact e) = filter (\<lambda>r. by_exact r \<and> r_exact r = Some k \<and> r_block r) rs) \<and>
     (\<forall>k. filed k (allow_exact e) = filter (\<lambda>r. by_exact r \<and> r_exact r = Some k \<and> \<not> r_block r) rs) \<and>
     block_regex e = filter (\<lambda>r. r_regex r \<noteq> None \<and> r_block r) rs \<and>
     allow_regex e = filter (\<lambda>r. r_regex r \<noteq> None \<and> \<not> r_block r) rs \<and>
     (\<forall>k. list_all (\<lambda>c. c < 128) k \<longrightarrow> k \<noteq> [] \<longrightarrow> length k \<le> MAX_LEN \<longrightarrow>
        (\<exists>src. plain_source crc e k = Some (Inr src) \<and> (src \<noteq> None \<longleftrightarrow> plain_of rs k \<noteq> [])))"

text \<open>What \<^const>\<open>engine_add\<close> keeps true of the tables and of the list of imported domains.\<close>

definition routed :: "bool \<Rightarrow> rule \<Rightarrow> bool" where
  "routed importing r \<longleftrightarrow> importing \<and> r_source r \<notin> OPERATOR_SOURCES"

definition first_src :: "rule list \<Rightarrow> ustr option" where
  "first_src rs = (case rs of [] \<Rightarrow> None | r # _ \<Rightarrow> Some (r_source r))"

definition added :: "bool \<Rightarrow> rule list \<Rightarrow> engine \<times> (ustr \<times> ustr) list option \<Rightarrow> bool" where
  "added importing rs = (\<lambda>(e, imported).
     (\<forall>k. filed k (block_suffix e) = filter (\<lambda>r. by_suffix r \<and> r_suffix r = Some k \<and> \<not> is_plain r \<and> r_block r) rs) \<and>
     (\<forall>k. filed k (allow_suffix e) = filter (\<lambda>r. by_suffix r \<and> r_suffix r = Some k \<and> \<not> is_plain r \<and> \<not> r_block r) rs) \<and>
     (\<forall>k. filed k (block_exact e) = filter (\<lambda>r. by_exact r \<and> r_exact r = Some k \<and> r_block r) rs) \<and>
     (\<forall>k. filed k (allow_exact e) = filter (\<lambda>r. by_exact r \<and> r_exact r = Some k \<and> \<not> r_block r) rs) \<and>
     block_regex e = filter (\<lambda>r. r_regex r \<noteq> None \<and> r_block r) rs \<and>
     allow_regex e = filter (\<lambda>r. r_regex r \<noteq> None \<and> \<not> r_block r) rs \<and>
     (\<forall>k. od_get k (block_plain e) = first_src (filter (\<lambda>r. \<not> routed importing r) (plain_of rs k))) \<and>
     imported = (if importing then Some (map (\<lambda>r. (the (r_suffix r), r_source r))
        (filter (\<lambda>r. by_suffix r \<and> is_plain r \<and> routed importing r) rs)) else None))"

lemma filed_under: "filed k (file_under k' r d) = (if k = k' then filed k d @ [r] else filed k d)"
  by (auto simp: filed_def file_under_def od_simps split: option.split)

lemma first_src_snoc: "first_src (rs @ [r]) = (case first_src rs of None \<Rightarrow> Some (r_source r) | Some s \<Rightarrow> Some s)"
  by (cases rs) (auto simp: first_src_def)

lemma added_start: "added True [] (new_engine, Some [])" "added False [] (new_engine, None)"
  by (auto simp: added_def new_engine_def filed_def od_get_def plain_of_def first_src_def)

lemma added_step:
  assumes a: "added importing rs (e, imported)"
  shows "added importing (rs @ [r]) (engine_add r (e, imported))"
proof -
  note defs = by_suffix_def by_exact_def plain_of_def
  consider (rx) p where "r_regex r = Some p" | (ex) x where "r_regex r = None" "r_exact r = Some x"
    | (none) "r_regex r = None" "r_exact r = None" "r_suffix r = None"
    | (plain) x where "r_regex r = None" "r_exact r = None" "r_suffix r = Some x" "is_plain r"
    | (sfx) x where "r_regex r = None" "r_exact r = None" "r_suffix r = Some x" "\<not> is_plain r"
    by (cases "r_regex r"; cases "r_exact r"; cases "r_suffix r"; cases "is_plain r") auto
  then show ?thesis
  proof cases
    case rx
    with a show ?thesis by (cases "r_block r") (simp_all add: added_def engine_add_def Let_def defs)
  next
    case ex
    with a show ?thesis
      by (cases "r_block r") (simp_all add: added_def engine_add_def Let_def defs filed_under)
  next
    case none
    with a show ?thesis by (simp add: added_def engine_add_def Let_def defs)
  next
    case sfx
    with a show ?thesis
      by (cases "r_block r") (simp_all add: added_def engine_add_def Let_def defs filed_under)
  next
    case plain
    have sel: "filter (\<lambda>r. \<not> routed importing r) (plain_of (rs @ [r]) k) =
        filter (\<lambda>r. \<not> routed importing r) (plain_of rs k) @ (if k = x \<and> \<not> routed importing r then [r] else [])" for k
      using plain by (auto simp: defs)
    have imp: "imported = None \<longleftrightarrow> \<not> importing" using a by (auto simp: added_def)
    show ?thesis
    proof (cases "routed importing r")
      case True
      then have "importing" "r_source r \<notin> OPERATOR_SOURCES" by (simp_all add: routed_def)
      with a plain imp True show ?thesis
        by (simp add: added_def engine_add_def Let_def sel) (simp add: defs)
    next
      case False
      then have "r_source r \<in> OPERATOR_SOURCES \<or> imported = None" using imp by (auto simp: routed_def)
      moreover define B where
        "B = (if od_get x (block_plain e) = None then od_set x (r_source r) (block_plain e) else block_plain e)"
      ultimately have add: "engine_add r (e, imported) =
          (e\<lparr>n_rules := n_rules e + 1,
             has_client_rules := has_client_rules e \<or> r_clients r \<noteq> None \<or> r_clients_not r \<noteq> None,
             block_plain := B\<rparr>, imported)"
        using plain by (simp add: engine_add_def Let_def B_def)
      have kind: "by_suffix r" "\<not> by_exact r" using plain by (simp_all add: by_suffix_def by_exact_def)
      have src: "od_get k (block_plain e) = first_src (filter (\<lambda>r. \<not> routed importing r) (plain_of rs k))" for k
        using a by (auto simp: added_def)
      have bp: "od_get k B = first_src (filter (\<lambda>r. \<not> routed importing r) (plain_of (rs @ [r]) k))" for k
        unfolding sel B_def using False src [of k] by (auto simp: od_simps first_src_snoc split: option.split)
      show ?thesis using a plain False kind unfolding add added_def prod.case by (cases importing) (simp_all add: bp)
    qed
  qed
qed

lemma added_fold: "added importing rs st \<Longrightarrow> added importing (rs @ xs) (fold engine_add xs st)"
proof (induction xs arbitrary: rs st)
  case (Cons x xs)
  obtain e imp where st: "st = (e, imp)" by (cases st)
  from Cons.IH [OF added_step [OF Cons.prems [unfolded st], of x]] show ?case by (simp add: st)
qed simp

lemma plain_of_split:
  "plain_of rs k \<noteq> [] \<longleftrightarrow> filter (\<lambda>r. \<not> routed i r) (plain_of rs k) \<noteq> [] \<or>
     (\<exists>r \<in> set rs. by_suffix r \<and> is_plain r \<and> routed i r \<and> r_suffix r = Some k)"
  by (auto simp: plain_of_def filter_empty_conv)

lemma first_src_some: "first_src rs = Some s \<Longrightarrow> \<exists>r \<in> set rs. r_source r = s"
  by (cases rs) (auto simp: first_src_def)

lemma first_src_none: "first_src rs = None \<longleftrightarrow> rs = []"
  by (cases rs) (auto simp: first_src_def)

lemma operator_source_named: "s \<in> OPERATOR_SOURCES \<Longrightarrow> s \<noteq> []"
  by (auto simp: OPERATOR_SOURCES_def chars_def)

text \<open>An engine whose tables hold \<open>rs\<close> and whose blocklist table holds \<open>items\<close>.\<close>

lemma indexed_intro:
  assumes a: "added importing rs (e, imported)" and named: "\<And>r. r \<in> set rs \<Longrightarrow> \<not> routed importing r \<Longrightarrow> r_source r \<noteq> []"
    and few: "card (snd ` set items) \<le> MAX_SOURCES" and t: "table_build crc items = Some (Inr t)"
    and same: "\<And>k. plain_of all k \<noteq> [] \<longleftrightarrow>
      filter (\<lambda>r. \<not> routed importing r) (plain_of rs k) \<noteq> [] \<or> k \<in> fst ` set items"
    and rest: "\<And>Q. filter (\<lambda>r. Q r \<and> \<not> (by_suffix r \<and> is_plain r)) all = filter (\<lambda>r. Q r \<and> \<not> (by_suffix r \<and> is_plain r)) rs"
  shows "indexed crc (e\<lparr>the_table := t\<rparr>) all"
proof -
  have "\<exists>src. plain_source crc (e\<lparr>the_table := t\<rparr>) k = Some (Inr src) \<and> (src \<noteq> None \<longleftrightarrow> plain_of all k \<noteq> [])"
    if k: "list_all (\<lambda>c. c < 128) k" "k \<noteq> []" "length k \<le> MAX_LEN" for k
  proof (cases "od_get k (block_plain e)")
    case (Some s)
    then have f: "first_src (filter (\<lambda>r. \<not> routed importing r) (plain_of rs k)) = Some s"
      using a by (simp add: added_def)
    from first_src_some [OF this] named have "s \<noteq> []" by (auto simp: plain_of_def)
    moreover have "plain_of all k \<noteq> []" unfolding same using f by (cases "filter (\<lambda>r. \<not> routed importing r) (plain_of rs k)") (auto simp: first_src_def)
    ultimately show ?thesis using Some by (simp add: plain_source_def)
  next
    case None
    then have "filter (\<lambda>r. \<not> routed importing r) (plain_of rs k) = []"
      using a by (simp add: added_def first_src_none)
    with bt.answers [OF few t k] None show ?thesis unfolding same by (simp add: plain_source_def)
  qed
  moreover have
    "filter (\<lambda>r. by_suffix r \<and> r_suffix r = Some k \<and> \<not> is_plain r \<and> P r) all =
     filter (\<lambda>r. by_suffix r \<and> r_suffix r = Some k \<and> \<not> is_plain r \<and> P r) rs" for k P
    using rest [of "\<lambda>r. by_suffix r \<and> r_suffix r = Some k \<and> \<not> is_plain r \<and> P r"] by (simp add: conj_ac cong: conj_cong)
  moreover have "filter (\<lambda>r. by_exact r \<and> r_exact r = Some k \<and> P r) all =
      filter (\<lambda>r. by_exact r \<and> r_exact r = Some k \<and> P r) rs" for k P
  proof -
    have "by_exact r \<and> r_exact r = Some k \<and> P r \<longleftrightarrow>
        (by_exact r \<and> r_exact r = Some k \<and> P r) \<and> \<not> (by_suffix r \<and> is_plain r)" for r
      by (auto simp: by_exact_def by_suffix_def)
    then show ?thesis using rest [of "\<lambda>r. by_exact r \<and> r_exact r = Some k \<and> P r"] by presburger
  qed
  moreover have "filter (\<lambda>r. r_regex r \<noteq> None \<and> P r) all = filter (\<lambda>r. r_regex r \<noteq> None \<and> P r) rs" for P
  proof -
    have "r_regex r \<noteq> None \<and> P r \<longleftrightarrow> (r_regex r \<noteq> None \<and> P r) \<and> \<not> (by_suffix r \<and> is_plain r)" for r
      by (auto simp: by_suffix_def)
    then show ?thesis using rest [of "\<lambda>r. r_regex r \<noteq> None \<and> P r"] by presburger
  qed
  ultimately show ?thesis using a by (simp add: indexed_def added_def)
qed

lemma compile_added:
  assumes c: "compile_rules crc rules keys = Some (Inr e)" and few: "card (r_source ` set rules) \<le> MAX_SOURCES"
  obtains e0 items t where "added True (live_rules keys rules) (e0, Some items)" "table_build crc items = Some (Inr t)"
    "e = e0\<lparr>the_table := t\<rparr>" "card (snd ` set items) \<le> MAX_SOURCES"
    "items = map (\<lambda>r. (the (r_suffix r), r_source r))
      (filter (\<lambda>r. by_suffix r \<and> is_plain r \<and> routed True r) (live_rules keys rules))"
proof -
  let ?rs = "live_rules keys rules"
  obtain e0 imported where f: "fold engine_add ?rs (new_engine, Some []) = (e0, imported)" by (cases "fold engine_add ?rs (new_engine, Some [])")
  have a: "added True ?rs (e0, imported)" using added_fold [OF added_start(1), of ?rs] f by simp
  define items where "items = map (\<lambda>r. (the (r_suffix r), r_source r)) (filter (\<lambda>r. by_suffix r \<and> is_plain r \<and> routed True r) ?rs)"
  have i: "imported = Some items" using a by (simp add: added_def items_def)
  with c f obtain t where t: "table_build crc items = Some (Inr t)" and e: "e = e0\<lparr>the_table := t\<rparr>"
    by (auto simp: compile_rules_def ubind_eq)
  have "snd ` set items \<subseteq> r_source ` set rules" by (auto simp: items_def live_rules_def)
  then have fewer: "card (snd ` set items) \<le> MAX_SOURCES" using few by (meson card_mono finite_imageI finite_set le_trans)
  from a i have "added True ?rs (e0, Some items)" by simp
  then show thesis by (rule that [OF _ t e fewer items_def])
qed

lemma compile_indexed:
  assumes c: "compile_rules crc rules keys = Some (Inr e)" and few: "card (r_source ` set rules) \<le> MAX_SOURCES"
  shows "indexed crc e (live_rules keys rules)"
proof -
  let ?rs = "live_rules keys rules"
  obtain e0 items t where a: "added True ?rs (e0, Some items)" and t: "table_build crc items = Some (Inr t)"
    and e: "e = e0\<lparr>the_table := t\<rparr>" and fewer: "card (snd ` set items) \<le> MAX_SOURCES"
    and items: "items = map (\<lambda>r. (the (r_suffix r), r_source r)) (filter (\<lambda>r. by_suffix r \<and> is_plain r \<and> routed True r) ?rs)"
    by (rule compile_added [OF c few])
  have mem: "k \<in> fst ` set items \<longleftrightarrow> (\<exists>r \<in> set ?rs. by_suffix r \<and> is_plain r \<and> routed True r \<and> r_suffix r = Some k)" for k
    by (force simp: items by_suffix_def image_iff)
  have named: "r_source r \<noteq> []" if "r \<in> set ?rs" "\<not> routed True r" for r
    using operator_source_named that by (auto simp: routed_def)
  show ?thesis unfolding e
  proof (rule indexed_intro [OF a named fewer t])
    show "plain_of ?rs k \<noteq> [] \<longleftrightarrow>
        filter (\<lambda>r. \<not> routed True r) (plain_of ?rs k) \<noteq> [] \<or> k \<in> fst ` set items" for k
      unfolding mem by (rule plain_of_split)
  qed simp_all
qed


lemma suffix_rule_simps [simp]:
  "r_suffix (suffix_rule a d s) = Some d" "r_regex (suffix_rule a d s) = None" "r_exact (suffix_rule a d s) = None"
  "r_block (suffix_rule a d s)" "r_important (suffix_rule a d s) = False" "r_rewrite (suffix_rule a d s) = None"
  "r_source (suffix_rule a d s) = s" "is_plain (suffix_rule a d s)" "by_suffix (suffix_rule a d s)"
  "\<not> r_badfilter (suffix_rule a d s)"
  by (simp_all add: suffix_rule_def new_rule_def is_plain_def by_suffix_def)


subsection \<open>Candidates are the covering rules\<close>

lemma plain_applies: "is_plain r \<Longrightarrow> applies innet name qt x r"
  by (simp add: is_plain_def applies_def)

lemma plain_hits_spec:
  assumes "\<And>c. c \<in> set cands \<Longrightarrow> \<exists>src. plain_source crc e c = Some (Inr src) \<and> (src \<noteq> None \<longleftrightarrow> P c)"
  shows "\<exists>hits. plain_hits crc e cands = Some (Inr hits) \<and> list_all (\<lambda>r. \<exists>c s. r = suffix_rule c c s) hits \<and>
    (hits \<noteq> [] \<longleftrightarrow> (\<exists>c \<in> set cands. P c))"
  using assms
proof (induction cands)
  case (Cons c cands)
  obtain src where src: "plain_source crc e c = Some (Inr src)" "src \<noteq> None \<longleftrightarrow> P c"
    using Cons.prems [of c] by auto
  obtain hits where hits: "plain_hits crc e cands = Some (Inr hits)" "list_all (\<lambda>r. \<exists>c s. r = suffix_rule c c s) hits"
    "hits \<noteq> [] \<longleftrightarrow> (\<exists>c \<in> set cands. P c)"
    using Cons.IH Cons.prems by auto
  show ?case
  proof (cases src)
    case None
    with src hits show ?thesis by simp
  next
    case (Some s)
    then have "plain_hits crc e (c # cands) = Some (Inr (suffix_rule c c s # hits))" using src(1) hits(1) by simp
    with hits(2) src(2) Some show ?thesis by fastforce
  qed
qed simp

text \<open>The rules of one polarity that cover a name and are not plain, as the index finds them.\<close>

lemma filed_cover:
  assumes sfx: "\<And>k. filed k st = filter (\<lambda>r. by_suffix r \<and> r_suffix r = Some k \<and> \<not> is_plain r \<and> P r) rs"
    and ex: "\<And>k. filed k et = filter (\<lambda>r. by_exact r \<and> r_exact r = Some k \<and> P r) rs"
    and rg: "rl = filter (\<lambda>r. r_regex r \<noteq> None \<and> P r) rs"
    and s: "suffixes u q = name # rest"
  shows "set (concat (map (\<lambda>c. filed c st) (name # rest)) @ filed name et @ regex_hits u rx name rl) =
    {r \<in> set rs. P r \<and> covers u rx name r \<and> \<not> (by_suffix r \<and> is_plain r)}"
proof -
  note mem = suffixes_set [OF s]
  have A: "r \<in> set (concat (map (\<lambda>c. filed c st) (name # rest))) \<longleftrightarrow>
      r \<in> set rs \<and> P r \<and> by_suffix r \<and> \<not> is_plain r \<and> covers u rx name r" for r
    using mem [of "the (r_suffix r)"] unfolding set_concat set_map sfx
    by (auto simp: covers_def by_suffix_def)
  have B: "r \<in> set (filed name et) \<longleftrightarrow> r \<in> set rs \<and> P r \<and> by_exact r \<and> covers u rx name r" for r
    unfolding ex by (auto simp: covers_def by_exact_def)
  have C: "r \<in> set (regex_hits u rx name rl) \<longleftrightarrow> r \<in> set rs \<and> P r \<and> r_regex r \<noteq> None \<and> covers u rx name r" for r
    unfolding rg regex_hits_def by (auto simp: covers_def split: option.splits)
  have D: "covers u rx name r \<Longrightarrow> by_suffix r \<or> by_exact r \<or> r_regex r \<noteq> None" for r
    by (auto simp: covers_def by_suffix_def by_exact_def split: option.splits)
  have E: "by_exact r \<or> r_regex r \<noteq> None \<Longrightarrow> \<not> by_suffix r" for r by (auto simp: by_suffix_def by_exact_def)
  show ?thesis
  proof (rule set_eqI)
    fix r
    show "r \<in> set (concat (map (\<lambda>c. filed c st) (name # rest)) @ filed name et @ regex_hits u rx name rl) \<longleftrightarrow>
        r \<in> {r \<in> set rs. P r \<and> covers u rx name r \<and> \<not> (by_suffix r \<and> is_plain r)}"
      unfolding set_append Un_iff mem_Collect_eq A B C using D [of r] E [of r] by argo
  qed
qed

lemma plain_cover:
  assumes "suffixes u q = name # rest"
  shows "(\<exists>c \<in> set (name # rest). plain_of rs c \<noteq> []) \<longleftrightarrow> (\<exists>r \<in> set rs. by_suffix r \<and> is_plain r \<and> covers u rx name r)"
proof -
  have "by_suffix r \<Longrightarrow> covers u rx name r \<longleftrightarrow> the (r_suffix r) \<in> set (name # rest)" for r
    using suffixes_set [OF assms, of "the (r_suffix r)"] by (auto simp: covers_def by_suffix_def)
  then show ?thesis by (fastforce simp: plain_of_def filter_empty_conv by_suffix_def)
qed

lemma ascii_lower: "list_all (\<lambda>c. c < 128) s \<Longrightarrow> str_lower u s = map (\<lambda>c. if 65 \<le> c \<and> c \<le> 90 then c + 32 else c) s"
  by (induction s) (auto simp: str_lower_def)

lemma suffixes_ascii:
  assumes q: "list_all (\<lambda>c. c < 128) q" and s: "suffixes u q = name # rest" and c: "c \<in> set (name # rest)"
  shows "list_all (\<lambda>c. c < 128) c \<and> c \<noteq> [] \<and> length c \<le> length name"
proof -
  let ?r = "rstrip (\<lambda>c. c = 46) q"
  have r: "list_all (\<lambda>c. c < 128) ?r" using q set_dropWhileD by (fastforce simp: rstrip_def list_all_iff)
  have name: "name = str_lower u ?r" "name \<noteq> []" using s by (auto simp: suffixes_def Let_def split: if_splits)
  have a: "list_all (\<lambda>c. c < 128) name" using r unfolding name(1) ascii_lower [OF r] by (auto simp: list_all_iff)
  have ne: "?r \<noteq> []" using name by (auto simp: str_lower_def)
  have "last ?r \<noteq> 46"
  proof -
    have d: "dropWhile (\<lambda>c. c = 46) (rev q) \<noteq> []" using ne by (simp add: rstrip_def)
    from hd_dropWhile [OF d] d show ?thesis by (simp add: rstrip_def last_rev)
  qed
  then have last: "last name \<noteq> 46" unfolding name(1) ascii_lower [OF r] using ne by (simp add: last_map split: if_splits)
  have "name = c \<or> endswith (46 # c) name" using suffixes_set [OF s] c by blast
  then show ?thesis
  proof
    assume "name = c"
    with a name(2) show ?thesis by simp
  next
    assume "endswith (46 # c) name"
    then obtain p where p: "name = p @ 46 # c" by (auto simp: endswith_append)
    have "c \<noteq> []" using last p by auto
    with a p show ?thesis by simp
  qed
qed

lemma match_sets:
  assumes i: "indexed crc e rs" and q: "list_all (\<lambda>c. c < 128) q" and s: "suffixes u q = name # rest"
    and len: "length name \<le> MAX_LEN" and hit_def: "hit = (\<lambda>r. covers u rx name r \<and> applies innet name qt x r)"
  obtains block allow where "match_name crc u rx innet e q qt x = Some (Inr (decide block allow))"
    "set allow = {r \<in> set rs. \<not> r_block r \<and> hit r}"
    "block \<noteq> [] \<longleftrightarrow> (\<exists>r \<in> set rs. r_block r \<and> hit r)"
    "list_ex r_important block \<longleftrightarrow> (\<exists>r \<in> set rs. r_block r \<and> r_important r \<and> hit r)"
    "\<forall>r \<in> set block. r_rewrite r \<noteq> None \<longrightarrow> r \<in> set rs \<and> r_block r \<and> hit r"
proof -
  let ?c = "name # rest"
  let ?A = "applies innet name qt x"
  have cand: "\<exists>src. plain_source crc e c = Some (Inr src) \<and> (src \<noteq> None \<longleftrightarrow> plain_of rs c \<noteq> [])" if "c \<in> set ?c" for c
    using i suffixes_ascii [OF q s that] len unfolding indexed_def by (meson le_trans)
  obtain hits where hits: "plain_hits crc e ?c = Some (Inr hits)" "list_all (\<lambda>r. \<exists>c s. r = suffix_rule c c s) hits"
      "hits \<noteq> [] \<longleftrightarrow> (\<exists>c \<in> set ?c. plain_of rs c \<noteq> [])"
    using plain_hits_spec [OF cand] by blast
  define sfx where "sfx = concat (map (\<lambda>c. filed c (block_suffix e)) ?c)"
  define tl' where "tl' = filed name (block_exact e) @ regex_hits u rx name (block_regex e)"
  define al where "al = concat (map (\<lambda>c. filed c (allow_suffix e)) ?c) @ filed name (allow_exact e) @ regex_hits u rx name (allow_regex e)"
  have b: "set (sfx @ tl') = {r \<in> set rs. r_block r \<and> covers u rx name r \<and> \<not> (by_suffix r \<and> is_plain r)}"
    unfolding sfx_def tl'_def by (rule filed_cover [OF _ _ _ s]) (use i in \<open>simp_all add: indexed_def\<close>)
  have al: "set al = {r \<in> set rs. \<not> r_block r \<and> covers u rx name r \<and> \<not> (by_suffix r \<and> is_plain r)}"
    unfolding al_def by (rule filed_cover [OF _ _ _ s]) (use i in \<open>simp_all add: indexed_def\<close>)
  have plain: "is_plain r \<Longrightarrow> r_block r \<and> \<not> r_important r \<and> r_rewrite r = None \<and> ?A r" for r
    by (simp add: is_plain_def plain_applies)
  have hit_plain: "r \<in> set hits \<Longrightarrow> is_plain r" for r using hits(2) by (auto simp: list_all_iff)
  have some_plain: "hits \<noteq> [] \<longleftrightarrow> (\<exists>r \<in> set rs. by_suffix r \<and> is_plain r \<and> covers u rx name r)"
    unfolding hits(3) by (rule plain_cover [OF s])
  let ?block = "filter ?A (sfx @ hits @ tl')" and ?allow = "filter ?A al"
  have nonplain: "r \<in> set (sfx @ tl') \<longleftrightarrow> r \<in> set rs \<and> r_block r \<and> covers u rx name r \<and> \<not> (by_suffix r \<and> is_plain r)" for r
    using b by blast
  have memb: "r \<in> set ?block \<longleftrightarrow> ?A r \<and> (r \<in> set (sfx @ tl') \<or> r \<in> set hits)" for r by auto
  have c1: "candidates crc u rx e ?c name (block_suffix e) (block_exact e) (block_regex e) True = Some (Inr (sfx @ hits @ tl'))"
    unfolding candidates_def if_True hits(1) ubind_simps sfx_def tl'_def by simp
  have c2: "candidates crc u rx e ?c name (allow_suffix e) (allow_exact e) (allow_regex e) False = Some (Inr al)"
    unfolding candidates_def if_False ubind_simps al_def by simp
  have "match_name crc u rx innet e q qt x = Some (Inr (decide ?block ?allow))"
  proof (cases "sfx @ hits @ tl' = [] \<and> al = []")
    case True
    then show ?thesis unfolding match_name_def s list.case c1 c2 ubind_simps by (simp add: decide_def)
  next
    case False
    show ?thesis unfolding match_name_def s list.case c1 c2 ubind_simps if_not_P [OF False] ..
  qed
  moreover have "set ?allow = {r \<in> set rs. \<not> r_block r \<and> hit r}" using al plain by (auto simp: hit_def)
  moreover have "?block \<noteq> [] \<longleftrightarrow> (\<exists>r \<in> set rs. r_block r \<and> hit r)"
  proof -
    have ex: "l \<noteq> [] \<longleftrightarrow> (\<exists>r. r \<in> set l)" for l :: "rule list" by (cases l) auto
    have "?block \<noteq> [] \<longleftrightarrow> (\<exists>r. r \<in> set ?block)" by (rule ex)
    also have "\<dots> \<longleftrightarrow> (\<exists>r. ?A r \<and> r \<in> set (sfx @ tl')) \<or> hits \<noteq> []"
      unfolding memb ex [of hits] using hit_plain plain by blast
    also have "\<dots> \<longleftrightarrow> (\<exists>r \<in> set rs. r_block r \<and> hit r)"
      unfolding some_plain nonplain hit_def using plain by blast
    finally show ?thesis .
  qed
  moreover have "list_ex r_important ?block \<longleftrightarrow> (\<exists>r \<in> set rs. r_block r \<and> r_important r \<and> hit r)"
  proof -
    have "list_ex r_important ?block \<longleftrightarrow> (\<exists>r. r_important r \<and> r \<in> set ?block)" unfolding list_ex_iff by blast
    also have "\<dots> \<longleftrightarrow> (\<exists>r. r_important r \<and> ?A r \<and> r \<in> set (sfx @ tl'))"
      unfolding memb using hit_plain plain by blast
    also have "\<dots> \<longleftrightarrow> (\<exists>r \<in> set rs. r_block r \<and> r_important r \<and> hit r)"
      unfolding nonplain hit_def using plain by blast
    finally show ?thesis .
  qed
  moreover have "\<forall>r \<in> set ?block. r_rewrite r \<noteq> None \<longrightarrow> r \<in> set rs \<and> r_block r \<and> hit r"
  proof (intro ballI impI)
    fix r
    assume r: "r \<in> set ?block" "r_rewrite r \<noteq> None"
    then have "?A r" "r \<in> set (sfx @ tl') \<or> r \<in> set hits" using memb [of r] by blast+
    moreover have "r \<notin> set hits" using hit_plain [of r] plain [of r] r(2) by blast
    ultimately show "r \<in> set rs \<and> r_block r \<and> hit r" using nonplain [of r] unfolding hit_def by blast
  qed
  ultimately show thesis by (rule that)
qed

lemma most_specific_mem: "most_specific r xs \<in> insert r (set xs)"
proof (induction xs arbitrary: r)
  case (Cons x xs)
  from Cons [of "if score_less (score r) (score x) then x else r"] show ?case by (auto split: if_splits)
qed simp

lemma decide_action:
  "d_action (decide block allow) =
     (if allow \<noteq> [] \<and> \<not> (list_ex r_important block \<and> \<not> list_ex r_important allow) then ALLOW
      else if block = [] then NONE
      else if r_rewrite (most_specific (hd block) (tl block)) \<noteq> None then REWRITE else BLOCK)"
  by (auto simp: decide_def Let_def no_decision_def split: option.split)

text \<open>The action of the reference semantics on a list of rules.\<close>

definition rules_decide :: "(rule \<Rightarrow> bool) \<Rightarrow> rule list \<Rightarrow> action \<Rightarrow> bool" where
  "rules_decide hit rs a \<longleftrightarrow>
     (a = NONE \<longleftrightarrow> \<not> list_ex hit rs) \<and>
     (a = ALLOW \<longleftrightarrow> list_ex (\<lambda>r. hit r \<and> \<not> r_block r) rs \<and>
        (list_ex (\<lambda>r. hit r \<and> \<not> r_block r \<and> r_important r) rs \<or> \<not> list_ex (\<lambda>r. hit r \<and> r_block r \<and> r_important r) rs)) \<and>
     (if a = REWRITE then list_ex (\<lambda>r. hit r \<and> r_block r \<and> r_rewrite r \<noteq> None) rs else True)"

lemma indexed_decides:
  assumes i: "indexed crc e rs" and q: "list_all (\<lambda>c. c < 128) q" and s: "suffixes u q = name # rest"
    and len: "length name \<le> MAX_LEN"
  shows "\<exists>d. match_name crc u rx innet e q qt x = Some (Inr d) \<and>
    rules_decide (\<lambda>r. covers u rx name r \<and> applies innet name qt x r) rs (d_action d)"
proof -
  let ?hit = "\<lambda>r. covers u rx name r \<and> applies innet name qt x r"
  obtain block allow where m: "match_name crc u rx innet e q qt x = Some (Inr (decide block allow))"
    and al: "set allow = {r \<in> set rs. \<not> r_block r \<and> ?hit r}"
    and b: "block \<noteq> [] \<longleftrightarrow> (\<exists>r \<in> set rs. r_block r \<and> ?hit r)"
    and bi: "list_ex r_important block \<longleftrightarrow> (\<exists>r \<in> set rs. r_block r \<and> r_important r \<and> ?hit r)"
    and rw: "\<forall>r \<in> set block. r_rewrite r \<noteq> None \<longrightarrow> r \<in> set rs \<and> r_block r \<and> ?hit r"
    by (rule match_sets [where rx = rx and innet = innet and qt = qt and x = x, OF i q s len refl])
  let ?best = "most_specific (hd block) (tl block)"
  have best: "block \<noteq> [] \<Longrightarrow> ?best \<in> set block" using most_specific_mem [of "hd block" "tl block"] by (cases block) auto
  have allowed: "list_ex (\<lambda>r. ?hit r \<and> \<not> r_block r) rs \<longleftrightarrow> allow \<noteq> []"
    unfolding list_ex_iff set_empty [symmetric] al by blast
  have any: "list_ex ?hit rs \<longleftrightarrow> allow \<noteq> [] \<or> block \<noteq> []"
    unfolding allowed [symmetric] b list_ex_iff by blast
  have ai: "list_ex (\<lambda>r. ?hit r \<and> \<not> r_block r \<and> r_important r) rs \<longleftrightarrow> list_ex r_important allow"
    unfolding list_ex_iff al by blast
  have bi': "list_ex (\<lambda>r. ?hit r \<and> r_block r \<and> r_important r) rs \<longleftrightarrow> list_ex r_important block"
    using bi unfolding list_ex_iff by blast
  have rw': "block \<noteq> [] \<Longrightarrow> r_rewrite ?best \<noteq> None \<Longrightarrow> list_ex (\<lambda>r. ?hit r \<and> r_block r \<and> r_rewrite r \<noteq> None) rs"
    unfolding list_ex_iff using rw best by blast
  have imp: "list_ex r_important allow \<Longrightarrow> allow \<noteq> []" by auto
  have "rules_decide ?hit rs (d_action (decide block allow))"
    unfolding rules_decide_def any allowed ai bi' decide_action
    by (cases "allow = []"; cases "block = []"; cases "r_rewrite ?best = None")
      (simp_all only: rw' imp action.distinct simp_thms if_True if_False, auto dest: imp)
  with m show ?thesis by blast
qed

subsection \<open>Decisions\<close>


text \<open>The operator's exception, which is important, holds against every other rule that is not disabled.\<close>

lemma decided_allow:
  assumes "rules_decide hit rs a" and "r \<in> set rs" "hit r" "\<not> r_block r" "r_important r"
  shows "a = ALLOW"
proof -
  have "list_ex (\<lambda>r. hit r \<and> \<not> r_block r) rs" "list_ex (\<lambda>r. hit r \<and> \<not> r_block r \<and> r_important r) rs"
    using assms(2-5) by (auto simp: list_ex_iff)
  with assms(1) show ?thesis unfolding rules_decide_def by blast
qed

lemma operator_rule_applies:
  "applies innet name qt x ((suffix_rule d (str_lower u d) s)\<lparr>r_block := False, r_important := True\<rparr>)"
  by (simp add: applies_def suffix_rule_def new_rule_def)

text \<open>
  C27: a name at or under a domain the operator allows is allowed, whatever else the engine was compiled
  from, as long as no \<^verbatim>\<open>$badfilter\<close> names that very exception: neither a rule of the list, nor, where the
  caller worked the disabled patterns out in advance, that set.
\<close>

theorem operator_allow_wins:
  assumes c: "compile_rules crc rules keys = Some (Inr e)" and few: "card (r_source ` set rules) \<le> MAX_SOURCES"
    and q: "list_all (\<lambda>c. c < 128) q" "suffixes u q = name # rest" "length name \<le> MAX_LEN"
    and d: "d \<in> set allow" "name = str_lower u d \<or> endswith (46 # str_lower u d) name"
    and r: "set (operator_rules u allow deny) \<subseteq> set rules"
    and live: "(Some (str_lower u d), None, None, False) \<notin>
      (case keys of Some k \<Rightarrow> k | None \<Rightarrow> pattern_id ` set (filter r_badfilter rules))"
  shows "\<exists>dec. match_name crc u rx innet e q qt x = Some (Inr dec) \<and> d_action dec = ALLOW"
proof -
  let ?r = "(suffix_rule d (str_lower u d) (chars ''allowlist''))\<lparr>r_block := False, r_important := True\<rparr>"
  have mem: "?r \<in> set rules" using d(1) r by (auto simp: operator_rules_def)
  have "pattern_id ?r = (Some (str_lower u d), None, None, False)" "\<not> r_badfilter ?r"
    by (simp_all add: pattern_id_def suffix_rule_def new_rule_def)
  with mem live have "?r \<in> set (live_rules keys rules)" by (simp add: live_rules_def Let_def)
  moreover have "covers u rx name ?r" using d(2) by (simp add: covers_def suffix_rule_def new_rule_def)
  moreover have "applies innet name qt x ?r" by (rule operator_rule_applies)
  moreover obtain dec where dec: "match_name crc u rx innet e q qt x = Some (Inr dec)"
      "rules_decide (\<lambda>r. covers u rx name r \<and> applies innet name qt x r) (live_rules keys rules) (d_action dec)"
    using indexed_decides [OF compile_indexed [OF c few] q] by blast
  ultimately have "d_action dec = ALLOW" by (intro decided_allow [OF dec(2), of ?r]) (simp_all add: suffix_rule_def new_rule_def)
  with dec(1) show ?thesis by blast
qed

text \<open>A \<^verbatim>\<open>$badfilter\<close> in any list disables the operator's own rule of that pattern.\<close>

lemma badfilter_disables_operator_rule:
  assumes "bad = (suffix_rule d (str_lower u d) s)\<lparr>r_badfilter := True, r_block := False\<rparr>"
  shows "live_rules None (operator_rules u [d] [] @ [bad]) = []"
  by (simp add: live_rules_def operator_rules_def assms pattern_id_def suffix_rule_def new_rule_def)

text \<open>One plain rule outside ASCII in an imported list ends the compilation of all of them.\<close>

lemma foreign_rule_aborts:
  assumes "s \<notin> OPERATOR_SOURCES"
  shows "compile_rules crc [suffix_rule raw [233] s] None = Some (Inl ValueError)"
proof -
  have "\<exists>e. fold engine_add (live_rules None [suffix_rule raw [233] s]) (new_engine, Some []) = (e, Some [([233], s)])"
    using assms by (simp add: live_rules_def pattern_id_def engine_add_def Let_def)
  then obtain e where "fold engine_add (live_rules None [suffix_rule raw [233] s]) (new_engine, Some []) = (e, Some [([233], s)])"
    by blast
  then show ?thesis unfolding compile_rules_def by (simp only: prod.case Let_def option.sel non_ascii_overflows ubind_simps)
qed

text \<open>A plain rule without a source is matched by an engine that was compiled and lost by one that adopts a table.\<close>

lemma unsourced_rule_lost:
  "plain_source crc (from_table empty_table [suffix_rule [97] [97] []]) [97] = Some (Inr None)"
  by (simp add: from_table_def live_rules_def engine_add_def Let_def new_engine_def pattern_id_def od_get_def
      plain_source_def table_get_def empty_table_def)

subsection \<open>An engine at work\<close>

text \<open>An imported block of \<^verbatim>\<open>ads\<close> and the operator's exception for \<^verbatim>\<open>a.ads\<close>.\<close>

definition demo_rules :: "rule list" where
  "demo_rules = operator_rules (\<lambda>_. []) [chars ''a.ads''] [] @ [suffix_rule (chars ''ads'') (chars ''ads'') (chars ''x'')]"

definition any_client :: client_ctx where
  "any_client = \<lparr>x_ctags = {}, x_client = [], x_names = {}\<rparr>"

lemma compile_ascii:
  assumes "list_all (\<lambda>r. case r_suffix r of Some s \<Rightarrow> list_all (\<lambda>c. c < 128) s | None \<Rightarrow> True) rules"
    and few: "card (r_source ` set rules) \<le> MAX_SOURCES"
  obtains e where "compile_rules crc rules keys = Some (Inr e)"
proof -
  let ?rs = "live_rules keys rules"
  obtain e0 imported where f: "fold engine_add ?rs (new_engine, Some []) = (e0, imported)" by (cases "fold engine_add ?rs (new_engine, Some [])")
  have a: "added True ?rs (e0, imported)" using added_fold [OF added_start(1), of ?rs] f by simp
  define items where "items = map (\<lambda>r. (the (r_suffix r), r_source r)) (filter (\<lambda>r. by_suffix r \<and> is_plain r \<and> routed True r) ?rs)"
  have imp: "imported = Some items" using a by (simp add: added_def items_def)
  have "ascii_items items" using assms(1)
    by (auto simp: ascii_items_def items_def list_all_iff live_rules_def by_suffix_def split: option.splits)
  moreover have "snd ` set items \<subseteq> r_source ` set rules" by (auto simp: items_def live_rules_def)
  then have "card (snd ` set items) \<le> MAX_SOURCES" using few by (meson card_mono finite_imageI finite_set le_trans)
  ultimately obtain t where "table_build crc items = Some (Inr t)" by (rule table_build_ascii)
  with f imp that show thesis by (simp add: compile_rules_def)
qed

lemma demo_compiles: "card (r_source ` set demo_rules) \<le> MAX_SOURCES"
  "\<exists>e. compile_rules (\<lambda>_. 0) demo_rules None = Some (Inr e)"
proof -
  have "card (r_source ` set demo_rules) \<le> length (map r_source demo_rules)"
    using card_length [of "map r_source demo_rules"] by simp
  then show few: "card (r_source ` set demo_rules) \<le> MAX_SOURCES"
    by (simp add: demo_rules_def operator_rules_def MAX_SOURCES_def)
  show "\<exists>e. compile_rules (\<lambda>_. 0) demo_rules None = Some (Inr e)"
    by (rule compile_ascii [OF _ few, where crc = "\<lambda>_. 0" and keys = None])
      (auto simp: demo_rules_def operator_rules_def suffix_rule_def new_rule_def chars_def str_lower_def)
qed

lemma demo_suffixes:
  "suffixes (\<lambda>_. []) (chars ''b.ads'') = chars ''b.ads'' # [chars ''ads'']"
  "suffixes (\<lambda>_. []) (chars ''a.ads'') = chars ''a.ads'' # [chars ''ads'']"
  by code_simp+


theorem operator_allow_wins_witness:
  "\<exists>e d. compile_rules (\<lambda>_. 0) demo_rules None = Some (Inr e) \<and>
     match_name (\<lambda>_. 0) (\<lambda>_. []) (\<lambda>_ _. False) (\<lambda>_ _. False) e (chars ''a.ads'') 1 any_client = Some (Inr d) \<and>
     d_action d = ALLOW"
proof -
  obtain e where e: "compile_rules (\<lambda>_. 0) demo_rules None = Some (Inr e)" using demo_compiles(2) by blast
  have a: "list_all (\<lambda>c. c < 128) (chars ''a.ads'')" "length (chars ''a.ads'') \<le> MAX_LEN"
    by (simp_all add: chars_def MAX_LEN_def)
  have l: "chars ''a.ads'' = str_lower (\<lambda>_. []) (chars ''a.ads'')" by code_simp
  have b: "(Some (str_lower (\<lambda>_. []) (chars ''a.ads'')), None, None, False) \<notin>
      (case None of Some k \<Rightarrow> k | None \<Rightarrow> pattern_id ` set (filter r_badfilter demo_rules))"
    by (simp add: demo_rules_def operator_rules_def suffix_rule_def new_rule_def)
  have "set (operator_rules (\<lambda>_. []) [chars ''a.ads''] []) \<subseteq> set demo_rules" by (auto simp: demo_rules_def)
  from operator_allow_wins [OF e demo_compiles(1) a(1) demo_suffixes(2) a(2) _ _ this b] l e show ?thesis by force
qed

end
