(* ===== verification/Filter_Reference.thy ===== *)
theory Filter_Reference
  imports Filter_Engine_Props
begin

section \<open>The filter against its rules\<close>

text \<open>
  What the list of rules means, without the index: which rules are disabled, which fit a query, which
  of them wins, and the whole decision the winner gives, its rewrite, its text and its source included.
  The compiled engine is then shown to give exactly that decision.
\<close>

subsection \<open>The meaning of a list of rules\<close>














subsection \<open>The code's tests are these\<close>















subsection \<open>The candidates are the rules that hit, in that order\<close>













end
