(* ===== verification/Filter_Parser.thy ===== *)
theory Filter_Parser
  imports Filter_Engine
begin

section \<open>Parsing filter lists\<close>

text \<open>
  Models the line parser of \<^verbatim>\<open>trench/filter/parser.py\<close>: the dialects, the modifiers, the
  structural test meant to refuse regular expressions that backtrack for long, and the prepass for
  \<^verbatim>\<open>$badfilter\<close>. The Unicode tables (\<open>u\<close> for lower, \<open>uu\<close> for upper case,
  \<open>ud\<close> for decimal digits), the IPv6 test, the regular expression library's parser (\<open>tree\<close>) and
  the timing of the compiled pattern (\<open>slow\<close>) are arguments, bundled in a record.
\<close>

subsection \<open>Lines and words\<close>

definition line_break :: "nat \<Rightarrow> bool" where
  "line_break c \<longleftrightarrow> (10 \<le> c \<and> c \<le> 13) \<or> (28 \<le> c \<and> c \<le> 30) \<or> c \<in> {0x85, 0x2028, 0x2029}"

text \<open>\<^verbatim>\<open>str.splitlines()\<close>; \<open>cur\<close> is the line read so far.\<close>

fun lines_from :: "ustr \<Rightarrow> ustr \<Rightarrow> ustr list" where
  "lines_from cur [] = (if cur = [] then [] else [cur])"
| "lines_from cur [c] = (if line_break c then [cur] else [cur @ [c]])"
| "lines_from cur (c # d # s) =
     (if c = 13 \<and> d = 10 then cur # lines_from [] s
      else if line_break c then cur # lines_from [] (d # s)
      else lines_from (cur @ [c]) (d # s))"

definition splitlines :: "ustr \<Rightarrow> ustr list" where
  "splitlines s = lines_from [] s"

text \<open>\<^verbatim>\<open>str.split()\<close>\<close>

fun words_from :: "ustr \<Rightarrow> ustr \<Rightarrow> ustr list" where
  "words_from cur [] = (if cur = [] then [] else [cur])"
| "words_from cur (c # s) =
     (if py_space c then (if cur = [] then words_from [] s else cur # words_from [] s)
      else words_from (cur @ [c]) s)"

definition words :: "ustr \<Rightarrow> ustr list" where
  "words s = words_from [] s"

definition strip_chars :: "(nat \<Rightarrow> bool) \<Rightarrow> ustr \<Rightarrow> ustr" where
  "strip_chars p s = rstrip p (lstrip p s)"

subsection \<open>The library the parser rests on\<close>

text \<open>
  The parse tree of the library: a backreference or lookaround, with what it makes of a name at a position;
  a repeat of any kind, with its bounds; alternatives, with the least and the greatest width of each; a
  group; an atomic group; and a literal, class or test of the position, with the end of what it consumes.
\<close>

datatype re_node =
    Refused_Op "ustr \<Rightarrow> nat \<Rightarrow> nat list"
  | Repeat nat nat "re_node list"
  | Branch "(nat \<times> nat \<times> re_node list) list"
  | Subpattern "re_node list"
  | Atomic_Group "re_node list"
  | Other_Op "ustr \<Rightarrow> nat \<Rightarrow> nat option"

record env =
  e_lower :: "nat \<Rightarrow> ustr"
  e_upper :: "nat \<Rightarrow> ustr"
  e_digit :: "nat \<Rightarrow> nat option"
  e_ip6 :: "ustr \<Rightarrow> bool"
  e_tree :: "ustr \<Rightarrow> re_node list option"
  e_slow :: "ustr \<Rightarrow> bool"

abbreviation lower_in :: "env \<Rightarrow> ustr \<Rightarrow> ustr" where
  "lower_in v s \<equiv> str_lower (e_lower v) s"

subsection \<open>Regular expressions that may run for long\<close>

datatype reason = Backreference | Nested_Quantifiers | Alternation | Unparsed | Too_Many_Unbounded | Too_Costly

definition MAX_UNBOUNDED :: nat where "MAX_UNBOUNDED = 2"
definition BIG_REPEAT :: nat where "BIG_REPEAT = 16"
definition NAME_MAX :: nat where "NAME_MAX = 253"
definition MAX_COST :: nat where "MAX_COST = NAME_MAX ^ MAX_UNBOUNDED * 32"

text \<open>
  The walk threads the number of unbounded repeats and the cost; a repeat counts before its body. What the
  code has no branch for it passes over, an atomic group with all that is in it.
\<close>

definition count_repeat :: "nat \<Rightarrow> nat \<Rightarrow> nat \<times> nat \<Rightarrow> nat \<times> nat" where
  "count_repeat lo hi = (\<lambda>(unbounded, cost).
     if hi > BIG_REPEAT then (unbounded + 1, cost * NAME_MAX) else (unbounded, cost * (hi - lo + 1)))"

fun walk_node :: "re_node \<Rightarrow> bool \<Rightarrow> nat \<times> nat \<Rightarrow> reason + nat \<times> nat"
  and walk :: "re_node list \<Rightarrow> bool \<Rightarrow> nat \<times> nat \<Rightarrow> reason + nat \<times> nat"
  and walk_alts :: "(nat \<times> nat \<times> re_node list) list \<Rightarrow> bool \<Rightarrow> nat \<times> nat \<Rightarrow> reason + nat \<times> nat" where
  "walk_node (Refused_Op f) in_repeat st = Inl Backreference"
| "walk_node (Repeat lo hi body) in_repeat st =
     (let st = count_repeat lo hi st
      in if hi > 1 then (if in_repeat then Inl Nested_Quantifiers else walk body True st)
         else walk body in_repeat st)"
| "walk_node (Branch alts) in_repeat st = walk_alts alts in_repeat st"
| "walk_node (Subpattern sub) in_repeat st = walk sub in_repeat st"
| "walk_node (Atomic_Group sub) in_repeat st = Inr st"
| "walk_node (Other_Op f) in_repeat st = Inr st"
| "walk [] in_repeat st = Inr st"
| "walk (n # ns) in_repeat st =
     (case walk_node n in_repeat st of Inl why \<Rightarrow> Inl why | Inr st \<Rightarrow> walk ns in_repeat st)"
| "walk_alts [] in_repeat st = Inr st"
| "walk_alts ((lo, hi, alt) # alts) in_repeat st =
     (if in_repeat \<and> (lo, hi) \<noteq> (1, 1) then Inl Alternation
      else (case walk alt in_repeat st of Inl why \<Rightarrow> Inl why | Inr st \<Rightarrow> walk_alts alts in_repeat st))"

definition redos_reason :: "env \<Rightarrow> ustr \<Rightarrow> reason option" where
  "redos_reason v pat =
     (case e_tree v pat of
        None \<Rightarrow> Some Unparsed
      | Some nodes \<Rightarrow>
          (case walk nodes False (0, 1) of
             Inl why \<Rightarrow> Some why
           | Inr (unbounded, cost) \<Rightarrow>
               if unbounded > MAX_UNBOUNDED then Some Too_Many_Unbounded
               else if cost > MAX_COST then Some Too_Costly
               else None))"

text \<open>\<open>slow\<close>: the library does not compile the pattern, or a probe takes it over its budget.\<close>

definition safe_regex :: "env \<Rightarrow> ustr \<Rightarrow> pattern option" where
  "safe_regex v pat =
     (if length pat > 512 then None
      else if redos_reason v pat \<noteq> None then None
      else if e_slow v pat then None
      else Some (Regex pat))"

subsection \<open>Patterns\<close>

definition IGNORE_NAMES :: "ustr set" where
  "IGNORE_NAMES =
     {chars ''localhost'', chars ''localhost.localdomain'', chars ''broadcasthost'', chars ''ip6-localhost'',
      chars ''ip6-loopback'', chars ''ip6-allnodes'', chars ''ip6-allrouters''}"

definition domain_char :: "nat \<Rightarrow> bool" where
  "domain_char c \<longleftrightarrow> (97 \<le> c \<and> c \<le> 122) \<or> is_digit c \<or> c = 95 \<or> c = 45"

text \<open>\<^verbatim>\<open>_VALID_DOMAIN.match(dmn + ".")\<close>: labels of its characters, a star only in the first.\<close>

definition valid_domain :: "ustr \<Rightarrow> bool" where
  "valid_domain s \<longleftrightarrow>
     (case split_on 46 s of
        [] \<Rightarrow> False
      | l # ls \<Rightarrow> l \<noteq> [] \<and> list_all (\<lambda>c. domain_char c \<or> c = 42) l \<and>
                 list_all (\<lambda>l. l \<noteq> [] \<and> list_all domain_char l) ls)"

definition is_star_dot :: "nat \<Rightarrow> bool" where "is_star_dot c \<longleftrightarrow> c = 42 \<or> c = 46"
definition is_dot :: "nat \<Rightarrow> bool" where "is_dot c \<longleftrightarrow> c = 46"

definition parse_suffix :: "env \<Rightarrow> ustr \<Rightarrow> ustr \<Rightarrow> rule option" where
  "parse_suffix v dmn source =
     (let dmn = lower_in v (rstrip is_dot (lstrip is_star_dot dmn))
      in if dmn = [] \<or> dmn \<in> IGNORE_NAMES \<or> \<not> valid_domain dmn then None
         else Some (suffix_rule dmn dmn source))"

text \<open>\<^verbatim>\<open>s.rfind("/")\<close> of a string that holds one.\<close>

definition rfind_slash :: "ustr \<Rightarrow> nat" where
  "rfind_slash s = length s - 1 - length (takeWhile (\<lambda>c. c \<noteq> 47) (rev s))"

definition split_modifiers :: "ustr \<Rightarrow> ustr \<times> ustr" where
  "split_modifiers line =
     (let body = (if startswith (chars ''@@'') line then drop 2 line else line);
          fin = rfind_slash body; rest = drop (fin + 1) body
      in if startswith [47] body \<and> fin > 0 \<and> (rest = [] \<or> startswith [36] rest)
         then (take (fin + 1) body, drop 1 rest)
         else partition_at 36 line)"

definition apply_pattern :: "env \<Rightarrow> ustr \<Rightarrow> rule \<Rightarrow> rule" where
  "apply_pattern v pat r =
     (if pat = [] then r
      else if startswith [47] pat \<and> endswith [47] pat \<and> length pat > 2
      then r\<lparr>r_regex := safe_regex v (butlast (tl pat))\<rparr>
      else if startswith [124] pat \<and> endswith [124] pat \<and> \<not> startswith [124, 124] pat
      then r\<lparr>r_exact := Some (lower_in v (rstrip is_dot (rstrip (\<lambda>c. c = 94) (strip_chars (\<lambda>c. c = 124) pat))))\<rparr>
      else
        let p = (if startswith [124, 124] pat then drop 2 pat else pat);
            p = lstrip (\<lambda>c. c = 124) (rstrip (\<lambda>c. c = 124) (rstrip (\<lambda>c. c = 94) p));
            p = lstrip is_star_dot p
        in if 42 \<in> set p then r\<lparr>r_regex := Some (new_glob (e_lower v) p)\<rparr>
           else let p = lower_in v (rstrip is_dot p)
                in if p \<noteq> [] then r\<lparr>r_suffix := Some p\<rparr> else r)"

subsection \<open>Modifiers\<close>

fun split_negated :: "ustr list \<Rightarrow> ustr list \<times> ustr list" where
  "split_negated [] = ([], [])"
| "split_negated (part # parts) =
     (let (req, nots) = split_negated parts; part = strip part
      in if part = [] then (req, nots)
         else if startswith [126] part
         then (let rest = strip (drop 1 part) in (req, if rest \<noteq> [] then rest # nots else nots))
         else (part # req, nots))"

record modifiers =
  m_dnstypes :: "int set"
  m_dnstypes_not :: "int set"
  m_ctags :: "ustr set"
  m_ctags_not :: "ustr set"
  m_clients :: "ustr set"
  m_clients_not :: "ustr set"
  m_denyallow :: "ustr list"

definition no_modifiers :: modifiers where
  "no_modifiers = \<lparr>m_dnstypes = {}, m_dnstypes_not = {}, m_ctags = {}, m_ctags_not = {}, m_clients = {},
     m_clients_not = {}, m_denyallow = []\<rparr>"

definition type_numbers :: "env \<Rightarrow> ustr list \<Rightarrow> int set" where
  "type_numbers v ts = set (concat (map (\<lambda>t. case type_from_text (e_upper v) t of Inr n \<Rightarrow> [n] | Inl _ \<Rightarrow> []) ts))"

text \<open>The step returns \<^const>\<open>None\<close> when the rule is dropped.\<close>

definition apply_modifier :: "env \<Rightarrow> ustr \<Rightarrow> rule \<times> modifiers \<Rightarrow> (rule \<times> modifiers) option" where
  "apply_modifier v md0 = (\<lambda>(r, m).
     (let md = strip md0; name = lower_in v (strip (fst (partition_at 61 md))); value = snd (partition_at 61 md);
          (req, nots) = split_negated (split_on 124 value)
      in if md = [] then Some (r, m)
         else if name = chars ''important'' then Some (r\<lparr>r_important := True\<rparr>, m)
         else if name = chars ''badfilter'' then Some (r\<lparr>r_badfilter := True\<rparr>, m)
         else if name = chars ''dnstype''
         then Some (r, m\<lparr>m_dnstypes := m_dnstypes m \<union> type_numbers v req,
                         m_dnstypes_not := m_dnstypes_not m \<union> type_numbers v nots\<rparr>)
         else if name = chars ''dnsrewrite''
         then (case parse_dnsrewrite (e_upper v) (e_digit v) (e_ip6 v) value of
                 Inl e \<Rightarrow> None | Inr w \<Rightarrow> Some (r\<lparr>r_rewrite := Some w\<rparr>, m))
         else if name = chars ''ctag''
         then Some (r, m\<lparr>m_ctags := m_ctags m \<union> set req, m_ctags_not := m_ctags_not m \<union> set nots\<rparr>)
         else if name = chars ''client''
         then (let unquote = strip_chars (\<lambda>c. c = 39 \<or> c = 34)
               in Some (r, m\<lparr>m_clients := m_clients m \<union> set (map unquote req),
                             m_clients_not := m_clients_not m \<union> set (map unquote nots)\<rparr>))
         else if name = chars ''denyallow''
         then Some (r, m\<lparr>m_denyallow := m_denyallow m
                  @ map (\<lambda>d. lower_in v (rstrip is_dot (strip d))) (filter (\<lambda>d. strip d \<noteq> []) (split_on 124 value))\<rparr>)
         else Some (r, m)))"

fun apply_each :: "env \<Rightarrow> ustr list \<Rightarrow> rule \<times> modifiers \<Rightarrow> (rule \<times> modifiers) option" where
  "apply_each v [] st = Some st"
| "apply_each v (m # ms) st = (case apply_modifier v m st of None \<Rightarrow> None | Some st \<Rightarrow> apply_each v ms st)"

definition some_if :: "bool \<Rightarrow> 'a \<Rightarrow> 'a option \<Rightarrow> 'a option" where
  "some_if b x old = (if b then Some x else old)"

definition apply_modifiers :: "env \<Rightarrow> ustr \<Rightarrow> rule \<Rightarrow> rule option" where
  "apply_modifiers v modstr r =
     (case apply_each v (split_on 44 modstr) (r, no_modifiers) of
        None \<Rightarrow> None
      | Some (r, m) \<Rightarrow>
          Some (r\<lparr>r_dnstypes := some_if (m_dnstypes m \<noteq> {}) (m_dnstypes m) (r_dnstypes r),
                  r_dnstypes_not := some_if (m_dnstypes_not m \<noteq> {}) (m_dnstypes_not m) (r_dnstypes_not r),
                  r_ctags := some_if (m_ctags m \<noteq> {}) (m_ctags m) (r_ctags r),
                  r_ctags_not := some_if (m_ctags_not m \<noteq> {}) (m_ctags_not m) (r_ctags_not r),
                  r_clients := some_if (m_clients m \<noteq> {}) (m_clients m) (r_clients r),
                  r_clients_not := some_if (m_clients_not m \<noteq> {}) (m_clients_not m) (r_clients_not r),
                  r_denyallow := (if m_denyallow m \<noteq> [] then m_denyallow m else r_denyallow r)\<rparr>))"

subsection \<open>Lines\<close>

definition parse_adblock :: "env \<Rightarrow> ustr \<Rightarrow> ustr \<Rightarrow> rule option" where
  "parse_adblock v line0 source =
     (let block = \<not> startswith (chars ''@@'') line0; line = (if block then line0 else drop 2 line0);
          (pat, modstr) = split_modifiers line;
          r = apply_pattern v (strip pat) (new_rule line block source)
      in if r_suffix r = None \<and> r_exact r = None \<and> r_regex r = None then None
         else if modstr \<noteq> [] then apply_modifiers v modstr r
         else Some r)"

definition hosts_ip :: "ustr \<Rightarrow> bool" where
  "hosts_ip s \<longleftrightarrow> s \<in> {chars ''0.0.0.0'', chars ''127.0.0.1'', chars ''::1'', chars ''::''}"

text \<open>\<^verbatim>\<open>_is_ip\<close>: four groups of one to three decimal digits, or a colon.\<close>

definition looks_like_ip :: "env \<Rightarrow> ustr \<Rightarrow> bool" where
  "looks_like_ip v s \<longleftrightarrow>
     (let parts = split_on 46 s
      in (length parts = 4 \<and>
          list_all (\<lambda>p. 1 \<le> length p \<and> length p \<le> 3 \<and> list_all (\<lambda>c. digit_value (e_digit v) c \<noteq> None) p) parts)
         \<or> 58 \<in> set s)"

definition parse_line :: "env \<Rightarrow> ustr \<Rightarrow> ustr \<Rightarrow> rule option" where
  "parse_line v raw source =
     (let line = strip raw
      in if line = [] \<or> hd line \<in> {35, 33} then None
         else if startswith (chars ''address=/'') line
         then (let dmn = lower_in v (split_on 47 line ! 1)
               in if dmn \<noteq> [] then parse_suffix v dmn source else None)
         else if startswith [124] line \<or> startswith (chars ''@@'') line \<or> 94 \<in> set line \<or> 36 \<in> set line
                 \<or> startswith [47] line
         then parse_adblock v line source
         else
           let parts = words line
           in if length parts \<ge> 2 \<and> (hosts_ip (parts ! 0) \<or> looks_like_ip v (parts ! 0))
              then parse_suffix v (lower_in v (parts ! 1)) source
              else parse_suffix v (lower_in v (parts ! 0)) source)"

definition parse_list :: "env \<Rightarrow> ustr \<Rightarrow> ustr \<Rightarrow> rule list" where
  "parse_list v text source =
     concat (map (\<lambda>raw. case parse_line v raw source of Some r \<Rightarrow> [r] | None \<Rightarrow> []) (splitlines text))"

definition iter_badfilter :: "env \<Rightarrow> ustr \<Rightarrow> ustr \<Rightarrow> rule list" where
  "iter_badfilter v text source =
     concat (map (\<lambda>raw. if \<not> contains (chars ''$badfilter'') raw then []
                        else (case parse_line v raw source of
                                Some r \<Rightarrow> if r_badfilter r then [r] else [] | None \<Rightarrow> []))
       (splitlines text))"

text \<open>\<open>rpz\<close> tells the texts that are response policy zones, which have no \<^verbatim>\<open>$badfilter\<close>.\<close>

definition badfilter_keys :: "env \<Rightarrow> (ustr \<Rightarrow> bool) \<Rightarrow> (ustr \<times> ustr) list \<Rightarrow> pattern_key set" where
  "badfilter_keys v rpz texts =
     pattern_id ` set (concat (map (\<lambda>(source, text). if rpz text then [] else iter_badfilter v text source) texts))"

subsection \<open>The dialects agree\<close>

text \<open>A domain as lists write it: lower-case labels, no star, not a name of the machine itself.\<close>

definition list_domain :: "ustr \<Rightarrow> bool" where
  "list_domain s \<longleftrightarrow> valid_domain s \<and> 42 \<notin> set s \<and> s \<notin> IGNORE_NAMES"

definition dn_char :: "nat \<Rightarrow> bool" where
  "dn_char c \<longleftrightarrow> c = 46 \<or> domain_char c"

lemma split_on_cover: "c \<in> set s \<Longrightarrow> c = sep \<or> (\<exists>p \<in> set (split_on sep s). c \<in> set p)"
  by (induction s) (auto split: list.splits)

lemma split_on_snoc_sep: "split_on sep (s @ [sep]) = split_on sep s @ [[]]"
  by (induction s) (auto split: list.splits)

lemma list_domain_chars:
  assumes "list_domain s"
  shows "list_all dn_char s" "s \<noteq> []" "hd s \<noteq> 46" "last s \<noteq> 46"
proof -
  obtain l ls where p: "split_on 46 s = l # ls" by (cases "split_on 46 s") auto
  have v: "l \<noteq> []" "list_all (\<lambda>c. domain_char c \<or> c = 42) l" "list_all (\<lambda>l. l \<noteq> [] \<and> list_all domain_char l) ls"
    using assms p by (simp_all add: list_domain_def valid_domain_def)
  show "list_all dn_char s"
    unfolding list_all_iff
  proof
    fix c
    assume c: "c \<in> set s"
    then have "c \<noteq> 42" using assms by (auto simp: list_domain_def)
    with split_on_cover [OF c, of 46] v p show "dn_char c" by (auto simp: dn_char_def list_all_iff)
  qed
  show ne: "s \<noteq> []" using p v(1) by auto
  show "hd s \<noteq> 46" using p v(1) by (cases s) auto
  show "last s \<noteq> 46"
  proof
    assume "last s = 46"
    then obtain t where "s = t @ [46]" using ne by (metis append_butlast_last_id)
    then have "last (split_on 46 s) = []" "length (split_on 46 s) > 1"
      using split_on_snoc_sep [of 46 t] by (simp_all)
    then have "[] \<in> set ls" using p by (metis last.simps last_in_set length_Cons less_numeral_extra(4) list.size(3) One_nat_def)
    with v(3) show False by (auto simp: list_all_iff)
  qed
qed

lemma dn_char_plain:
  "dn_char c \<Longrightarrow> \<not> py_space c \<and> c \<notin> {33, 35, 36, 42, 47, 58, 61, 64, 94, 124, 126} \<and> c < 128 \<and> \<not> (65 \<le> c \<and> c \<le> 90)"
  by (auto simp: dn_char_def domain_char_def is_digit_def py_space_def)

lemma dn_lower: "list_all dn_char s \<Longrightarrow> str_lower u s = s"
  using dn_char_plain by (induction s) (auto simp: str_lower_def)

lemma dn_strip: "list_all dn_char s \<Longrightarrow> s \<noteq> [] \<Longrightarrow> strip s = s"
  using dn_char_plain by (intro strip_id) (auto simp: list_all_iff)

lemma lstrip_none: "s \<noteq> [] \<Longrightarrow> \<not> p (hd s) \<Longrightarrow> lstrip p s = s"
  by (cases s) (auto simp: lstrip_def)

lemma rstrip_none: "s \<noteq> [] \<Longrightarrow> \<not> p (last s) \<Longrightarrow> rstrip p s = s"
  by (cases s rule: rev_cases) (auto simp: rstrip_def)

lemma words_from_plain: "list_all (\<lambda>c. \<not> py_space c) s \<Longrightarrow> words_from cur s = (if cur @ s = [] then [] else [cur @ s])"
  by (induction s arbitrary: cur) auto

lemma words_from_append:
  "list_all (\<lambda>c. \<not> py_space c) s \<Longrightarrow> cur @ s \<noteq> [] \<Longrightarrow> words_from cur (s @ 32 # t) = (cur @ s) # words_from [] t"
  by (induction s arbitrary: cur) (auto simp: py_space_def)

lemma parse_suffix_domain:
  assumes "list_domain s"
  shows "parse_suffix v s source = Some (suffix_rule s s source)"
    and "parse_suffix v (42 # 46 # s) source = Some (suffix_rule s s source)"
proof -
  note d = list_domain_chars [OF assms]
  have h: "\<not> is_star_dot (hd s)" using d(1-3) dn_char_plain by (cases s) (auto simp: is_star_dot_def)
  have l: "lstrip is_star_dot s = s" by (rule lstrip_none) (use d(2) h in simp_all)
  moreover have "lstrip is_star_dot (42 # 46 # s) = lstrip is_star_dot s" by (simp add: lstrip_def is_star_dot_def)
  moreover have "rstrip is_dot s = s" by (rule rstrip_none) (use d(2,4) in \<open>simp_all add: is_dot_def\<close>)
  moreover have "s \<notin> IGNORE_NAMES" "valid_domain s" using assms by (simp_all add: list_domain_def)
  ultimately show "parse_suffix v s source = Some (suffix_rule s s source)"
    "parse_suffix v (42 # 46 # s) source = Some (suffix_rule s s source)"
    using dn_lower [OF d(1)] d(2) by (simp_all add: parse_suffix_def)
qed

lemma startswith_hd: "startswith (c # p) s \<Longrightarrow> s \<noteq> [] \<and> hd s = c"
  by (cases s) (auto simp: startswith_def)

lemma parse_plain:
  assumes d: "list_domain s"
  shows "parse_line v s source = Some (suffix_rule s s source)"
proof -
  note c = list_domain_chars [OF d]
  have p: "\<not> py_space x" "x \<notin> {33, 35, 36, 42, 47, 58, 61, 64, 94, 124, 126}" if "x \<in> set s" for x
    using c(1) that dn_char_plain unfolding list_all_iff by blast+
  have hd: "hd s \<in> set s" using c(2) by simp
  have w: "words s = [s]" using words_from_plain [of s "[]"] p(1) c(2) by (simp add: words_def list_all_iff)
  have a: "\<not> startswith (chars ''address=/'') s"
  proof
    assume "startswith (chars ''address=/'') s"
    then obtain r where "s = chars ''address=/'' @ r" unfolding startswith_drop by blast
    then have "61 \<in> set s" by (simp add: chars_def)
    with p(2) show False by blast
  qed
  have b: "\<not> startswith [124] s" "\<not> startswith (chars ''@@'') s" "\<not> startswith [47] s" "94 \<notin> set s" "36 \<notin> set s"
      "hd s \<notin> {35, 33}"
    using startswith_hd p(2) hd by (fastforce simp: chars_def)+
  show ?thesis
    using a b w dn_strip [OF c(1,2)] c(2) parse_suffix_domain(1) [OF d] dn_lower [OF c(1)]
    by (simp add: parse_line_def Let_def)
qed

text \<open>
  What stands before the name in a hosts file: an IPv4 address, or an IPv6 address in hexadecimal digits,
  colons and dots.
\<close>

definition quad :: "ustr \<Rightarrow> bool" where
  "quad a \<longleftrightarrow> (\<exists>p q r t. a = p @ 46 # q @ 46 # r @ 46 # t \<and>
     list_all (\<lambda>x. 1 \<le> length x \<and> length x \<le> 3 \<and> list_all is_digit x) [p, q, r, t])"

definition colons :: "ustr \<Rightarrow> bool" where
  "colons a \<longleftrightarrow> 58 \<in> set a \<and> list_all (\<lambda>c. is_digit c \<or> 97 \<le> c \<and> c \<le> 102 \<or> c = 46 \<or> c = 58) a"

lemma split_on_none: "sep \<notin> set p \<Longrightarrow> split_on sep p = [p]"
  by (induction p) auto

lemma split_on_first: "sep \<notin> set p \<Longrightarrow> split_on sep (p @ sep # t) = p # split_on sep t"
  by (induction p) auto

lemma address_chars:
  assumes "quad a \<or> colons a"
  shows "list_all (\<lambda>c. 46 \<le> c \<and> c \<le> 58 \<and> c \<noteq> 47 \<or> 97 \<le> c \<and> c \<le> 102) a" "a \<noteq> []"
proof -
  let ?P = "\<lambda>c :: nat. 46 \<le> c \<and> c \<le> 58 \<and> c \<noteq> 47 \<or> 97 \<le> c \<and> c \<le> 102"
  have d: "list_all ?P x" if "list_all is_digit x" for x
    using that by (rule list.pred_mono_strong) (simp add: is_digit_def)
  show "list_all ?P a"
    using assms
  proof
    assume "quad a"
    then show ?thesis unfolding quad_def using d by auto
  next
    assume "colons a"
    then have "list_all (\<lambda>c. is_digit c \<or> 97 \<le> c \<and> c \<le> 102 \<or> c = 46 \<or> c = 58) a" by (simp add: colons_def)
    then show ?thesis by (rule list.pred_mono_strong) (auto simp: is_digit_def)
  qed
  show "a \<noteq> []" using assms by (auto simp: quad_def colons_def)
qed

lemma address_recognised:
  assumes "quad a \<or> colons a"
  shows "looks_like_ip v a"
  using assms
proof
  assume "quad a"
  then obtain p q r t where a: "a = p @ 46 # q @ 46 # r @ 46 # t"
    and d: "list_all (\<lambda>x. 1 \<le> length x \<and> length x \<le> 3 \<and> list_all is_digit x) [p, q, r, t]" unfolding quad_def by blast
  have n: "46 \<notin> set p" "46 \<notin> set q" "46 \<notin> set r" "46 \<notin> set t" using d by (auto simp: is_digit_def list_all_iff)
  have "split_on 46 a = [p, q, r, t]" unfolding a by (simp add: split_on_first split_on_none n)
  moreover have "digit_value u c \<noteq> None" if "is_digit c" for u c using that by (simp add: digit_value_def is_digit_def)
  then have "list_all is_digit x \<Longrightarrow> list_all (\<lambda>c. digit_value (e_digit v) c \<noteq> None) x" for x
    by (simp add: list_all_iff)
  ultimately show ?thesis using d by (simp add: looks_like_ip_def)
qed (simp add: looks_like_ip_def colons_def Let_def)

lemma words_from_gap:
  "list_all (\<lambda>c. \<not> py_space c) w \<Longrightarrow> cur @ w \<noteq> [] \<Longrightarrow> list_all py_space gap \<Longrightarrow> gap \<noteq> [] \<Longrightarrow>
     words_from cur (w @ gap @ t) = (cur @ w) # words_from [] t"
proof (induction w arbitrary: cur)
  case Nil
  have g: "list_all py_space g \<Longrightarrow> words_from [] (g @ t) = words_from [] t" for g by (induction g) auto
  from Nil g show ?case by (cases gap) auto
qed auto

lemma parse_hosts:
  assumes d: "list_domain s" and a: "quad a \<or> colons a" and g: "list_all py_space gap" "gap \<noteq> []"
  shows "parse_line v (a @ gap @ s) source = Some (suffix_rule s s source)"
proof -
  note c = list_domain_chars [OF d]
  note ac = address_chars [OF a]
  have p: "\<not> py_space x" "x \<notin> {33, 35, 36, 42, 47, 58, 61, 64, 94, 124, 126}" if "x \<in> set s" for x
    using c(1) that dn_char_plain unfolding list_all_iff by blast+
  have q: "\<not> py_space x" "x \<notin> {33, 35, 36, 47, 61, 64, 94, 124}" if "x \<in> set a" for x
    using ac(1) that by (auto simp: list_all_iff py_space_def)
  let ?l = "a @ gap @ s"
  have w: "words ?l = [a, s]"
    using words_from_gap [of a "[]" gap s] words_from_plain [of s "[]"] p(1) q(1) c(2) ac(2) g
    unfolding words_def by (simp add: list_all_iff)
  have h: "hd ?l = hd a" "hd a \<in> set a" using ac(2) by simp_all
  have l: "last ?l = last s" "last s \<in> set s" using c(2) by simp_all
  have st: "strip ?l = ?l" by (rule strip_id) (use h l p(1) q(1) ac(2) in auto)
  have sp: "94 \<notin> set gap" "36 \<notin> set gap" using g(1) by (auto simp: list_all_iff py_space_def)
  have b: "94 \<notin> set ?l" "36 \<notin> set ?l" "hd ?l \<notin> {35, 33}" using p(2) q(2) sp h by fastforce+
  have n: "\<not> startswith (x # xs) ?l" if "x \<notin> set a" for x xs using startswith_hd [of x xs ?l] h that by auto
  have m: "\<not> startswith [124] ?l" "\<not> startswith (chars ''@@'') ?l" "\<not> startswith [47] ?l"
    using n q(2) by (fastforce simp: chars_def)+
  have eq: "61 \<notin> set ?l" using p(2) ac(1) g(1) by (fastforce simp: list_all_iff py_space_def)
  have addr: "\<not> startswith (chars ''address=/'') ?l"
  proof
    assume "startswith (chars ''address=/'') ?l"
    then obtain r where r: "?l = chars ''address=/'' @ r" unfolding startswith_drop by blast
    have "61 \<in> set ?l" unfolding r by (simp add: chars_def)
    with eq show False ..
  qed
  have "parse_suffix v s source = Some (suffix_rule s s source)" by (rule parse_suffix_domain(1) [OF d])
  then show ?thesis
    using b w st m addr ac(2) dn_lower [OF c(1)] address_recognised [OF a, of v] by (simp add: parse_line_def Let_def)
qed

lemma strip_behind:
  assumes "s \<noteq> []" "\<not> py_space (hd s)" "\<not> py_space c"
  shows "\<exists>rest. strip (s @ c # t) = s @ c # rest"
proof -
  have "lstrip py_space (s @ c # t) = s @ c # t" using assms by (cases s) (auto simp: lstrip_def)
  moreover have "dropWhile py_space (rev t @ c # rev s) = dropWhile py_space (rev t) @ c # rev s"
    using assms(3) by (induction "rev t") (auto simp: dropWhile_append)
  ultimately show ?thesis by (simp add: strip_def rstrip_def)
qed

lemma parse_dnsmasq:
  assumes d: "list_domain s"
  shows "parse_line v (chars ''address=/'' @ s @ 47 # t) source = Some (suffix_rule s s source)"
proof -
  note c = list_domain_chars [OF d]
  have n: "47 \<notin> set s" using c(1) dn_char_plain by (auto simp: list_all_iff)
  obtain rest where st: "strip ((chars ''address=/'' @ s) @ 47 # t) = (chars ''address=/'' @ s) @ 47 # rest"
    using strip_behind [of "chars ''address=/'' @ s" 47 t] by (auto simp: chars_def py_space_def)
  let ?l = "chars ''address=/'' @ s @ 47 # rest"
  have "split_on 47 ?l = chars ''address='' # s # split_on 47 rest"
    using split_on_first [of 47 "chars ''address=''" "s @ 47 # rest"] split_on_first [OF n, of rest] by (simp add: chars_def)
  moreover have "startswith (chars ''address=/'') ?l" "?l \<noteq> []" "hd ?l \<notin> {35, 33}"
    by (simp_all add: startswith_drop) (simp_all add: chars_def)
  moreover have "parse_suffix v s source = Some (suffix_rule s s source)" by (rule parse_suffix_domain(1) [OF d])
  ultimately show ?thesis using st c(2) dn_lower [OF c(1)] by (simp add: parse_line_def Let_def)
qed

lemma split_modifiers_plain:
  "36 \<notin> set line \<Longrightarrow> \<not> startswith [47] line \<Longrightarrow> \<not> startswith (chars ''@@'') line \<Longrightarrow>
     split_modifiers line = (line, [])"
proof -
  assume a: "36 \<notin> set line" "\<not> startswith [47] line" "\<not> startswith (chars ''@@'') line"
  have d: "dropWhile (\<lambda>c. c \<noteq> 36) line = []" using a(1) by (auto simp: dropWhile_eq_Nil_conv)
  have t: "takeWhile (\<lambda>c. c \<noteq> 36) line = line" using a(1) by (auto simp: takeWhile_eq_all_conv)
  have "partition_at 36 line = (line, [])" unfolding partition_at_def d t by simp
  then show ?thesis using a(2, 3) by (simp add: split_modifiers_def Let_def)
qed

lemma parse_adblock_form:
  assumes d: "list_domain s"
  shows "parse_line v (chars ''||'' @ s @ [94]) source = Some (suffix_rule (chars ''||'' @ s @ [94]) s source)"
proof -
  note c = list_domain_chars [OF d]
  have p: "\<not> py_space x" "x \<notin> {33, 35, 36, 42, 47, 58, 61, 64, 94, 124, 126}" if "x \<in> set s" for x
    using c(1) that dn_char_plain unfolding list_all_iff by blast+
  let ?l = "124 # 124 # s @ [94]"
  have l: "chars ''||'' @ s @ [94] = ?l" by (simp add: chars_def)
  have st: "strip ?l = ?l" by (rule strip_id) (simp_all add: py_space_def)
  have m: "split_modifiers ?l = (?l, [])"
    by (rule split_modifiers_plain) (use p(2) in \<open>auto simp: startswith_def chars_def\<close>)
  have at: "\<not> startswith (chars ''@@'') ?l" "\<not> startswith (chars ''address=/'') ?l" by (simp_all add: startswith_def chars_def)
  have r94: "rstrip (\<lambda>c. c = 94) (s @ [94]) = s"
    using rstrip_none [of s "\<lambda>c. c = 94"] c(2) p(2) [of "last s"] by (simp add: rstrip_def)
  have r124: "rstrip (\<lambda>c. c = 124) s = s" by (rule rstrip_none) (use c(2) p(2) [of "last s"] in auto)
  have hd: "hd s \<in> set s" using c(2) by simp
  have l124: "lstrip (\<lambda>c. c = 124) s = s" by (rule lstrip_none) (use c(2) p(2) [OF hd] in auto)
  have sd: "lstrip is_star_dot s = s" by (rule lstrip_none) (use c(2,3) p(2) [OF hd] in \<open>auto simp: is_star_dot_def\<close>)
  have rd: "rstrip is_dot s = s" by (rule rstrip_none) (use c(2,4) in \<open>simp_all add: is_dot_def\<close>)
  have star: "42 \<notin> set s" using d by (simp add: list_domain_def)
  have ap: "apply_pattern v ?l r = r\<lparr>r_suffix := Some s\<rparr>" for r
    using r94 r124 l124 sd rd star dn_lower [OF c(1)] c(2)
    by (simp add: apply_pattern_def Let_def startswith_def endswith_def)
  have "parse_adblock v ?l source = Some (suffix_rule ?l s source)"
    using at(1) m st ap by (simp add: parse_adblock_def Let_def) (simp add: suffix_rule_def new_rule_def)
  then show ?thesis unfolding l using st at(2) by (simp add: parse_line_def startswith_def)
qed

lemma parse_wildcard:
  assumes d: "list_domain s"
  shows "parse_line v (42 # 46 # s) source = Some (suffix_rule s s source)"
proof -
  note c = list_domain_chars [OF d]
  have p: "\<not> py_space x" "x \<notin> {33, 35, 36, 42, 47, 58, 61, 64, 94, 124, 126}" if "x \<in> set s" for x
    using c(1) that dn_char_plain unfolding list_all_iff by blast+
  let ?l = "42 # 46 # s"
  have w: "words ?l = [?l]" using words_from_plain [of ?l "[]"] p(1) by (simp add: words_def list_all_iff py_space_def)
  have st: "strip ?l = ?l" by (rule strip_id) (use c(2) p(1) [of "last s"] in \<open>simp_all add: py_space_def\<close>)
  have b: "94 \<notin> set ?l" "36 \<notin> set ?l" using p(2) by fastforce+
  have lo: "str_lower u ?l = ?l" for u using dn_lower [OF c(1), of u] by (simp add: str_lower_def)
  show ?thesis using w st b lo parse_suffix_domain(2) [OF d]
    by (simp add: parse_line_def Let_def) (simp add: chars_def startswith_def)
qed

text \<open>
  C31: every list dialect means the same rule by the same domain: alone on its line, behind any IPv4 or IPv6
  address and white space as in a hosts file, in the \<^verbatim>\<open>address=/domain/\<close> form of dnsmasq whatever follows,
  as a wildcard and in adblock form it is filed under the same suffix, with the same effect.
\<close>

theorem dialects_agree:
  assumes "list_domain s" and "quad a \<or> colons a" and "list_all py_space gap" "gap \<noteq> []"
  shows "parse_line v s source = Some (suffix_rule s s source) \<and>
    parse_line v (a @ gap @ s) source = Some (suffix_rule s s source) \<and>
    parse_line v (chars ''address=/'' @ s @ 47 # t) source = Some (suffix_rule s s source) \<and>
    parse_line v (42 # 46 # s) source = Some (suffix_rule s s source) \<and>
    (\<exists>r. parse_line v (chars ''||'' @ s @ [94]) source = Some r \<and> r\<lparr>r_raw := s\<rparr> = suffix_rule s s source)"
  using parse_plain [OF assms(1)] parse_hosts [OF assms] parse_dnsmasq [OF assms(1)] parse_wildcard [OF assms(1)]
    parse_adblock_form [OF assms(1)]
  by (simp add: suffix_rule_def new_rule_def)

text \<open>An environment whose tables are those of ASCII, for examples.\<close>

definition plain_env :: env where
  "plain_env = \<lparr>e_lower = (\<lambda>_. []), e_upper = (\<lambda>_. []), e_digit = (\<lambda>_. None), e_ip6 = (\<lambda>_. False),
     e_tree = (\<lambda>_. None), e_slow = (\<lambda>_. True)\<rparr>"

theorem dialects_agree_witness:
  "parse_line plain_env (chars ''127.0.0.1'' @ [9] @ chars ''ads.example'') [] =
     Some (suffix_rule (chars ''ads.example'') (chars ''ads.example'') []) \<and>
   parse_line plain_env (chars ''::1'' @ [32] @ chars ''ads.example'') [] =
     parse_line plain_env (chars ''address=/'' @ chars ''ads.example'' @ 47 # chars ''0.0.0.0'') []"
proof -
  have d: "list_domain (chars ''ads.example'')" by code_simp
  have q: "quad (chars ''127.0.0.1'')" unfolding quad_def
    by (intro exI [of _ "chars ''127''"] exI [of _ "chars ''0''"] exI [of _ "chars ''0''"] exI [of _ "chars ''1''"])
      (simp add: chars_def is_digit_def)
  have c: "colons (chars ''::1'')" by (simp add: colons_def chars_def is_digit_def)
  have g: "list_all py_space [9]" "[9] \<noteq> ([] :: ustr)" "list_all py_space [32]" "[32] \<noteq> ([] :: ustr)"
    by (simp_all add: py_space_def)
  from dialects_agree [OF d disjI1 [OF q] g(1,2)] dialects_agree [OF d disjI2 [OF c] g(3,4)] show ?thesis by metis
qed

text \<open>The prepass looks for the modifier as the first of its line and misses it behind another.\<close>

lemma prepass_misses_badfilter:
  "iter_badfilter plain_env (chars ''||a^$important,badfilter'') [] = []"
  by (simp add: iter_badfilter_def splitlines_def chars_def line_break_def contains_def str_find_def)

lemma badfilter_behind_another:
  "map_option r_badfilter (parse_line plain_env (chars ''||a^$important,badfilter'') []) = Some True"
  by (simp add: parse_line_def parse_adblock_def split_modifiers_def partition_at_def apply_pattern_def
      apply_modifiers_def apply_modifier_def chars_def strip_def rstrip_def lstrip_def py_space_def startswith_def
      endswith_def Let_def is_star_dot_def is_dot_def str_lower_def new_rule_def plain_env_def)

text \<open>A forged address is not looked at: any text is taken for one.\<close>

lemma forged_address_unchecked:
  "type_from_text u t = Inr 1 \<Longrightarrow> value \<noteq> [] \<Longrightarrow> rdata_for u t value = Inr (Some (Forged_A value), 1)"
  by (simp add: rdata_for_def)

end
