(* ===== verification/Regex_Cost.thy ===== *)
theory Regex_Cost
  imports Filter_Parser
begin

section \<open>What an accepted regular expression may cost\<close>

text \<open>
  The check of list regexes in \<^verbatim>\<open>trench/filter/parser.py\<close> against what a backtracking matcher does:
  \<open>ends\<close> gives the ends of a match from a position, one for every way to get there. A failing match tries
  every way through every prefix of the pattern. For the patterns the check has in mind their number is
  within its budget; for four kinds of pattern it lets through, it is exponential.
\<close>

subsection \<open>The ways to match\<close>

text \<open>
  A repeat goes on, up to its bound, and may stop once it has its least count; what is repeated beyond that
  must have consumed something.
\<close>

fun repeats :: "(nat \<Rightarrow> nat list) \<Rightarrow> nat \<Rightarrow> nat \<Rightarrow> nat \<Rightarrow> nat list" where
  "repeats f lo hi i =
     (if hi = 0 then [i]
      else concat (map (repeats f (lo - 1) (hi - 1)) (filter (\<lambda>j. 0 < lo \<or> i < j) (f i))) @ (if lo = 0 then [i] else []))"

declare repeats.simps [simp del]

fun ends_node :: "re_node \<Rightarrow> ustr \<Rightarrow> nat \<Rightarrow> nat list" and ends :: "re_node list \<Rightarrow> ustr \<Rightarrow> nat \<Rightarrow> nat list"
  and ends_alts :: "(nat \<times> nat \<times> re_node list) list \<Rightarrow> ustr \<Rightarrow> nat \<Rightarrow> nat list" where
  "ends_node (Refused_Op f) s i = f s i"
| "ends_node (Repeat lo hi body) s i = repeats (ends body s) lo hi i"
| "ends_node (Branch alts) s i = ends_alts alts s i"
| "ends_node (Subpattern sub) s i = ends sub s i"
| "ends_node (Atomic_Group sub) s i = take 1 (ends sub s i)"
| "ends_node (Other_Op f) s i = (case f s i of None \<Rightarrow> [] | Some j \<Rightarrow> [j])"
| "ends [] s i = [i]"
| "ends (n # ns) s i = concat (map (ends ns s) (ends_node n s i))"
| "ends_alts [] s i = []"
| "ends_alts ((lo, hi, alt) # alts) s i = ends alt s i @ ends_alts alts s i"

subsection \<open>Patterns of one way at a time\<close>

text \<open>
  No alternatives, no atomic group and nothing optional inside a repeat; but backreferences and repeats in
  repeats, as many as the pattern likes. A literal consumes forward, within the name.
\<close>

fun plain_node :: "bool \<Rightarrow> re_node \<Rightarrow> bool" and plain :: "bool \<Rightarrow> re_node list \<Rightarrow> bool" where
  "plain_node rep (Refused_Op f) \<longleftrightarrow> True"
| "plain_node rep (Repeat lo hi body) \<longleftrightarrow> (if hi > 1 then plain True body else \<not> rep \<and> plain rep body)"
| "plain_node rep (Branch alts) \<longleftrightarrow> False"
| "plain_node rep (Subpattern sub) \<longleftrightarrow> plain rep sub"
| "plain_node rep (Atomic_Group sub) \<longleftrightarrow> False"
| "plain_node rep (Other_Op f) \<longleftrightarrow> (\<forall>s i j. i \<le> length s \<longrightarrow> f s i = Some j \<longrightarrow> i \<le> j \<and> j \<le> length s)"
| "plain rep [] \<longleftrightarrow> True"
| "plain rep (n # ns) \<longleftrightarrow> plain_node rep n \<and> plain rep ns"

lemma repeats_0 [simp]: "repeats f lo 0 i = [i]"
  by (simp add: repeats.simps)

lemma repeats_Suc: "repeats f lo (Suc n) i =
    concat (map (repeats f (lo - 1) n) (filter (\<lambda>j. 0 < lo \<or> i < j) (f i))) @ (if lo = 0 then [i] else [])"
  by (simp add: repeats.simps [of f lo "Suc n"])

lemma length_concat_le: "(\<And>x. x \<in> set xs \<Longrightarrow> length (f x) \<le> b) \<Longrightarrow> length (concat (map f xs)) \<le> length xs * b"
  by (induction xs) (simp_all add: add_mono)

lemma repeats_range:
  assumes f: "\<And>i j. i \<le> N \<Longrightarrow> j \<in> set (f i) \<Longrightarrow> i \<le> j \<and> j \<le> N"
  shows "i \<le> N \<Longrightarrow> j \<in> set (repeats f lo hi i) \<Longrightarrow> i \<le> j \<and> j \<le> N"
proof (induction hi arbitrary: lo i)
  case (Suc n)
  from Suc.prems(2) consider "j = i" | k where "k \<in> set (f i)" "j \<in> set (repeats f (lo - 1) n k)"
    by (auto simp: repeats_Suc split: if_splits)
  then show ?case
  proof cases
    case 2
    with f [OF Suc.prems(1) 2(1)] Suc.IH [of k "lo - 1"] show ?thesis by simp
  qed (use Suc.prems(1) in simp)
qed simp

text \<open>A repeat of what has one way at most stops at one of its counts, and at one position of the name.\<close>

lemma repeats_count:
  assumes f: "\<And>i j. i \<le> N \<Longrightarrow> j \<in> set (f i) \<Longrightarrow> i \<le> j \<and> j \<le> N" and one: "\<And>i. i \<le> N \<Longrightarrow> length (f i) \<le> 1"
  shows "i \<le> N \<Longrightarrow> length (repeats f lo hi i) \<le> Suc (hi - lo) \<and> length (repeats f lo hi i) \<le> Suc (N - i)"
proof (induction hi arbitrary: lo i)
  case (Suc n)
  consider "f i = []" | j where "f i = [j]" using one [OF Suc.prems] by (cases "f i") auto
  then show ?case
  proof cases
    case 1
    then show ?thesis by (simp add: repeats_Suc)
  next
    case (2 j)
    then have j: "i \<le> j" "j \<le> N" using f [OF Suc.prems, of j] by simp_all
    show ?thesis
    proof (cases "lo = 0")
      case True
      with Suc.IH [OF j(2), of 0] 2 j show ?thesis by (auto simp: repeats_Suc)
    next
      case False
      with Suc.IH [OF j(2), of "lo - 1"] 2 j show ?thesis by (simp add: repeats_Suc) linarith
    qed
  qed
qed simp

lemma count_repeat_cost: "snd (count_repeat lo hi st) = snd st * (if hi > BIG_REPEAT then NAME_MAX else hi - lo + 1)"
  by (cases st) (simp add: count_repeat_def)

lemma count_repeat_mono: "snd st \<le> snd (count_repeat lo hi st)"
  by (simp add: count_repeat_cost NAME_MAX_def)

lemma repeat_optional:
  "hi \<le> 1 \<Longrightarrow> length (repeats f lo hi i) \<le> (hi - lo + 1) * max 1 (length (f i))"
proof (cases hi)
  case (Suc n)
  assume "hi \<le> 1"
  then have n: "n = 0" using Suc by simp
  have "length (concat (map (\<lambda>j. [j]) (filter P xs))) \<le> length xs" for P and xs :: "nat list"
    by (induction xs) (auto simp: le_SucI)
  then have "length (concat (map (repeats f (lo - 1) 0) (filter (\<lambda>j. 0 < lo \<or> i < j) (f i)))) \<le> length (f i)"
    by (simp cong: map_cong)
  then show ?thesis unfolding Suc n by (cases "lo = 0") (auto simp: repeats_Suc max_def)
qed simp

definition in_name :: "ustr \<Rightarrow> nat \<Rightarrow> nat list \<Rightarrow> bool" where
  "in_name s i js \<longleftrightarrow> (\<forall>j \<in> set js. i \<le> j \<and> j \<le> length s)"

definition paid :: "bool \<Rightarrow> nat \<times> nat \<Rightarrow> nat \<times> nat \<Rightarrow> nat list \<Rightarrow> bool" where
  "paid rep st st' js \<longleftrightarrow> snd st * length js \<le> snd st' \<and> snd st \<le> snd st' \<and> (rep \<longrightarrow> length js \<le> 1)"

lemma ends_seq:
  assumes n: "in_name s i (ends_node n s i)" "paid rep st st1 (ends_node n s i)"
    and ns: "\<And>j. j \<le> length s \<Longrightarrow> in_name s j (ends ns s j) \<and> paid rep st1 st' (ends ns s j)"
  shows "in_name s i (ends (n # ns) s i) \<and> paid rep st st' (ends (n # ns) s i)"
proof
  let ?xs = "ends_node n s i"
  have x: "x \<le> length s" "i \<le> x" if "x \<in> set ?xs" for x using n(1) that by (simp_all add: in_name_def)
  show "in_name s i (ends (n # ns) s i)"
    unfolding in_name_def
  proof
    fix k
    assume "k \<in> set (ends (n # ns) s i)"
    then obtain j where j: "j \<in> set ?xs" "k \<in> set (ends ns s j)" by auto
    then have "j \<le> k \<and> k \<le> length s" using ns [OF x(1)] by (simp add: in_name_def)
    with x(2) [OF j(1)] show "i \<le> k \<and> k \<le> length s" by simp
  qed
  have mono: "snd st1 \<le> snd st'" using ns [of 0] by (simp add: paid_def)
  show "paid rep st st' (ends (n # ns) s i)"
  proof (cases "?xs = []")
    case True
    with n(2) mono show ?thesis by (simp add: paid_def)
  next
    case False
    let ?ls = "map (\<lambda>x. length (ends ns s x)) ?xs"
    define b where "b = Max (set ?ls)"
    have l: "length (ends ns s x) \<le> b" if "x \<in> set ?xs" for x using that unfolding b_def by (intro Max_ge) auto
    have "b \<in> set ?ls" unfolding b_def by (rule Max_in) (use False in auto)
    then obtain y where y: "y \<in> set ?xs" "b = length (ends ns s y)" by auto
    have c: "length (ends (n # ns) s i) \<le> length ?xs * b" unfolding ends.simps by (rule length_concat_le) (rule l)
    have "snd st * length (ends (n # ns) s i) \<le> snd st * length ?xs * b" using c by (simp add: mult.assoc)
    also have "\<dots> \<le> snd st1 * b" using n(2) by (intro mult_right_mono) (simp_all add: paid_def)
    also have "\<dots> \<le> snd st'" using ns [OF x(1) [OF y(1)]] y(2) by (simp add: paid_def)
    finally have "snd st * length (ends (n # ns) s i) \<le> snd st'" .
    moreover have "length (ends (n # ns) s i) \<le> 1" if rep
    proof -
      have "length ?xs \<le> 1" "b \<le> 1" using that n(2) ns [OF x(1) [OF y(1)]] y(2) by (simp_all add: paid_def)
      then have "length ?xs * b \<le> 1 * 1" by (rule mult_mono) simp_all
      with c show ?thesis by simp
    qed
    ultimately show ?thesis using n(2) mono by (simp add: paid_def)
  qed
qed

lemma walk_pays:
  "walk_node n rep st = Inr st' \<Longrightarrow> plain_node rep n \<Longrightarrow> length s \<le> 252 \<Longrightarrow> i \<le> length s \<Longrightarrow>
     in_name s i (ends_node n s i) \<and> paid rep st st' (ends_node n s i)"
  "walk ns rep st = Inr st' \<Longrightarrow> plain rep ns \<Longrightarrow> length s \<le> 252 \<Longrightarrow> i \<le> length s \<Longrightarrow>
     in_name s i (ends ns s i) \<and> paid rep st st' (ends ns s i)"
  "walk_alts alts rep st = Inr st' \<Longrightarrow> True"
proof (induction n rep st and ns rep st and alts rep st arbitrary: st' i and st' i and st' rule: walk_node_walk_walk_alts.induct)
  case (2 lo hi body rep st)
  let ?st = "count_repeat lo hi st" and ?f = "ends body s"
  show ?case
  proof (cases "hi > 1")
    case True
    with 2(3,4) have w: "\<not> rep" "walk body True ?st = Inr st'" "plain True body" by (simp_all add: Let_def split: if_splits)
    have b: "in_name s j (?f j) \<and> paid True ?st st' (?f j)" if "j \<le> length s" for j
      using 2(1) [OF refl True w(1) w(2,3) 2(5) that] .
    have r: "j \<le> length s \<Longrightarrow> k \<in> set (?f j) \<Longrightarrow> j \<le> k \<and> k \<le> length s" "j \<le> length s \<Longrightarrow> length (?f j) \<le> 1" for j k
      using b [of j] by (simp_all add: in_name_def paid_def)
    have "in_name s i (repeats ?f lo hi i)"
      unfolding in_name_def using repeats_range [of "length s" ?f, OF r(1) 2(6)] by blast
    moreover have "length (repeats ?f lo hi i) \<le> Suc (hi - lo) \<and> length (repeats ?f lo hi i) \<le> Suc (length s - i)"
      by (rule repeats_count [of "length s" ?f, OF r 2(6)])
    then have c: "length (repeats ?f lo hi i) \<le> (if hi > BIG_REPEAT then NAME_MAX else hi - lo + 1)"
      using 2(5) unfolding NAME_MAX_def by auto
    have "snd st * length (repeats ?f lo hi i) \<le> snd ?st" unfolding count_repeat_cost by (rule mult_left_mono [OF c]) simp
    then have "paid rep st st' (repeats ?f lo hi i)"
      using w(1) b [OF 2(6)] count_repeat_mono [of st lo hi] by (simp add: paid_def)
    ultimately show ?thesis by simp
  next
    case False
    have w: "\<not> rep" "walk body rep ?st = Inr st'" "plain rep body" using 2(3,4) False by (auto simp: Let_def)
    have b: "in_name s j (?f j) \<and> paid rep ?st st' (?f j)" if "j \<le> length s" for j
      using 2(2) [OF refl False w(2,3) 2(5) that] .
    have r: "j \<le> length s \<Longrightarrow> k \<in> set (?f j) \<Longrightarrow> j \<le> k \<and> k \<le> length s" for j k
      using b [of j] by (simp add: in_name_def)
    have "in_name s i (repeats ?f lo hi i)"
      unfolding in_name_def using repeats_range [of "length s" ?f, OF r 2(6)] by blast
    moreover have "snd st * length (repeats ?f lo hi i) \<le> snd st'"
    proof -
      have h: "\<not> hi > BIG_REPEAT" using False by (simp add: BIG_REPEAT_def)
      have "snd st * length (repeats ?f lo hi i) \<le> snd st * ((hi - lo + 1) * max 1 (length (?f i)))"
        by (rule mult_left_mono [OF repeat_optional]) (use False in simp_all)
      also have "\<dots> = snd ?st * max 1 (length (?f i))" unfolding count_repeat_cost using h by (simp only: if_False mult.assoc)
      also have "\<dots> \<le> snd st'" using b [OF 2(6)] by (simp add: paid_def max_def)
      finally show ?thesis .
    qed
    then have "paid rep st st' (repeats ?f lo hi i)"
      using w(1) b [OF 2(6)] count_repeat_mono [of st lo hi] by (simp add: paid_def)
    ultimately show ?thesis by simp
  qed
next
  case (8 n ns rep st)
  then obtain st1 where st1: "walk_node n rep st = Inr st1" "walk ns rep st1 = Inr st'" by (auto split: sum.splits)
  with 8 show ?case by (intro ends_seq [where ?st1.0 = st1]) simp_all
next
  case (6 f rep st)
  then have f: "i \<le> j \<and> j \<le> length s" if "f s i = Some j" for j using that by (metis plain_node.simps(6))
  show ?case
  proof (cases "f s i")
    case None
    with 6(1) show ?thesis by (simp add: in_name_def paid_def)
  next
    case (Some j)
    with 6(1) f [OF Some] show ?thesis by (simp add: in_name_def paid_def)
  qed
next
  case (1 f rep st)
  from 1(1) show ?case by simp
next
  case (3 alts rep st)
  from 3(3) show ?case by simp
next
  case (4 sub rep st)
  from 4(2-5) show ?case using 4(1) by simp
next
  case (5 sub rep st)
  from 5(2) show ?case by simp
next
  case (7 rep st)
  then show ?case by (simp add: in_name_def paid_def)
qed (rule TrueI)+

lemma walk_mono:
  "walk_node n rep st = Inr st' \<Longrightarrow> snd st \<le> snd st'" "walk ns rep st = Inr st' \<Longrightarrow> snd st \<le> snd st'"
  "walk_alts alts rep st = Inr st' \<Longrightarrow> snd st \<le> snd st'"
proof (induction n rep st and ns rep st and alts rep st arbitrary: st' and st' and st' rule: walk_node_walk_walk_alts.induct)
  case (2 lo hi body rep st)
  then show ?case using count_repeat_mono [of st lo hi] by (fastforce simp: Let_def split: if_splits)
qed (fastforce split: sum.splits if_splits)+

lemma walk_take:
  "walk ns rep st = Inr st' \<Longrightarrow> \<exists>st1. walk (take k ns) rep st = Inr st1 \<and> snd st1 \<le> snd st'"
proof (induction ns arbitrary: k st)
  case (Cons n ns)
  then obtain st1 where s: "walk_node n rep st = Inr st1" "walk ns rep st1 = Inr st'" by (auto split: sum.splits)
  show ?case
  proof (cases k)
    case 0
    then show ?thesis using walk_mono(2) [OF Cons.prems] by simp
  next
    case (Suc m)
    with s Cons.IH [OF s(2), of m] show ?thesis by simp
  qed
qed simp

lemma plain_take: "plain rep ns \<Longrightarrow> plain rep (take k ns)"
  by (induction ns arbitrary: k) (auto simp: take_Cons split: nat.split)

text \<open>
  C32: a regular expression the check accepts, without alternatives, atomic groups or optional parts of a
  repeat, has at most 253 squared times 32 ways to match any of its prefixes, from any position of any name
  of up to 252 characters: that is what a failing match can try there, however the bounds of its repeats
  combine. Repeats within repeats and backreferences, which would break the bound, are among what it refuses.
\<close>

theorem accepted_regex_bounded:
  assumes "safe_regex v pat = Some r" and "e_tree v pat = Some nodes" and "plain False nodes"
    and "length s \<le> 252" and "i \<le> length s"
  shows "length (ends (take k nodes) s i) \<le> 253 ^ 2 * 32"
proof -
  have n: "redos_reason v pat = None" using assms(1) by (auto simp: safe_regex_def split: if_splits)
  then obtain st where w: "walk nodes False (0, 1) = Inr st"
    using assms(2) by (auto simp: redos_reason_def split: sum.splits)
  from n assms(2) w have st: "snd st \<le> MAX_COST" by (cases st) (auto simp: redos_reason_def split: if_splits)
  obtain st1 where t: "walk (take k nodes) False (0, 1) = Inr st1" "snd st1 \<le> snd st" using walk_take [OF w] by blast
  have "paid False (0, 1) st1 (ends (take k nodes) s i)"
    using walk_pays(2) [OF t(1) plain_take [OF assms(3)] assms(4,5)] by blast
  then have "length (ends (take k nodes) s i) \<le> snd st1" by (simp add: paid_def)
  with t(2) st show ?thesis by (simp add: MAX_COST_def NAME_MAX_def MAX_UNBOUNDED_def)
qed

text \<open>A literal, which consumes the character it is.\<close>

definition literal :: "nat \<Rightarrow> re_node" where
  "literal c = Other_Op (\<lambda>s i. if i < length s \<and> s ! i = c then Some (Suc i) else None)"

definition regex_env :: "re_node list \<Rightarrow> env" where
  "regex_env nodes = plain_env\<lparr>e_tree := \<lambda>_. Some nodes, e_slow := \<lambda>_. False\<rparr>"

lemma plain_literal [simp]: "plain_node rep (literal c)"
  by (auto simp: literal_def split: if_splits)

lemma walk_literal [simp]: "walk_node (literal c) rep st = Inr st"
  by (simp add: literal_def)

lemma ends_literal [simp]: "ends_node (literal c) s i = (if i < length s \<and> s ! i = c then [Suc i] else [])"
  by (simp add: literal_def)

lemma safe_regexI:
  "walk nodes False (0, 1) = Inr (u, c) \<Longrightarrow> u \<le> 2 \<Longrightarrow> c \<le> 2048288 \<Longrightarrow> length pat \<le> 512 \<Longrightarrow>
     safe_regex (regex_env nodes) pat = Some (Regex pat)"
  by (simp add: safe_regex_def redos_reason_def regex_env_def MAX_UNBOUNDED_def MAX_COST_def NAME_MAX_def)

theorem accepted_regex_bounded_witness:
  "length (ends [Repeat 0 4294967295 [literal 97], literal 98] (replicate 20 97) 0) \<le> 253 ^ 2 * 32"
proof -
  let ?n = "[Repeat 0 4294967295 [literal 97], literal 98]"
  have "safe_regex (regex_env ?n) (chars ''a*b'') = Some (Regex (chars ''a*b''))"
    by (rule safe_regexI, simp add: count_repeat_def BIG_REPEAT_def NAME_MAX_def) (simp_all add: chars_def)
  from accepted_regex_bounded [OF this, of ?n "replicate 20 97" 0 2] show ?thesis by (simp add: regex_env_def)
qed

subsection \<open>What the check lets through\<close>

text \<open>
  A repeat that can pass each character in two ways has exponentially many: \<^verbatim>\<open>(.|a)*\<close>, whose arms
  are a character each but both take an \<open>a\<close>; and \<^verbatim>\<open>(a?a?)*\<close>, whose optional parts are no nested
  repeats to the check. The check accepts both, at a cost of 253 and 1012.
\<close>

lemma count_paths:
  "count_list xs x * length (f x) \<le> length (concat (map f (filter P xs)))" if "P x" for f :: "nat \<Rightarrow> nat list"
  using that by (induction xs) auto

lemma two_ways_each:
  assumes "\<And>i. i < n \<Longrightarrow> 2 \<le> count_list (f i) (Suc i)"
  shows "i + k = n \<Longrightarrow> k \<le> hi \<Longrightarrow> 2 ^ k \<le> length (repeats f 0 hi i)"
proof (induction k arbitrary: i hi)
  case 0
  then show ?case by (cases hi) (simp_all add: repeats_Suc)
next
  case (Suc k)
  then obtain h where h: "hi = Suc h" "k \<le> h" by (cases hi) auto
  let ?r = "repeats f 0 h"
  have "2 ^ k \<le> length (?r (Suc i))" using Suc.IH [of "Suc i" h] Suc.prems(1) h(2) by simp
  moreover have "2 \<le> count_list (f i) (Suc i)" by (rule assms) (use Suc.prems(1) in simp)
  ultimately have "2 * 2 ^ k \<le> count_list (f i) (Suc i) * length (?r (Suc i))" by (intro mult_mono) simp_all
  also have "\<dots> \<le> length (concat (map ?r (filter (\<lambda>j. i < j) (f i))))" by (rule count_paths) simp
  finally show ?case using h(1) by (simp add: repeats_Suc)
qed

definition any_char :: re_node where
  "any_char = Other_Op (\<lambda>s i. if i < length s then Some (Suc i) else None)"

lemma same_arms_accepted:
  "safe_regex (regex_env [Repeat 0 4294967295 [Subpattern [Branch [(1, 1, [any_char]), (1, 1, [literal 97])]]]]) (chars ''(.|a)*'')
     = Some (Regex (chars ''(.|a)*''))"
  by (rule safe_regexI, simp add: count_repeat_def BIG_REPEAT_def NAME_MAX_def any_char_def) (simp_all add: chars_def)

lemma ends_Nil [simp]: "concat (map (ends [] s) xs) = xs"
  by (induction xs) simp_all

lemma same_arms_explode:
  assumes "n \<le> 4294967295"
  shows "2 ^ n \<le> length (ends [Repeat 0 4294967295 [Subpattern [Branch [(1, 1, [any_char]), (1, 1, [literal 97])]]]]
     (replicate n 97) 0)"
proof -
  let ?f = "ends [Subpattern [Branch [(1, 1, [any_char]), (1, 1, [literal 97])]]] (replicate n 97)"
  have "2 \<le> count_list (?f i) (Suc i)" if "i < n" for i using that by (simp add: any_char_def)
  then have "2 ^ n \<le> length (repeats ?f 0 4294967295 0)" by (rule two_ways_each) (use assms in simp_all)
  then show ?thesis by (simp only: ends.simps ends_Nil ends_node.simps)
qed

lemma optional_parts_accepted:
  "safe_regex (regex_env [Repeat 0 4294967295 [Repeat 0 1 [literal 97], Repeat 0 1 [literal 97]]]) (chars ''(a?a?)*'')
     = Some (Regex (chars ''(a?a?)*''))"
  by (rule safe_regexI, simp add: count_repeat_def BIG_REPEAT_def NAME_MAX_def) (simp_all add: chars_def)

lemma optional_literal:
  "ends_node (Repeat 0 1 [literal c]) s i = (if i < length s \<and> s ! i = c then [Suc i, i] else [i])"
  by (simp add: repeats.simps)

lemma optional_parts_explode:
  assumes "n \<le> 4294967295"
  shows "2 ^ n \<le> length (ends [Repeat 0 4294967295 [Repeat 0 1 [literal 97], Repeat 0 1 [literal 97]]] (replicate n 97) 0)"
proof -
  let ?f = "ends [Repeat 0 1 [literal 97], Repeat 0 1 [literal 97]] (replicate n 97)"
  have "2 \<le> count_list (?f i) (Suc i)" if "i < n" for i
    using that unfolding ends.simps(2) optional_literal by simp
  then have "2 ^ n \<le> length (repeats ?f 0 4294967295 0)" by (rule two_ways_each) (use assms in simp_all)
  then show ?thesis by (simp only: ends.simps(2) [of "Repeat 0 4294967295 _" "[]"] ends_Nil ends_node.simps)
qed

text \<open>
  Alternatives in sequence cost nothing, though their ways multiply: of \<open>n\<close> groups \<^verbatim>\<open>(aa|aa)\<close> the
  library leaves a choice of two empty arms each. And what is in an atomic group is not looked at, a repeat
  in a repeat as in \<^verbatim>\<open>x(?>(?:a+)+b)\<close> included.
\<close>

lemma alternatives_in_sequence:
  "walk (replicate n (Branch [(0, 0, []), (0, 0, [])])) False st = Inr st \<and>
   length (ends (replicate n (Branch [(0, 0, []), (0, 0, [])])) s i) = 2 ^ n"
  by (induction n arbitrary: i) simp_all

lemma atomic_group_unseen:
  "safe_regex (regex_env [literal 120, Atomic_Group [Repeat 1 4294967295 [Subpattern [Repeat 1 4294967295 [literal 97]]], literal 98]])
     (chars ''x(?>(?:a+)+b)'') = Some (Regex (chars ''x(?>(?:a+)+b)''))"
  by (rule safe_regexI, simp) (simp_all add: chars_def)

end
