(* ===== verification/Ip_Match.thy ===== *)
theory Ip_Match
  imports Filter_Parser
begin

section \<open>Address lists\<close>

text \<open>
  Models the matcher of \<^verbatim>\<open>trench/filter/ipmatch.py\<close>: a dictionary of networks per prefix
  length and the search from the longest. Reading addresses and networks is the
  \<^verbatim>\<open>ipaddress\<close> library's, an argument: \<open>net\<close> gives the family (True for IPv4), the prefix
  length and the network address of a text, \<open>addr\<close> the family and value of an address.
\<close>

type_synonym prefix_table = "(nat, (nat, ustr) odict) odict"

record matcher =
  m_v4 :: prefix_table
  m_v6 :: prefix_table
  m_size :: nat

definition new_matcher :: matcher where
  "new_matcher = \<lparr>m_v4 = [], m_v6 = [], m_size = 0\<rparr>"

definition put_prefix :: "nat \<Rightarrow> nat \<Rightarrow> ustr \<Rightarrow> prefix_table \<Rightarrow> prefix_table" where
  "put_prefix len base source t =
     od_set len (od_set base source (case od_get len t of Some d \<Rightarrow> d | None \<Rightarrow> [])) t"

definition matcher_add :: "(ustr \<Rightarrow> (bool \<times> nat \<times> nat) option) \<Rightarrow> ustr \<Rightarrow> ustr \<Rightarrow> matcher \<Rightarrow> bool \<times> matcher" where
  "matcher_add net cidr source m =
     (case net (strip cidr) of
        None \<Rightarrow> (False, m)
      | Some (v4, len, base) \<Rightarrow>
          (True, (if v4 then m\<lparr>m_v4 := put_prefix len base source (m_v4 m)\<rparr>
                  else m\<lparr>m_v6 := put_prefix len base source (m_v6 m)\<rparr>)\<lparr>m_size := m_size m + 1\<rparr>))"

fun add_lines :: "(ustr \<Rightarrow> (bool \<times> nat \<times> nat) option) \<Rightarrow> ustr \<Rightarrow> ustr list \<Rightarrow> nat \<times> matcher \<Rightarrow> nat \<times> matcher" where
  "add_lines net source [] st = st"
| "add_lines net source (raw # rest) (added, m) =
     (let line = strip (hd (split_on 59 (hd (split_on 35 raw))))
      in if line = [] then add_lines net source rest (added, m)
         else (let (ok, m) = matcher_add net (hd (words line)) source m
               in add_lines net source rest (if ok then added + 1 else added, m)))"

definition add_many :: "(ustr \<Rightarrow> (bool \<times> nat \<times> nat) option) \<Rightarrow> ustr \<Rightarrow> ustr \<Rightarrow> matcher \<Rightarrow> nat \<times> matcher" where
  "add_many net text source m = add_lines net source (splitlines text) (0, m)"

definition prefix_mask :: "nat \<Rightarrow> nat \<Rightarrow> nat" where
  "prefix_mask bits len = (if len \<noteq> 0 then push_bit (bits - len) (push_bit len 1 - 1) else 0)"

fun search_lengths :: "prefix_table \<Rightarrow> nat \<Rightarrow> nat \<Rightarrow> nat list \<Rightarrow> ustr option" where
  "search_lengths t bits value [] = None"
| "search_lengths t bits value (len # lens) =
     (case od_get (value AND prefix_mask bits len) (case od_get len t of Some d \<Rightarrow> d | None \<Rightarrow> []) of
        Some s \<Rightarrow> Some s
      | None \<Rightarrow> search_lengths t bits value lens)"

definition match_table :: "prefix_table \<Rightarrow> nat \<Rightarrow> nat \<Rightarrow> ustr option" where
  "match_table t bits value =
     (if t = [] then None else search_lengths t bits value (rev (sort (od_keys t))))"

definition matcher_match :: "(ustr \<Rightarrow> (bool \<times> nat) option) \<Rightarrow> ustr \<Rightarrow> matcher \<Rightarrow> ustr option" where
  "matcher_match addr ip m =
     (case addr ip of
        None \<Rightarrow> None
      | Some (True, value) \<Rightarrow> match_table (m_v4 m) 32 value
      | Some (False, value) \<Rightarrow> match_table (m_v6 m) 128 value)"

definition answer_addresses :: "(bytes \<Rightarrow> ustr) \<Rightarrow> message \<Rightarrow> ustr list" where
  "answer_addresses ntop6 m =
     concat (map (\<lambda>r. if rr_type r = 1 \<or> rr_type r = 28
                      then (case rdata_text ntop6 (rr_rdata r) of Inr s \<Rightarrow> [s] | Inl e \<Rightarrow> [])
                      else []) (answers m))"

subsection \<open>The longest prefix wins\<close>

text \<open>A list of networks: prefix length, network address, source. A network holds the addresses that agree
  with it in its first bits.\<close>

definition in_net :: "nat \<Rightarrow> nat \<Rightarrow> nat \<times> nat \<times> ustr \<Rightarrow> bool" where
  "in_net bits value = (\<lambda>(len, base, s). value div 2 ^ (bits - len) = base div 2 ^ (bits - len))"

definition net_ok :: "nat \<Rightarrow> nat \<times> nat \<times> ustr \<Rightarrow> bool" where
  "net_ok bits = (\<lambda>(len, base, s). len \<le> bits \<and> base mod 2 ^ (bits - len) = 0)"

definition table_of :: "(nat \<times> nat \<times> ustr) list \<Rightarrow> prefix_table" where
  "table_of nets = fold (\<lambda>(len, base, s). put_prefix len base s) nets []"

definition last_source :: "(nat \<times> nat \<times> ustr) list \<Rightarrow> nat \<Rightarrow> nat \<Rightarrow> ustr option" where
  "last_source nets len base =
     (case rev (filter (\<lambda>(l, b, s). l = len \<and> b = base) nets) of [] \<Rightarrow> None | (l, b, s) # _ \<Rightarrow> Some s)"

lemma mask_value:
  assumes "value < 2 ^ bits" "len \<le> bits"
  shows "value AND prefix_mask bits len = value div 2 ^ (bits - len) * 2 ^ (bits - len)"
proof (cases "len = 0")
  case True
  then show ?thesis using assms by (simp add: prefix_mask_def)
next
  case False
  let ?k = "bits - len"
  have "value AND prefix_mask bits len = push_bit ?k (drop_bit ?k value)"
  proof (rule bit_eqI)
    fix i
    have m: "push_bit len 1 - (1 :: nat) = mask len" by (simp add: mask_eq_exp_minus_1 push_bit_eq_mult)
    have "bit value i \<Longrightarrow> i < bits"
    proof (rule ccontr)
      assume "bit value i" "\<not> i < bits"
      then show False using bit_below [OF assms(1), of i] by simp
    qed
    then show "bit (value AND prefix_mask bits len) i = bit (push_bit ?k (drop_bit ?k value)) i"
      using False assms(2) unfolding prefix_mask_def m by (auto simp: bit_simps)
  qed
  then show ?thesis by (simp add: push_bit_eq_mult drop_bit_eq_div)
qed

lemma table_get:
  "od_get base (case od_get len (fold (\<lambda>(len, base, s). put_prefix len base s) nets t) of Some d \<Rightarrow> d | None \<Rightarrow> []) =
     (case last_source nets len base of
        Some s \<Rightarrow> Some s
      | None \<Rightarrow> od_get base (case od_get len t of Some d \<Rightarrow> d | None \<Rightarrow> []))"
proof (induction nets arbitrary: t)
  case Nil
  then show ?case by (simp add: last_source_def)
next
  case (Cons n nets)
  obtain l b s where n: "n = (l, b, s)" by (cases n)
  have "last_source (n # nets) len base =
      (case last_source nets len base of Some x \<Rightarrow> Some x | None \<Rightarrow> if l = len \<and> b = base then Some s else None)"
    by (auto simp: n last_source_def split: list.split)
  with Cons n show ?case by (auto simp: put_prefix_def od_simps split: option.split)
qed

lemma table_keys: "set (od_keys (fold (\<lambda>(len, base, s). put_prefix len base s) nets t)) = fst ` set nets \<union> set (od_keys t)"
proof (induction nets arbitrary: t)
  case (Cons n nets)
  then show ?case by (cases n) (auto simp: put_prefix_def od_simps)
qed simp

text \<open>The network of each length an address falls in.\<close>

lemma last_source_net:
  assumes ok: "list_all (net_ok bits) nets" and v: "value < 2 ^ bits" "len \<le> bits"
  shows "last_source nets len (value AND prefix_mask bits len) =
    (case rev (filter (\<lambda>n. fst n = len \<and> in_net bits value n) nets) of [] \<Rightarrow> None | n # _ \<Rightarrow> Some (snd (snd n)))"
proof -
  have e: "l = len \<and> b = value AND prefix_mask bits len \<longleftrightarrow> l = len \<and> in_net bits value (l, b, s)" if "(l, b, s) \<in> set nets" for l b s
  proof -
    have "l = len \<Longrightarrow> b mod 2 ^ (bits - len) = 0" using ok that by (auto simp: list_all_iff net_ok_def)
    then show ?thesis unfolding mask_value [OF v] by (auto simp: in_net_def dest: mod_0_imp_dvd)
  qed
  have "(case n of (l, b, s) \<Rightarrow> l = len \<and> b = value AND prefix_mask bits len) \<longleftrightarrow> fst n = len \<and> in_net bits value n"
    if "n \<in> set nets" for n
    using e [of "fst n" "fst (snd n)" "snd (snd n)"] that by (simp add: case_prod_beta)
  then have "filter (\<lambda>(l, b, s). l = len \<and> b = value AND prefix_mask bits len) nets =
      filter (\<lambda>n. fst n = len \<and> in_net bits value n) nets"
    by (rule filter_cong [OF refl])
  then show ?thesis by (auto simp: last_source_def split: list.splits)
qed

text \<open>The reference: the last added of the networks of the greatest length that hold the address.\<close>

definition longest_match :: "nat \<Rightarrow> (nat \<times> nat \<times> ustr) list \<Rightarrow> nat \<Rightarrow> ustr option" where
  "longest_match bits nets value =
     (let hits = filter (in_net bits value) nets; best = Max (fst ` set hits)
      in case rev (filter (\<lambda>n. fst n = best) hits) of [] \<Rightarrow> None | n # _ \<Rightarrow> Some (snd (snd n)))"

lemma search_longest:
  assumes ok: "list_all (net_ok bits) nets" and v: "value < 2 ^ bits"
    and lens: "sorted (rev lens)" "set lens \<subseteq> {0 .. bits}"
    and above: "\<forall>n \<in> set nets. in_net bits value n \<longrightarrow> fst n \<in> set lens"
  shows "search_lengths (table_of nets) bits value lens = longest_match bits nets value"
  using lens above
proof (induction lens)
  case Nil
  then have "filter (in_net bits value) nets = []" by (auto simp: filter_empty_conv)
  then show ?case by (simp add: longest_match_def)
next
  case (Cons len lens)
  let ?hits = "filter (in_net bits value) nets"
  have le: "len \<le> bits" using Cons.prems(2) by simp
  have g: "od_get (value AND prefix_mask bits len) (case od_get len (table_of nets) of Some d \<Rightarrow> d | None \<Rightarrow> []) =
      (case rev (filter (\<lambda>n. fst n = len \<and> in_net bits value n) nets) of [] \<Rightarrow> None | n # _ \<Rightarrow> Some (snd (snd n)))"
    unfolding table_of_def table_get last_source_net [OF ok v le] by (auto simp: od_get_def split: list.split)
  have f: "filter (\<lambda>n. fst n = len \<and> in_net bits value n) nets = filter (\<lambda>n. fst n = len) ?hits" by (simp add: conj_commute)
  show ?case
  proof (cases "filter (\<lambda>n. fst n = len) ?hits = []")
    case True
    then have "\<forall>n \<in> set nets. in_net bits value n \<longrightarrow> fst n \<in> set lens" using Cons.prems(3) by (auto simp: filter_empty_conv)
    moreover have "sorted (rev lens)" using Cons.prems(1) by (simp add: sorted_append)
    ultimately show ?thesis using Cons.IH Cons.prems(2) g True unfolding f by simp
  next
    case False
    have "x \<le> len" if "x \<in> set (len # lens)" for x using Cons.prems(1) that by (auto simp: sorted_append)
    then have "\<forall>n \<in> set ?hits. fst n \<le> len" using Cons.prems(3) by auto
    moreover obtain n where "n \<in> set ?hits" "fst n = len" using False by (auto simp: filter_empty_conv)
    ultimately have "Max (fst ` set ?hits) = len" by (intro Max_eqI) (simp, blast, blast)
    with g False show ?thesis unfolding f longest_match_def Let_def
      by (cases "rev (filter (\<lambda>n. fst n = len) ?hits)") auto
  qed
qed

text \<open>
  C33: the dictionaries per prefix length, searched from the longest, give the source of the longest
  network that holds the address, the last added of several equal ones, and none when none holds it.
\<close>

theorem match_table_exact:
  assumes "list_all (net_ok bits) nets" and "value < 2 ^ bits"
  shows "match_table (table_of nets) bits value = longest_match bits nets value"
proof -
  have k: "set (od_keys (table_of nets)) = fst ` set nets" using table_keys [of nets "[]"] by (simp add: table_of_def od_keys_def)
  show ?thesis
  proof (cases "table_of nets = []")
    case True
    then have "nets = []" using k by (simp add: od_keys_def)
    then show ?thesis by (simp add: match_table_def table_of_def longest_match_def)
  next
    case False
    have "search_lengths (table_of nets) bits value (rev (sort (od_keys (table_of nets)))) = longest_match bits nets value"
      by (rule search_longest [OF assms]) (use assms(1) k in \<open>auto simp: list_all_iff net_ok_def\<close>)
    with False show ?thesis by (simp add: match_table_def)
  qed
qed

theorem match_table_exact_witness:
  "match_table (table_of [(8, 0x0A000000, [97]), (16, 0x0A010000, [98]), (16, 0x0A010000, [99])]) 32 0x0A010203 =
     longest_match 32 [(8, 0x0A000000, [97]), (16, 0x0A010000, [98]), (16, 0x0A010000, [99])] 0x0A010203"
  by (rule match_table_exact) (simp_all add: net_ok_def)

end
