(* ===== verification/Sanitize.thy ===== *)
theory Sanitize
  imports Ordered_Dict Wire_Message Name_Text "HOL-Library.Sublist"
begin

section \<open>Unsolicited records\<close>

text \<open>
  Models \<^verbatim>\<open>trench/resolver/sanitize.py\<close>: the CNAME chain of an answer, and the filter that
  keeps only what the question led to. A set of names is a list of names compared by
  \<^const>\<open>name_eq\<close>, as \<^verbatim>\<open>Name.__hash__\<close> and \<^verbatim>\<open>Name.__eq__\<close> compare them.
\<close>

definition SAN_MAX_CHAIN :: nat where "SAN_MAX_CHAIN = 16"

definition has_name :: "name \<Rightarrow> name list \<Rightarrow> bool" where
  "has_name n ns \<longleftrightarrow> list_ex (name_eq n) ns"

text \<open>
  The attributes of the record data: \<open>rd_target\<close> is \<^verbatim>\<open>.target\<close> where it is a name,
  \<open>rd_dotname\<close> is \<^verbatim>\<open>.name\<close>.
\<close>

definition rd_target :: "rdata \<Rightarrow> name option" where
  "rd_target rd = (case rd of Rd_SRV _ _ _ n \<Rightarrow> Some n | Rd_SVCB _ n _ \<Rightarrow> Some n | Rd_HTTPS _ n _ \<Rightarrow> Some n | _ \<Rightarrow> None)"

definition rd_exchange :: "rdata \<Rightarrow> name option" where
  "rd_exchange rd = (case rd of Rd_MX _ n \<Rightarrow> Some n | _ \<Rightarrow> None)"

definition rd_dotname :: "rdata \<Rightarrow> name option" where
  "rd_dotname rd = (case rd of Rd_NS n \<Rightarrow> Some n | Rd_CNAME n \<Rightarrow> Some n | Rd_PTR n \<Rightarrow> Some n | Rd_DNAME n \<Rightarrow> Some n | _ \<Rightarrow> None)"

text \<open>\<^verbatim>\<open>target or name\<close>: a target of no labels is falsy.\<close>

definition cname_target :: "rdata \<Rightarrow> name option" where
  "cname_target rd = (case rd_target rd of Some n \<Rightarrow> (if n \<noteq> [] then Some n else rd_dotname rd) | None \<Rightarrow> rd_dotname rd)"

definition index_cname :: "rr \<Rightarrow> (bytes, name) odict \<Rightarrow> (bytes, name) odict" where
  "index_cname r d =
     (if rr_type r = 5 \<and> od_get (name_key (rr_name r)) d = None
      then (case cname_target (rr_rdata r) of Some t \<Rightarrow> od_set (name_key (rr_name r)) t d | None \<Rightarrow> d)
      else d)"

fun follow_chain :: "nat \<Rightarrow> (bytes, name) odict \<Rightarrow> name \<Rightarrow> name list \<Rightarrow> name list" where
  "follow_chain 0 d cur chain = chain"
| "follow_chain (Suc n) d cur chain =
     (case od_get (name_key cur) d of
        None \<Rightarrow> chain
      | Some t \<Rightarrow> if has_name t chain then chain else follow_chain n d t (chain @ [t]))"

definition cname_chain :: "name \<Rightarrow> rr list \<Rightarrow> name list" where
  "cname_chain q rrs = follow_chain SAN_MAX_CHAIN (fold index_cname rrs []) q [q]"

definition in_bailiwick :: "name \<Rightarrow> name \<Rightarrow> bool" where
  "in_bailiwick n q = is_subdomain_of q n"

definition first_some :: "'a option list \<Rightarrow> 'a option" where
  "first_some xs = (case filter (\<lambda>x. x \<noteq> None) xs of [] \<Rightarrow> None | x # _ \<Rightarrow> x)"

definition glue_target :: "rr \<Rightarrow> name list" where
  "glue_target r =
     (if rr_type r \<notin> {2, 15, 33, 64, 65} then []
      else (case first_some [rd_target (rr_rdata r), rd_exchange (rr_rdata r), rd_dotname (rr_rdata r)] of
              None \<Rightarrow> []
            | Some v \<Rightarrow> if name_eq v (rr_name r) \<or> is_subdomain_of v (rr_name r) then [v] else []))"

definition targets :: "rr list \<Rightarrow> name list" where
  "targets rrs = concat (map glue_target rrs)"

record sanitized =
  s_answers :: nat
  s_authority :: nat
  s_additional :: nat

definition s_total :: "sanitized \<Rightarrow> nat" where
  "s_total s = s_answers s + s_authority s + s_additional s"

datatype asked = Asked_Name name | Asked_Text ustr

definition owner_of :: "asked \<Rightarrow> message \<Rightarrow> name option" where
  "owner_of a resp =
     (let q = first_question resp; fallback = map_option qname q
      in case a of
           Asked_Name n \<Rightarrow> Some n
         | Asked_Text s \<Rightarrow>
             if s = [] then fallback
             else (case from_text s of Inr n \<Rightarrow> Some n | Inl e \<Rightarrow> fallback))"

definition keep_authority :: "name list \<Rightarrow> rr \<Rightarrow> bool" where
  "keep_authority allowed r \<longleftrightarrow>
     has_name (rr_name r) allowed \<or> list_ex (\<lambda>link. in_bailiwick (rr_name r) link) allowed"

definition sanitize :: "asked \<Rightarrow> message \<Rightarrow> message \<times> sanitized" where
  "sanitize a resp =
     (case owner_of a resp of
        None \<Rightarrow> (resp\<lparr>answers := [], authority := [], additional := []\<rparr>,
                 \<lparr>s_answers = length (answers resp), s_authority = length (authority resp),
                  s_additional = length (additional resp)\<rparr>)
      | Some q \<Rightarrow>
          let allowed = cname_chain q (answers resp);
              kept_answers = filter (\<lambda>r. has_name (rr_name r) allowed) (answers resp);
              kept_auth = filter (keep_authority allowed) (authority resp);
              wanted = allowed @ targets kept_answers @ targets kept_auth;
              kept_add = filter (\<lambda>r. has_name (rr_name r) wanted) (additional resp)
          in (resp\<lparr>answers := kept_answers, authority := kept_auth, additional := kept_add\<rparr>,
              \<lparr>s_answers = length (answers resp) - length kept_answers,
               s_authority = length (authority resp) - length kept_auth,
               s_additional = length (additional resp) - length kept_add\<rparr>))"

subsection \<open>The chain\<close>

text \<open>The keys of the names a question leads to through the chain of the code.\<close>

inductive key_linked :: "rr list \<Rightarrow> bytes \<Rightarrow> bytes \<Rightarrow> bool" for rrs q where
  asked: "key_linked rrs q q"
| hop: "key_linked rrs q (name_key (rr_name r)) \<Longrightarrow> r \<in> set rrs \<Longrightarrow> rr_type r = 5 \<Longrightarrow>
     cname_target (rr_rdata r) = Some t \<Longrightarrow> key_linked rrs q (name_key t)"

lemma has_name_iff: "has_name n ns \<longleftrightarrow> name_key n \<in> name_key ` set ns"
  by (auto simp: has_name_def list_ex_iff name_eq_def)

lemma index_get:
  "od_get k (fold index_cname rrs d) =
     (case od_get k d of
        Some t \<Rightarrow> Some t
      | None \<Rightarrow> (case filter (\<lambda>r. rr_type r = 5 \<and> name_key (rr_name r) = k \<and> cname_target (rr_rdata r) \<noteq> None) rrs of
                  [] \<Rightarrow> None | r # _ \<Rightarrow> cname_target (rr_rdata r)))"
proof (induction rrs arbitrary: d)
  case Nil
  then show ?case by (simp split: option.split)
next
  case (Cons r rrs)
  then show ?case by (auto simp: index_cname_def od_simps split: option.splits list.splits)
qed

lemma index_record:
  assumes "od_get k (fold index_cname rrs []) = Some t"
  shows "\<exists>r \<in> set rrs. rr_type r = 5 \<and> name_key (rr_name r) = k \<and> cname_target (rr_rdata r) = Some t"
proof -
  let ?l = "filter (\<lambda>r. rr_type r = 5 \<and> name_key (rr_name r) = k \<and> cname_target (rr_rdata r) \<noteq> None) rrs"
  have e: "od_get k ([] :: (bytes, name) odict) = None" by (simp add: od_get_def)
  then obtain r rest where l: "?l = r # rest" "cname_target (rr_rdata r) = Some t"
    using assms unfolding index_get by (auto split: list.splits)
  have "r \<in> set ?l" using l(1) by simp
  with l(2) show ?thesis by auto
qed

lemma follow_linked:
  "(\<forall>n \<in> set chain. key_linked rrs q (name_key n)) \<Longrightarrow> key_linked rrs q (name_key cur) \<Longrightarrow>
     n \<in> set (follow_chain m (fold index_cname rrs []) cur chain) \<Longrightarrow> key_linked rrs q (name_key n)"
proof (induction m arbitrary: cur chain)
  case (Suc m)
  show ?case
  proof (cases "od_get (name_key cur) (fold index_cname rrs [])")
    case (Some t)
    obtain r where "r \<in> set rrs" "rr_type r = 5" "name_key (rr_name r) = name_key cur" "cname_target (rr_rdata r) = Some t"
      using index_record [OF Some] by blast
    with Suc.prems(2) have t: "key_linked rrs q (name_key t)" using hop [of rrs q r t] by simp
    show ?thesis
    proof (cases "has_name t chain")
      case True
      with Suc.prems Some show ?thesis by simp
    next
      case False
      with Suc.IH [of "chain @ [t]" t] Suc.prems Some t show ?thesis by auto
    qed
  qed (use Suc.prems in simp)
qed simp

lemma follow_length: "length (follow_chain m d cur chain) \<le> length chain + m"
proof (induction m arbitrary: cur chain)
  case (Suc m)
  have "length (follow_chain m d t (chain @ [t])) \<le> length chain + Suc m" for t using Suc [of t "chain @ [t]"] by simp
  then show ?case by (simp split: option.split)
qed simp

lemma follow_prefix: "\<exists>xs. follow_chain m d cur chain = chain @ xs"
proof (induction m arbitrary: cur chain)
  case (Suc m)
  have "\<exists>xs. follow_chain m d t (chain @ [t]) = chain @ xs" for t using Suc [of t "chain @ [t]"] by auto
  then show ?case by (auto split: option.split)
qed simp

lemma follow_cong:
  "(\<And>n. n \<in> set (follow_chain m d cur chain) \<Longrightarrow> od_get (name_key n) d' = od_get (name_key n) d) \<Longrightarrow>
     cur \<in> set chain \<Longrightarrow> follow_chain m d' cur chain = follow_chain m d cur chain"
proof (induction m arbitrary: cur chain)
  case (Suc m)
  have "cur \<in> set (follow_chain (Suc m) d cur chain)" using follow_prefix [of "Suc m" d cur chain] Suc.prems(2) by fastforce
  then have c: "od_get (name_key cur) d' = od_get (name_key cur) d" by (rule Suc.prems(1))
  show ?case
  proof (cases "od_get (name_key cur) d")
    case None
    with c show ?thesis by simp
  next
    case (Some t)
    show ?thesis
    proof (cases "has_name t chain")
      case True
      with c Some show ?thesis by simp
    next
      case False
      have "follow_chain m d' t (chain @ [t]) = follow_chain m d t (chain @ [t])"
        by (rule Suc.IH) (use Suc.prems(1) Some False in simp_all)
      with c Some False show ?thesis by simp
    qed
  qed
qed simp

lemma chain_kept:
  fixes q rrs
  defines "kept \<equiv> filter (\<lambda>r. has_name (rr_name r) (cname_chain q rrs)) rrs"
  shows "cname_chain q kept = cname_chain q rrs"
  unfolding cname_chain_def
proof (rule follow_cong)
  fix n
  assume "n \<in> set (follow_chain SAN_MAX_CHAIN (fold index_cname rrs []) q [q])"
  then have n: "n \<in> set (cname_chain q rrs)" by (simp add: cname_chain_def)
  have F: "filter P kept = filter P rrs" if "\<And>r. P r \<Longrightarrow> name_key (rr_name r) = name_key n" for P
    using that n unfolding kept_def has_name_iff by (auto intro!: filter_cong)
  have "filter (\<lambda>r. rr_type r = 5 \<and> name_key (rr_name r) = name_key n \<and> cname_target (rr_rdata r) \<noteq> None) kept =
      filter (\<lambda>r. rr_type r = 5 \<and> name_key (rr_name r) = name_key n \<and> cname_target (rr_rdata r) \<noteq> None) rrs"
    by (rule F) blast
  note e = this
  show "od_get (name_key n) (fold index_cname kept []) = od_get (name_key n) (fold index_cname rrs [])"
    unfolding index_get e ..
qed simp

lemma chain_linked: "n \<in> set (cname_chain q rrs) \<Longrightarrow> key_linked rrs (name_key q) (name_key n)"
  unfolding cname_chain_def by (rule follow_linked) (simp_all add: asked)

text \<open>Every name on the chain is the question's or carried by a CNAME record.\<close>

lemma follow_mem:
  "n \<in> set (follow_chain m d cur chain) \<Longrightarrow> n \<in> set chain \<or> (\<exists>k. od_get k d = Some n)"
proof (induction m arbitrary: cur chain)
  case (Suc m)
  have "n \<in> set chain \<or> (\<exists>k. od_get k d = Some n)"
    if "od_get (name_key cur) d = Some t" "n \<in> set (follow_chain m d t (chain @ [t]))" for t
    using Suc.IH [OF that(2)] that(1) by auto
  with Suc.prems show ?case by (auto split: option.splits if_splits)
qed simp

subsection \<open>What is kept\<close>

lemma owner_of_cong: "questions m = questions m' \<Longrightarrow> owner_of a m = owner_of a m'"
  by (simp add: owner_of_def first_question_def Let_def split: asked.split)

lemma sanitize_owner:
  assumes "owner_of a resp = Some q"
  defines "chain \<equiv> cname_chain q (answers resp)"
  shows "answers (fst (sanitize a resp)) = filter (\<lambda>r. has_name (rr_name r) chain) (answers resp)"
    and "authority (fst (sanitize a resp)) = filter (keep_authority chain) (authority resp)"
    and "additional (fst (sanitize a resp)) = filter (\<lambda>r. has_name (rr_name r)
      (chain @ targets (answers (fst (sanitize a resp))) @ targets (authority (fst (sanitize a resp))))) (additional resp)"
    and "questions (fst (sanitize a resp)) = questions resp"
  using assms(1) by (simp_all add: sanitize_def Let_def chain_def)

subsection \<open>What a question leads to\<close>

text \<open>
  The specification of the filter, in names and labels alone: the name a record carries, names that are
  the same but for letter case, a name inside a zone, the names a question leads to through CNAME
  records (type 5), and the names that earn an address in the additional section: what a record of type
  NS (2), MX (15), SRV (33), SVCB (64) or HTTPS (65) carries, and only where that is inside the zone that names it.
\<close>

fun carries :: "rdata \<Rightarrow> name \<Rightarrow> bool" where
  "carries (Rd_NS n) v \<longleftrightarrow> n = v"
| "carries (Rd_CNAME n) v \<longleftrightarrow> n = v"
| "carries (Rd_PTR n) v \<longleftrightarrow> n = v"
| "carries (Rd_DNAME n) v \<longleftrightarrow> n = v"
| "carries (Rd_MX _ n) v \<longleftrightarrow> n = v"
| "carries (Rd_SRV _ _ _ n) v \<longleftrightarrow> n = v"
| "carries (Rd_SVCB _ n _) v \<longleftrightarrow> n = v"
| "carries (Rd_HTTPS _ n _) v \<longleftrightarrow> n = v"
| "carries _ v \<longleftrightarrow> False"

definition same_name :: "name \<Rightarrow> name \<Rightarrow> bool" where
  "same_name a b \<longleftrightarrow> map lower a = map lower b"

definition inside :: "name \<Rightarrow> name \<Rightarrow> bool" where
  "inside v zone \<longleftrightarrow> (\<exists>us vs. v = us @ vs \<and> same_name vs zone)"

inductive linked :: "rr list \<Rightarrow> name \<Rightarrow> name \<Rightarrow> bool" for rrs q where
  itself: "same_name n q \<Longrightarrow> linked rrs q n"
| aliased: "linked rrs q (rr_name r) \<Longrightarrow> r \<in> set rrs \<Longrightarrow> rr_type r = 5 \<Longrightarrow> carries (rr_rdata r) t \<Longrightarrow>
     same_name n t \<Longrightarrow> linked rrs q n"

definition earns_glue :: "rr \<Rightarrow> name \<Rightarrow> bool" where
  "earns_glue k v \<longleftrightarrow> rr_type k \<in> {2, 15, 33, 64, 65} \<and> carries (rr_rdata k) v \<and> inside v (rr_name k)"

text \<open>The names of a response come from the wire, where only valid ones are read.\<close>

definition wf_record :: "rr \<Rightarrow> bool" where
  "wf_record r \<longleftrightarrow> wf_name (rr_name r) \<and> (\<forall>v. carries (rr_rdata r) v \<longrightarrow> wf_name v)"

lemma same_name_key: "wf_name a \<Longrightarrow> wf_name b \<Longrightarrow> name_key a = name_key b \<longleftrightarrow> same_name a b"
  by (simp add: wf_name_def same_name_def name_key_inj)

lemma inside_iff: "wf_name v \<Longrightarrow> wf_name z \<Longrightarrow> is_subdomain_of v z \<longleftrightarrow> inside v z"
  by (simp add: inside_def same_name_def subdomain_iff)

lemma linked_same: "linked rrs q n \<Longrightarrow> same_name m n \<Longrightarrow> linked rrs q m"
  by (erule linked.cases) (auto simp: same_name_def intro: linked.intros)

lemma cname_target_carries: "cname_target rd = Some t \<Longrightarrow> carries rd t"
  by (cases rd) (auto simp: cname_target_def rd_target_def rd_dotname_def split: if_splits)

lemma key_linked_linked:
  assumes "key_linked rrs (name_key q) k" "wf_name q" "\<forall>r \<in> set rrs. wf_record r"
  shows "wf_name n \<Longrightarrow> name_key n = k \<Longrightarrow> linked rrs q n"
  using assms(1)
proof (induction arbitrary: n)
  case asked
  then show ?case using assms(2) by (simp add: same_name_key linked.itself)
next
  case (hop r t)
  have c: "carries (rr_rdata r) t" using hop.hyps(4) by (rule cname_target_carries)
  have w: "wf_name (rr_name r)" "wf_name t" using assms(3) hop.hyps(2) c by (auto simp: wf_record_def)
  have "linked rrs q (rr_name r)" using w(1) by (rule hop.IH) simp
  moreover have "same_name n t" using hop.prems w(2) same_name_key by blast
  ultimately show ?case using hop.hyps(2,3) c by (auto intro: linked.aliased)
qed

lemma chain_wf:
  assumes "n \<in> set (cname_chain q rrs)" "wf_name q" "\<forall>r \<in> set rrs. wf_record r"
  shows "wf_name n"
proof -
  have "n = q \<or> (\<exists>k. od_get k (fold index_cname rrs []) = Some n)"
    using follow_mem [of n SAN_MAX_CHAIN "fold index_cname rrs []" q "[q]"] assms(1) by (auto simp: cname_chain_def)
  then show ?thesis using assms(2,3) index_record [of _ rrs n] cname_target_carries by (fastforce simp: wf_record_def)
qed

lemma glue_target_earns:
  assumes "v \<in> set (glue_target k)" "wf_record k"
  shows "earns_glue k v"
proof -
  have t: "rr_type k \<in> {2, 15, 33, 64, 65}" using assms(1) by (auto simp: glue_target_def split: if_splits)
  have c: "carries (rr_rdata k) v" using assms(1)
    by (cases "rr_rdata k")
      (auto simp: glue_target_def first_some_def rd_target_def rd_exchange_def rd_dotname_def split: if_splits)
  have w: "wf_name v" "wf_name (rr_name k)" using c assms(2) by (auto simp: wf_record_def)
  have "name_eq v (rr_name k) \<or> is_subdomain_of v (rr_name k)"
    using assms(1) by (auto simp: glue_target_def split: if_splits option.splits)
  then have "inside v (rr_name k)"
  proof
    assume "name_eq v (rr_name k)"
    then have "same_name v (rr_name k)" using same_name_key [OF w] by (simp add: name_eq_def)
    then show ?thesis unfolding inside_def by (intro exI [of _ "[]"] exI [of _ v]) simp
  qed (use inside_iff [OF w] in simp)
  with t c show ?thesis by (simp add: earns_glue_def)
qed

text \<open>
  C13: everything that is left of a response of valid names is a record of it, in order, that the question
  led to: an answer is owned by a name that the kept CNAME records link to the question name, an authority
  record by such a name or an ancestor of one, and an additional record by such a name or by the host of
  a kept NS, MX, SRV, SVCB or HTTPS record that lies inside the zone of that record.
\<close>

theorem sanitize_sound:
  assumes "owner_of a resp = Some q" and "sanitize a resp = (resp', dropped)"
    and "wf_name q" and "\<forall>r \<in> set (answers resp @ authority resp @ additional resp). wf_record r"
  shows "subseq (answers resp') (answers resp) \<and> subseq (authority resp') (authority resp) \<and>
    subseq (additional resp') (additional resp) \<and>
    list_all (\<lambda>r. linked (answers resp') q (rr_name r)) (answers resp') \<and>
    list_all (\<lambda>r. \<exists>n. linked (answers resp') q n \<and> inside n (rr_name r)) (authority resp') \<and>
    list_all (\<lambda>r. linked (answers resp') q (rr_name r) \<or>
      (\<exists>k \<in> set (answers resp' @ authority resp'). \<exists>v. earns_glue k v \<and> same_name (rr_name r) v)) (additional resp')"
proof -
  define chain where "chain = cname_chain q (answers resp)"
  have r: "resp' = fst (sanitize a resp)" by (simp add: assms(2))
  note o' = sanitize_owner [OF assms(1), folded r chain_def]
  have w: "wf_record x" if "x \<in> set (answers resp' @ authority resp' @ additional resp')" for x
    using that assms(4) by (auto simp: o'(1,2)) (simp add: o'(3))
  have "cname_chain q (answers resp') = chain" unfolding o'(1) chain_def by (rule chain_kept)
  then have l: "linked (answers resp') q m" if "n \<in> set chain" "wf_name m" "name_key m = name_key n" for n m
    using chain_linked [of n q "answers resp'"] that w
    by (intro key_linked_linked [OF _ assms(3)]) auto
  have l': "linked (answers resp') q (rr_name x)"
    if "has_name (rr_name x) chain" "x \<in> set (answers resp' @ authority resp' @ additional resp')" for x
    using that w [OF that(2)] l unfolding has_name_iff wf_record_def by auto
  have wc: "wf_name n" if "n \<in> set chain" for n
    using that assms(3,4) unfolding chain_def by (intro chain_wf [of n q "answers resp"]) auto
  have "list_all (\<lambda>r. linked (answers resp') q (rr_name r)) (answers resp')"
    using l' by (auto simp: list_all_iff o'(1))
  moreover have "\<exists>n. linked (answers resp') q n \<and> inside n (rr_name x)" if x: "x \<in> set (authority resp')" for x
  proof -
    have wx: "wf_name (rr_name x)" using w [of x] x by (simp add: wf_record_def)
    have "keep_authority chain x" using x by (simp add: o'(2))
    then consider "has_name (rr_name x) chain" | n where "n \<in> set chain" "is_subdomain_of n (rr_name x)"
      by (auto simp: keep_authority_def list_ex_iff in_bailiwick_def)
    then show ?thesis
    proof cases
      case 1
      then have "linked (answers resp') q (rr_name x)" using x by (intro l') simp_all
      moreover have "inside (rr_name x) (rr_name x)" unfolding inside_def same_name_def
        by (intro exI [of _ "[]"] exI [of _ "rr_name x"]) simp
      ultimately show ?thesis by blast
    next
      case 2
      then have "inside n (rr_name x)" using inside_iff [OF wc wx] by simp
      with l [OF 2(1) wc [OF 2(1)] refl] show ?thesis by blast
    qed
  qed
  moreover have "linked (answers resp') q (rr_name x) \<or>
      (\<exists>k \<in> set (answers resp' @ authority resp'). \<exists>v. earns_glue k v \<and> same_name (rr_name x) v)"
    if x: "x \<in> set (additional resp')" for x
  proof -
    have "has_name (rr_name x) (chain @ targets (answers resp') @ targets (authority resp'))"
      using x unfolding o'(3) by simp
    then consider "has_name (rr_name x) chain" | "has_name (rr_name x) (targets (answers resp' @ authority resp'))"
      by (auto simp: has_name_def targets_def)
    then show ?thesis
    proof cases
      case 1
      then show ?thesis using l' [of x] x by simp
    next
      case 2
      then obtain k v where k: "k \<in> set (answers resp' @ authority resp')" "v \<in> set (glue_target k)" "name_eq (rr_name x) v"
        by (auto simp: has_name_def targets_def list_ex_iff)
      have wk: "wf_record k" using k(1) by (intro w) auto
      have e: "earns_glue k v" using k(2) wk by (rule glue_target_earns)
      then have "wf_name v" using wk by (auto simp: earns_glue_def wf_record_def)
      moreover have "wf_name (rr_name x)" using w [of x] x by (simp add: wf_record_def)
      ultimately have "same_name (rr_name x) v" using k(3) same_name_key by (simp add: name_eq_def)
      with e k(1) show ?thesis by blast
    qed
  qed
  ultimately show ?thesis by (simp add: list_all_iff o'(1,2) subseq_filter_left) (simp add: o'(3) subseq_filter_left)
qed

text \<open>
  Sanitising is idempotent: what is left of a response is left whole when it is sanitised again, so a
  cached response passes the filter it already passed.
\<close>

theorem sanitize_idempotent:
  assumes "sanitize a resp = (resp', dropped)"
  shows "sanitize a resp' = (resp', \<lparr>s_answers = 0, s_authority = 0, s_additional = 0\<rparr>)"
proof (cases "owner_of a resp")
  case None
  then have r: "resp' = resp\<lparr>answers := [], authority := [], additional := []\<rparr>" using assms by (auto simp: sanitize_def)
  then have "owner_of a resp' = None" using None owner_of_cong [of resp' resp a] by simp
  with r show ?thesis by (simp add: sanitize_def)
next
  case (Some q)
  have r: "resp' = fst (sanitize a resp)" by (simp add: assms)
  note o' = sanitize_owner [OF Some, folded r]
  have own: "owner_of a resp' = Some q" using owner_of_cong [OF o'(4)] Some by simp
  define chain where "chain = cname_chain q (answers resp)"
  have c: "cname_chain q (answers resp') = chain" unfolding o'(1) chain_def by (rule chain_kept)
  have "filter (\<lambda>r. has_name (rr_name r) chain) (answers resp') = answers resp'"
    by (simp add: o'(1) chain_def)
  moreover have "filter (keep_authority chain) (authority resp') = authority resp'" by (simp add: o'(2) chain_def)
  moreover have "filter (\<lambda>r. has_name (rr_name r) (chain @ targets (answers resp') @ targets (authority resp'))) (additional resp')
      = additional resp'"
    by (rule filter_True) (use o'(3) in \<open>auto simp: chain_def\<close>)
  ultimately show ?thesis using own c by (simp add: sanitize_def Let_def)
qed

subsection \<open>A poisoned response\<close>

text \<open>
  \<^verbatim>\<open>a CNAME b\<close>, an address of \<^verbatim>\<open>b\<close> and one of \<^verbatim>\<open>c\<close> that nobody asked for; the root's
  name server inside the root, and one of \<^verbatim>\<open>b\<close> outside it, with an address each.
\<close>

definition san_rr :: "name \<Rightarrow> int \<Rightarrow> rdata \<Rightarrow> rr" where
  "san_rr n t rd = \<lparr>rr_name = n, rr_type = t, rr_class = 1, rr_ttl = 60, rr_rdata = rd\<rparr>"

definition poisoned :: message where
  "poisoned =
     \<lparr>mid = 1, mflags = 0x8180, questions = [],
      answers = [san_rr [[97]] 5 (Rd_CNAME [[98]]), san_rr [[66]] 1 (Rd_A [1, 2, 3, 4]), san_rr [[99]] 1 (Rd_A [6, 6, 6, 6])],
      authority = [san_rr [] 2 (Rd_NS [[100]]), san_rr [[98]] 2 (Rd_NS [[99]])],
      additional = [san_rr [[100]] 1 (Rd_A [1, 1, 1, 1]), san_rr [[99]] 1 (Rd_A [6, 6, 6, 6])], medns = None\<rparr>"

lemma poisoned_clean:
  "answers (fst (sanitize (Asked_Name [[65]]) poisoned)) = take 2 (answers poisoned)"
  "authority (fst (sanitize (Asked_Name [[65]]) poisoned)) = authority poisoned"
  "additional (fst (sanitize (Asked_Name [[65]]) poisoned)) = [san_rr [[100]] 1 (Rd_A [1, 1, 1, 1])]"
  by code_simp+

lemma poisoned_wf:
  "\<forall>r \<in> set (answers poisoned @ authority poisoned @ additional poisoned). wf_record r"
  by (auto simp: poisoned_def san_rr_def wf_record_def wf_name_def wf_label_def MAX_LABEL_def MAX_NAME_def)

theorem sanitize_sound_witness:
  "\<exists>m s. sanitize (Asked_Name [[65]]) poisoned = (m, s) \<and> answers m = take 2 (answers poisoned) \<and>
     list_all (\<lambda>r. linked (answers m) [[65]] (rr_name r)) (answers m) \<and>
     (\<exists>k \<in> set (answers m @ authority m). \<exists>v. earns_glue k v \<and> same_name [[100]] v)"
proof -
  obtain m s where e: "sanitize (Asked_Name [[65]]) poisoned = (m, s)" by (cases "sanitize (Asked_Name [[65]]) poisoned")
  have o: "owner_of (Asked_Name [[65]]) poisoned = Some [[65]]" by (simp add: owner_of_def)
  have w: "wf_name [[65]]" by (simp add: wf_name_def wf_label_def MAX_LABEL_def MAX_NAME_def)
  have m: "answers m = take 2 (answers poisoned)" "additional m = [san_rr [[100]] 1 (Rd_A [1, 1, 1, 1])]"
    using poisoned_clean e by simp_all
  note t = sanitize_sound [OF o e w poisoned_wf]
  have n: "\<not> linked (answers m) [[65]] [[100]]"
  proof
    assume "linked (answers m) [[65]] [[100]]"
    then show False by (cases) (auto simp: m(1) poisoned_def san_rr_def same_name_def lower_def lower_byte_def)
  qed
  then show ?thesis using t e m by (auto simp: san_rr_def)
qed

theorem sanitize_idempotent_witness:
  "sanitize (Asked_Name [[65]]) (fst (sanitize (Asked_Name [[65]]) poisoned)) =
     (fst (sanitize (Asked_Name [[65]]) poisoned), \<lparr>s_answers = 0, s_authority = 0, s_additional = 0\<rparr>)"
  by (rule sanitize_idempotent [OF prod.collapse [symmetric]])

end
