(* ===== verification/Dnssec_Denial.thy ===== *)
theory Dnssec_Denial
  imports Zone
begin

section \<open>Denial of existence\<close>

text \<open>
  Models \<^verbatim>\<open>trench/resolver/dnssec/nsec.py\<close>: what a set of NSEC or NSEC3 records proves about
  a name. The records are those whose signatures have been verified; the hash of NSEC3 is the argument
  \<open>H\<close>, as in theory Zone, and its memo in \<^verbatim>\<open>Nsec3Set\<close> is left out. Canonical order is
  \<^const>\<open>name_lt\<close>.
\<close>

record nsec =
  next_name :: name
  ns_bitmap :: bytes

record nsec3 =
  hash_algorithm :: int
  flags3 :: int
  iterations3 :: int
  salt3 :: bytes
  next_hashed :: bytes
  n3_bitmap :: bytes

definition T_DNAME :: int where "T_DNAME = 39"
definition MAX_NSEC3_ITERATIONS :: int where "MAX_NSEC3_ITERATIONS = 100"

subsection \<open>Gaps, type bitmaps and names\<close>

definition nsec_covers :: "name \<Rightarrow> name \<Rightarrow> name \<Rightarrow> bool" where
  "nsec_covers owner nxt qn =
     (if name_lt owner nxt then name_lt owner qn \<and> name_lt qn nxt
      else name_lt owner qn \<or> name_lt qn nxt)"

text \<open>The loop over the windows of a bitmap from octet \<open>i\<close> on.\<close>

function bitmap_scan :: "bytes \<Rightarrow> int \<Rightarrow> nat \<Rightarrow> nat \<Rightarrow> bool" where
  "bitmap_scan bm win b i =
     (if i + 2 \<le> length bm then
        let blen = unat (bm ! (i + 1)); block = take blen (drop (i + 2) bm)
        in if uint (bm ! i) = win
           then b div 8 < length block \<and> (block ! (b div 8)) AND (drop_bit (b mod 8) 0x80) \<noteq> 0
           else bitmap_scan bm win b (i + 2 + blen)
      else False)"
  by pat_completeness auto
termination
  by (relation "measure (\<lambda>(bm, win, b, i). length bm - i)") auto

declare bitmap_scan.simps [simp del]

definition bitmap_has :: "bytes \<Rightarrow> int \<Rightarrow> bool" where
  "bitmap_has bm t = bitmap_scan bm (drop_bit 8 t) (nat (t AND 255)) 0"

fun common_prefix :: "name \<Rightarrow> name \<Rightarrow> name" where
  "common_prefix (x # xs) (y # ys) = (if lower x \<noteq> lower y then [] else x # common_prefix xs ys)"
| "common_prefix xs ys = []"

definition common_suffix :: "name \<Rightarrow> name \<Rightarrow> name" where
  "common_suffix a b = rev (common_prefix (rev a) (rev b))"

fun ancestors_from :: "name \<Rightarrow> name \<Rightarrow> name list" where
  "ancestors_from zn [] = (if zn = [] then [[]] else [])"
| "ancestors_from zn (la # n) =
     (if length zn \<le> length (la # n)
      then (la # n) # (if name_eq (la # n) zn then [] else ancestors_from zn n)
      else [])"

definition ancestors :: "name \<Rightarrow> name \<Rightarrow> name list" where
  "ancestors qn zn = ancestors_from zn (parent qn)"

definition is_delegation :: "bytes \<Rightarrow> bool" where
  "is_delegation bm \<longleftrightarrow> bitmap_has bm T_NS \<and> \<not> bitmap_has bm T_SOA"

definition cuts_off :: "name \<Rightarrow> bytes \<Rightarrow> name \<Rightarrow> bool" where
  "cuts_off owner bm n =
     (if name_eq n owner \<or> \<not> is_subdomain_of n owner then False
      else is_delegation bm \<or> bitmap_has bm T_DNAME)"

definition proves_gap :: "name \<Rightarrow> nsec \<Rightarrow> name \<Rightarrow> bool" where
  "proves_gap owner rd n \<longleftrightarrow> nsec_covers owner (next_name rd) n \<and> \<not> cuts_off owner (ns_bitmap rd) n"

definition covered :: "name \<Rightarrow> (name \<times> nsec) list \<Rightarrow> bool" where
  "covered n nsecs \<longleftrightarrow> list_ex (\<lambda>(owner, rd). proves_gap owner rd n) nsecs"

definition gap_unproven :: "nsec3 option \<Rightarrow> bool" where
  "gap_unproven r = (case r of None \<Rightarrow> True | Some rd \<Rightarrow> flags3 rd AND 1 \<noteq> 0)"

subsection \<open>NSEC\<close>

fun nsec_nodata :: "name \<Rightarrow> int \<Rightarrow> (name \<times> nsec) list \<Rightarrow> bool" where
  "nsec_nodata qn t [] = False"
| "nsec_nodata qn t ((owner, rd) # rest) =
     (if \<not> name_eq owner qn then nsec_nodata qn t rest
      else if is_delegation (ns_bitmap rd) then False
      else \<not> (bitmap_has (ns_bitmap rd) t \<or> bitmap_has (ns_bitmap rd) T_CNAME))"

fun wildcard_nodata_loop :: "name \<Rightarrow> int \<Rightarrow> (name \<times> nsec) list \<Rightarrow> (name \<times> nsec) list \<Rightarrow> bool" where
  "wildcard_nodata_loop qn t nsecs [] = False"
| "wildcard_nodata_loop qn t nsecs ((owner, rd) # rest) =
     (case owner of
        [] \<Rightarrow> wildcard_nodata_loop qn t nsecs rest
      | la # ce \<Rightarrow>
          if la \<noteq> [0x2A] \<or> \<not> is_subdomain_of qn ce \<or> name_eq qn ce
             \<or> bitmap_has (ns_bitmap rd) t \<or> bitmap_has (ns_bitmap rd) T_CNAME
          then wildcard_nodata_loop qn t nsecs rest
          else covered qn nsecs \<or> wildcard_nodata_loop qn t nsecs rest)"

definition nsec_wildcard_nodata :: "name \<Rightarrow> int \<Rightarrow> (name \<times> nsec) list \<Rightarrow> bool" where
  "nsec_wildcard_nodata qn t nsecs = wildcard_nodata_loop qn t nsecs nsecs"

text \<open>The closest encloser read off the first gap that holds the name.\<close>

fun gap_encloser :: "name \<Rightarrow> (name \<times> nsec) list \<Rightarrow> name option" where
  "gap_encloser qn [] = None"
| "gap_encloser qn ((owner, rd) # rest) =
     (if proves_gap owner rd qn
      then (let a = common_suffix owner qn; b = common_suffix (next_name rd) qn
            in Some (if length b \<le> length a then a else b))
      else gap_encloser qn rest)"

definition nsec_nxdomain :: "name \<Rightarrow> (name \<times> nsec) list \<Rightarrow> bool" where
  "nsec_nxdomain qn nsecs =
     (case gap_encloser qn nsecs of
        None \<Rightarrow> False
      | Some ce \<Rightarrow>
          if length qn \<le> length ce then False
          else if list_ex (\<lambda>(owner, _). name_eq owner (wild ce)) nsecs then False
          else covered (wild ce) nsecs)"

definition nsec_wildcard_expansion :: "name \<Rightarrow> name \<Rightarrow> (name \<times> nsec) list \<Rightarrow> bool" where
  "nsec_wildcard_expansion qn expanded_from nsecs =
     (let ce = drop 1 expanded_from
      in if \<not> is_subdomain_of qn ce \<or> name_eq qn ce then False else covered qn nsecs)"

datatype ds_proof = Insecure_cut | No_cut

fun ds_at_child :: "name \<Rightarrow> (name \<times> nsec) list \<Rightarrow> nsec option" where
  "ds_at_child child [] = None"
| "ds_at_child child ((owner, rd) # rest) =
     (if \<not> name_eq owner child then ds_at_child child rest else Some rd)"

definition ds_bits :: "bytes \<Rightarrow> ds_proof option" where
  "ds_bits bm =
     (if bitmap_has bm T_DS then None
      else if bitmap_has bm T_SOA then None
      else Some (if bitmap_has bm T_NS then Insecure_cut else No_cut))"

definition nsec_ds_denial :: "name \<Rightarrow> (name \<times> nsec) list \<Rightarrow> ds_proof option" where
  "nsec_ds_denial child nsecs =
     (case ds_at_child child nsecs of
        Some rd \<Rightarrow> ds_bits (ns_bitmap rd)
      | None \<Rightarrow> if covered child nsecs then Some No_cut else None)"

subsection \<open>NSEC3\<close>

record nsec3_set =
  s_zone :: name
  s_usable :: bool
  s_records :: "(ustr \<times> nsec3) list"
  s_salt :: bytes
  s_iterations :: nat

definition between :: "ustr \<Rightarrow> ustr \<Rightarrow> ustr \<Rightarrow> bool" where
  "between lo x hi = (if lo < hi then lo < x \<and> x < hi else lo < x \<or> x < hi)"

text \<open>\<^verbatim>\<open>bytes.decode("latin-1").lower()\<close>\<close>

definition latin1_lower :: "bytes \<Rightarrow> ustr" where
  "latin1_lower bs = map (\<lambda>b. let c = unat b in
     if 65 \<le> c \<and> c \<le> 90 \<or> 192 \<le> c \<and> c \<le> 222 \<and> c \<noteq> 215 then c + 32 else c) bs"

text \<open>The loop that files the records; it stops at an owner without labels.\<close>

fun n3_file :: "name \<Rightarrow> (name \<times> nsec3) list \<Rightarrow> nsec3_set \<Rightarrow> nsec3_set" where
  "n3_file zn [] s = s\<lparr>s_usable := True\<rparr>"
| "n3_file zn ((owner, rd) # rest) s =
     (case owner of
        [] \<Rightarrow> s
      | la # up \<Rightarrow>
          if \<not> name_eq up zn then n3_file zn rest s
          else n3_file zn rest (s\<lparr>s_records := s_records s @ [(latin1_lower la, rd)]\<rparr>))"

definition nsec3_set_of :: "(name \<times> nsec3) list \<Rightarrow> name \<Rightarrow> int \<Rightarrow> nsec3_set" where
  "nsec3_set_of items zn max_iterations =
     (let s = \<lparr>s_zone = zn, s_usable = False, s_records = [], s_salt = [], s_iterations = 0\<rparr>
      in case items of
           [] \<Rightarrow> s
         | (_, f) # _ \<Rightarrow>
             if hash_algorithm f \<noteq> 1 then s
             else if iterations3 f > max_iterations then s
             else if list_ex (\<lambda>(_, rd). hash_algorithm rd \<noteq> hash_algorithm f \<or> salt3 rd \<noteq> salt3 f
                       \<or> iterations3 rd \<noteq> iterations3 f) items then s
             else n3_file zn items (s\<lparr>s_salt := salt3 f, s_iterations := nat (iterations3 f)\<rparr>))"

definition n3_hash :: "(bytes \<Rightarrow> bytes) \<Rightarrow> nsec3_set \<Rightarrow> name \<Rightarrow> ustr" where
  "n3_hash H s n = nsec3_b32 (nsec3_hash H n (s_salt s) (s_iterations s))"

definition n3_match :: "(bytes \<Rightarrow> bytes) \<Rightarrow> nsec3_set \<Rightarrow> name \<Rightarrow> nsec3 option" where
  "n3_match H s n = map_option snd (find (\<lambda>(oh, _). oh = n3_hash H s n) (s_records s))"

definition n3_cover :: "(bytes \<Rightarrow> bytes) \<Rightarrow> nsec3_set \<Rightarrow> name \<Rightarrow> nsec3 option" where
  "n3_cover H s n =
     map_option snd (find (\<lambda>(oh, rd). between oh (n3_hash H s n) (nsec3_b32 (next_hashed rd))) (s_records s))"

fun n3_encloser_loop :: "(bytes \<Rightarrow> bytes) \<Rightarrow> nsec3_set \<Rightarrow> name \<Rightarrow> name list \<Rightarrow> (name \<times> name) option" where
  "n3_encloser_loop H s qn [] = None"
| "n3_encloser_loop H s qn (anc # rest) =
     (case n3_match H s anc of
        None \<Rightarrow> n3_encloser_loop H s qn rest
      | Some rd \<Rightarrow>
          if is_delegation (n3_bitmap rd) \<or> bitmap_has (n3_bitmap rd) T_DNAME then None
          else Some (anc, slice_from (int (length qn) - int (length anc) - 1) qn))"

definition n3_encloser :: "(bytes \<Rightarrow> bytes) \<Rightarrow> name \<Rightarrow> nsec3_set \<Rightarrow> (name \<times> name) option" where
  "n3_encloser H qn s = n3_encloser_loop H s qn (ancestors qn (s_zone s))"

definition nsec3_nodata :: "(bytes \<Rightarrow> bytes) \<Rightarrow> name \<Rightarrow> int \<Rightarrow> nsec3_set \<Rightarrow> bool" where
  "nsec3_nodata H qn t s =
     (case n3_match H s qn of
        Some rd \<Rightarrow>
          if is_delegation (n3_bitmap rd) then False
          else \<not> bitmap_has (n3_bitmap rd) t \<and> \<not> bitmap_has (n3_bitmap rd) T_CNAME
      | None \<Rightarrow>
          (case n3_encloser H qn s of
             None \<Rightarrow> False
           | Some (ce, next_closer) \<Rightarrow>
               if gap_unproven (n3_cover H s next_closer) then False
               else (case n3_match H s (wild ce) of
                       None \<Rightarrow> False
                     | Some wrd \<Rightarrow> \<not> bitmap_has (n3_bitmap wrd) t \<and> \<not> bitmap_has (n3_bitmap wrd) T_CNAME)))"

definition nsec3_nxdomain :: "(bytes \<Rightarrow> bytes) \<Rightarrow> name \<Rightarrow> nsec3_set \<Rightarrow> bool" where
  "nsec3_nxdomain H qn s =
     (case n3_encloser H qn s of
        None \<Rightarrow> False
      | Some (ce, next_closer) \<Rightarrow>
          if gap_unproven (n3_cover H s next_closer) then False
          else if n3_match H s (wild ce) \<noteq> None then False
          else \<not> gap_unproven (n3_cover H s (wild ce)))"

definition nsec3_wildcard_expansion :: "(bytes \<Rightarrow> bytes) \<Rightarrow> name \<Rightarrow> name \<Rightarrow> nsec3_set \<Rightarrow> bool" where
  "nsec3_wildcard_expansion H qn expanded_from s =
     (let ce = drop 1 expanded_from
      in if \<not> is_subdomain_of qn ce \<or> name_eq qn ce then False
         else \<not> gap_unproven (n3_cover H s (slice_from (int (length qn) - int (length ce) - 1) qn)))"

definition nsec3_ds_denial :: "(bytes \<Rightarrow> bytes) \<Rightarrow> name \<Rightarrow> nsec3_set \<Rightarrow> ds_proof option" where
  "nsec3_ds_denial H child s =
     (case n3_match H s child of
        Some rd \<Rightarrow> ds_bits (n3_bitmap rd)
      | None \<Rightarrow>
          (case n3_cover H s child of
             None \<Rightarrow> None
           | Some rd \<Rightarrow> Some (if flags3 rd AND 1 \<noteq> 0 then Insecure_cut else No_cut)))"

end
