(* ===== verification/Dnssec_Keys.thy ===== *)
theory Dnssec_Keys
  imports Dnssec_Denial
begin

section \<open>Keys and signatures\<close>

text \<open>
  Models \<^verbatim>\<open>trench/resolver/dnssec/keys.py\<close> and \<^verbatim>\<open>trench/resolver/dnssec/validate.py\<close>:
  key tags, DS digests, the octets of public keys, the canonical form of an RRset and the check of one
  signature. The hash functions of the standard library are the argument \<open>D\<close> (by digest type), the
  verification of the cryptography library the argument \<open>V\<close>, which is true when it returns and false
  when it raises. The loops that write the canonical form of a name write its \<^const>\<open>name_key\<close>.
\<close>

record dnskey =
  k_flags :: int
  k_protocol :: int
  k_algorithm :: int
  k_key :: bytes

record ds_rd =
  d_tag :: int
  d_algorithm :: int
  d_digest_type :: int
  d_digest :: bytes

record rrsig =
  g_type :: int
  g_algorithm :: int
  g_labels :: int
  g_ttl :: int
  g_expiration :: int
  g_inception :: int
  g_tag :: int
  g_signer :: name
  g_signature :: bytes

text \<open>What \<^verbatim>\<open>isinstance\<close> selects among the record data.\<close>

definition as_dnskey :: "rdata \<Rightarrow> dnskey option" where
  "as_dnskey rd = (case rd of Rd_DNSKEY f p a k \<Rightarrow> Some \<lparr>k_flags = f, k_protocol = p, k_algorithm = a, k_key = k\<rparr> | _ \<Rightarrow> None)"

definition as_ds :: "rdata \<Rightarrow> ds_rd option" where
  "as_ds rd = (case rd of Rd_DS t a d g \<Rightarrow> Some \<lparr>d_tag = t, d_algorithm = a, d_digest_type = d, d_digest = g\<rparr> | _ \<Rightarrow> None)"

definition as_rrsig :: "rdata \<Rightarrow> rrsig option" where
  "as_rrsig rd = (case rd of Rd_RRSIG tc a l ot e i t s g \<Rightarrow>
     Some \<lparr>g_type = tc, g_algorithm = a, g_labels = l, g_ttl = ot, g_expiration = e, g_inception = i,
       g_tag = t, g_signer = s, g_signature = g\<rparr> | _ \<Rightarrow> None)"

definition of_dnskey :: "dnskey \<Rightarrow> rdata" where
  "of_dnskey k = Rd_DNSKEY (k_flags k) (k_protocol k) (k_algorithm k) (k_key k)"

subsection \<open>Keys\<close>

definition RSA_ALGOS :: "int list" where "RSA_ALGOS = [5, 7, 8, 10]"
definition SUPPORTED_ALGOS :: "int list" where "SUPPORTED_ALGOS = RSA_ALGOS @ [13, 14, 15, 16]"
definition SUPPORTED_DIGESTS :: "int list" where "SUPPORTED_DIGESTS = [1, 2, 4]"

definition dnskey_rdata :: "dnskey \<Rightarrow> bytes" where
  "dnskey_rdata k = wbuf (emit_DNSKEY (k_flags k) (k_protocol k) (k_algorithm k) (k_key k) new_writer)"

text \<open>The sum of the octets, those at even positions shifted.\<close>

fun tag_sum :: "bool \<Rightarrow> bytes \<Rightarrow> int" where
  "tag_sum ev [] = 0"
| "tag_sum ev (b # bs) = (if ev then push_bit 8 (uint b) else uint b) + tag_sum (\<not> ev) bs"

definition key_tag :: "dnskey \<Rightarrow> int" where
  "key_tag k =
     (let rd = dnskey_rdata k
      in if k_algorithm k = 1
         then push_bit 8 (uint (rd ! (length rd - 3))) OR uint (rd ! (length rd - 2))
         else let acc = tag_sum True rd
              in (acc + (drop_bit 16 acc AND 0xFFFF)) AND 0xFFFF)"

definition ds_digest :: "(int \<Rightarrow> bytes \<Rightarrow> bytes) \<Rightarrow> name \<Rightarrow> dnskey \<Rightarrow> int \<Rightarrow> bytes result" where
  "ds_digest D owner k t =
     (if t \<in> set SUPPORTED_DIGESTS then Inr (D t (name_key owner @ dnskey_rdata k)) else Inl ValueError)"

text \<open>Public keys as the numbers and octets handed to the cryptography library.\<close>

datatype public_key = RSA_Key int int | EC_Key int int int | Ed_Key int bytes

definition big_endian :: "bytes \<Rightarrow> int" where
  "big_endian bs = foldl (\<lambda>v b. v * 256 + uint b) 0 bs"

definition rsa_from_wire :: "bytes \<Rightarrow> public_key result" where
  "rsa_from_wire key =
     (case key of
        [] \<Rightarrow> Inl ValueError
      | b # _ \<Rightarrow>
          rbind (if b = 0
                 then (case take 2 (drop 1 key) of
                         [x, y] \<Rightarrow> Inr (nat (unpack_H x y), 3)
                       | _ \<Rightarrow> Inl StructError)
                 else Inr (unat b, 1)) (\<lambda>(explen, off).
            Inr (RSA_Key (big_endian (take explen (drop off key))) (big_endian (drop (off + explen) key)))))"

definition dnskey_to_public_key :: "dnskey \<Rightarrow> public_key result" where
  "dnskey_to_public_key k =
     (let algo = k_algorithm k; key = k_key k; half = length key div 2
      in if algo \<in> set RSA_ALGOS then rsa_from_wire key
         else if algo = 13 \<or> algo = 14
         then Inr (EC_Key algo (big_endian (take half key)) (big_endian (drop half key)))
         else if algo = 15 \<or> algo = 16 then Inr (Ed_Key algo key)
         else Inl ValueError)"

subsection \<open>The canonical form of an RRset\<close>

definition canon_rdata :: "rdata \<Rightarrow> bytes result" where
  "canon_rdata rd =
     rbind (emit (case rd of
         Rd_NS n \<Rightarrow> Rd_NS (canonicalize n)
       | Rd_CNAME n \<Rightarrow> Rd_CNAME (canonicalize n)
       | Rd_PTR n \<Rightarrow> Rd_PTR (canonicalize n)
       | Rd_DNAME n \<Rightarrow> Rd_DNAME (canonicalize n)
       | Rd_MX p n \<Rightarrow> Rd_MX p (canonicalize n)
       | Rd_SRV p w t n \<Rightarrow> Rd_SRV p w t (canonicalize n)
       | Rd_SOA m r s f y e l \<Rightarrow> Rd_SOA (canonicalize m) (canonicalize r) s f y e l
       | Rd_NAPTR q p f s x n \<Rightarrow> Rd_NAPTR q p f s x (canonicalize n)
       | _ \<Rightarrow> rd) new_writer) (\<lambda>w. Inr (wbuf w))"

definition serial_le :: "int \<Rightarrow> int \<Rightarrow> bool" where
  "serial_le a b \<longleftrightarrow> (b - a) mod 0x100000000 < 0x80000000"

text \<open>The time is the integer part of the clock.\<close>

definition within_validity :: "rrsig \<Rightarrow> int \<Rightarrow> bool" where
  "within_validity sg now \<longleftrightarrow>
     (let t = now AND 0xFFFFFFFF in serial_le (g_inception sg) t \<and> serial_le t (g_expiration sg))"

text \<open>\<^verbatim>\<open>v.to_bytes(2, "big")\<close> and \<^verbatim>\<open>v.to_bytes(4, "big")\<close>\<close>

definition to_bytes2 :: "int \<Rightarrow> bytes result" where
  "to_bytes2 v = (if 0 \<le> v \<and> v < 0x10000 then Inr (pack_H v) else Inl OverflowError)"

definition to_bytes4 :: "int \<Rightarrow> bytes result" where
  "to_bytes4 v = (if 0 \<le> v \<and> v < 0x100000000 then Inr (pack_I v) else Inl OverflowError)"

definition sig_prefix :: "rrsig \<Rightarrow> bytes" where
  "sig_prefix sg = wbuf (w_raw (name_key (g_signer sg)) (w_u16 (g_tag sg) (w_u32 (g_inception sg)
     (w_u32 (g_expiration sg) (w_u32 (g_ttl sg) (w_u8 (g_labels sg) (w_u8 (g_algorithm sg)
       (w_u16 (g_type sg) new_writer))))))))"

definition rr_form :: "bytes \<Rightarrow> bytes \<Rightarrow> bytes result" where
  "rr_form pre body = rbind (to_bytes2 (int (length body))) (\<lambda>n. Inr (pre @ n @ body))"

definition signed_data :: "name \<Rightarrow> int \<Rightarrow> int \<Rightarrow> rrsig \<Rightarrow> rdata list \<Rightarrow> bytes result" where
  "signed_data owner t c sg rds =
     rbind (to_bytes2 t) (\<lambda>tb. rbind (to_bytes2 c) (\<lambda>cb. rbind (to_bytes4 (g_ttl sg)) (\<lambda>lb.
     rbind (rmap canon_rdata rds) (\<lambda>bodies.
     rbind (rmap (rr_form (name_key owner @ tb @ cb @ lb)) (sort bodies)) (\<lambda>rrs.
       Inr (sig_prefix sg @ concat rrs))))))"

subsection \<open>One signature\<close>

text \<open>What is handed to the library with the key: the hash, and an ECDSA signature as its two numbers.\<close>

datatype sig_form = RSA_Sig int bytes | EC_Sig int int int | Ed_Sig bytes

definition sig_of :: "int \<Rightarrow> bytes \<Rightarrow> sig_form option" where
  "sig_of algo s =
     (let half = length s div 2
      in if algo \<in> set RSA_ALGOS then Some (RSA_Sig algo s)
         else if algo = 13 \<or> algo = 14 then Some (EC_Sig algo (big_endian (take half s)) (big_endian (drop half s)))
         else if algo = 15 \<or> algo = 16 then Some (Ed_Sig s)
         else None)"

definition verify_sig :: "(public_key \<Rightarrow> sig_form \<Rightarrow> bytes \<Rightarrow> bool) \<Rightarrow> public_key \<Rightarrow> int \<Rightarrow> bytes \<Rightarrow> bytes \<Rightarrow> bool" where
  "verify_sig V pub algo s data = (case sig_of algo s of None \<Rightarrow> False | Some f \<Rightarrow> V pub f data)"

definition verify_rrset :: "(public_key \<Rightarrow> sig_form \<Rightarrow> bytes \<Rightarrow> bool) \<Rightarrow> int \<Rightarrow> name \<Rightarrow> int \<Rightarrow> int \<Rightarrow>
    rdata list \<Rightarrow> rrsig \<Rightarrow> dnskey \<Rightarrow> bool result" where
  "verify_rrset V now owner t c rds sg k =
     (if g_algorithm sg \<noteq> k_algorithm k then Inr False
      else if g_tag sg \<noteq> key_tag k then Inr False
      else if \<not> within_validity sg now then Inr False
      else rbind (signed_data owner t c sg rds) (\<lambda>data.
        (case dnskey_to_public_key k of
           Inl _ \<Rightarrow> Inr False
         | Inr pub \<Rightarrow> Inr (verify_sig V pub (g_algorithm sg) (g_signature sg) data))))"

end
