(* ===== verification/Dnssec_Chain.thy ===== *)
theory Dnssec_Chain
  imports Complex_Main Dnssec_Keys "HOL-Library.Product_Lexorder"
begin

section \<open>The chain of trust\<close>

text \<open>
  Models \<^verbatim>\<open>trench/resolver/dnssec/chain.py\<close>: the descent from the trust anchors to the zone of
  a name, the verdict on an answer and on a denial, and the two caches. Each operation takes the
  environment of one validation (what the network answers, the clocks, the cryptography) and passes the
  state of the validator and its two budgets on, also when it raises. Another task may use the caches
  while one waits for the network; one validation here runs without interruption.
\<close>

datatype trust = Secure_zone name "dnskey list" | Insecure_at name

type_synonym ds_prints = "(int \<times> int \<times> int \<times> bytes) list"

record vstate =
  v_keys :: "(ustr \<times> ds_prints, rat \<times> dnskey list) odict"
  v_trust :: "(ustr, rat \<times> trust) odict"
  v_crypto :: int
  v_queries :: int

record venv =
  e_ask :: "name \<Rightarrow> int \<Rightarrow> message result"
  e_anchors :: "ds_rd list"
  e_now :: int
  e_mono :: rat
  e_verify :: "public_key \<Rightarrow> sig_form \<Rightarrow> bytes \<Rightarrow> bool"
  e_digest :: "int \<Rightarrow> bytes \<Rightarrow> bytes"
  e_sha1 :: "bytes \<Rightarrow> bytes"
  e_max_crypto :: int
  e_max_queries :: int
  e_max_iterations :: int

type_synonym 'a vm = "vstate \<Rightarrow> 'a result \<times> vstate"

definition vret :: "'a \<Rightarrow> 'a vm" where
  "vret x st = (Inr x, st)"

definition vraise :: "error \<Rightarrow> 'a vm" where
  "vraise e st = (Inl e, st)"

definition vlift :: "'a result \<Rightarrow> 'a vm" where
  "vlift r st = (r, st)"

definition vbind :: "'a vm \<Rightarrow> ('a \<Rightarrow> 'b vm) \<Rightarrow> 'b vm" where
  "vbind m f st = (case m st of (Inl e, st) \<Rightarrow> (Inl e, st) | (Inr x, st) \<Rightarrow> f x st)"

definition T_DNSKEY :: int where "T_DNSKEY = 48"
definition MAX_DEPTH :: nat where "MAX_DEPTH = 128"
definition MAX_TRUST_TTL :: rat where "MAX_TRUST_TTL = 86400"
definition ZONE_FLAG :: int where "ZONE_FLAG = 0x0100"

definition sign_op :: "unit vm" where
  "sign_op st = (let st = st\<lparr>v_crypto := v_crypto st - 1\<rparr>
     in if v_crypto st < 0 then (Inl DNSSECError, st) else (Inr (), st))"

definition chain_query :: "unit vm" where
  "chain_query st = (let st = st\<lparr>v_queries := v_queries st - 1\<rparr>
     in if v_queries st < 0 then (Inl DNSSECError, st) else (Inr (), st))"

definition wildcard_owner :: "name \<Rightarrow> rrsig \<Rightarrow> (name \<times> bool) option" where
  "wildcard_owner owner sg =
     (let n = int (length owner);
          counted = (if owner \<noteq> [] \<and> hd owner = [0x2A] then n - 1 else n)
      in if g_labels sg > counted then None
         else if g_labels sg = counted then Some (owner, False)
         else Some ([0x2A] # slice_from (n - g_labels sg) owner, True))"

subsection \<open>The caches\<close>

definition expiry :: "venv \<Rightarrow> rr list \<Rightarrow> rrsig list \<Rightarrow> rat" where
  "expiry E rrs sigs =
     (let t1 = fold (\<lambda>rr t. min t (of_int (rr_ttl rr))) rrs MAX_TRUST_TTL;
          t2 = fold (\<lambda>sg t. min t (of_int ((g_expiration sg - e_now E) mod 2 ^ 32))) sigs t1
      in e_mono E + max 0 t2)"

definition cached :: "venv \<Rightarrow> 'k \<Rightarrow> ('k, rat \<times> 'v) odict \<Rightarrow> (rat \<times> 'v) option \<times> ('k, rat \<times> 'v) odict" where
  "cached E k d =
     (case od_get k d of
        None \<Rightarrow> (None, d)
      | Some (e, v) \<Rightarrow> if e \<le> e_mono E then (None, od_pop k d) else (Some (e, v), d))"

definition vstore :: "venv \<Rightarrow> 'k \<Rightarrow> rat \<Rightarrow> 'v \<Rightarrow> nat \<Rightarrow> ('k, rat \<times> 'v) odict \<Rightarrow> ('k, rat \<times> 'v) odict" where
  "vstore E k e v limit d =
     (if e \<le> e_mono E then d
      else if length d \<ge> limit
      then (let d = filter (\<lambda>(_, x, _). \<not> x \<le> e_mono E) d
            in if length d \<ge> limit then d else od_set k (e, v) d)
      else od_set k (e, v) d)"

subsection \<open>Keys and signatures\<close>

definition ds_print :: "ds_rd list \<Rightarrow> ds_prints" where
  "ds_print ds = sort (map (\<lambda>d. (d_tag d, d_algorithm d, d_digest_type d, d_digest d)) ds)"

definition ds_matches :: "venv \<Rightarrow> name \<Rightarrow> dnskey \<Rightarrow> int \<Rightarrow> ds_rd \<Rightarrow> bool" where
  "ds_matches E zn k kt d =
     (if d_tag d \<noteq> kt \<or> d_algorithm d \<noteq> k_algorithm k then False
      else (case ds_digest (e_digest E) zn k (d_digest_type d) of Inl _ \<Rightarrow> False | Inr g \<Rightarrow> g = d_digest d))"

text \<open>The record data of one type at one name, and the signatures over it.\<close>

definition typed_at :: "(rdata \<Rightarrow> 'a option) \<Rightarrow> int \<Rightarrow> name \<Rightarrow> rr list \<Rightarrow> 'a list" where
  "typed_at f t n rrs = somes (map (\<lambda>rr. if rr_type rr = t \<and> name_eq (rr_name rr) n then f (rr_rdata rr) else None) rrs)"

definition sig_field :: "rdata \<Rightarrow> rrsig result" where
  "sig_field rd = (case as_rrsig rd of None \<Rightarrow> Inl AttributeError | Some sg \<Rightarrow> Inr sg)"

definition sigs_at :: "int \<Rightarrow> name \<Rightarrow> rr list \<Rightarrow> rrsig list result" where
  "sigs_at t n rrs =
     rbind (rmap (\<lambda>rr. sig_field (rr_rdata rr))
        (filter (\<lambda>rr. rr_type rr = T_RRSIG \<and> name_eq (rr_name rr) n) rrs)) (\<lambda>sgs.
       Inr (filter (\<lambda>sg. g_type sg = t) sgs))"

fun key_sigs :: "venv \<Rightarrow> name \<Rightarrow> dnskey list \<Rightarrow> dnskey \<Rightarrow> rrsig list \<Rightarrow> rrsig option vm" where
  "key_sigs E zn dnskeys k [] = vret None"
| "key_sigs E zn dnskeys k (sg # sgs) =
     (if g_tag sg \<noteq> key_tag k \<or> g_algorithm sg \<noteq> k_algorithm k \<or> \<not> name_eq (g_signer sg) zn
      then key_sigs E zn dnskeys k sgs
      else vbind sign_op (\<lambda>_.
        vbind (vlift (verify_rrset (e_verify E) (e_now E) zn T_DNSKEY 1 (map of_dnskey dnskeys) sg k)) (\<lambda>ok.
          if ok then vret (Some sg) else key_sigs E zn dnskeys k sgs)))"

fun anchored_key :: "venv \<Rightarrow> name \<Rightarrow> dnskey list \<Rightarrow> ds_rd list \<Rightarrow> rrsig list \<Rightarrow> dnskey list \<Rightarrow> rrsig option vm" where
  "anchored_key E zn dnskeys ds sigs [] = vret None"
| "anchored_key E zn dnskeys ds sigs (k # ks) =
     (if \<not> list_ex (ds_matches E zn k (key_tag k)) ds then anchored_key E zn dnskeys ds sigs ks
      else vbind (key_sigs E zn dnskeys k sigs) (\<lambda>r.
        case r of Some sg \<Rightarrow> vret (Some sg) | None \<Rightarrow> anchored_key E zn dnskeys ds sigs ks))"

definition strong_ds :: "ds_rd list \<Rightarrow> ds_rd list" where
  "strong_ds ds = (let s = filter (\<lambda>d. d_digest_type d = 2 \<or> d_digest_type d = 4) ds in if s \<noteq> [] then s else ds)"

definition zone_keys :: "dnskey list \<Rightarrow> dnskey list" where
  "zone_keys ks = filter (\<lambda>k. k_flags k AND ZONE_FLAG \<noteq> 0) ks"

definition fetch_keys :: "venv \<Rightarrow> name \<Rightarrow> ds_rd list \<Rightarrow> (dnskey list \<times> rat) vm" where
  "fetch_keys E zn ds =
     vbind chain_query (\<lambda>_. vbind (vlift (e_ask E zn T_DNSKEY)) (\<lambda>msg.
     vbind (vlift (sigs_at T_DNSKEY zn (answers msg))) (\<lambda>sigs.
       let dnskeys = typed_at as_dnskey T_DNSKEY zn (answers msg); usable = zone_keys dnskeys
       in if dnskeys = [] \<or> sigs = [] then vraise DNSSECError
          else vbind (anchored_key E zn dnskeys (strong_ds ds) sigs usable) (\<lambda>r.
            case r of
              None \<Rightarrow> vraise DNSSECError
            | Some sg \<Rightarrow>
                (let until = expiry E (filter (\<lambda>rr. rr_type rr = T_DNSKEY \<and> name_eq (rr_name rr) zn) (answers msg)) [sg]
                 in (\<lambda>st. (Inr (usable, until),
                       st\<lparr>v_keys := vstore E (to_text False zn, ds_print ds) until usable 4096 (v_keys st)\<rparr>)))))))"

definition keys_exp :: "venv \<Rightarrow> name \<Rightarrow> ds_rd list \<Rightarrow> (dnskey list \<times> rat) vm" where
  "keys_exp E zn ds st =
     (let (hit, d) = cached E (to_text False zn, ds_print ds) (v_keys st); st = st\<lparr>v_keys := d\<rparr>
      in case hit of
           Some (until, ks) \<Rightarrow> (Inr (ks, until), st)
         | None \<Rightarrow> fetch_keys E zn ds st)"

fun verify_keys :: "venv \<Rightarrow> name \<Rightarrow> int \<Rightarrow> rdata list \<Rightarrow> rrsig \<Rightarrow> dnskey list \<Rightarrow> bool vm" where
  "verify_keys E so t rds sg [] = vret False"
| "verify_keys E so t rds sg (k # ks) =
     (if g_algorithm sg \<noteq> k_algorithm k then verify_keys E so t rds sg ks
      else vbind sign_op (\<lambda>_.
        vbind (vlift (verify_rrset (e_verify E) (e_now E) so t 1 rds sg k)) (\<lambda>ok.
          if ok then vret True else verify_keys E so t rds sg ks)))"

text \<open>The result is the name the signature covers and whether it was expanded.\<close>

fun verify_sigs :: "venv \<Rightarrow> name \<Rightarrow> int \<Rightarrow> rdata list \<Rightarrow> dnskey list \<Rightarrow> name \<Rightarrow> rrsig list \<Rightarrow> (bool \<times> name option) vm" where
  "verify_sigs E owner t rds keys zn [] = vret (False, None)"
| "verify_sigs E owner t rds keys zn (sg # sgs) =
     (if \<not> name_eq (g_signer sg) zn then verify_sigs E owner t rds keys zn sgs
      else (case wildcard_owner owner sg of
              None \<Rightarrow> verify_sigs E owner t rds keys zn sgs
            | Some (so, expanded) \<Rightarrow>
                vbind (verify_keys E so t rds sg (filter (\<lambda>k. key_tag k = g_tag sg) keys)) (\<lambda>ok.
                  if ok then vret (True, if expanded then Some so else None)
                  else verify_sigs E owner t rds keys zn sgs)))"

definition verify_set :: "venv \<Rightarrow> name \<Rightarrow> int \<Rightarrow> rdata list \<Rightarrow> rrsig list \<Rightarrow> dnskey list \<Rightarrow> name \<Rightarrow> (bool \<times> name option) vm" where
  "verify_set E owner t rds sigs keys zn =
     (if rds = [] then vret (False, None) else verify_sigs E owner t rds keys zn sigs)"

subsection \<open>The records of a denial\<close>

definition as_nsec :: "rdata \<Rightarrow> nsec option" where
  "as_nsec rd = (case rd of Rd_NSEC n b \<Rightarrow> Some \<lparr>next_name = n, ns_bitmap = b\<rparr> | _ \<Rightarrow> None)"

definition as_nsec3 :: "rdata \<Rightarrow> nsec3 option" where
  "as_nsec3 rd = (case rd of Rd_NSEC3 ha fl it sa nh bm \<Rightarrow>
     Some \<lparr>hash_algorithm = ha, flags3 = fl, iterations3 = it, salt3 = sa, next_hashed = nh, n3_bitmap = bm\<rparr> | _ \<Rightarrow> None)"

text \<open>\<^verbatim>\<open>by_owner[rr.name].append(rr.rdata)\<close>\<close>

definition file_owner :: "name \<Rightarrow> rdata \<Rightarrow> (bytes, name \<times> rdata list) odict \<Rightarrow> (bytes, name \<times> rdata list) odict" where
  "file_owner n rd d =
     (let (owner, rds) = (case od_get (name_key n) d of Some x \<Rightarrow> x | None \<Rightarrow> (n, []))
      in od_set (name_key n) (owner, rds @ [rd]) d)"

definition by_owner :: "(rdata \<Rightarrow> 'a option) \<Rightarrow> int \<Rightarrow> rr list \<Rightarrow> (bytes, name \<times> rdata list) odict" where
  "by_owner f t auth =
     fold (\<lambda>rr d. if rr_type rr = t \<and> f (rr_rdata rr) \<noteq> None then file_owner (rr_name rr) (rr_rdata rr) d else d) auth []"

fun verified_sets :: "venv \<Rightarrow> int \<Rightarrow> rr list \<Rightarrow> dnskey list \<Rightarrow> name \<Rightarrow> (name \<times> rdata list) list \<Rightarrow> (name \<times> rdata) list vm" where
  "verified_sets E t auth keys zn [] = vret []"
| "verified_sets E t auth keys zn ((owner, rds) # rest) =
     vbind (vlift (sigs_at t owner auth)) (\<lambda>mine.
     vbind (verify_set E owner t rds mine keys zn) (\<lambda>(ok, expanded).
     vbind (verified_sets E t auth keys zn rest) (\<lambda>more_rds.
       vret ((if ok \<and> expanded = None then map (Pair owner) rds else []) @ more_rds))))"

definition typed_pairs :: "(rdata \<Rightarrow> 'a option) \<Rightarrow> (name \<times> rdata) list \<Rightarrow> (name \<times> 'a) list" where
  "typed_pairs f ps = somes (map (\<lambda>(n, rd). map_option (Pair n) (f rd)) ps)"

definition denial_records :: "venv \<Rightarrow> rr list \<Rightarrow> name \<Rightarrow> dnskey list \<Rightarrow> ((name \<times> nsec) list \<times> nsec3_set option) vm" where
  "denial_records E auth zn keys =
     vbind (verified_sets E T_NSEC auth keys zn (map snd (by_owner as_nsec T_NSEC auth))) (\<lambda>ns.
     vbind (verified_sets E T_NSEC3 auth keys zn (map snd (by_owner as_nsec3 T_NSEC3 auth))) (\<lambda>n3.
       let n3s = typed_pairs as_nsec3 n3; s = nsec3_set_of n3s zn (e_max_iterations E)
       in vret (typed_pairs as_nsec ns, if n3s \<noteq> [] \<and> s_usable s then Some s else None)))"

definition proves_denial :: "venv \<Rightarrow> name \<Rightarrow> int \<Rightarrow> int \<Rightarrow> (name \<times> nsec) list \<Rightarrow> nsec3_set option \<Rightarrow> bool" where
  "proves_denial E qn t code nsecs n3 =
     (if t = T_DS \<and> code \<noteq> 3 then
        (nsecs \<noteq> [] \<and> nsec_ds_denial qn nsecs \<noteq> None) \<or>
        (case n3 of None \<Rightarrow> False | Some s \<Rightarrow> nsec3_ds_denial (e_sha1 E) qn s \<noteq> None)
      else if code = 3 then
        (nsecs \<noteq> [] \<and> nsec_nxdomain qn nsecs) \<or>
        (case n3 of None \<Rightarrow> False | Some s \<Rightarrow> nsec3_nxdomain (e_sha1 E) qn s)
      else
        (nsecs \<noteq> [] \<and> (nsec_nodata qn t nsecs \<or> nsec_wildcard_nodata qn t nsecs)) \<or>
        (case n3 of None \<Rightarrow> False | Some s \<Rightarrow> nsec3_nodata (e_sha1 E) qn t s))"

definition proves_expansion :: "venv \<Rightarrow> name \<Rightarrow> name \<Rightarrow> (name \<times> nsec) list \<Rightarrow> nsec3_set option \<Rightarrow> bool" where
  "proves_expansion E qn expanded_from nsecs n3 \<longleftrightarrow>
     (nsecs \<noteq> [] \<and> nsec_wildcard_expansion qn expanded_from nsecs) \<or>
     (case n3 of None \<Rightarrow> False | Some s \<Rightarrow> nsec3_wildcard_expansion (e_sha1 E) qn expanded_from s)"

subsection \<open>The descent\<close>

datatype delegation = Signed_child "dnskey list" | Unsigned_child | Same_zone

definition usable_ds :: "ds_rd list \<Rightarrow> ds_rd list" where
  "usable_ds ds = filter (\<lambda>d. d_algorithm d \<in> set SUPPORTED_ALGOS \<and> d_digest_type d \<in> set SUPPORTED_DIGESTS) ds"

definition signed_delegation :: "venv \<Rightarrow> name \<Rightarrow> name \<Rightarrow> dnskey list \<Rightarrow> message \<Rightarrow> ds_rd list \<Rightarrow> (delegation \<times> rat) vm" where
  "signed_delegation E child pz pkeys msg ds =
     vbind (vlift (sigs_at T_DS child (answers msg))) (\<lambda>sigs.
     vbind (verify_set E child T_DS (filter (\<lambda>rd. as_ds rd \<noteq> None)
         (map rr_rdata (filter (\<lambda>rr. rr_type rr = T_DS \<and> name_eq (rr_name rr) child) (answers msg)))) sigs pkeys pz)
       (\<lambda>(ok, expanded).
       if \<not> ok \<or> expanded \<noteq> None then vraise DNSSECError
       else
         let ds_exp = expiry E (filter (\<lambda>rr. rr_type rr = T_DS \<and> name_eq (rr_name rr) child) (answers msg)) sigs
         in if usable_ds ds = [] then vret (Unsigned_child, ds_exp)
            else vbind (keys_exp E child (usable_ds ds)) (\<lambda>(keys, kexp).
              vret (Signed_child keys, min kexp ds_exp))))"

definition denied_delegation :: "venv \<Rightarrow> name \<Rightarrow> name \<Rightarrow> dnskey list \<Rightarrow> message \<Rightarrow> (delegation \<times> rat) vm" where
  "denied_delegation E child pz pkeys msg =
     vbind (denial_records E (authority msg) pz pkeys) (\<lambda>(nsecs, n3).
       let v1 = (if nsecs \<noteq> [] then nsec_ds_denial child nsecs else None);
           verdict = (case v1 of Some v \<Rightarrow> Some v
                      | None \<Rightarrow> (case n3 of None \<Rightarrow> None | Some s \<Rightarrow> nsec3_ds_denial (e_sha1 E) child s));
           evidence = filter (\<lambda>rr. rr_type rr \<in> {T_NSEC, T_NSEC3, T_RRSIG}) (authority msg);
           until = expiry E evidence (somes (map (\<lambda>rr. as_rrsig (rr_rdata rr)) evidence))
       in case verdict of
            None \<Rightarrow> vraise DNSSECError
          | Some Insecure_cut \<Rightarrow> vret (Unsigned_child, until)
          | Some No_cut \<Rightarrow> vret (Same_zone, until))"

definition delegation_of :: "venv \<Rightarrow> name \<Rightarrow> name \<Rightarrow> dnskey list \<Rightarrow> (delegation \<times> rat) vm" where
  "delegation_of E child pz pkeys =
     vbind chain_query (\<lambda>_. vbind (vlift (e_ask E child T_DS)) (\<lambda>msg.
       let ds = typed_at as_ds T_DS child (answers msg)
       in if ds \<noteq> [] then signed_delegation E child pz pkeys msg ds
          else denied_delegation E child pz pkeys msg))"

text \<open>The memo of \<^verbatim>\<open>_trust\<close> around what it computes for one name.\<close>

definition memo_trust :: "venv \<Rightarrow> name \<Rightarrow> (rat \<times> trust) vm \<Rightarrow> (rat \<times> trust) vm" where
  "memo_trust E n body st =
     (let (hit, d) = cached E (to_text False n) (v_trust st); st = st\<lparr>v_trust := d\<rparr>
      in case hit of
           Some x \<Rightarrow> (Inr x, st)
         | None \<Rightarrow>
             if length n > MAX_DEPTH then (Inl DNSSECError, st)
             else vbind body (\<lambda>(until, out) st.
               (Inr (until, out), st\<lparr>v_trust := vstore E (to_text False n) until out 8192 (v_trust st)\<rparr>)) st)"

primrec trust_of :: "venv \<Rightarrow> name \<Rightarrow> (rat \<times> trust) vm" where
  "trust_of E [] = memo_trust E []
     (vbind (keys_exp E [] (e_anchors E)) (\<lambda>(keys, until). vret (until, Secure_zone [] keys)))"
| "trust_of E (la # up) = memo_trust E (la # up)
     (vbind (trust_of E up) (\<lambda>(until, tr). case tr of
        Insecure_at z \<Rightarrow> vret (until, Insecure_at z)
      | Secure_zone zn keys \<Rightarrow> vbind (delegation_of E (la # up) zn keys) (\<lambda>(kind, own).
          vret (min until own, case kind of
              Signed_child ks \<Rightarrow> Secure_zone (la # up) ks
            | Unsigned_child \<Rightarrow> Insecure_at (la # up)
            | Same_zone \<Rightarrow> Secure_zone zn keys))))"

definition trust_at :: "venv \<Rightarrow> name \<Rightarrow> trust vm" where
  "trust_at E n = vbind (trust_of E n) (\<lambda>(until, tr). vret tr)"

definition deepest_signer :: "name \<Rightarrow> rrsig list \<Rightarrow> name option" where
  "deepest_signer owner sigs =
     fold (\<lambda>sg best.
         if \<not> is_subdomain_of owner (g_signer sg) then best
         else (case best of
                 None \<Rightarrow> Some (g_signer sg)
               | Some b \<Rightarrow> if length b < length (g_signer sg) then Some (g_signer sg) else best)) sigs None"

definition trust_via_signer :: "venv \<Rightarrow> name \<Rightarrow> rrsig list \<Rightarrow> trust vm" where
  "trust_via_signer E owner sigs =
     trust_at E (case deepest_signer owner sigs of None \<Rightarrow> owner | Some b \<Rightarrow> b)"

definition trust_for :: "venv \<Rightarrow> name \<Rightarrow> int \<Rightarrow> rrsig list \<Rightarrow> trust vm" where
  "trust_for E owner t sigs = (if t = T_DS then trust_at E (parent owner) else trust_via_signer E owner sigs)"

subsection \<open>The verdicts\<close>

datatype validation = SECURE | INSECURE | BOGUS | INDETERMINATE

definition fresh_work :: "venv \<Rightarrow> vstate \<Rightarrow> vstate" where
  "fresh_work E st = st\<lparr>v_crypto := e_max_crypto E, v_queries := e_max_queries E\<rparr>"

text \<open>\<^verbatim>\<open>except DNSSECError\<close>\<close>

definition or_bogus :: "validation result \<times> vstate \<Rightarrow> validation result \<times> vstate" where
  "or_bogus r = (case r of (Inl DNSSECError, st) \<Rightarrow> (Inr BOGUS, st) | _ \<Rightarrow> r)"

definition judge_answer :: "venv \<Rightarrow> name \<Rightarrow> int \<Rightarrow> rdata list \<Rightarrow> rrsig list \<Rightarrow> rr list \<Rightarrow> validation vm" where
  "judge_answer E owner t rds sigs auth =
     vbind (trust_for E owner t sigs) (\<lambda>tr. case tr of
       Insecure_at _ \<Rightarrow> vret INSECURE
     | Secure_zone zn keys \<Rightarrow>
         vbind (verify_set E owner t rds sigs keys zn) (\<lambda>(ok, expanded).
           if \<not> ok then vret BOGUS
           else (case expanded of
                   None \<Rightarrow> vret SECURE
                 | Some e \<Rightarrow> vbind (denial_records E auth zn keys) (\<lambda>(nsecs, n3).
                     vret (if proves_expansion E owner e nsecs n3 then SECURE else BOGUS)))))"

definition validate :: "venv \<Rightarrow> name \<Rightarrow> int \<Rightarrow> rdata list \<Rightarrow> rrsig list \<Rightarrow> rr list \<Rightarrow> validation vm" where
  "validate E owner t rds sigs auth st = or_bogus (judge_answer E owner t rds sigs auth (fresh_work E st))"

definition judge_denial :: "venv \<Rightarrow> name \<Rightarrow> int \<Rightarrow> rr list \<Rightarrow> int \<Rightarrow> validation vm" where
  "judge_denial E qn t auth code =
     vbind (trust_via_signer E qn (somes (map (\<lambda>rr. as_rrsig (rr_rdata rr)) (filter (\<lambda>rr. rr_type rr = T_RRSIG) auth)))) (\<lambda>tr. case tr of
       Insecure_at _ \<Rightarrow> vret INSECURE
     | Secure_zone zn keys \<Rightarrow> vbind (denial_records E auth zn keys) (\<lambda>(nsecs, n3).
         vret (if nsecs = [] \<and> n3 = None then BOGUS
               else if proves_denial E qn t code nsecs n3 then SECURE else BOGUS)))"

definition validate_denial :: "venv \<Rightarrow> name \<Rightarrow> int \<Rightarrow> rr list \<Rightarrow> int \<Rightarrow> validation vm" where
  "validate_denial E qn t auth code st = or_bogus (judge_denial E qn t auth code (fresh_work E st))"

end
