(* ===== verification/Dnssec_Denial_Props.thy ===== *)
theory Dnssec_Denial_Props
  imports Dnssec_Denial Zone_Props "HOL-Library.Sublist"
begin

section \<open>What a proof of denial is worth\<close>

text \<open>
  The decisions of theory Dnssec_Denial against the names a signed zone holds. A world is
  the set of names that exist under the apex, in the zone or beneath its delegations, and the names
  that the chain of the zone lists with their types. Whoever replays records of such a chain, in any
  selection, can only have denied what is not there.
\<close>

subsection \<open>Gaps of a cyclic order\<close>

definition in_gap :: "'a::linorder \<Rightarrow> 'a \<Rightarrow> 'a \<Rightarrow> bool" where
  "in_gap lo hi x = (if lo < hi then lo < x \<and> x < hi else lo < x \<or> x < hi)"

lemma between_in_gap: "between lo x hi = in_gap lo hi x"
  by (simp add: between_def in_gap_def)

lemma octets_lt_less: "octets_lt xs ys \<longleftrightarrow> xs < ys"
proof (induction xs ys rule: octets_lt.induct)
  case (1 ys)
  show ?case by (cases ys) simp_all
qed auto

lemma keys_lt_less: "keys_lt xs ys \<longleftrightarrow> xs < ys"
proof (induction xs arbitrary: ys)
  case Nil
  show ?case by (cases ys) simp_all
next
  case (Cons x xs)
  then show ?case by (cases ys) (auto simp: octets_lt_less)
qed

lemma name_lt_less: "name_lt a b \<longleftrightarrow> canon_key a < canon_key b"
  by (simp add: name_lt_def keys_lt_less)

lemma nsec_covers_gap: "nsec_covers owner nxt n = in_gap (canon_key owner) (canon_key nxt) (canon_key n)"
  by (simp add: nsec_covers_def in_gap_def name_lt_less)

text \<open>What lies between two lists of a common prefix has it too.\<close>

lemma lex_interval:
  fixes y :: "'a::linorder list"
  assumes "prefix p x" "prefix p z" "x \<le> y" "y \<le> z"
  shows "prefix p y"
  using assms
proof (induction p arbitrary: x y z)
  case (Cons a p)
  obtain x' where x: "x = a # x'" "prefix p x'" using Cons.prems(1) by (cases x) simp_all
  obtain z' where z: "z = a # z'" "prefix p z'" using Cons.prems(2) by (cases z) simp_all
  obtain b y' where y: "y = b # y'" using Cons.prems(3) x by (cases y) simp_all
  have le: "a # x' \<le> b # y'" "b # y' \<le> a # z'"
    using Cons.prems(3,4) unfolding x(1) z(1) y by blast+
  then have e: "a = b" unfolding Cons_le_Cons using less_asym by blast
  then have "x' \<le> y'" "y' \<le> z'" using le unfolding Cons_le_Cons by simp_all
  then have "prefix p y'" by (rule Cons.IH [OF x(2) z(2)])
  then show ?case by (simp add: y e)
qed simp

lemma prefix_le: "prefix p (x :: 'a::linorder list) \<Longrightarrow> p \<le> x"
proof (induction p arbitrary: x)
  case (Cons a p)
  then show ?case by (cases x) auto
qed simp

lemma strict_prefix_less: "strict_prefix p (x :: 'a::linorder list) \<Longrightarrow> p < x"
  using prefix_le [of p x] by (auto simp: strict_prefix_def)

text \<open>A name outside a gap shares no more with a name inside than one of the two ends does.\<close>

lemma match_len_prefix_ge: "prefix p x \<Longrightarrow> prefix p y \<Longrightarrow> length p \<le> match_len x y"
  by (auto simp: prefix_def match_len_prefix)

lemma match_len_shared: "prefix (take (match_len x y) y) x"
  using match_len_take [of x y] by (metis take_is_prefix)

lemma gap_ends:
  assumes "in_gap lo hi k" "\<not> in_gap lo hi x"
  shows "match_len x k \<le> max (match_len lo k) (match_len hi k)"
proof -
  let ?p = "take (match_len x k) k"
  have p: "prefix ?p x" "prefix ?p k" "length ?p = match_len x k"
    using match_len_shared match_len_le(2) [of x k] by (auto simp: take_is_prefix)
  have "x \<le> lo \<and> lo \<le> k \<or> k \<le> hi \<and> hi \<le> x"
    using assms by (auto simp: in_gap_def split: if_splits)
  then have "prefix ?p lo \<or> prefix ?p hi" using p lex_interval [of ?p] by blast
  then show ?thesis using p match_len_prefix_ge [of ?p _ k] by fastforce
qed

lemma gap_ancestor:
  assumes "in_gap lo hi k" "\<not> in_gap lo hi c" "strict_prefix c k" "c \<noteq> lo"
  shows "strict_prefix c lo"
proof -
  have c: "c < k" using assms(3) by (rule strict_prefix_less)
  with assms(1,2) have "c \<le> lo \<and> lo \<le> k" by (auto simp: in_gap_def split: if_splits)
  then have "prefix c lo" using assms(3) lex_interval [of c c k lo] by (simp add: strict_prefix_def)
  with assms(4) show ?thesis by (simp add: strict_prefix_def)
qed

subsection \<open>Names by their canonical keys\<close>

lemma name_eq_canon: "wf_name a \<Longrightarrow> wf_name b \<Longrightarrow> name_eq a b \<longleftrightarrow> canon_key a = canon_key b"
  unfolding name_eq_def using same_key_canon [of a b] name_key_cong [of a b] by blast

lemma subdomain_canon:
  assumes "wf_name a" "wf_name b"
  shows "is_subdomain_of a b \<longleftrightarrow> prefix (canon_key b) (canon_key a)"
proof
  assume "is_subdomain_of a b"
  then obtain us vs where "a = us @ vs" "map lower vs = map lower b" using subdomain_iff [OF assms] by blast
  then show "prefix (canon_key b) (canon_key a)" by (simp add: canon_key_def rev_map [symmetric])
next
  assume "prefix (canon_key b) (canon_key a)"
  then obtain p where "canon_key a = canon_key b @ p" by (auto simp: prefix_def)
  then have m: "map lower a = rev p @ map lower b"
    by (metis canon_key_def rev_append rev_map rev_rev_ident)
  then obtain us vs where "a = us @ vs" "map lower vs = map lower b"
    by (auto simp: map_eq_append_conv)
  then show "is_subdomain_of a b" using subdomain_iff [OF assms] by blast
qed

lemma canon_wild [simp]: "canon_key (wild n) = canon_key n @ [[0x2A]]"
  by (simp add: canon_key_def wild_def lower_def lower_byte_def)

lemma canon_drop: "canon_key (drop j n) = take (length n - j) (canon_key n)"
  by (simp add: canon_key_def rev_drop take_map)

lemma map_lower_common: "map lower (common_prefix xs ys) = take (match_len (map lower xs) (map lower ys)) (map lower ys)"
  by (induction xs ys rule: common_prefix.induct) auto

lemma canon_common: "canon_key (common_suffix a b) = take (match_len (canon_key a) (canon_key b)) (canon_key b)"
  by (simp add: canon_key_def common_suffix_def map_lower_common)

lemma length_common: "length (common_suffix a b) = match_len (canon_key a) (canon_key b)"
  using canon_common [of a b] match_len_le(2) [of "canon_key a" "canon_key b"]
  by (metis length_canon_key length_take min.absorb2)

subsection \<open>Worlds\<close>

record world =
  w_names :: "bytes list set"
  w_data :: "(bytes list \<times> int) set"
  w_chain :: "bytes list set"
  w_left :: "bytes list set"
  w_types :: "bytes list \<Rightarrow> int set"

text \<open>
  All names are canonical keys. \<open>w_names\<close> and \<open>w_data\<close> are what exists, beneath delegations too;
  \<open>w_chain\<close> is what the chain lists, \<open>w_left\<close> what it leaves out by opt-out, \<open>w_types\<close> the
  types it lists.
\<close>

definition w_listed :: "world \<Rightarrow> bytes list set" where
  "w_listed w = w_chain w \<union> w_left w"

definition delegation_at :: "world \<Rightarrow> bytes list \<Rightarrow> bool" where
  "delegation_at w c \<longleftrightarrow> T_NS \<in> w_types w c \<and> T_SOA \<notin> w_types w c"

definition cut_at :: "world \<Rightarrow> bytes list \<Rightarrow> bool" where
  "cut_at w c \<longleftrightarrow> delegation_at w c \<or> T_DNAME \<in> w_types w c"

text \<open>
  What exists is listed or lies beneath a cut; nothing in the chain lies beneath a cut; the types
  listed are those of the zone's own data: all of them where it does not delegate, DS where it does; and
  the chain lists only names that exist, or under which something does.
\<close>

definition exists_under :: "world \<Rightarrow> bytes list \<Rightarrow> bool" where
  "exists_under w k \<longleftrightarrow> (\<exists>x \<in> w_names w. prefix k x)"

definition world_ok :: "world \<Rightarrow> bool" where
  "world_ok w \<longleftrightarrow>
     (\<forall>x \<in> w_names w. \<exists>c \<in> w_listed w. c = x \<or> cut_at w c \<and> strict_prefix c x) \<and>
     (\<forall>c \<in> w_listed w. \<forall>n \<in> w_chain w. cut_at w c \<longrightarrow> \<not> strict_prefix c n) \<and>
     (\<forall>(x, t) \<in> w_data w. x \<in> w_names w \<and>
        (x \<in> w_listed w \<longrightarrow> (if t = T_DS then T_SOA \<notin> w_types w x else \<not> delegation_at w x) \<longrightarrow> t \<in> w_types w x)) \<and>
     (\<forall>x \<in> w_left w. T_DS \<notin> w_types w x \<and> T_SOA \<notin> w_types w x) \<and>
     (\<forall>c \<in> w_chain w. exists_under w c)"

definition below_cut :: "world \<Rightarrow> bytes list \<Rightarrow> bool" where
  "below_cut w k \<longleftrightarrow> (\<exists>c \<in> w_listed w. cut_at w c \<and> strict_prefix c k)"

text \<open>
  Nothing exists at or beneath the name, and no wildcard at its closest encloser: the deepest of its
  ancestors that exists, here by the number of its labels.
\<close>

definition closest_at :: "world \<Rightarrow> bytes list \<Rightarrow> nat \<Rightarrow> bool" where
  "closest_at w q k \<longleftrightarrow> exists_under w (take k q) \<and> \<not> exists_under w (take (Suc k) q)"

definition nonexistent :: "world \<Rightarrow> name \<Rightarrow> bool" where
  "nonexistent w qn \<longleftrightarrow> \<not> exists_under w (canon_key qn) \<and>
     (\<forall>k. closest_at w (canon_key qn) k \<longrightarrow> take k (canon_key qn) @ [[0x2A]] \<notin> w_names w)"

lemma nonexistent_below: "nonexistent w qn \<Longrightarrow> x \<in> w_names w \<Longrightarrow> \<not> prefix (canon_key qn) x"
  by (auto simp: nonexistent_def exists_under_def)

lemma take_shared: "k \<le> match_len x y \<Longrightarrow> prefix (take k y) x"
  using match_len_shared [of x y] take_is_prefix [of k "take (match_len x y) y"] prefix_order.trans
  by (fastforce simp: min_def)

text \<open>The closest encloser is as deep as the longest part any existing name shares with the name.\<close>

lemma nonexistentI:
  assumes k: "k < length qn" and most: "\<And>x. x \<in> w_names w \<Longrightarrow> match_len x (canon_key qn) \<le> k"
    and some: "exists_under w (take k (canon_key qn))" and wild: "take k (canon_key qn) @ [[0x2A]] \<notin> w_names w"
  shows "nonexistent w qn"
proof -
  let ?q = "canon_key qn"
  have deeper: "\<not> exists_under w (take j ?q)" if "k < j" for j
  proof
    assume "exists_under w (take j ?q)"
    then obtain x where x: "x \<in> w_names w" "prefix (take j ?q) x" by (auto simp: exists_under_def)
    have "length (take j ?q) \<le> match_len x ?q" using x(2) by (rule match_len_prefix_ge) (rule take_is_prefix)
    with most [OF x(1)] that k show False by simp
  qed
  have shallower: "exists_under w (take j ?q)" if "j \<le> k" for j
  proof -
    have "prefix (take j ?q) (take k ?q)" using that by (metis min.absorb1 take_is_prefix take_take)
    with some show ?thesis unfolding exists_under_def using prefix_order.trans by blast
  qed
  have "j = k" if "closest_at w ?q j" for j
    using that deeper [of j] shallower [of "Suc j"] unfolding closest_at_def by linarith
  moreover have "\<not> exists_under w ?q" using deeper [of "length ?q"] k by simp
  ultimately show ?thesis unfolding nonexistent_def using wild by blast
qed

lemma world_names:
  assumes "world_ok w" "x \<in> w_names w" "\<not> below_cut w x"
  shows "x \<in> w_listed w"
  using assms by (auto simp: world_ok_def below_cut_def)

lemma world_nameE:
  assumes "world_ok w" "x \<in> w_names w"
  obtains c where "c \<in> w_listed w" "prefix c x" "c = x \<or> cut_at w c"
  using assms by (fastforce simp: world_ok_def strict_prefix_def)

lemma world_data:
  assumes "world_ok w" "(x, t) \<in> w_data w" "x \<in> w_listed w"
    and "if t = T_DS then T_SOA \<notin> w_types w x else \<not> delegation_at w x"
  shows "t \<in> w_types w x"
proof -
  have "x \<in> w_listed w \<longrightarrow> (if t = T_DS then T_SOA \<notin> w_types w x else \<not> delegation_at w x) \<longrightarrow> t \<in> w_types w x"
    using assms(1,2) unfolding world_ok_def by blast
  with assms(3,4) show ?thesis by blast
qed

lemma world_data_name: "world_ok w \<Longrightarrow> (x, t) \<in> w_data w \<Longrightarrow> x \<in> w_names w"
  unfolding world_ok_def by blast

lemma world_exists: "world_ok w \<Longrightarrow> c \<in> w_chain w \<Longrightarrow> exists_under w c"
  unfolding world_ok_def by blast

lemma world_chain: "world_ok w \<Longrightarrow> n \<in> w_chain w \<Longrightarrow> \<not> below_cut w n"
  unfolding world_ok_def below_cut_def by blast

subsection \<open>The contract of a proof of denial\<close>

text \<open>
  What the validator relies on, for NSEC and NSEC3 alike: records that come from the chain of the
  world prove only what is so.
\<close>

locale denial_proofs =
  fixes honest :: "'p \<Rightarrow> world \<Rightarrow> name \<Rightarrow> bool"
    and nx :: "name \<Rightarrow> 'p \<Rightarrow> bool"
    and nodata_at :: "name \<Rightarrow> int \<Rightarrow> 'p \<Rightarrow> bool"
    and expansion :: "name \<Rightarrow> name \<Rightarrow> 'p \<Rightarrow> bool"
    and ds :: "name \<Rightarrow> 'p \<Rightarrow> ds_proof option"
  assumes nx_sound: "honest p w qn \<Longrightarrow> nx qn p \<Longrightarrow> nonexistent w qn"
    and nodata_sound: "honest p w qn \<Longrightarrow> nodata_at qn t p \<Longrightarrow> t \<noteq> T_DS \<Longrightarrow> (canon_key qn, t) \<notin> w_data w"
    and expansion_sound: "honest p w qn \<Longrightarrow> expansion qn e p \<Longrightarrow> e \<noteq> [] \<Longrightarrow> wf_name e \<Longrightarrow>
      canon_key e \<in> w_chain w \<Longrightarrow> canon_key qn \<notin> w_names w"
    and ds_sound: "honest p w qn \<Longrightarrow> ds qn p = Some v \<Longrightarrow> \<not> below_cut w (canon_key qn) \<Longrightarrow>
      (canon_key qn, T_DS) \<notin> w_data w"
begin

text \<open>A denial accepted under any response code leaves no record of the type at the name.\<close>

lemma accepted_denial:
  assumes "honest p w qn" "world_ok w" "\<not> below_cut w (canon_key qn)"
    and "nx qn p \<or> (if t = T_DS then ds qn p \<noteq> None else nodata_at qn t p)"
  shows "(canon_key qn, t) \<notin> w_data w"
proof (cases "nx qn p")
  case True
  then have "nonexistent w qn" using assms(1) nx_sound by blast
  then show ?thesis using world_data_name [OF assms(2)] nonexistent_below by blast
next
  case False
  then show ?thesis using assms nodata_sound ds_sound by (cases "t = T_DS") auto
qed

end

subsection \<open>NSEC\<close>

definition honest_nsec :: "world \<Rightarrow> name \<times> nsec \<Rightarrow> bool" where
  "honest_nsec w p \<longleftrightarrow> (case p of (owner, rd) \<Rightarrow>
     wf_name owner \<and> wf_name (next_name rd) \<and> canon_key owner \<in> w_chain w \<and> canon_key (next_name rd) \<in> w_chain w \<and>
     (\<forall>t. bitmap_has (ns_bitmap rd) t \<longleftrightarrow> t \<in> w_types w (canon_key owner)) \<and>
     (\<forall>n \<in> w_listed w. \<not> in_gap (canon_key owner) (canon_key (next_name rd)) n))"

definition honest_nsecs :: "(name \<times> nsec) list \<Rightarrow> world \<Rightarrow> name \<Rightarrow> bool" where
  "honest_nsecs nsecs w qn \<longleftrightarrow> world_ok w \<and> wf_name qn \<and> list_all (honest_nsec w) nsecs"

lemma is_delegation_at:
  "(\<forall>t. bitmap_has bm t \<longleftrightarrow> t \<in> w_types w c) \<Longrightarrow> is_delegation bm \<longleftrightarrow> delegation_at w c"
  by (simp add: is_delegation_def delegation_at_def)

text \<open>A name in a proven gap is not beneath a cut: the cut would be the owner, or above it.\<close>

lemma gap_not_below:
  assumes "world_ok w" "honest_nsec w (owner, rd)" "proves_gap owner rd n" "wf_name n"
  shows "\<not> below_cut w (canon_key n)"
proof
  assume "below_cut w (canon_key n)"
  then obtain c where c: "c \<in> w_listed w" "cut_at w c" "strict_prefix c (canon_key n)"
    by (auto simp: below_cut_def)
  have h: "wf_name owner" "canon_key owner \<in> w_chain w"
    "\<forall>t. bitmap_has (ns_bitmap rd) t \<longleftrightarrow> t \<in> w_types w (canon_key owner)"
    "\<not> in_gap (canon_key owner) (canon_key (next_name rd)) c"
    using assms(2) c(1) by (auto simp: honest_nsec_def)
  have g: "in_gap (canon_key owner) (canon_key (next_name rd)) (canon_key n)"
    using assms(3) by (simp add: proves_gap_def nsec_covers_gap)
  show False
  proof (cases "c = canon_key owner")
    case True
    then have "is_subdomain_of n owner" "\<not> name_eq n owner"
      using c(3) h(1) assms(4) by (auto simp: subdomain_canon name_eq_canon strict_prefix_def)
    moreover have "is_delegation (ns_bitmap rd) \<or> bitmap_has (ns_bitmap rd) T_DNAME"
      using c(2) h(3) is_delegation_at [OF h(3)] by (simp add: cut_at_def True)
    ultimately have "cuts_off owner (ns_bitmap rd) n" by (simp add: cuts_off_def)
    with assms(3) show False by (simp add: proves_gap_def)
  next
    case False
    then have "strict_prefix c (canon_key owner)" using gap_ancestor [OF g h(4) c(3)] by blast
    with c world_chain [OF assms(1) h(2)] show False by (auto simp: below_cut_def)
  qed
qed

lemma gap_absent:
  assumes "world_ok w" "honest_nsec w (owner, rd)" "proves_gap owner rd n" "wf_name n"
  shows "canon_key n \<notin> w_names w"
proof
  assume "canon_key n \<in> w_names w"
  then have "canon_key n \<in> w_listed w" using world_names [OF assms(1)] gap_not_below [OF assms] by blast
  then have "\<not> in_gap (canon_key owner) (canon_key (next_name rd)) (canon_key n)"
    using assms(2) by (auto simp: honest_nsec_def)
  with assms(3) show False by (simp add: proves_gap_def nsec_covers_gap)
qed

text \<open>No existing name shares more labels with a name in a gap than an end of the gap does.\<close>

lemma gap_closest:
  assumes "world_ok w" "honest_nsec w (owner, rd)" "proves_gap owner rd n" "wf_name n" "x \<in> w_names w"
  shows "match_len x (canon_key n)
    \<le> max (match_len (canon_key owner) (canon_key n)) (match_len (canon_key (next_name rd)) (canon_key n))"
proof -
  have g: "in_gap (canon_key owner) (canon_key (next_name rd)) (canon_key n)"
    using assms(3) by (simp add: proves_gap_def nsec_covers_gap)
  obtain c where c: "c \<in> w_listed w" "prefix c x" "c = x \<or> cut_at w c"
    using assms(1,5) by (rule world_nameE)
  have "\<not> in_gap (canon_key owner) (canon_key (next_name rd)) c"
    using assms(2) c(1) by (auto simp: honest_nsec_def)
  note le = gap_ends [OF g this]
  show ?thesis
  proof (cases "c = x \<or> match_len x (canon_key n) \<le> length c")
    case True
    have "match_len x (canon_key n) \<le> match_len c (canon_key n)"
    proof (cases "c = x")
      case False
      with True have l: "match_len x (canon_key n) \<le> length c" by simp
      let ?p = "take (match_len x (canon_key n)) (canon_key n)"
      have "prefix ?p x" by (rule match_len_shared)
      moreover have "length ?p \<le> length c" using l by simp
      ultimately have "prefix ?p c" using c(2) prefix_length_prefix by blast
      then have "length ?p \<le> match_len c (canon_key n)" by (rule match_len_prefix_ge) (rule take_is_prefix)
      then show ?thesis using match_len_le(2) [of x "canon_key n"] by simp
    qed simp
    with le show ?thesis by simp
  next
    case False
    then have l: "length c < match_len x (canon_key n)" and cut: "cut_at w c" using c(3) by auto
    let ?p = "take (match_len x (canon_key n)) (canon_key n)"
    have "prefix ?p x" by (rule match_len_shared)
    then have "prefix c ?p"
      using l c(2) prefix_length_prefix [of c x ?p] match_len_le(2) [of x "canon_key n"] by simp
    moreover have "length c < length (canon_key n)" using l match_len_le(2) [of x "canon_key n"] by linarith
    ultimately have "strict_prefix c (canon_key n)"
      using prefix_order.trans [OF _ take_is_prefix] by (metis prefix_length_less less_irrefl prefix_order.le_less)
    with c(1) cut gap_not_below [OF assms(1-4)] show ?thesis by (auto simp: below_cut_def)
  qed
qed

lemma covered_gap:
  assumes "covered n nsecs"
  obtains owner rd where "(owner, rd) \<in> set nsecs" "proves_gap owner rd n"
  using assms by (auto simp: covered_def list_ex_iff)

lemma covered_absent:
  assumes "world_ok w" "list_all (honest_nsec w) nsecs" "covered n nsecs" "wf_name n"
  shows "canon_key n \<notin> w_names w"
proof -
  obtain owner rd where g: "(owner, rd) \<in> set nsecs" "proves_gap owner rd n" using assms(3) by (rule covered_gap)
  then have "honest_nsec w (owner, rd)" using assms(2) by (simp add: list_all_iff)
  with g assms(1,4) show ?thesis by (blast dest: gap_absent)
qed

lemma gap_encloser_gap:
  assumes "gap_encloser qn nsecs = Some ce"
  shows "\<exists>(owner, rd) \<in> set nsecs. proves_gap owner rd qn \<and>
    length ce = max (match_len (canon_key owner) (canon_key qn)) (match_len (canon_key (next_name rd)) (canon_key qn)) \<and>
    canon_key ce = take (length ce) (canon_key qn)"
  using assms
proof (induction nsecs)
  case (Cons p rest)
  obtain owner rd where p: "p = (owner, rd)" by (cases p)
  show ?case
  proof (cases "proves_gap owner rd qn")
    case True
    have t: "canon_key (common_suffix o' qn) = take (length (common_suffix o' qn)) (canon_key qn)" for o'
      by (simp add: canon_common length_common)
    have "length ce = max (match_len (canon_key owner) (canon_key qn)) (match_len (canon_key (next_name rd)) (canon_key qn))"
      using Cons.prems True by (auto simp: p Let_def length_common max_def)
    moreover have "canon_key ce = take (length ce) (canon_key qn)"
      using Cons.prems True t by (auto simp: p Let_def split: if_splits)
    ultimately show ?thesis using True by (auto simp: p)
  next
    case False
    with Cons show ?thesis by (auto simp: p)
  qed
qed simp

text \<open>The lengths of labels, hence validity, depend on the canonical key only.\<close>

lemma wf_canon: "wf_name n \<longleftrightarrow>
    (\<forall>la \<in> set (canon_key n). 1 \<le> length la \<and> length la \<le> MAX_LABEL) \<and>
    int (sum_list (map (\<lambda>la. length la + 1) (canon_key n)) + 1) \<le> MAX_NAME"
proof -
  have "map length (canon_key n) = rev (map length n)" by (simp add: canon_key_def rev_map comp_def)
  then have "sum_list (map (\<lambda>k. k + 1) (map length (canon_key n))) = sum_list (map (\<lambda>k. k + 1) (map length n))"
    by (simp add: rev_map [symmetric] sum_list_rev)
  then have "sum_list (map (\<lambda>la. length la + 1) (canon_key n)) = sum_list (map (\<lambda>la. length la + 1) n)"
    by (simp add: comp_def)
  moreover have "(\<forall>la \<in> set (canon_key n). 1 \<le> length la \<and> length la \<le> MAX_LABEL) \<longleftrightarrow> list_all wf_label n"
    by (auto simp: canon_key_def list_all_iff wf_label_def)
  ultimately show ?thesis by (simp add: wf_name_def wire_len_def)
qed

text \<open>A wildcard label is no longer than the label it stands in for.\<close>

lemma wf_wild:
  assumes "wf_name qn" "canon_key ce = take k (canon_key qn)" "k < length qn"
  shows "wf_name (wild ce)"
proof -
  let ?q = "canon_key qn" and ?s = "\<lambda>ks. sum_list (map (\<lambda>la :: bytes. length la + 1) ks)"
  have q: "?q = take k ?q @ ?q ! k # drop (Suc k) ?q"
    using assms(3) by (simp add: id_take_nth_drop)
  have "1 \<le> length (?q ! k)" using assms(1,3) by (simp add: wf_canon)
  moreover have "?s ?q = ?s (take k ?q) + (length (?q ! k) + 1) + ?s (drop (Suc k) ?q)"
    by (subst q) simp
  ultimately have "?s (take k ?q @ [[0x2A]]) \<le> ?s ?q" by simp
  then show ?thesis
    using assms(1) by (auto simp: wf_canon assms(2) MAX_LABEL_def dest!: in_set_takeD)
qed

lemma nsec_nxdomain_sound:
  assumes "honest_nsecs nsecs w qn" "nsec_nxdomain qn nsecs"
  shows "nonexistent w qn"
proof -
  have h: "world_ok w" "wf_name qn" "list_all (honest_nsec w) nsecs" using assms(1) by (simp_all add: honest_nsecs_def)
  obtain ce where ce: "gap_encloser qn nsecs = Some ce" "length ce < length qn" "covered (wild ce) nsecs"
    using assms(2) by (auto simp: nsec_nxdomain_def split: option.splits if_splits)
  obtain owner rd where g: "(owner, rd) \<in> set nsecs" "proves_gap owner rd qn"
    "length ce = max (match_len (canon_key owner) (canon_key qn)) (match_len (canon_key (next_name rd)) (canon_key qn))"
    "canon_key ce = take (length ce) (canon_key qn)"
    using gap_encloser_gap [OF ce(1)] by blast
  have o: "honest_nsec w (owner, rd)" using g(1) h(3) by (simp add: list_all_iff)
  let ?q = "canon_key qn"
  show ?thesis
  proof (rule nonexistentI [OF ce(2)])
    show "match_len x ?q \<le> length ce" if "x \<in> w_names w" for x
      using gap_closest [OF h(1) o g(2) h(2) that] by (simp add: g(3))
    have "canon_key owner \<in> w_chain w" "canon_key (next_name rd) \<in> w_chain w" using o by (simp_all add: honest_nsec_def)
    then have ends: "exists_under w (canon_key owner)" "exists_under w (canon_key (next_name rd))" using world_exists [OF h(1)] by blast+
    have "length ce \<le> match_len (canon_key owner) ?q \<or> length ce \<le> match_len (canon_key (next_name rd)) ?q" using g(3) by linarith
    then have "prefix (take (length ce) ?q) (canon_key owner) \<or> prefix (take (length ce) ?q) (canon_key (next_name rd))"
      using take_shared by blast
    with ends show "exists_under w (take (length ce) ?q)" unfolding exists_under_def using prefix_order.trans by blast
    have "canon_key (wild ce) \<notin> w_names w"
      using covered_absent [OF h(1,3) ce(3)] wf_wild [OF h(2) g(4) ce(2)] by blast
    then show "take (length ce) ?q @ [[0x2A]] \<notin> w_names w" using g(4) by simp
  qed
qed

lemma nsec_nodata_match:
  assumes "nsec_nodata qn t nsecs"
  shows "\<exists>(owner, rd) \<in> set nsecs. name_eq owner qn \<and> \<not> is_delegation (ns_bitmap rd) \<and>
    \<not> bitmap_has (ns_bitmap rd) t \<and> \<not> bitmap_has (ns_bitmap rd) T_CNAME"
  using assms by (induction nsecs) (auto split: if_splits)

lemma wildcard_nodata_covered:
  "wildcard_nodata_loop qn t nsecs l \<Longrightarrow> covered qn nsecs"
  by (induction l) (auto split: list.splits if_splits)

lemma nsec_nodata_sound:
  assumes "honest_nsecs nsecs w qn" "nsec_nodata qn t nsecs \<or> nsec_wildcard_nodata qn t nsecs" "t \<noteq> T_DS"
  shows "(canon_key qn, t) \<notin> w_data w"
proof -
  have h: "world_ok w" "wf_name qn" "list_all (honest_nsec w) nsecs" using assms(1) by (simp_all add: honest_nsecs_def)
  from assms(2) show ?thesis
  proof
    assume "nsec_nodata qn t nsecs"
    then obtain owner rd where r: "(owner, rd) \<in> set nsecs" "name_eq owner qn"
      "\<not> is_delegation (ns_bitmap rd)" "\<not> bitmap_has (ns_bitmap rd) t"
      using nsec_nodata_match by blast
    have o: "honest_nsec w (owner, rd)" using r(1) h(3) by (simp add: list_all_iff)
    then have k: "canon_key owner = canon_key qn" using r(2) h(2) by (simp add: honest_nsec_def name_eq_canon)
    have b: "\<forall>t. bitmap_has (ns_bitmap rd) t \<longleftrightarrow> t \<in> w_types w (canon_key qn)"
      "canon_key qn \<in> w_listed w"
      using o by (simp_all add: honest_nsec_def k w_listed_def)
    then have "\<not> delegation_at w (canon_key qn)" "t \<notin> w_types w (canon_key qn)"
      using r(3,4) is_delegation_at [OF b(1)] by simp_all
    then show ?thesis using world_data [OF h(1) _ b(2)] assms(3) by auto
  next
    assume "nsec_wildcard_nodata qn t nsecs"
    then have "covered qn nsecs" unfolding nsec_wildcard_nodata_def by (rule wildcard_nodata_covered)
    then have "canon_key qn \<notin> w_names w" using covered_absent h by blast
    then show ?thesis using world_data_name [OF h(1)] by blast
  qed
qed

lemma ds_at_child_mem: "ds_at_child c nsecs = Some rd \<Longrightarrow> \<exists>owner. (owner, rd) \<in> set nsecs \<and> name_eq owner c"
  by (induction nsecs) (auto split: if_splits)

lemma ds_bits_sound:
  assumes "ds_bits bm = Some v" "\<forall>t. bitmap_has bm t \<longleftrightarrow> t \<in> w_types w c"
  shows "T_DS \<notin> w_types w c \<and> T_SOA \<notin> w_types w c"
  using assms by (auto simp: ds_bits_def split: if_splits)

lemma nsec_ds_denial_sound:
  assumes "honest_nsecs nsecs w c" "nsec_ds_denial c nsecs = Some v"
  shows "(canon_key c, T_DS) \<notin> w_data w"
proof -
  have h: "world_ok w" "wf_name c" "list_all (honest_nsec w) nsecs" using assms(1) by (simp_all add: honest_nsecs_def)
  show ?thesis
  proof (cases "ds_at_child c nsecs")
    case None
    with assms(2) have "covered c nsecs" by (simp add: nsec_ds_denial_def split: if_splits)
    then show ?thesis using covered_absent h world_data_name by blast
  next
    case (Some rd)
    then obtain owner where r: "(owner, rd) \<in> set nsecs" "name_eq owner c" using ds_at_child_mem by blast
    have o: "honest_nsec w (owner, rd)" using r(1) h(3) by (simp add: list_all_iff)
    then have k: "canon_key owner = canon_key c" using r(2) h(2) by (simp add: honest_nsec_def name_eq_canon)
    have b: "\<forall>t. bitmap_has (ns_bitmap rd) t \<longleftrightarrow> t \<in> w_types w (canon_key c)" "canon_key c \<in> w_listed w"
      using o by (simp_all add: honest_nsec_def k w_listed_def)
    have "ds_bits (ns_bitmap rd) = Some v" using assms(2) Some by (simp add: nsec_ds_denial_def)
    then show ?thesis using ds_bits_sound [OF _ b(1)] world_data [OF h(1) _ b(2)] by auto
  qed
qed

lemma nsec_expansion_sound:
  assumes "honest_nsecs nsecs w qn" "nsec_wildcard_expansion qn e nsecs"
  shows "canon_key qn \<notin> w_names w"
  using assms covered_absent
  by (auto simp: honest_nsecs_def nsec_wildcard_expansion_def Let_def split: if_splits)

interpretation plain: denial_proofs honest_nsecs nsec_nxdomain
  "\<lambda>qn t p. nsec_nodata qn t p \<or> nsec_wildcard_nodata qn t p" nsec_wildcard_expansion nsec_ds_denial
  by unfold_locales
    (auto intro: nsec_nxdomain_sound dest: nsec_expansion_sound nsec_nodata_sound nsec_ds_denial_sound)

subsection \<open>NSEC3\<close>

definition hash_of :: "(bytes \<Rightarrow> bytes) \<Rightarrow> nsec3_set \<Rightarrow> bytes list \<Rightarrow> ustr" where
  "hash_of H s k = n3_hash H s (rev k)"

lemma canon_rev_canon: "canon_key (rev (canon_key n)) = canon_key n"
  by (simp add: canon_key_def comp_def)

lemma n3_hash_canon: "n3_hash H s n = hash_of H s (canon_key n)"
  using name_key_cong [OF canon_rev_canon, of n] by (simp add: hash_of_def n3_hash_def nsec3_hash_def)

definition honest_nsec3 :: "(bytes \<Rightarrow> bytes) \<Rightarrow> nsec3_set \<Rightarrow> world \<Rightarrow> ustr \<times> nsec3 \<Rightarrow> bool" where
  "honest_nsec3 H s w p \<longleftrightarrow> (case p of (oh, rd) \<Rightarrow>
     (\<exists>n \<in> w_chain w. oh = hash_of H s n \<and> (\<forall>t. bitmap_has (n3_bitmap rd) t \<longleftrightarrow> t \<in> w_types w n)) \<and>
     (\<forall>n \<in> w_chain w. \<not> in_gap oh (nsec3_b32 (next_hashed rd)) (hash_of H s n)) \<and>
     (flags3 rd AND 1 = 0 \<longrightarrow> (\<forall>n \<in> w_left w. \<not> in_gap oh (nsec3_b32 (next_hashed rd)) (hash_of H s n))))"

text \<open>
  The chain is closed under ancestors (empty non-terminals have records of their own), and the hash has
  no collision between the chain and the names the proof is about.
\<close>

definition honest_nsec3s :: "(bytes \<Rightarrow> bytes) \<Rightarrow> nsec3_set \<Rightarrow> world \<Rightarrow> name \<Rightarrow> bool" where
  "honest_nsec3s H s w qn \<longleftrightarrow> world_ok w \<and> wf_name qn \<and> list_all (honest_nsec3 H s w) (s_records s) \<and>
     (\<forall>n \<in> w_listed w. length (s_zone s) \<le> length n \<and>
        (\<forall>k. length (s_zone s) \<le> k \<longrightarrow> take k n \<in> w_listed w)) \<and>
     (\<forall>n \<in> w_chain w. \<forall>k \<le> length qn.
        (hash_of H s n = hash_of H s (take k (canon_key qn)) \<longrightarrow> n = take k (canon_key qn)) \<and>
        (hash_of H s n = hash_of H s (take k (canon_key qn) @ [[0x2A]]) \<longrightarrow> n = take k (canon_key qn) @ [[0x2A]]))"

lemma honest3_basic:
  assumes "honest_nsec3s H s w qn"
  shows "world_ok w" "wf_name qn"
    and "n \<in> w_listed w \<Longrightarrow> length (s_zone s) \<le> length n"
    and "n \<in> w_listed w \<Longrightarrow> length (s_zone s) \<le> k \<Longrightarrow> take k n \<in> w_listed w"
  using assms by (simp_all add: honest_nsec3s_def)

lemma find_SomeD: "find P xs = Some x \<Longrightarrow> x \<in> set xs \<and> P x"
  by (induction xs) (auto split: if_splits)

lemma match_sound:
  assumes "honest_nsec3s H s w qn" "n3_match H s n = Some rd"
    and "canon_key n = take k (canon_key qn)" "k \<le> length qn"
  shows "canon_key n \<in> w_chain w \<and> (\<forall>t. bitmap_has (n3_bitmap rd) t \<longleftrightarrow> t \<in> w_types w (canon_key n))"
proof -
  obtain oh where r: "(oh, rd) \<in> set (s_records s)" "oh = n3_hash H s n"
    using assms(2) by (auto simp: n3_match_def dest: find_SomeD)
  then have "honest_nsec3 H s w (oh, rd)" using assms(1) by (simp add: honest_nsec3s_def list_all_iff)
  then obtain m where m: "m \<in> w_chain w" "oh = hash_of H s m"
    "\<forall>t. bitmap_has (n3_bitmap rd) t \<longleftrightarrow> t \<in> w_types w m" by (auto simp: honest_nsec3_def)
  then have "m = canon_key n"
    using r(2) assms(1,3,4) unfolding honest_nsec3s_def n3_hash_canon by metis
  with m show ?thesis by simp
qed

lemma cover_sound:
  assumes "honest_nsec3s H s w qn" "n3_cover H s n = Some rd"
  shows "canon_key n \<notin> w_chain w \<and> (flags3 rd AND 1 = 0 \<longrightarrow> canon_key n \<notin> w_listed w)"
proof -
  obtain oh where r: "(oh, rd) \<in> set (s_records s)" "in_gap oh (nsec3_b32 (next_hashed rd)) (hash_of H s (canon_key n))"
    using assms(2) by (auto simp: n3_cover_def between_in_gap n3_hash_canon dest: find_SomeD)
  then have "honest_nsec3 H s w (oh, rd)" using assms(1) by (simp add: honest_nsec3s_def list_all_iff)
  with r(2) show ?thesis by (auto simp: honest_nsec3_def w_listed_def)
qed

lemma gap_proven: "\<not> gap_unproven r \<Longrightarrow> \<exists>rd. r = Some rd \<and> flags3 rd AND 1 = 0"
  by (auto simp: gap_unproven_def split: option.splits)

lemma ancestors_from_mem: "a \<in> set (ancestors_from zn n) \<Longrightarrow> \<exists>j. a = drop j n \<and> j \<le> length n \<and> length zn \<le> length a"
proof (induction n)
  case (Cons la n)
  then consider "a = la # n" "length zn \<le> length (la # n)" | "a \<in> set (ancestors_from zn n)"
    by (auto split: if_splits)
  then show ?case
  proof cases
    case 1
    then show ?thesis by (intro exI [of _ 0]) simp
  next
    case 2
    then obtain j where "a = drop j n" "j \<le> length n" "length zn \<le> length a" using Cons.IH by blast
    then show ?thesis by (intro exI [of _ "Suc j"]) simp
  qed
qed (auto split: if_splits)

lemma encloser_loop_some:
  assumes "n3_encloser_loop H s qn l = Some (ce, nc)"
  shows "ce \<in> set l \<and> nc = slice_from (int (length qn) - int (length ce) - 1) qn \<and>
    (\<exists>rd. n3_match H s ce = Some rd \<and> \<not> is_delegation (n3_bitmap rd) \<and> \<not> bitmap_has (n3_bitmap rd) T_DNAME)"
  using assms by (induction l) (auto split: option.splits if_splits)

lemma canon_slice:
  assumes "k < length n"
  shows "canon_key (slice_from (int (length n) - int k - 1) n) = take (Suc k) (canon_key n)"
proof -
  have "slice_from (int (length n) - int k - 1) n = drop (length n - Suc k) n"
    using assms by (simp add: slice_from_def nat_diff_distrib')
  then show ?thesis using assms by (simp add: canon_drop)
qed

text \<open>What the closest encloser proof establishes of the name it returns.\<close>

lemma encloser_sound:
  assumes h: "honest_nsec3s H s w qn" and e: "n3_encloser H qn s = Some (ce, nc)" and q: "qn \<noteq> []"
  shows "length (s_zone s) \<le> length ce \<and> length ce < length qn \<and> canon_key ce = take (length ce) (canon_key qn) \<and>
    canon_key nc = take (Suc (length ce)) (canon_key qn) \<and> canon_key ce \<in> w_chain w \<and>
    (\<forall>c \<in> w_listed w. cut_at w c \<longrightarrow> \<not> prefix c (canon_key ce))"
proof -
  have loop: "n3_encloser_loop H s qn (ancestors qn (s_zone s)) = Some (ce, nc)" using e by (simp add: n3_encloser_def)
  note l = encloser_loop_some [OF loop]
  obtain rd where rd: "n3_match H s ce = Some rd" "\<not> is_delegation (n3_bitmap rd)" "\<not> bitmap_has (n3_bitmap rd) T_DNAME"
    using l by blast
  obtain j where j: "ce = drop j (parent qn)" "j \<le> length (parent qn)" "length (s_zone s) \<le> length ce"
    using ancestors_from_mem l unfolding ancestors_def by blast
  then have d: "ce = drop (Suc j) qn" "length ce < length qn" using q by (auto simp: parent_def)
  have k: "canon_key ce = take (length ce) (canon_key qn)" using d by (simp add: canon_drop)
  have nc: "canon_key nc = take (Suc (length ce)) (canon_key qn)" using d(2) l by (simp add: canon_slice)
  have m: "canon_key ce \<in> w_chain w" "\<forall>t. bitmap_has (n3_bitmap rd) t \<longleftrightarrow> t \<in> w_types w (canon_key ce)"
    using match_sound [OF h rd(1) k] d(2) by auto
  have cut: "\<not> cut_at w (canon_key ce)"
    using rd(2,3) m(2) is_delegation_at [OF m(2)] by (simp add: cut_at_def)
  have "\<not> prefix c (canon_key ce)" if "c \<in> w_listed w" "cut_at w c" for c
    using that cut world_chain [OF honest3_basic(1) [OF h] m(1)] by (auto simp: below_cut_def strict_prefix_def)
  with j(3) d(2) k nc m(1) show ?thesis by blast
qed

lemma take_prefix_take: "k \<le> m \<Longrightarrow> prefix (take k xs) (take m xs)"
  using take_is_prefix [of k "take m xs"] by (simp add: min_def)

text \<open>With the next closer name absent, nothing existing shares more with the query than the encloser.\<close>

lemma next_closer_absent:
  assumes w: "world_ok w" and closed: "\<forall>n \<in> w_listed w. take (Suc k) n \<in> w_listed w"
    and nc: "take (Suc k) Q \<notin> w_listed w" and cut: "\<forall>c \<in> w_listed w. cut_at w c \<longrightarrow> \<not> prefix c (take k Q)"
    and k: "k < length Q" and x: "x \<in> w_names w"
  shows "match_len x Q \<le> k"
proof (rule ccontr)
  assume "\<not> match_len x Q \<le> k"
  then have "prefix (take (Suc k) Q) (take (match_len x Q) Q)" by (simp add: take_prefix_take)
  then have nx: "prefix (take (Suc k) Q) x" using match_len_shared prefix_order.trans by blast
  obtain c where c: "c \<in> w_listed w" "prefix c x" "c = x \<or> cut_at w c" using w x by (rule world_nameE)
  show False
  proof (cases "Suc k \<le> length c")
    case True
    then have "prefix (take (Suc k) Q) c" using nx c(2) by (auto intro: prefix_length_prefix)
    then have "take (Suc k) c = take (Suc k) Q" using k by (auto simp: prefix_def)
    with closed c(1) nc show False by metis
  next
    case False
    have "length (take (Suc k) Q) \<le> length x" using nx by (rule prefix_length_le)
    then have "c \<noteq> x" using False k by auto
    have "prefix (take k Q) (take (Suc k) Q)" by (simp add: take_prefix_take)
    then have "prefix (take k Q) x" using nx prefix_order.trans by blast
    then have "prefix c (take k Q)" using c(2) False k by (auto intro: prefix_length_prefix)
    with cut c \<open>c \<noteq> x\<close> show False by blast
  qed
qed

lemma next_closer_gap:
  assumes "honest_nsec3s H s w qn" "n3_encloser H qn s = Some (ce, nc)" "qn \<noteq> []"
    and "\<not> gap_unproven (n3_cover H s nc)" "x \<in> w_names w"
  shows "match_len x (canon_key qn) \<le> length ce"
proof -
  note e = encloser_sound [OF assms(1-3)]
  have "canon_key nc \<notin> w_listed w" using gap_proven [OF assms(4)] cover_sound [OF assms(1)] by blast
  then show ?thesis
    using e honest3_basic [OF assms(1)] assms(5)
    by (intro next_closer_absent [of w]) auto
qed

text \<open>The root is listed by its own zone, so its encloser proof covers nothing.\<close>

lemma root_encloser:
  assumes "honest_nsec3s H s w []" "n3_encloser H [] s = Some (ce, nc)"
  shows "gap_unproven (n3_cover H s nc)"
proof (rule ccontr)
  assume g: "\<not> gap_unproven (n3_cover H s nc)"
  have loop: "n3_encloser_loop H s [] (ancestors [] (s_zone s)) = Some (ce, nc)"
    using assms(2) by (simp add: n3_encloser_def)
  note l = encloser_loop_some [OF loop]
  then have ce: "ce = []" by (auto simp: ancestors_def parent_def split: if_splits)
  then have nc: "nc = []" using l by (simp add: slice_from_def)
  obtain rd where "n3_match H s [] = Some rd" using l ce by blast
  then have "canon_key [] \<in> w_chain w" using match_sound [OF assms(1), of "[]" rd 0] by (simp add: canon_key_def)
  moreover have "canon_key [] \<notin> w_chain w" using g gap_proven cover_sound [OF assms(1)] nc by blast
  ultimately show False by blast
qed

lemma nsec3_nxdomain_sound:
  assumes "honest_nsec3s H s w qn" "nsec3_nxdomain H qn s"
  shows "nonexistent w qn"
proof -
  obtain ce nc where e: "n3_encloser H qn s = Some (ce, nc)" "\<not> gap_unproven (n3_cover H s nc)"
    "\<not> gap_unproven (n3_cover H s (wild ce))"
    using assms(2) by (auto simp: nsec3_nxdomain_def split: option.splits prod.splits if_splits)
  have q: "qn \<noteq> []" using root_encloser assms(1) e(1,2) by blast
  note s = encloser_sound [OF assms(1) e(1) q]
  have "canon_key (wild ce) \<notin> w_listed w" using e(3) gap_proven cover_sound [OF assms(1)] by blast
  moreover have "\<not> below_cut w (canon_key (wild ce))" using s by (auto simp: below_cut_def strict_prefix_def)
  ultimately have "canon_key (wild ce) \<notin> w_names w" using world_names honest3_basic(1) [OF assms(1)] by blast
  moreover have "exists_under w (take (length ce) (canon_key qn))"
    using s world_exists [OF honest3_basic(1) [OF assms(1)]] by metis
  moreover have "length ce < length qn" "canon_key ce = take (length ce) (canon_key qn)" using s by blast+
  ultimately show ?thesis
    using next_closer_gap [OF assms(1) e(1) q e(2)] by (intro nonexistentI [of "length ce"]) simp_all
qed

lemma match_data:
  assumes "honest_nsec3s H s w qn" "n3_match H s qn = Some rd"
  shows "canon_key qn \<in> w_listed w \<and> (\<forall>t. bitmap_has (n3_bitmap rd) t \<longleftrightarrow> t \<in> w_types w (canon_key qn))"
  using match_sound [OF assms, of "length qn"] by (simp add: w_listed_def)

lemma nsec3_nodata_sound:
  assumes h: "honest_nsec3s H s w qn" and d: "nsec3_nodata H qn t s" and t: "t \<noteq> T_DS"
  shows "(canon_key qn, t) \<notin> w_data w"
proof (cases "n3_match H s qn")
  case (Some rd)
  note m = match_data [OF h Some]
  have "\<not> delegation_at w (canon_key qn)" "t \<notin> w_types w (canon_key qn)"
    using d Some m is_delegation_at [of "n3_bitmap rd" w "canon_key qn"]
    by (simp_all add: nsec3_nodata_def split: if_splits)
  then show ?thesis using world_data [OF honest3_basic(1) [OF h]] m t by auto
next
  case None
  then obtain ce nc where e: "n3_encloser H qn s = Some (ce, nc)" "\<not> gap_unproven (n3_cover H s nc)"
    using d by (auto simp: nsec3_nodata_def split: option.splits prod.splits if_splits)
  have q: "qn \<noteq> []" using root_encloser h e by blast
  have "canon_key qn \<notin> w_names w"
  proof
    assume "canon_key qn \<in> w_names w"
    then have "match_len (canon_key qn) (canon_key qn) \<le> length ce" by (rule next_closer_gap [OF h e(1) q e(2)])
    then show False
      using encloser_sound [OF h e(1) q] match_len_prefix_ge [of "canon_key qn" "canon_key qn" "canon_key qn"] by simp
  qed
  then show ?thesis using world_data_name [OF honest3_basic(1) [OF h]] by blast
qed

lemma nsec3_ds_denial_sound:
  assumes h: "honest_nsec3s H s w c" and d: "nsec3_ds_denial H c s = Some v"
    and b: "\<not> below_cut w (canon_key c)"
  shows "(canon_key c, T_DS) \<notin> w_data w"
proof
  assume data: "(canon_key c, T_DS) \<in> w_data w"
  note w = honest3_basic(1) [OF h]
  have l: "canon_key c \<in> w_listed w" using world_names [OF w world_data_name [OF w data] b] .
  show False
  proof (cases "n3_match H s c")
    case (Some rd)
    then have "ds_bits (n3_bitmap rd) = Some v" using d by (simp add: nsec3_ds_denial_def)
    then show False using ds_bits_sound match_data [OF h Some] world_data [OF w data l] by auto
  next
    case None
    then obtain rd where "n3_cover H s c = Some rd" using d by (auto simp: nsec3_ds_denial_def split: option.splits)
    then have "canon_key c \<notin> w_chain w" using cover_sound [OF h] by blast
    then have "canon_key c \<in> w_left w" using l by (simp add: w_listed_def)
    then have "T_DS \<notin> w_types w (canon_key c) \<and> T_SOA \<notin> w_types w (canon_key c)"
      using w unfolding world_ok_def by blast
    then show False using world_data [OF w data l] by auto
  qed
qed

lemma nsec3_expansion_sound:
  assumes h: "honest_nsec3s H s w qn" and d: "nsec3_wildcard_expansion H qn e s"
    and e: "e \<noteq> []" "canon_key e \<in> w_chain w" and we: "wf_name e"
  shows "canon_key qn \<notin> w_names w"
proof
  assume x: "canon_key qn \<in> w_names w"
  let ?ce = "drop 1 e" and ?Q = "canon_key qn"
  note w = honest3_basic(1) [OF h]
  have g: "\<not> gap_unproven (n3_cover H s (slice_from (int (length qn) - int (length ?ce) - 1) qn))"
    "is_subdomain_of qn ?ce" "\<not> name_eq qn ?ce"
    using d by (auto simp: nsec3_wildcard_expansion_def Let_def split: if_splits)
  have ce: "canon_key e = canon_key ?ce @ [lower (hd e)]" using e(1) by (cases e) (simp_all add: canon_key_def)
  have "prefix (canon_key ?ce) ?Q" "canon_key ?ce \<noteq> ?Q"
    using g(2,3) subdomain_canon [of qn ?ce] name_eq_canon [of qn ?ce] honest3_basic(2) [OF h] wf_name_drop [OF we, of 1]
    by auto
  then have pre: "canon_key ?ce = take (length ?ce) ?Q" "length ?ce < length qn"
    using prefix_length_less [of "canon_key ?ce" ?Q] by (auto simp: prefix_def strict_prefix_def)
  have "take (Suc (length ?ce)) ?Q \<notin> w_listed w"
    using gap_proven [OF g(1)] cover_sound [OF h] canon_slice [OF pre(2)] by metis
  moreover have "\<forall>c \<in> w_listed w. cut_at w c \<longrightarrow> \<not> prefix c (take (length ?ce) ?Q)"
  proof (intro ballI impI notI)
    fix c assume c: "c \<in> w_listed w" "cut_at w c" "prefix c (take (length ?ce) ?Q)"
    then have "strict_prefix c (canon_key e)" unfolding ce pre(1) [symmetric] by (auto simp: strict_prefix_def prefix_def)
    then show False using c world_chain [OF w e(2)] by (auto simp: below_cut_def)
  qed
  moreover have "length (s_zone s) \<le> Suc (length ?ce)"
    using honest3_basic(3) [OF h, of "canon_key e"] e by (simp add: w_listed_def)
  ultimately have "match_len ?Q ?Q \<le> length ?ce"
    using honest3_basic(4) [OF h] pre(2) x w by (intro next_closer_absent [of w]) auto
  then show False using pre(2) match_len_prefix_ge [of ?Q ?Q ?Q] by simp
qed

interpretation hashed: denial_proofs "honest_nsec3s H" "nsec3_nxdomain H" "nsec3_nodata H"
  "nsec3_wildcard_expansion H" "nsec3_ds_denial H" for H
  by unfold_locales
    (auto intro: nsec3_nxdomain_sound dest: nsec3_expansion_sound nsec3_nodata_sound nsec3_ds_denial_sound)

text \<open>
  C6: records of a signed zone's NSEC chain, in whatever selection they are replayed, prove NXDOMAIN only
  of names at and beneath which nothing exists, with no wildcard at the closest encloser either: the
  deepest ancestor of the name at or beneath which something exists.
\<close>

theorem nxdomain_proof_sound:
  assumes "honest_nsecs nsecs w qn" and "nsec_nxdomain qn nsecs"
  shows "(\<forall>x \<in> w_names w. \<not> prefix (canon_key qn) x) \<and>
    (\<forall>k. closest_at w (canon_key qn) k \<longrightarrow> take k (canon_key qn) @ [[0x2A]] \<notin> w_names w)"
proof -
  have n: "nonexistent w qn" by (rule plain.nx_sound [OF assms])
  then show ?thesis using nonexistent_below [OF n] unfolding nonexistent_def by blast
qed

text \<open>
  C12: the same of NSEC3 records, under opt-out too, where the hash has no collision between the chain
  and the names the proof is about.
\<close>

theorem nsec3_nxdomain_proof_sound:
  assumes "honest_nsec3s H s w qn" and "nsec3_nxdomain H qn s"
  shows "(\<forall>x \<in> w_names w. \<not> prefix (canon_key qn) x) \<and>
    (\<forall>k. closest_at w (canon_key qn) k \<longrightarrow> take k (canon_key qn) @ [[0x2A]] \<notin> w_names w)"
proof -
  have n: "nonexistent w qn" by (rule hashed.nx_sound [OF assms])
  then show ?thesis using nonexistent_below [OF n] unfolding nonexistent_def by blast
qed

subsection \<open>Examples\<close>

text \<open>The zone \<open>e\<close> with SOA and NS at the apex and an address at \<open>a.e\<close>.\<close>

definition ex_nsecs :: "(name \<times> nsec) list" where
  "ex_nsecs = [([[101]], \<lparr>next_name = [[97], [101]], ns_bitmap = [0, 1, 0x22]\<rparr>),
               ([[97], [101]], \<lparr>next_name = [[101]], ns_bitmap = [0, 1, 0x40]\<rparr>)]"

definition ex_world :: world where
  "ex_world = \<lparr>w_names = {[[101]], [[101], [97]]}, w_data = {([[101]], T_SOA), ([[101], [97]], T_A)},
     w_chain = {[[101]], [[101], [97]]}, w_left = {},
     w_types = (\<lambda>k. {t. bitmap_has (if k = [[101]] then [0, 1, 0x22] else [0, 1, 0x40]) t})\<rparr>"

lemma ex_bits:
  "bitmap_has [0, 1, 0x22] T_NS" "bitmap_has [0, 1, 0x22] T_SOA" "\<not> bitmap_has [0, 1, 0x22] T_DNAME"
  "bitmap_has [0, 1, 0x40] T_A" "\<not> bitmap_has [0, 1, 0x40] T_NS" "\<not> bitmap_has [0, 1, 0x40] T_DNAME"
  by code_simp+

lemma ex_canon: "canon_key [[101]] = [[101]]" "canon_key [[97], [101]] = [[101], [97]]"
  by code_simp+

lemma ex_honest: "honest_nsecs ex_nsecs ex_world [[120], [101]]"
proof -
  have "world_ok ex_world"
    by (auto simp: world_ok_def exists_under_def ex_world_def w_listed_def cut_at_def delegation_at_def ex_bits [unfolded type_defs] type_defs
        strict_prefix_def prefix_def)
  moreover have "wf_name [[120], [101]]" by code_simp
  moreover have "wf_name [[97], [101]]" "wf_name [[101]]" by code_simp+
  ultimately show ?thesis
    by (simp add: honest_nsecs_def ex_nsecs_def honest_nsec_def ex_canon ex_world_def w_listed_def in_gap_def)
qed

theorem nxdomain_proof_sound_witness:
  "canon_key [[120], [101]] \<notin> w_names ex_world \<and> [[101], [0x2A]] \<notin> w_names ex_world"
proof -
  have "nsec_nxdomain [[120], [101]] ex_nsecs" by code_simp
  moreover have c: "canon_key [[120], [101]] = [[101], [120]]" by code_simp
  have "closest_at ex_world (canon_key [[120], [101]]) 1"
    unfolding c by (simp add: closest_at_def exists_under_def ex_world_def)
  ultimately show ?thesis using nxdomain_proof_sound [OF ex_honest] by (auto simp: c)
qed

text \<open>
  The NSEC proof of an answer that is missing at a wildcard does not ask that the wildcard be the
  one at the closest encloser: in a zone with text at \<open>*.e\<close> and addresses at \<open>*.b.e\<close>, the NSEC
  of the former denies the addresses that the latter gives \<open>a.b.e\<close>. For NSEC the expansion of a
  wildcard is accepted in the same way.
\<close>

definition two_wildcards :: "(name \<times> nsec) list" where
  "two_wildcards = [([[42], [101]], \<lparr>next_name = [[42], [98], [101]], ns_bitmap = [0, 3, 0, 0, 0x80]\<rparr>),
     ([[42], [98], [101]], \<lparr>next_name = [[101]], ns_bitmap = [0, 1, 0x40]\<rparr>)]"

definition two_world :: world where
  "two_world =
     \<lparr>w_names = {[[101]], [[101], [42]], [[101], [98], [42]]}, w_data = {([[101]], T_SOA), ([[101], [42]], 16), ([[101], [98], [42]], T_A)},
      w_chain = {[[101]], [[101], [42]], [[101], [98], [42]]}, w_left = {},
      w_types = (\<lambda>k. {t. bitmap_has (if k = [[101]] then [0, 1, 0x22] else
        if k = [[101], [42]] then [0, 3, 0, 0, 0x80] else [0, 1, 0x40]) t})\<rparr>"

lemma two_bits:
  "bitmap_has [0, 3, 0, 0, 0x80] 16" "\<not> bitmap_has [0, 3, 0, 0, 0x80] T_NS" "\<not> bitmap_has [0, 3, 0, 0, 0x80] T_DNAME"
  by code_simp+

lemma two_honest: "honest_nsecs two_wildcards two_world [[97], [98], [101]]"
proof -
  have "world_ok two_world"
    by (auto simp: world_ok_def exists_under_def two_world_def w_listed_def cut_at_def delegation_at_def type_defs
        ex_bits [unfolded type_defs] two_bits [unfolded type_defs] strict_prefix_def prefix_def)
  moreover have "wf_name [[97], [98], [101]]" "wf_name [[42], [101]]" "wf_name [[42], [98], [101]]" "wf_name [[101]]"
    by code_simp+
  moreover have "canon_key [[42], [101]] = [[101], [42]]" "canon_key [[42], [98], [101]] = [[101], [98], [42]]"
    by code_simp+
  ultimately show ?thesis
    by (simp add: honest_nsecs_def two_wildcards_def honest_nsec_def ex_canon two_world_def w_listed_def in_gap_def)
qed

lemma wildcard_nodata_unsound:
  "honest_nsecs two_wildcards two_world [[97], [98], [101]] \<and>
   nsec_wildcard_nodata [[97], [98], [101]] T_A two_wildcards \<and>
   (canon_key [[42], [98], [101]], T_A) \<in> w_data two_world"
proof -
  have "nsec_wildcard_nodata [[97], [98], [101]] T_A two_wildcards" by code_simp
  moreover have "canon_key [[42], [98], [101]] = [[101], [98], [42]]" by code_simp
  ultimately show ?thesis using two_honest by (simp add: two_world_def)
qed

lemma wildcard_expansion_unsound:
  "honest_nsecs two_wildcards two_world [[97], [98], [101]] \<and>
   nsec_wildcard_expansion [[97], [98], [101]] [[42], [101]] two_wildcards"
proof -
  have "nsec_wildcard_expansion [[97], [98], [101]] [[42], [101]] two_wildcards" by code_simp
  then show ?thesis using two_honest by blast
qed

text \<open>
  Absence of data at an empty non-terminal, which has no NSEC of its own, is never proved by NSEC
  records, whatever the zone sends.
\<close>

lemma nsec_nodata_needs_match: "nsec_nodata qn t nsecs \<Longrightarrow> \<exists>(owner, rd) \<in> set nsecs. name_eq owner qn"
  using nsec_nodata_match by fast

lemma wildcard_nodata_needs_wildcard:
  "wildcard_nodata_loop qn t nsecs l \<Longrightarrow> \<exists>(owner, rd) \<in> set l. owner \<noteq> [] \<and> hd owner = [0x2A]"
  by (induction l) (auto split: list.splits if_splits)

lemma empty_non_terminal_rejected:
  assumes "\<forall>(owner, rd) \<in> set nsecs. \<not> name_eq owner qn \<and> (owner = [] \<or> hd owner \<noteq> [0x2A])"
  shows "\<not> nsec_nodata qn t nsecs \<and> \<not> nsec_wildcard_nodata qn t nsecs"
  using assms nsec_nodata_needs_match [of qn t nsecs] wildcard_nodata_needs_wildcard [of qn t nsecs nsecs]
  unfolding nsec_wildcard_nodata_def by blast

text \<open>
  The zone \<open>e\<close> delegates \<open>c.e\<close>, which is signed. Any NSEC3 gap holds the hash of a name beneath
  \<open>c.e\<close>, and without a closest encloser it is taken to deny a DS record there, which is the child's.
\<close>

definition deep_set :: nsec3_set where
  "deep_set = \<lparr>s_zone = [[101]], s_usable = True,
     s_records = [(nsec3_b32 [1, 101, 0], \<lparr>hash_algorithm = 1, flags3 = 0, iterations3 = 0, salt3 = [],
         next_hashed = [1, 99, 1, 101, 0], n3_bitmap = [0, 1, 0x22]\<rparr>),
       (nsec3_b32 [1, 99, 1, 101, 0], \<lparr>hash_algorithm = 1, flags3 = 0, iterations3 = 0, salt3 = [],
         next_hashed = [1, 101, 0], n3_bitmap = [0, 6, 0x20, 0, 0, 0, 0, 0x10]\<rparr>)],
     s_salt = [], s_iterations = 0\<rparr>"

definition deep_world :: world where
  "deep_world = \<lparr>w_names = {[[101]], [[101], [99]], [[101], [99], [115]]},
     w_data = {([[101]], T_SOA), ([[101], [99]], T_NS), ([[101], [99]], T_DS), ([[101], [99], [115]], T_DS)},
     w_chain = {[[101]], [[101], [99]]}, w_left = {},
     w_types = (\<lambda>k. {t. bitmap_has (if k = [[101]] then [0, 1, 0x22] else [0, 6, 0x20, 0, 0, 0, 0, 0x10]) t})\<rparr>"

lemma deep_bits:
  "bitmap_has [0, 6, 0x20, 0, 0, 0, 0, 0x10] T_NS" "\<not> bitmap_has [0, 6, 0x20, 0, 0, 0, 0, 0x10] T_SOA"
  "\<not> bitmap_has [0, 6, 0x20, 0, 0, 0, 0, 0x10] T_DNAME" "bitmap_has [0, 6, 0x20, 0, 0, 0, 0, 0x10] T_DS"
  by code_simp+

lemma deep_hash: "hash_of (\<lambda>x. x) deep_set k = nsec3_b32 (name_key (rev k))"
  by (simp add: hash_of_def n3_hash_def nsec3_hash_def deep_set_def)

lemma deep_b32:
  "nsec3_b32 [0] = [48, 48]"
  "nsec3_b32 [1, 101, 0] = [48, 53, 105, 103, 48]"
  "nsec3_b32 [1, 99, 1, 101, 0] = [48, 53, 104, 103, 50, 112, 56, 48]"
  "nsec3_b32 [1, 115, 1, 99, 1, 101, 0] = [48, 53, 112, 103, 50, 111, 111, 49, 99, 107, 48, 48]"
  "nsec3_b32 [1, 42, 0] = [48, 52, 108, 48, 48]"
  "nsec3_b32 [1, 42, 1, 101, 0] = [48, 52, 108, 48, 50, 112, 56, 48]"
  "nsec3_b32 [1, 42, 1, 99, 1, 101, 0] = [48, 52, 108, 48, 50, 111, 111, 49, 99, 107, 48, 48]"
  "nsec3_b32 [1, 42, 1, 115, 1, 99, 1, 101, 0] = [48, 52, 108, 48, 50, 115, 111, 49, 99, 99, 48, 109, 97, 48, 48]"
  by code_simp+

lemmas deep_eval = deep_hash deep_b32 lower_def lower_byte_def

lemma deep_records:
  "s_records deep_set = [(nsec3_b32 [1, 101, 0], \<lparr>hash_algorithm = 1, flags3 = 0, iterations3 = 0, salt3 = [],
         next_hashed = [1, 99, 1, 101, 0], n3_bitmap = [0, 1, 0x22]\<rparr>),
       (nsec3_b32 [1, 99, 1, 101, 0], \<lparr>hash_algorithm = 1, flags3 = 0, iterations3 = 0, salt3 = [],
         next_hashed = [1, 101, 0], n3_bitmap = [0, 6, 0x20, 0, 0, 0, 0, 0x10]\<rparr>)]"
  by (simp add: deep_set_def)

lemma deep_world_ok: "world_ok deep_world"
  by (auto simp: world_ok_def exists_under_def deep_world_def w_listed_def cut_at_def delegation_at_def type_defs
      ex_bits [unfolded type_defs] deep_bits [unfolded type_defs] strict_prefix_def prefix_def)

lemma deep_closed: "\<forall>n \<in> w_listed deep_world. length (s_zone deep_set) \<le> length n \<and>
    (\<forall>k. length (s_zone deep_set) \<le> k \<longrightarrow> take k n \<in> w_listed deep_world)"
proof -
  have "take k [[101], [99 :: byte]] \<in> {[[101]], [[101], [99]]}" if "1 \<le> k" for k
    using that by (cases "k - 1") (auto simp: take_Cons split: nat.splits)
  then show ?thesis by (auto simp: deep_world_def deep_set_def w_listed_def)
qed

lemma deep_honestI:
  assumes "wf_name qn"
    and "list_all (\<lambda>n. list_all (\<lambda>k.
      (nsec3_b32 (name_key (rev n)) = nsec3_b32 (name_key (rev (take k (canon_key qn)))) \<longrightarrow> n = take k (canon_key qn)) \<and>
      (nsec3_b32 (name_key (rev n)) = nsec3_b32 (name_key (rev (take k (canon_key qn) @ [[0x2A]]))) \<longrightarrow>
        n = take k (canon_key qn) @ [[0x2A]])) [0..<Suc (length qn)]) [[[101]], [[101], [99]]]"
  shows "honest_nsec3s (\<lambda>x. x) deep_set deep_world qn"
proof -
  have "list_all (honest_nsec3 (\<lambda>x. x) deep_set deep_world) (s_records deep_set)"
    by (simp add: deep_records deep_world_def honest_nsec3_def deep_eval in_gap_def)
  moreover have "\<forall>n \<in> w_chain deep_world. \<forall>k \<le> length qn.
      (nsec3_b32 (name_key (rev n)) = nsec3_b32 (name_key (rev (take k (canon_key qn)))) \<longrightarrow> n = take k (canon_key qn)) \<and>
      (nsec3_b32 (name_key (rev n)) = nsec3_b32 (name_key (rev (take k (canon_key qn) @ [[0x2A]]))) \<longrightarrow>
        n = take k (canon_key qn) @ [[0x2A]])" (is "\<forall>n \<in> _. \<forall>k \<le> _. ?P n k")
  proof (intro ballI allI impI)
    fix n k
    assume "n \<in> w_chain deep_world" and k: "k \<le> length qn"
    then have n: "n \<in> set [[[101]], [[101], [99]]]" by (simp add: deep_world_def)
    have m: "k \<in> set [0..<Suc (length qn)]" using k by auto
    show "?P n k" by (rule assms(2) [unfolded list_all_iff, THEN bspec, OF n, THEN bspec, OF m])
  qed
  ultimately show ?thesis unfolding honest_nsec3s_def deep_hash using assms(1) deep_world_ok deep_closed by blast
qed

lemma deep_honest: "honest_nsec3s (\<lambda>x. x) deep_set deep_world [[115], [99], [101]]"
  by (rule deep_honestI) code_simp+

lemma deep_honest_x: "honest_nsec3s (\<lambda>x. x) deep_set deep_world [[120], [101]]"
  by (rule deep_honestI) code_simp+

lemma ds_below_cut_denied:
  "honest_nsec3s (\<lambda>x. x) deep_set deep_world [[115], [99], [101]] \<and>
   nsec3_ds_denial (\<lambda>x. x) [[115], [99], [101]] deep_set = Some No_cut \<and>
   (canon_key [[115], [99], [101]], T_DS) \<in> w_data deep_world"
proof -
  have h: "n3_hash (\<lambda>x. x) deep_set [[115], [99], [101]] = [48, 53, 112, 103, 50, 111, 111, 49, 99, 107, 48, 48]"
    by (simp add: n3_hash_def nsec3_hash_def deep_set_def deep_eval)
  then have "nsec3_ds_denial (\<lambda>x. x) [[115], [99], [101]] deep_set = Some No_cut"
    by (simp add: nsec3_ds_denial_def n3_match_def n3_cover_def h deep_records deep_b32 between_def)
  moreover have "canon_key [[115], [99], [101]] = [[101], [99], [115]]" by code_simp
  then have "(canon_key [[115], [99], [101]], T_DS) \<in> w_data deep_world" by (simp add: deep_world_def)
  ultimately show ?thesis using deep_honest by blast
qed

text \<open>The same chain denies the name \<open>x.e\<close>.\<close>

theorem nsec3_nxdomain_proof_sound_witness:
  "canon_key [[120], [101]] \<notin> w_names deep_world \<and> [[101], [0x2A]] \<notin> w_names deep_world"
proof -
  have "nsec3_nxdomain (\<lambda>x. x) [[120], [101]] deep_set" by code_simp
  moreover have c: "canon_key [[120], [101]] = [[101], [120]]" by code_simp
  have "closest_at deep_world (canon_key [[120], [101]]) 1"
    unfolding c by (simp add: closest_at_def exists_under_def deep_world_def)
  ultimately show ?thesis using nsec3_nxdomain_proof_sound [OF deep_honest_x] by (auto simp: c)
qed

end
