(* ===== verification/Dnssec_Chain_Props.thy ===== *)
theory Dnssec_Chain_Props
  imports Dnssec_Chain Dnssec_Denial_Props
begin

section \<open>What a verdict rests on\<close>

text \<open>
  The validator of theory Dnssec_Chain against the chain of trust it is meant to establish: an answer
  is called secure only where keys that descend from the anchors, zone by zone, signed it, in a zone at
  or above the name; and a name is called insecure only where such keys vouch for an unsigned delegation
  above it. The caches carry nothing else from one validation to the next.
\<close>

subsection \<open>The chain of trust\<close>

text \<open>The cryptography, the digests and the anchors are those of the environment.\<close>

definition self_signed :: "venv \<Rightarrow> int \<Rightarrow> name \<Rightarrow> dnskey list \<Rightarrow> dnskey \<Rightarrow> rrsig \<Rightarrow> bool" where
  "self_signed E now zn dnskeys k sg \<longleftrightarrow> name_eq (g_signer sg) zn \<and>
     verify_rrset (e_verify E) now zn T_DNSKEY 1 (map of_dnskey dnskeys) sg k = Inr True"

definition anchored :: "venv \<Rightarrow> name \<Rightarrow> dnskey list \<Rightarrow> ds_rd list \<Rightarrow> dnskey list \<Rightarrow> bool" where
  "anchored E zn dnskeys ds ks \<longleftrightarrow> (\<exists>k \<in> set ks. list_ex (ds_matches E zn k (key_tag k)) ds \<and>
     (\<exists>now sg. self_signed E now zn dnskeys k sg))"

definition key_set :: "venv \<Rightarrow> name \<Rightarrow> ds_rd list \<Rightarrow> dnskey list \<Rightarrow> bool" where
  "key_set E zn ds keys \<longleftrightarrow> (\<exists>dnskeys. keys = zone_keys dnskeys \<and> anchored E zn dnskeys ds keys)"

definition signed_set :: "venv \<Rightarrow> name \<Rightarrow> dnskey list \<Rightarrow> name \<Rightarrow> int \<Rightarrow> rdata list \<Rightarrow> name option \<Rightarrow> bool" where
  "signed_set E zn keys owner t rds expanded \<longleftrightarrow> rds \<noteq> [] \<and> (\<exists>now k sg so ex. k \<in> set keys \<and> key_tag k = g_tag sg \<and>
     name_eq (g_signer sg) zn \<and> wildcard_owner owner sg = Some (so, ex) \<and>
     expanded = (if ex then Some so else None) \<and> verify_rrset (e_verify E) now so t 1 rds sg k = Inr True)"

text \<open>
  The evidence of a denial: every record is of the authority section it came in, and of an RRset that
  the zone's keys signed.
\<close>

definition drawn :: "rr list \<Rightarrow> int \<Rightarrow> name \<times> rdata \<Rightarrow> bool" where
  "drawn auth t p \<longleftrightarrow> (\<exists>rr \<in> set auth. rr_name rr = fst p) \<and>
     (\<exists>rr \<in> set auth. rr_type rr = t \<and> rr_rdata rr = snd p \<and> name_eq (rr_name rr) (fst p))"

definition signed_pair :: "venv \<Rightarrow> name \<Rightarrow> dnskey list \<Rightarrow> rr list \<Rightarrow> int \<Rightarrow> name \<times> rdata \<Rightarrow> bool" where
  "signed_pair E zn keys auth t p \<longleftrightarrow> drawn auth t p \<and> (\<exists>rds. snd p \<in> set rds \<and> signed_set E zn keys (fst p) t rds None)"

definition signed_denial :: "venv \<Rightarrow> name \<Rightarrow> dnskey list \<Rightarrow> rr list \<Rightarrow> (name \<times> nsec) list \<Rightarrow> nsec3_set option \<Rightarrow> bool" where
  "signed_denial E zn keys auth nsecs n3 \<longleftrightarrow>
     (\<exists>ps. nsecs = typed_pairs as_nsec ps \<and> list_all (signed_pair E zn keys auth T_NSEC) ps) \<and>
     (\<exists>ps. list_all (signed_pair E zn keys auth T_NSEC3) ps \<and>
        (case n3 of None \<Rightarrow> True | Some s \<Rightarrow> s = nsec3_set_of (typed_pairs as_nsec3 ps) zn (e_max_iterations E) \<and> s_usable s))"

inductive trusted :: "venv \<Rightarrow> name \<Rightarrow> dnskey list \<Rightarrow> bool" for E where
  anchor: "key_set E [] (e_anchors E) keys \<Longrightarrow> trusted E [] keys"
| child: "trusted E zn keys \<Longrightarrow> anc zn up \<Longrightarrow> signed_set E zn keys (la # up) T_DS rds None \<Longrightarrow>
     key_set E (la # up) (usable_ds (somes (map as_ds rds))) ks \<Longrightarrow> trusted E (la # up) ks"

definition no_ds :: "venv \<Rightarrow> name \<Rightarrow> dnskey list \<Rightarrow> name \<Rightarrow> ds_proof \<Rightarrow> bool" where
  "no_ds E zn keys child v \<longleftrightarrow> (\<exists>auth nsecs n3. signed_denial E zn keys auth nsecs n3 \<and>
     (nsec_ds_denial child nsecs = Some v \<or> (\<exists>s. n3 = Some s \<and> nsec3_ds_denial (e_sha1 E) child s = Some v)))"

definition insecure_cut :: "venv \<Rightarrow> name \<Rightarrow> bool" where
  "insecure_cut E child \<longleftrightarrow> (\<exists>la up zn keys. child = la # up \<and> trusted E zn keys \<and> anc zn up \<and>
     (no_ds E zn keys child Insecure_cut \<or>
      (\<exists>rds. signed_set E zn keys child T_DS rds None \<and> usable_ds (somes (map as_ds rds)) = [])))"

definition trust_ok :: "venv \<Rightarrow> name \<Rightarrow> trust \<Rightarrow> bool" where
  "trust_ok E n tr \<longleftrightarrow> (case tr of
       Secure_zone zn keys \<Rightarrow> trusted E zn keys \<and> anc zn n
     | Insecure_at z \<Rightarrow> insecure_cut E z \<and> anc z n)"

definition key_entry :: "venv \<Rightarrow> (ustr \<times> ds_prints) \<times> rat \<times> dnskey list \<Rightarrow> bool" where
  "key_entry E x \<longleftrightarrow> (\<exists>zn ds. wf_name zn \<and> fst x = (to_text False zn, ds_print ds) \<and> key_set E zn ds (snd (snd x)))"

definition trust_entry :: "venv \<Rightarrow> ustr \<times> rat \<times> trust \<Rightarrow> bool" where
  "trust_entry E x \<longleftrightarrow> (\<exists>n. wf_name n \<and> fst x = to_text False n \<and> trust_ok E n (snd (snd x)))"

definition cache_ok :: "venv \<Rightarrow> vstate \<Rightarrow> bool" where
  "cache_ok E st \<longleftrightarrow> (\<forall>x \<in> set (v_keys st). key_entry E x) \<and> (\<forall>x \<in> set (v_trust st). trust_entry E x)"

text \<open>
  Two environments of one validator agree on the anchors, the cryptography and the limit of iterations;
  the network and the clocks may differ.
\<close>

definition same_validator :: "venv \<Rightarrow> venv \<Rightarrow> bool" where
  "same_validator E F \<longleftrightarrow> e_anchors E = e_anchors F \<and> e_verify E = e_verify F \<and> e_digest E = e_digest F \<and>
     e_sha1 E = e_sha1 F \<and> e_max_iterations E = e_max_iterations F"

subsection \<open>Hoare triples for the validator's state\<close>

definition vspec :: "('s \<Rightarrow> bool) \<Rightarrow> ('s \<Rightarrow> 'a result \<times> 's) \<Rightarrow> ('a \<Rightarrow> bool) \<Rightarrow> bool" where
  "vspec I m Q \<longleftrightarrow> (\<forall>st. I st \<longrightarrow> I (snd (m st)) \<and> (\<forall>x. fst (m st) = Inr x \<longrightarrow> Q x))"

named_theorems vspecs \<open>triples of the validator's operations\<close>

lemma vspec_ret [vspecs]: "Q x \<Longrightarrow> vspec I (vret x) Q"
  by (simp add: vspec_def vret_def)

lemma vspec_raise [vspecs]: "vspec I (vraise e) Q"
  by (simp add: vspec_def vraise_def)

lemma vspec_lift: "vspec I (vlift r) (\<lambda>x. r = Inr x)"
  by (simp add: vspec_def vlift_def)

lemma vspec_bind:
  assumes "vspec I m Q" "\<And>x. Q x \<Longrightarrow> vspec I (f x) R"
  shows "vspec I (vbind m f) R"
proof -
  have "I (snd (vbind m f st)) \<and> (\<forall>y. fst (vbind m f st) = Inr y \<longrightarrow> R y)" if i: "I st" for st
  proof (cases "m st")
    case (Pair r st')
    with assms(1) i have s: "I st'" "\<And>x. r = Inr x \<Longrightarrow> Q x" by (fastforce simp: vspec_def)+
    show ?thesis
    proof (cases r)
      case (Inl e)
      with Pair s(1) show ?thesis by (simp add: vbind_def)
    next
      case (Inr x)
      then have "vspec I (f x) R" using s(2) assms(2) by blast
      with s(1) show ?thesis by (simp add: vbind_def Pair Inr vspec_def)
    qed
  qed
  then show ?thesis by (simp add: vspec_def)
qed

lemma vspec_weaken: "vspec I m Q \<Longrightarrow> (\<And>x. Q x \<Longrightarrow> R x) \<Longrightarrow> vspec I m R"
  by (simp add: vspec_def)

lemma cache_ok_work [simp]:
  "cache_ok E (st\<lparr>v_crypto := c\<rparr>) = cache_ok E st" "cache_ok E (st\<lparr>v_queries := c\<rparr>) = cache_ok E st"
  by (simp_all add: cache_ok_def)

lemma vspec_sign_op [vspecs]: "vspec (cache_ok E) sign_op (\<lambda>_. True)"
  by (simp add: vspec_def sign_op_def Let_def)

lemma vspec_chain_query [vspecs]: "vspec (cache_ok E) chain_query (\<lambda>_. True)"
  by (simp add: vspec_def chain_query_def Let_def)

subsection \<open>Keys and RRsets\<close>

lemma key_sigs_spec:
  "vspec (cache_ok E) (key_sigs E zn dnskeys k sgs) (\<lambda>r. \<forall>sg. r = Some sg \<longrightarrow> self_signed E (e_now E) zn dnskeys k sg)"
proof (induction sgs)
  case (Cons sg sgs)
  show ?case
  proof (cases "g_tag sg \<noteq> key_tag k \<or> g_algorithm sg \<noteq> k_algorithm k \<or> \<not> name_eq (g_signer sg) zn")
    case True
    with Cons show ?thesis by auto
  next
    case False
    let ?v = "verify_rrset (e_verify E) (e_now E) zn T_DNSKEY 1 (map of_dnskey dnskeys) sg k"
    have "vspec (cache_ok E) (vbind sign_op (\<lambda>_. vbind (vlift ?v) (\<lambda>ok.
        if ok then vret (Some sg) else key_sigs E zn dnskeys k sgs)))
        (\<lambda>r. \<forall>sg. r = Some sg \<longrightarrow> self_signed E (e_now E) zn dnskeys k sg)"
    proof (rule vspec_bind [OF vspec_sign_op], rule vspec_bind [OF vspec_lift])
      fix ok
      assume v: "?v = Inr ok"
      show "vspec (cache_ok E) (if ok then vret (Some sg) else key_sigs E zn dnskeys k sgs)
        (\<lambda>r. \<forall>sg. r = Some sg \<longrightarrow> self_signed E (e_now E) zn dnskeys k sg)"
        using Cons v False by (cases ok) (simp_all add: vspec_ret self_signed_def)
    qed
    with False show ?thesis by simp
  qed
qed (simp add: vspec_ret)

lemma anchored_key_spec:
  "vspec (cache_ok E) (anchored_key E zn dnskeys ds sigs ks) (\<lambda>r. r \<noteq> None \<longrightarrow> anchored E zn dnskeys ds ks)"
proof (induction ks)
  case (Cons k ks)
  have rest: "vspec (cache_ok E) (anchored_key E zn dnskeys ds sigs ks) (\<lambda>r. r \<noteq> None \<longrightarrow> anchored E zn dnskeys ds (k # ks))"
    by (rule vspec_weaken [OF Cons]) (auto simp: anchored_def)
  show ?case
  proof (cases "list_ex (ds_matches E zn k (key_tag k)) ds")
    case False
    with rest show ?thesis by simp
  next
    case True
    have "vspec (cache_ok E) (vbind (key_sigs E zn dnskeys k sigs) (\<lambda>r.
        case r of Some sg \<Rightarrow> vret (Some sg) | None \<Rightarrow> anchored_key E zn dnskeys ds sigs ks))
        (\<lambda>r. r \<noteq> None \<longrightarrow> anchored E zn dnskeys ds (k # ks))"
    proof (rule vspec_bind [OF key_sigs_spec])
      fix r
      assume r: "\<forall>sg. r = Some sg \<longrightarrow> self_signed E (e_now E) zn dnskeys k sg"
      show "vspec (cache_ok E) (case r of Some sg \<Rightarrow> vret (Some sg) | None \<Rightarrow> anchored_key E zn dnskeys ds sigs ks)
        (\<lambda>r. r \<noteq> None \<longrightarrow> anchored E zn dnskeys ds (k # ks))"
      proof (cases r)
        case (Some sg)
        then have "anchored E zn dnskeys ds (k # ks)" using r True by (auto simp: anchored_def)
        with Some show ?thesis by (simp add: vspec_ret)
      next
        case None
        with rest show ?thesis by simp
      qed
    qed
    with True show ?thesis by simp
  qed
qed (simp add: vspec_ret)

lemma set_strong_ds: "set (strong_ds ds) \<subseteq> set ds"
  by (auto simp: strong_ds_def Let_def)

lemma anchored_mono: "anchored E zn dnskeys ds ks \<Longrightarrow> set ds \<subseteq> set ds' \<Longrightarrow> anchored E zn dnskeys ds' ks"
  by (fastforce simp: anchored_def list_ex_iff)

text \<open>The fingerprint of a set of DS records tells the set.\<close>

lemma ds_print_set:
  assumes "ds_print ds = ds_print ds'"
  shows "set ds = set ds'"
proof -
  let ?f = "\<lambda>d :: ds_rd. (d_tag d, d_algorithm d, d_digest_type d, d_digest d)"
  have "?f ` set ds = ?f ` set ds'" using arg_cong [OF assms, of set] by (simp add: ds_print_def)
  moreover have "inj ?f" by (intro injI ds_rd.equality) auto
  ultimately show ?thesis by (simp add: inj_image_eq_iff)
qed

lemma key_set_ds: "key_set E zn ds keys \<Longrightarrow> set ds \<subseteq> set ds' \<Longrightarrow> key_set E zn ds' keys"
  unfolding key_set_def using anchored_mono by blast

subsection \<open>Cached entries\<close>

lemma cached_mem: "cached E k d = (r, d') \<Longrightarrow> set d' \<subseteq> set d \<and> (\<forall>x. r = Some x \<longrightarrow> (k, x) \<in> set d)"
  by (auto simp: cached_def od_get_def od_pop_def split: option.splits if_splits dest: map_of_SomeD)

lemma od_set_mem: "set (od_set k v d) \<subseteq> insert (k, v) (set d)"
  by (induction d) (auto split: if_splits)

lemma vstore_mem: "set (vstore E k e v n d) \<subseteq> insert (k, e, v) (set d)"
  using od_set_mem [of k "(e, v)" d] od_set_mem [of k "(e, v)" "filter (\<lambda>(_, x, _). \<not> x \<le> e_mono E) d"]
  by (auto simp: vstore_def Let_def)

lemma cache_ok_keys:
  assumes "cache_ok E st" "set d \<subseteq> insert (k, e, keys) (set (v_keys st))"
    and "k = (to_text False zn, ds_print ds)" "wf_name zn" "key_set E zn ds keys"
  shows "cache_ok E (st\<lparr>v_keys := d\<rparr>)"
proof -
  have "key_entry E (k, e, keys)" using assms(3-5) by (auto simp: key_entry_def)
  then show ?thesis using assms(1,2) by (auto simp: cache_ok_def)
qed

lemma cache_ok_sub_keys: "cache_ok E st \<Longrightarrow> set d \<subseteq> set (v_keys st) \<Longrightarrow> cache_ok E (st\<lparr>v_keys := d\<rparr>)"
  by (auto simp: cache_ok_def)

lemma cache_ok_sub_trust: "cache_ok E st \<Longrightarrow> set d \<subseteq> set (v_trust st) \<Longrightarrow> cache_ok E (st\<lparr>v_trust := d\<rparr>)"
  by (auto simp: cache_ok_def)

lemma cache_ok_trust:
  assumes "cache_ok E st" "set d \<subseteq> insert (to_text False n, e, tr) (set (v_trust st))"
    and "wf_name n" "trust_ok E n tr"
  shows "cache_ok E (st\<lparr>v_trust := d\<rparr>)"
proof -
  have "trust_entry E (to_text False n, e, tr)" using assms(3,4) by (auto simp: trust_entry_def)
  then show ?thesis using assms(1,2) by (auto simp: cache_ok_def)
qed

lemma fetch_keys_spec:
  assumes "wf_name zn"
  shows "vspec (cache_ok E) (fetch_keys E zn ds) (\<lambda>(keys, u). key_set E zn ds keys)"
  unfolding fetch_keys_def
proof (rule vspec_bind [OF vspec_chain_query], rule vspec_bind [OF vspec_lift], rule vspec_bind [OF vspec_lift])
  fix msg :: message and sigs :: "rrsig list"
  let ?dk = "typed_at as_dnskey T_DNSKEY zn (answers msg)"
  let ?exp = "\<lambda>sg. expiry E (filter (\<lambda>rr. rr_type rr = T_DNSKEY \<and> name_eq (rr_name rr) zn) (answers msg)) [sg]"
  let ?store = "\<lambda>sg st. (Inr (zone_keys ?dk, ?exp sg),
    st\<lparr>v_keys := vstore E (to_text False zn, ds_print ds) (?exp sg) (zone_keys ?dk) 4096 (v_keys st)\<rparr>)"
  have store: "vspec (cache_ok E) (?store sg) (\<lambda>(keys, u). key_set E zn ds keys)"
    if "key_set E zn ds (zone_keys ?dk)" for sg
    using that cache_ok_keys [OF _ vstore_mem refl assms that] by (simp add: vspec_def)
  have "vspec (cache_ok E) (vbind (anchored_key E zn ?dk (strong_ds ds) sigs (zone_keys ?dk)) (\<lambda>r.
      case r of None \<Rightarrow> vraise DNSSECError | Some sg \<Rightarrow> ?store sg)) (\<lambda>(keys, u). key_set E zn ds keys)"
  proof (rule vspec_bind [OF anchored_key_spec])
    fix r :: "rrsig option"
    assume r: "r \<noteq> None \<longrightarrow> anchored E zn ?dk (strong_ds ds) (zone_keys ?dk)"
    show "vspec (cache_ok E) (case r of None \<Rightarrow> vraise DNSSECError | Some sg \<Rightarrow> ?store sg) (\<lambda>(keys, u). key_set E zn ds keys)"
    proof (cases r)
      case (Some sg)
      then have "key_set E zn ds (zone_keys ?dk)" using r anchored_mono [OF _ set_strong_ds] by (auto simp: key_set_def)
      with Some store show ?thesis by simp
    qed (simp add: vspec_raise)
  qed
  then show "vspec (cache_ok E)
      (let dnskeys = ?dk; usable = zone_keys dnskeys
       in if dnskeys = [] \<or> sigs = [] then vraise DNSSECError
          else vbind (anchored_key E zn dnskeys (strong_ds ds) sigs usable) (\<lambda>r.
            case r of
              None \<Rightarrow> vraise DNSSECError
            | Some sg \<Rightarrow>
                (let until = expiry E (filter (\<lambda>rr. rr_type rr = T_DNSKEY \<and> name_eq (rr_name rr) zn) (answers msg)) [sg]
                 in (\<lambda>st. (Inr (usable, until),
                       st\<lparr>v_keys := vstore E (to_text False zn, ds_print ds) until usable 4096 (v_keys st)\<rparr>)))))
      (\<lambda>(keys, u). key_set E zn ds keys)"
    by (simp add: Let_def vspec_raise)
qed

lemma keys_exp_spec:
  assumes "wf_name zn"
  shows "vspec (cache_ok E) (keys_exp E zn ds) (\<lambda>(keys, u). key_set E zn ds keys)"
proof -
  have "cache_ok E (snd (keys_exp E zn ds st)) \<and> (\<forall>x. fst (keys_exp E zn ds st) = Inr x \<longrightarrow> (case x of (keys, u) \<Rightarrow> key_set E zn ds keys))"
    if i: "cache_ok E st" for st
  proof -
    obtain hit d where c: "cached E (to_text False zn, ds_print ds) (v_keys st) = (hit, d)" by fastforce
    note m = cached_mem [OF c]
    have ok: "cache_ok E (st\<lparr>v_keys := d\<rparr>)" using cache_ok_sub_keys [OF i] m by blast
    show ?thesis
    proof (cases hit)
      case None
      then show ?thesis using c ok fetch_keys_spec [OF assms, of E ds] by (simp add: keys_exp_def vspec_def)
    next
      case (Some x)
      obtain u ks where x: "x = (u, ks)" by (cases x)
      then have "((to_text False zn, ds_print ds), u, ks) \<in> set (v_keys st)" using m Some by blast
      then obtain zn' ds' where e: "wf_name zn'" "to_text False zn = to_text False zn'" "ds_print ds = ds_print ds'"
        "key_set E zn' ds' ks" using i by (fastforce simp: cache_ok_def key_entry_def)
      have "zn = zn'" using to_text_inj [OF assms e(1,2)] .
      then have "key_set E zn ds ks" using e(4) ds_print_set [OF e(3)] key_set_ds by blast
      then show ?thesis using c ok by (simp add: keys_exp_def Some x)
    qed
  qed
  then show ?thesis by (simp add: vspec_def)
qed

lemma verify_keys_spec:
  "vspec (cache_ok E) (verify_keys E so t rds sg ks) (\<lambda>ok. ok \<longrightarrow>
     (\<exists>k \<in> set ks. verify_rrset (e_verify E) (e_now E) so t 1 rds sg k = Inr True))"
proof (induction ks)
  case (Cons k ks)
  have rest: "vspec (cache_ok E) (verify_keys E so t rds sg ks) (\<lambda>ok. ok \<longrightarrow>
      (\<exists>k \<in> set (k # ks). verify_rrset (e_verify E) (e_now E) so t 1 rds sg k = Inr True))"
    by (rule vspec_weaken [OF Cons]) auto
  let ?v = "verify_rrset (e_verify E) (e_now E) so t 1 rds sg k"
  have "vspec (cache_ok E) (vbind sign_op (\<lambda>_. vbind (vlift ?v) (\<lambda>ok. if ok then vret True else verify_keys E so t rds sg ks)))
      (\<lambda>ok. ok \<longrightarrow> (\<exists>k \<in> set (k # ks). verify_rrset (e_verify E) (e_now E) so t 1 rds sg k = Inr True))"
  proof (rule vspec_bind [OF vspec_sign_op], rule vspec_bind [OF vspec_lift])
    fix ok
    assume v: "?v = Inr ok"
    show "vspec (cache_ok E) (if ok then vret True else verify_keys E so t rds sg ks)
      (\<lambda>ok. ok \<longrightarrow> (\<exists>k \<in> set (k # ks). verify_rrset (e_verify E) (e_now E) so t 1 rds sg k = Inr True))"
    proof (cases ok)
      case True
      with v show ?thesis by (simp add: vspec_ret)
    next
      case False
      with rest show ?thesis by simp
    qed
  qed
  with rest show ?case by simp
qed (simp add: vspec_ret)

lemma verify_sigs_spec:
  assumes "rds \<noteq> []"
  shows "vspec (cache_ok E) (verify_sigs E owner t rds keys zn sgs) (\<lambda>(ok, ex). ok \<longrightarrow> signed_set E zn keys owner t rds ex)"
proof (induction sgs)
  case Nil
  show ?case by (simp add: vspec_ret)
next
  case (Cons sg sgs)
  show ?case
  proof (cases "name_eq (g_signer sg) zn \<and> wildcard_owner owner sg \<noteq> None")
    case False
    with Cons show ?thesis by (auto split: option.split)
  next
    case True
    then obtain so ex where w: "wildcard_owner owner sg = Some (so, ex)" by auto
    let ?ks = "filter (\<lambda>k. key_tag k = g_tag sg) keys"
    have "vspec (cache_ok E) (vbind (verify_keys E so t rds sg ?ks) (\<lambda>ok.
        if ok then vret (True, if ex then Some so else None) else verify_sigs E owner t rds keys zn sgs))
        (\<lambda>(ok, ex). ok \<longrightarrow> signed_set E zn keys owner t rds ex)"
    proof (rule vspec_bind [OF verify_keys_spec])
      fix ok
      assume v: "ok \<longrightarrow> (\<exists>k \<in> set ?ks. verify_rrset (e_verify E) (e_now E) so t 1 rds sg k = Inr True)"
      show "vspec (cache_ok E) (if ok then vret (True, if ex then Some so else None) else verify_sigs E owner t rds keys zn sgs)
        (\<lambda>(ok, ex). ok \<longrightarrow> signed_set E zn keys owner t rds ex)"
      proof (cases ok)
        case True
        with v obtain k where k: "k \<in> set keys" "key_tag k = g_tag sg"
          "verify_rrset (e_verify E) (e_now E) so t 1 rds sg k = Inr True" by auto
        have "signed_set E zn keys owner t rds (if ex then Some so else None)"
          unfolding signed_set_def using assms k w \<open>name_eq (g_signer sg) zn \<and> _\<close>
          by (intro conjI exI [of _ "e_now E"] exI [of _ k] exI [of _ sg] exI [of _ so] exI [of _ ex]) simp_all
        with True show ?thesis by (simp add: vspec_ret)
      next
        case False
        with Cons show ?thesis by simp
      qed
    qed
    with True w show ?thesis by simp
  qed
qed

lemma verify_set_spec:
  "vspec (cache_ok E) (verify_set E owner t rds sigs keys zn) (\<lambda>(ok, ex). ok \<longrightarrow> signed_set E zn keys owner t rds ex)"
proof (cases "rds = []")
  case True
  then show ?thesis by (simp add: verify_set_def vspec_ret)
next
  case False
  then show ?thesis by (simp add: verify_set_def verify_sigs_spec)
qed

lemma verified_sets_spec:
  assumes "\<forall>(owner, rds) \<in> set gs. \<forall>rd \<in> set rds. drawn auth t (owner, rd)"
  shows "vspec (cache_ok E) (verified_sets E t auth keys zn gs) (list_all (signed_pair E zn keys auth t))"
  using assms
proof (induction gs)
  case Nil
  show ?case by (simp add: vspec_ret)
next
  case (Cons g gs)
  obtain owner rds where g: "g = (owner, rds)" by (cases g)
  have IH: "vspec (cache_ok E) (verified_sets E t auth keys zn gs) (list_all (signed_pair E zn keys auth t))"
    using Cons by simp
  show ?case unfolding g verified_sets.simps
  proof (rule vspec_bind [OF vspec_lift], rule vspec_bind [OF verify_set_spec])
    fix mine x
    assume x: "case x of (ok, ex) \<Rightarrow> ok \<longrightarrow> signed_set E zn keys owner t rds ex"
    obtain ok ex where xe: "x = (ok, ex)" by (cases x)
    have h: "list_all (signed_pair E zn keys auth t) (if ok \<and> ex = None then map (Pair owner) rds else [])"
      using x Cons.prems by (auto simp: xe g list_all_iff signed_pair_def)
    show "vspec (cache_ok E) (case x of (ok, expanded) \<Rightarrow> vbind (verified_sets E t auth keys zn gs) (\<lambda>more_rds.
        vret ((if ok \<and> expanded = None then map (Pair owner) rds else []) @ more_rds))) (list_all (signed_pair E zn keys auth t))"
      unfolding xe prod.case by (rule vspec_bind [OF IH], rule vspec_ret) (use h in simp)
  qed
qed

definition group_ok :: "rr list \<Rightarrow> int \<Rightarrow> bytes \<times> name \<times> rdata list \<Rightarrow> bool" where
  "group_ok auth t x \<longleftrightarrow> (case x of (k, owner, rds) \<Rightarrow> k = name_key owner \<and> (\<exists>rr \<in> set auth. rr_name rr = owner) \<and>
     (\<forall>rd \<in> set rds. drawn auth t (owner, rd)))"

lemma file_owner_ok:
  assumes d: "\<forall>x \<in> set d. group_ok auth t x" and r: "rr \<in> set auth" "rr_type rr = t"
  shows "\<forall>x \<in> set (file_owner (rr_name rr) (rr_rdata rr) d). group_ok auth t x"
proof -
  obtain owner rds where o: "(owner, rds) = (case od_get (name_key (rr_name rr)) d of Some x \<Rightarrow> x | None \<Rightarrow> (rr_name rr, []))"
    by (metis surj_pair)
  have old: "group_ok auth t (name_key (rr_name rr), owner, rds)"
  proof (cases "od_get (name_key (rr_name rr)) d")
    case None
    with o r show ?thesis by (auto simp: group_ok_def)
  next
    case (Some x)
    with o have "(name_key (rr_name rr), owner, rds) \<in> set d" by (auto simp: od_get_def dest: map_of_SomeD)
    with d show ?thesis by blast
  qed
  then have "drawn auth t (owner, rr_rdata rr)" using r by (auto simp: group_ok_def drawn_def name_eq_def)
  with old have new: "group_ok auth t (name_key (rr_name rr), owner, rds @ [rr_rdata rr])" by (auto simp: group_ok_def)
  have "file_owner (rr_name rr) (rr_rdata rr) d = od_set (name_key (rr_name rr)) (owner, rds @ [rr_rdata rr]) d"
    unfolding file_owner_def o [symmetric] by simp
  then show ?thesis using new d od_set_mem [of "name_key (rr_name rr)" "(owner, rds @ [rr_rdata rr])" d] by auto
qed

lemma by_owner_drawn:
  "\<forall>(owner, rds) \<in> set (map snd (by_owner f t auth)). \<forall>rd \<in> set rds. drawn auth t (owner, rd)"
proof -
  have "\<forall>x \<in> set (by_owner f t auth). group_ok auth t x"
    unfolding by_owner_def
  proof (rule fold_invariant [where Q = "\<lambda>rr. rr \<in> set auth" and P = "\<lambda>d. \<forall>x \<in> set d. group_ok auth t x"])
    fix rr d
    assume "rr \<in> set auth" "\<forall>x \<in> set d. group_ok auth t x"
    then show "\<forall>x \<in> set (if rr_type rr = t \<and> f (rr_rdata rr) \<noteq> None then file_owner (rr_name rr) (rr_rdata rr) d else d).
        group_ok auth t x"
      using file_owner_ok [of d auth t rr] by simp
  qed simp_all
  then show ?thesis by (fastforce simp: group_ok_def)
qed

lemma denial_records_spec:
  "vspec (cache_ok E) (denial_records E auth zn keys) (\<lambda>(nsecs, n3). signed_denial E zn keys auth nsecs n3)"
  unfolding denial_records_def
proof (rule vspec_bind [OF verified_sets_spec [OF by_owner_drawn]], rule vspec_bind [OF verified_sets_spec [OF by_owner_drawn]])
  fix ns n3
  assume h: "list_all (signed_pair E zn keys auth T_NSEC) ns" "list_all (signed_pair E zn keys auth T_NSEC3) n3"
  show "vspec (cache_ok E)
     (let n3s = typed_pairs as_nsec3 n3; s = nsec3_set_of n3s zn (e_max_iterations E)
      in vret (typed_pairs as_nsec ns, if n3s \<noteq> [] \<and> s_usable s then Some s else None))
     (\<lambda>(nsecs, n3). signed_denial E zn keys auth nsecs n3)"
    unfolding Let_def by (rule vspec_ret) (use h in \<open>auto simp: signed_denial_def\<close>)
qed

subsection \<open>The descent\<close>

lemma anc_refl: "anc n n"
  by (simp add: anc_def)

lemma anc_Cons: "anc n up \<Longrightarrow> anc n (la # up)"
  by (auto simp: anc_def canon_key_def)

definition delegation_ok :: "venv \<Rightarrow> name \<Rightarrow> name \<Rightarrow> dnskey list \<Rightarrow> delegation \<Rightarrow> bool" where
  "delegation_ok E child zn keys d \<longleftrightarrow> (case d of
       Signed_child ks \<Rightarrow> (\<exists>rds. signed_set E zn keys child T_DS rds None \<and>
         key_set E child (usable_ds (somes (map as_ds rds))) ks)
     | Unsigned_child \<Rightarrow> no_ds E zn keys child Insecure_cut \<or>
         (\<exists>rds. signed_set E zn keys child T_DS rds None \<and> usable_ds (somes (map as_ds rds)) = [])
     | Same_zone \<Rightarrow> no_ds E zn keys child No_cut)"

lemma somes_filter: "somes (map f (filter (\<lambda>x. f x \<noteq> None) xs)) = somes (map f xs)"
  by (induction xs) (auto simp: somes_def)

lemma somes_typed:
  "somes (map f (filter (\<lambda>rd. f rd \<noteq> None) (map rr_rdata (filter P rrs))))
     = somes (map (\<lambda>rr. if P rr then f (rr_rdata rr) else None) rrs)"
  by (induction rrs) (auto simp: somes_def)

lemma signed_delegation_spec:
  assumes "wf_name child" "ds = typed_at as_ds T_DS child (answers msg)"
  shows "vspec (cache_ok E) (signed_delegation E child zn keys msg ds) (\<lambda>(d, u). delegation_ok E child zn keys d)"
  unfolding signed_delegation_def
proof (rule vspec_bind [OF vspec_lift], rule vspec_bind [OF verify_set_spec], clarify)
  fix sigs :: "rrsig list" and ok and ex :: "name option"
  let ?rds = "filter (\<lambda>rd. as_ds rd \<noteq> None)
    (map rr_rdata (filter (\<lambda>rr. rr_type rr = T_DS \<and> name_eq (rr_name rr) child) (answers msg)))"
  let ?e = "expiry E (filter (\<lambda>rr. rr_type rr = T_DS \<and> name_eq (rr_name rr) child) (answers msg)) sigs"
  assume s: "ok \<longrightarrow> signed_set E zn keys child T_DS ?rds ex"
  have ds: "ds = somes (map as_ds ?rds)" unfolding assms(2) typed_at_def somes_typed ..
  show "vspec (cache_ok E) (if \<not> ok \<or> ex \<noteq> None then vraise DNSSECError
       else let ds_exp = ?e in if usable_ds ds = [] then vret (Unsigned_child, ds_exp)
         else vbind (keys_exp E child (usable_ds ds)) (\<lambda>(keys, kexp). vret (Signed_child keys, min kexp ds_exp)))
      (\<lambda>(d, u). delegation_ok E child zn keys d)"
  proof (cases "ok \<and> ex = None")
    case False
    then show ?thesis by (simp add: vspec_raise)
  next
    case True
    with s have sg: "signed_set E zn keys child T_DS ?rds None" by simp
    show ?thesis
    proof (cases "usable_ds ds = []")
      case u: True
      have "delegation_ok E child zn keys Unsigned_child"
        using sg u unfolding ds delegation_ok_def by auto
      with True u show ?thesis by (simp add: vspec_ret)
    next
      case u: False
      have "vspec (cache_ok E) (vbind (keys_exp E child (usable_ds ds)) (\<lambda>(keys, kexp). vret (Signed_child keys, min kexp ?e)))
          (\<lambda>(d, u). delegation_ok E child zn keys d)"
      proof (rule vspec_bind [OF keys_exp_spec [OF assms(1)]], clarify)
        fix ks kexp
        assume "key_set E child (usable_ds ds) ks"
        then have "delegation_ok E child zn keys (Signed_child ks)" using sg unfolding ds delegation_ok_def by auto
        then show "vspec (cache_ok E) (vret (Signed_child ks, min kexp ?e)) (\<lambda>(d, u). delegation_ok E child zn keys d)"
          by (simp add: vspec_ret)
      qed
      with True u show ?thesis by simp
    qed
  qed
qed

lemma denied_delegation_spec:
  "vspec (cache_ok E) (denied_delegation E child zn keys msg) (\<lambda>(d, u). delegation_ok E child zn keys d)"
  unfolding denied_delegation_def
proof (rule vspec_bind [OF denial_records_spec], clarify)
  fix nsecs n3
  assume s: "signed_denial E zn keys (authority msg) nsecs n3"
  define v1 where "v1 = (if nsecs \<noteq> [] then nsec_ds_denial child nsecs else None)"
  define v where "v = (case v1 of Some v \<Rightarrow> Some v
    | None \<Rightarrow> (case n3 of None \<Rightarrow> None | Some s \<Rightarrow> nsec3_ds_denial (e_sha1 E) child s))"
  have n: "no_ds E zn keys child x" if "v = Some x" for x
    using that s unfolding no_ds_def v_def v1_def by (auto split: option.splits if_splits)
  let ?ev = "filter (\<lambda>rr. rr_type rr \<in> {T_NSEC, T_NSEC3, T_RRSIG}) (authority msg)"
  let ?u = "expiry E ?ev (somes (map (\<lambda>rr. as_rrsig (rr_rdata rr)) ?ev))"
  have "vspec (cache_ok E) (case v of None \<Rightarrow> vraise DNSSECError | Some Insecure_cut \<Rightarrow> vret (Unsigned_child, ?u)
      | Some No_cut \<Rightarrow> vret (Same_zone, ?u)) (\<lambda>(d, u). delegation_ok E child zn keys d)"
  proof (cases v)
    case (Some x)
    with n [OF Some] show ?thesis by (cases x) (simp_all add: vspec_ret delegation_ok_def)
  qed (simp add: vspec_raise)
  then show "vspec (cache_ok E)
      (let v1 = (if nsecs \<noteq> [] then nsec_ds_denial child nsecs else None);
           verdict = (case v1 of Some v \<Rightarrow> Some v
                      | None \<Rightarrow> (case n3 of None \<Rightarrow> None | Some s \<Rightarrow> nsec3_ds_denial (e_sha1 E) child s));
           evidence = ?ev; until = expiry E evidence (somes (map (\<lambda>rr. as_rrsig (rr_rdata rr)) evidence))
       in case verdict of
            None \<Rightarrow> vraise DNSSECError
          | Some Insecure_cut \<Rightarrow> vret (Unsigned_child, until)
          | Some No_cut \<Rightarrow> vret (Same_zone, until)) (\<lambda>(d, u). delegation_ok E child zn keys d)"
    by (simp only: Let_def v_def v1_def)
qed

lemma delegation_of_spec:
  assumes "wf_name child"
  shows "vspec (cache_ok E) (delegation_of E child zn keys) (\<lambda>(d, u). delegation_ok E child zn keys d)"
  unfolding delegation_of_def
proof (rule vspec_bind [OF vspec_chain_query], rule vspec_bind [OF vspec_lift])
  fix msg :: message
  show "vspec (cache_ok E) (let ds = typed_at as_ds T_DS child (answers msg)
       in if ds \<noteq> [] then signed_delegation E child zn keys msg ds else denied_delegation E child zn keys msg)
      (\<lambda>(d, u). delegation_ok E child zn keys d)"
    using signed_delegation_spec [OF assms refl] denied_delegation_spec by (simp add: Let_def)
qed

lemma delegation_trust:
  assumes "delegation_ok E (la # up) zn keys d" "trusted E zn keys" "anc zn up"
  shows "trust_ok E (la # up) (case d of Signed_child ks \<Rightarrow> Secure_zone (la # up) ks
    | Unsigned_child \<Rightarrow> Insecure_at (la # up) | Same_zone \<Rightarrow> Secure_zone zn keys)"
proof (cases d)
  case (Signed_child ks)
  then obtain rds where "signed_set E zn keys (la # up) T_DS rds None"
    "key_set E (la # up) (usable_ds (somes (map as_ds rds))) ks" using assms(1) by (auto simp: delegation_ok_def)
  then have "trusted E (la # up) ks" using assms(2,3) by (blast intro: trusted.child)
  with Signed_child show ?thesis by (simp add: trust_ok_def anc_refl)
next
  case Unsigned_child
  then have "insecure_cut E (la # up)" using assms unfolding delegation_ok_def insecure_cut_def by auto
  with Unsigned_child show ?thesis by (simp add: trust_ok_def anc_refl)
next
  case Same_zone
  with assms show ?thesis by (simp add: trust_ok_def anc_Cons)
qed

lemma memo_trust_spec:
  assumes "wf_name n" and b: "vspec (cache_ok E) body (\<lambda>(u, tr). trust_ok E n tr)"
  shows "vspec (cache_ok E) (memo_trust E n body) (\<lambda>(u, tr). trust_ok E n tr)"
proof -
  let ?keep = "\<lambda>(until, out) st. (Inr (until, out),
    st\<lparr>v_trust := vstore E (to_text False n) until out 8192 (v_trust st)\<rparr>)"
  have k: "vspec (cache_ok E) (vbind body ?keep) (\<lambda>(u, tr). trust_ok E n tr)"
  proof (rule vspec_bind [OF b], clarify)
    fix u tr
    assume t: "trust_ok E n tr"
    show "vspec (cache_ok E) (\<lambda>st. (Inr (u, tr), st\<lparr>v_trust := vstore E (to_text False n) u tr 8192 (v_trust st)\<rparr>))
      (\<lambda>(u, tr). trust_ok E n tr)"
      using t cache_ok_trust [OF _ vstore_mem assms(1) t] by (simp add: vspec_def)
  qed
  have "cache_ok E (snd (memo_trust E n body st)) \<and>
      (\<forall>x. fst (memo_trust E n body st) = Inr x \<longrightarrow> (case x of (u, tr) \<Rightarrow> trust_ok E n tr))"
    if i: "cache_ok E st" for st
  proof -
    obtain hit d where c: "cached E (to_text False n) (v_trust st) = (hit, d)" by fastforce
    note m = cached_mem [OF c]
    have ok: "cache_ok E (st\<lparr>v_trust := d\<rparr>)" using cache_ok_sub_trust [OF i] m by blast
    show ?thesis
    proof (cases hit)
      case None
      let ?st = "st\<lparr>v_trust := d\<rparr>"
      have "cache_ok E (snd (vbind body ?keep ?st)) \<and>
          (\<forall>x. fst (vbind body ?keep ?st) = Inr x \<longrightarrow> (case x of (u, tr) \<Rightarrow> trust_ok E n tr))"
        using k ok unfolding vspec_def by blast
      moreover have "memo_trust E n body st = (if length n > MAX_DEPTH then (Inl DNSSECError, ?st) else vbind body ?keep ?st)"
        using c None by (simp add: memo_trust_def)
      ultimately show ?thesis using ok by simp
    next
      case (Some x)
      obtain u tr where x: "x = (u, tr)" by (cases x)
      then have "(to_text False n, u, tr) \<in> set (v_trust st)" using m Some by blast
      then have "trust_entry E (to_text False n, u, tr)" using i by (simp add: cache_ok_def)
      then obtain n' where "wf_name n'" "to_text False n = to_text False n'" "trust_ok E n' tr"
        by (auto simp: trust_entry_def)
      then have "trust_ok E n tr" using to_text_inj [OF assms(1)] by metis
      then show ?thesis using c ok by (simp add: memo_trust_def Some x)
    qed
  qed
  then show ?thesis by (simp add: vspec_def)
qed

lemma trust_of_spec: "wf_name n \<Longrightarrow> vspec (cache_ok E) (trust_of E n) (\<lambda>(u, tr). trust_ok E n tr)"
proof (induction n)
  case Nil
  have "vspec (cache_ok E) (vbind (keys_exp E [] (e_anchors E)) (\<lambda>(keys, until). vret (until, Secure_zone [] keys)))
      (\<lambda>(u, tr). trust_ok E [] tr)"
  proof (rule vspec_bind [OF keys_exp_spec [OF Nil]], clarify)
    fix keys u
    assume "key_set E [] (e_anchors E) keys"
    then have "trust_ok E [] (Secure_zone [] keys)" by (simp add: trust_ok_def trusted.anchor anc_refl)
    then show "vspec (cache_ok E) (vret (u, Secure_zone [] keys)) (\<lambda>(u, tr). trust_ok E [] tr)" by (simp add: vspec_ret)
  qed
  then show ?case by (simp add: memo_trust_spec [OF Nil])
next
  case (Cons la up)
  have wf: "wf_name up" using wf_name_Cons [OF Cons.prems] by blast
  let ?f = "\<lambda>(until, tr). case tr of
        Insecure_at z \<Rightarrow> vret (until, Insecure_at z)
      | Secure_zone zn keys \<Rightarrow> vbind (delegation_of E (la # up) zn keys) (\<lambda>(kind, own).
          vret (min until own, case kind of
              Signed_child ks \<Rightarrow> Secure_zone (la # up) ks
            | Unsigned_child \<Rightarrow> Insecure_at (la # up)
            | Same_zone \<Rightarrow> Secure_zone zn keys))"
  have "vspec (cache_ok E) (vbind (trust_of E up) ?f) (\<lambda>(u, tr). trust_ok E (la # up) tr)"
  proof (rule vspec_bind [OF Cons.IH [OF wf]], clarify)
    fix u tr
    assume t: "trust_ok E up tr"
    show "vspec (cache_ok E) (case tr of
        Insecure_at z \<Rightarrow> vret (u, Insecure_at z)
      | Secure_zone zn keys \<Rightarrow> vbind (delegation_of E (la # up) zn keys) (\<lambda>(kind, own).
          vret (min u own, case kind of
              Signed_child ks \<Rightarrow> Secure_zone (la # up) ks
            | Unsigned_child \<Rightarrow> Insecure_at (la # up)
            | Same_zone \<Rightarrow> Secure_zone zn keys))) (\<lambda>(u, tr). trust_ok E (la # up) tr)"
    proof (cases tr)
      case (Insecure_at z)
      with t have "trust_ok E (la # up) (Insecure_at z)" by (simp add: trust_ok_def anc_Cons)
      with Insecure_at show ?thesis by (simp add: vspec_ret)
    next
      case (Secure_zone zn keys)
      then have z: "trusted E zn keys" "anc zn up" using t by (simp_all add: trust_ok_def)
      have "vspec (cache_ok E) (vbind (delegation_of E (la # up) zn keys) (\<lambda>(kind, own).
          vret (min u own, case kind of
              Signed_child ks \<Rightarrow> Secure_zone (la # up) ks
            | Unsigned_child \<Rightarrow> Insecure_at (la # up)
            | Same_zone \<Rightarrow> Secure_zone zn keys))) (\<lambda>(u, tr). trust_ok E (la # up) tr)"
      proof (rule vspec_bind [OF delegation_of_spec [OF Cons.prems]], clarify)
        fix kind :: delegation and own :: rat
        assume "delegation_ok E (la # up) zn keys kind"
        from delegation_trust [OF this z]
        show "vspec (cache_ok E) (vret (min u own, case kind of
              Signed_child ks \<Rightarrow> Secure_zone (la # up) ks
            | Unsigned_child \<Rightarrow> Insecure_at (la # up)
            | Same_zone \<Rightarrow> Secure_zone zn keys)) (\<lambda>(u, tr). trust_ok E (la # up) tr)" by (simp add: vspec_ret)
      qed
      with Secure_zone show ?thesis by simp
    qed
  qed
  then show ?case by (simp add: memo_trust_spec [OF Cons.prems])
qed

lemma trust_at_spec: "wf_name n \<Longrightarrow> vspec (cache_ok E) (trust_at E n) (trust_ok E n)"
  unfolding trust_at_def by (rule vspec_bind [OF trust_of_spec]) (auto intro: vspec_ret)

subsection \<open>The verdicts\<close>

lemma anc_prefix: "anc a n \<longleftrightarrow> prefix (canon_key a) (canon_key n)"
  by (auto simp: anc_def prefix_def)

lemma anc_parent: "anc (parent n) n"
  by (cases n) (auto simp: parent_def anc_def canon_key_def)

lemma anc_trans: "anc a b \<Longrightarrow> anc b c \<Longrightarrow> anc a c"
  by (auto simp: anc_def)

lemma deepest_signer_some:
  "deepest_signer owner sigs = Some b \<Longrightarrow> is_subdomain_of owner b \<and> (\<exists>sg \<in> set sigs. b = g_signer sg)"
proof -
  let ?f = "\<lambda>sg best. if \<not> is_subdomain_of owner (g_signer sg) then best
    else (case best of None \<Rightarrow> Some (g_signer sg) | Some b \<Rightarrow> if length b < length (g_signer sg) then Some (g_signer sg) else best)"
  have "fold ?f sgs best = Some b \<Longrightarrow> best = Some b \<or> is_subdomain_of owner b \<and> (\<exists>sg \<in> set sgs. b = g_signer sg)"
    for sgs best
    by (induction sgs arbitrary: best) (fastforce split: if_splits option.splits)+
  then show "deepest_signer owner sigs = Some b \<Longrightarrow> ?thesis" unfolding deepest_signer_def by fastforce
qed

lemma trust_via_signer_spec:
  assumes "wf_name owner" "\<forall>sg \<in> set sigs. wf_name (g_signer sg)"
  shows "vspec (cache_ok E) (trust_via_signer E owner sigs)
    (\<lambda>tr. trust_ok E (case deepest_signer owner sigs of None \<Rightarrow> owner | Some b \<Rightarrow> b) tr)"
proof -
  have "wf_name (case deepest_signer owner sigs of None \<Rightarrow> owner | Some b \<Rightarrow> b)"
  proof (cases "deepest_signer owner sigs")
    case (Some b)
    then show ?thesis using deepest_signer_some [OF Some] assms(2) by auto
  qed (simp add: assms(1))
  then show ?thesis unfolding trust_via_signer_def by (rule trust_at_spec)
qed

lemma target_anc:
  assumes "wf_name owner" "\<forall>sg \<in> set sigs. wf_name (g_signer sg)"
  shows "anc (case deepest_signer owner sigs of None \<Rightarrow> owner | Some b \<Rightarrow> b) owner"
proof (cases "deepest_signer owner sigs")
  case (Some b)
  then have "is_subdomain_of owner b" "wf_name b" using deepest_signer_some assms(2) by blast+
  then show ?thesis using Some assms(1) by (simp add: subdomain_canon anc_prefix)
qed (simp add: anc_refl)

lemma trust_ok_anc: "trust_ok E a tr \<Longrightarrow> anc a n \<Longrightarrow> trust_ok E n tr"
  by (auto simp: trust_ok_def split: trust.splits intro: anc_trans)

definition held_by :: "name \<Rightarrow> int \<Rightarrow> name" where
  "held_by owner t = (if t = T_DS then parent owner else owner)"

lemma trust_for_spec:
  assumes "wf_name owner" "\<forall>sg \<in> set sigs. wf_name (g_signer sg)"
  shows "vspec (cache_ok E) (trust_for E owner t sigs) (trust_ok E (held_by owner t))"
proof (cases "t = T_DS")
  case True
  have "wf_name (parent owner)" unfolding parent_def using assms(1) by (rule wf_name_drop)
  with True show ?thesis by (simp add: trust_for_def held_by_def trust_at_spec)
next
  case False
  with vspec_weaken [OF trust_via_signer_spec [OF assms] trust_ok_anc [OF _ target_anc [OF assms]]]
  show ?thesis by (simp add: trust_for_def held_by_def)
qed

text \<open>What each verdict on an answer, and on a denial, must rest on.\<close>

definition answer_backed :: "venv \<Rightarrow> name \<Rightarrow> int \<Rightarrow> rdata list \<Rightarrow> rr list \<Rightarrow> validation \<Rightarrow> bool" where
  "answer_backed E owner t rds auth v \<longleftrightarrow> (case v of
       SECURE \<Rightarrow> \<exists>zn keys ex. trusted E zn keys \<and> anc zn (held_by owner t) \<and> signed_set E zn keys owner t rds ex \<and>
         (\<forall>e. ex = Some e \<longrightarrow> (\<exists>nsecs n3. signed_denial E zn keys auth nsecs n3 \<and> proves_expansion E owner e nsecs n3))
     | INSECURE \<Rightarrow> \<exists>z. insecure_cut E z \<and> anc z (held_by owner t)
     | _ \<Rightarrow> True)"

definition denial_backed :: "venv \<Rightarrow> name \<Rightarrow> int \<Rightarrow> int \<Rightarrow> rr list \<Rightarrow> validation \<Rightarrow> bool" where
  "denial_backed E qn t code auth v \<longleftrightarrow> (case v of
       SECURE \<Rightarrow> \<exists>zn keys nsecs n3. trusted E zn keys \<and> anc zn qn \<and> signed_denial E zn keys auth nsecs n3 \<and>
         proves_denial E qn t code nsecs n3
     | INSECURE \<Rightarrow> \<exists>z. insecure_cut E z \<and> anc z qn
     | _ \<Rightarrow> True)"

lemma judge_answer_spec:
  assumes "wf_name owner" "\<forall>sg \<in> set sigs. wf_name (g_signer sg)"
  shows "vspec (cache_ok E) (judge_answer E owner t rds sigs auth) (answer_backed E owner t rds auth)"
  unfolding judge_answer_def
proof (rule vspec_bind [OF trust_for_spec [OF assms]])
  fix tr
  assume t: "trust_ok E (held_by owner t) tr"
  show "vspec (cache_ok E) (case tr of Insecure_at _ \<Rightarrow> vret INSECURE
     | Secure_zone zn keys \<Rightarrow> vbind (verify_set E owner t rds sigs keys zn) (\<lambda>(ok, expanded).
         if \<not> ok then vret BOGUS
         else (case expanded of None \<Rightarrow> vret SECURE
               | Some e \<Rightarrow> vbind (denial_records E auth zn keys) (\<lambda>(nsecs, n3).
                   vret (if proves_expansion E owner e nsecs n3 then SECURE else BOGUS))))) (answer_backed E owner t rds auth)"
  proof (cases tr)
    case (Insecure_at z)
    with t have "answer_backed E owner t rds auth INSECURE" by (auto simp: answer_backed_def trust_ok_def)
    with Insecure_at show ?thesis by (simp add: vspec_ret)
  next
    case (Secure_zone zn keys)
    then have z: "trusted E zn keys" "anc zn (held_by owner t)" using t by (simp_all add: trust_ok_def)
    have bogus: "answer_backed E owner t rds auth BOGUS" by (simp add: answer_backed_def)
    have "vspec (cache_ok E) (vbind (verify_set E owner t rds sigs keys zn) (\<lambda>(ok, expanded).
         if \<not> ok then vret BOGUS
         else (case expanded of None \<Rightarrow> vret SECURE
               | Some e \<Rightarrow> vbind (denial_records E auth zn keys) (\<lambda>(nsecs, n3).
                   vret (if proves_expansion E owner e nsecs n3 then SECURE else BOGUS))))) (answer_backed E owner t rds auth)"
    proof (rule vspec_bind [OF verify_set_spec], clarify)
      fix ok :: bool and ex :: "name option"
      assume s: "ok \<longrightarrow> signed_set E zn keys owner t rds ex"
      show "vspec (cache_ok E) (if \<not> ok then vret BOGUS
         else (case ex of None \<Rightarrow> vret SECURE
               | Some e \<Rightarrow> vbind (denial_records E auth zn keys) (\<lambda>(nsecs, n3).
                   vret (if proves_expansion E owner e nsecs n3 then SECURE else BOGUS)))) (answer_backed E owner t rds auth)"
      proof (cases "\<not> ok")
        case True
        then show ?thesis by (simp add: vspec_ret bogus)
      next
        case ok: False
        then have s: "signed_set E zn keys owner t rds ex" using s by simp
        show ?thesis
        proof (cases ex)
          case None
          have "answer_backed E owner t rds auth SECURE" using z s None by (auto simp: answer_backed_def)
          with ok None show ?thesis by (simp add: vspec_ret)
        next
          case (Some e)
          have "vspec (cache_ok E) (vbind (denial_records E auth zn keys) (\<lambda>(nsecs, n3).
              vret (if proves_expansion E owner e nsecs n3 then SECURE else BOGUS))) (answer_backed E owner t rds auth)"
          proof (rule vspec_bind [OF denial_records_spec], clarify)
            fix nsecs n3
            assume d: "signed_denial E zn keys auth nsecs n3"
            have "answer_backed E owner t rds auth SECURE" if "proves_expansion E owner e nsecs n3"
              unfolding answer_backed_def validation.case
              by (intro exI conjI) (use z s d that Some in auto)
            with bogus show "vspec (cache_ok E) (vret (if proves_expansion E owner e nsecs n3 then SECURE else BOGUS))
              (answer_backed E owner t rds auth)" by (intro vspec_ret) simp
          qed
          with ok Some show ?thesis by simp
        qed
      qed
    qed
    with Secure_zone show ?thesis by simp
  qed
qed

lemma judge_denial_spec:
  assumes w: "wf_name qn" "\<forall>rr \<in> set auth. \<forall>sg. as_rrsig (rr_rdata rr) = Some sg \<longrightarrow> wf_name (g_signer sg)"
  shows "vspec (cache_ok E) (judge_denial E qn t auth code) (denial_backed E qn t code auth)"
  unfolding judge_denial_def
proof -
  let ?sigs = "somes (map (\<lambda>rr. as_rrsig (rr_rdata rr)) (filter (\<lambda>rr. rr_type rr = T_RRSIG) auth))"
  have g: "\<forall>sg \<in> set ?sigs. wf_name (g_signer sg)" using w(2) by (auto simp: somes_def split: option.splits)
  have v: "vspec (cache_ok E) (trust_via_signer E qn ?sigs) (trust_ok E qn)"
    by (rule vspec_weaken [OF trust_via_signer_spec [OF w(1) g]]) (rule trust_ok_anc [OF _ target_anc [OF w(1) g]])
  show "vspec (cache_ok E) (vbind (trust_via_signer E qn ?sigs) (\<lambda>tr. case tr of
       Insecure_at _ \<Rightarrow> vret INSECURE
     | Secure_zone zn keys \<Rightarrow> vbind (denial_records E auth zn keys) (\<lambda>(nsecs, n3).
         vret (if nsecs = [] \<and> n3 = None then BOGUS
               else if proves_denial E qn t code nsecs n3 then SECURE else BOGUS)))) (denial_backed E qn t code auth)"
  proof (rule vspec_bind [OF v])
    fix tr
    assume t: "trust_ok E qn tr"
    show "vspec (cache_ok E) (case tr of Insecure_at _ \<Rightarrow> vret INSECURE
     | Secure_zone zn keys \<Rightarrow> vbind (denial_records E auth zn keys) (\<lambda>(nsecs, n3).
         vret (if nsecs = [] \<and> n3 = None then BOGUS
               else if proves_denial E qn t code nsecs n3 then SECURE else BOGUS))) (denial_backed E qn t code auth)"
    proof (cases tr)
      case (Insecure_at z)
      with t have "denial_backed E qn t code auth INSECURE" by (auto simp: denial_backed_def trust_ok_def)
      with Insecure_at show ?thesis by (simp add: vspec_ret)
    next
      case (Secure_zone zn keys)
      have "vspec (cache_ok E) (vbind (denial_records E auth zn keys) (\<lambda>(nsecs, n3).
         vret (if nsecs = [] \<and> n3 = None then BOGUS
               else if proves_denial E qn t code nsecs n3 then SECURE else BOGUS))) (denial_backed E qn t code auth)"
      proof (rule vspec_bind [OF denial_records_spec], clarify)
        fix nsecs n3
        assume d: "signed_denial E zn keys auth nsecs n3"
        have "denial_backed E qn t code auth SECURE" if "proves_denial E qn t code nsecs n3"
          using t Secure_zone d that unfolding denial_backed_def trust_ok_def by auto
        moreover have "denial_backed E qn t code auth BOGUS" by (simp add: denial_backed_def)
        ultimately show "vspec (cache_ok E) (vret (if nsecs = [] \<and> n3 = None then BOGUS
            else if proves_denial E qn t code nsecs n3 then SECURE else BOGUS)) (denial_backed E qn t code auth)"
          by (intro vspec_ret) simp
      qed
      with Secure_zone show ?thesis by simp
    qed
  qed
qed

subsection \<open>Any sequence of validations\<close>

datatype request = Answer name int "rdata list" "rrsig list" "rr list" | Denial name int "rr list" int

fun serve :: "venv \<Rightarrow> request \<Rightarrow> validation vm" where
  "serve E (Answer owner t rds sigs auth) = validate E owner t rds sigs auth"
| "serve E (Denial qn t auth code) = validate_denial E qn t auth code"

fun serve_all :: "(venv \<times> request) list \<Rightarrow> vstate \<Rightarrow> vstate" where
  "serve_all [] st = st"
| "serve_all ((E, r) # rest) st = serve_all rest (snd (serve E r st))"

definition empty_caches :: vstate where
  "empty_caches = \<lparr>v_keys = [], v_trust = [], v_crypto = 0, v_queries = 0\<rparr>"

text \<open>The names of a request come from the wire, where only valid ones are read.\<close>

fun wf_request :: "request \<Rightarrow> bool" where
  "wf_request (Answer owner t rds sigs auth) \<longleftrightarrow> wf_name owner \<and> (\<forall>sg \<in> set sigs. wf_name (g_signer sg))"
| "wf_request (Denial qn t auth code) \<longleftrightarrow> wf_name qn \<and>
     (\<forall>rr \<in> set auth. \<forall>sg. as_rrsig (rr_rdata rr) = Some sg \<longrightarrow> wf_name (g_signer sg))"

fun subject :: "request \<Rightarrow> name" where
  "subject (Answer owner t rds sigs auth) = held_by owner t"
| "subject (Denial qn t auth code) = qn"

fun backed :: "venv \<Rightarrow> request \<Rightarrow> validation \<Rightarrow> bool" where
  "backed E (Answer owner t rds sigs auth) v = answer_backed E owner t rds auth v"
| "backed E (Denial qn t auth code) v = denial_backed E qn t code auth v"

lemma serve_judge:
  assumes j: "vspec (cache_ok E) m Q" and b: "Q BOGUS"
  shows "vspec (cache_ok E) (\<lambda>st. or_bogus (m (fresh_work E st))) Q"
proof -
  have "cache_ok E (snd (or_bogus (m (fresh_work E st)))) \<and> (\<forall>x. fst (or_bogus (m (fresh_work E st))) = Inr x \<longrightarrow> Q x)"
    if "cache_ok E st" for st
  proof -
    have "cache_ok E (fresh_work E st)" using that by (simp add: cache_ok_def fresh_work_def)
    then have "cache_ok E (snd (m (fresh_work E st)))" "\<forall>x. fst (m (fresh_work E st)) = Inr x \<longrightarrow> Q x"
      using j by (simp_all add: vspec_def)
    then show ?thesis using b
      by (cases "m (fresh_work E st)") (auto simp: or_bogus_def split: sum.split error.split)
  qed
  then show ?thesis by (simp add: vspec_def)
qed

lemma serve_spec: "wf_request r \<Longrightarrow> vspec (cache_ok E) (serve E r) (backed E r)"
proof (cases r)
  case (Answer owner t rds sigs auth)
  assume "wf_request r"
  then have "vspec (cache_ok E) (judge_answer E owner t rds sigs auth) (answer_backed E owner t rds auth)"
    using Answer by (simp add: judge_answer_spec)
  then have "vspec (cache_ok E) (\<lambda>st. or_bogus (judge_answer E owner t rds sigs auth (fresh_work E st))) (answer_backed E owner t rds auth)"
    by (rule serve_judge) (simp add: answer_backed_def)
  then show ?thesis by (simp add: Answer vspec_def validate_def)
next
  case (Denial qn t auth code)
  assume "wf_request r"
  then have "vspec (cache_ok E) (judge_denial E qn t auth code) (denial_backed E qn t code auth)"
    using Denial by (simp add: judge_denial_spec)
  then have "vspec (cache_ok E) (\<lambda>st. or_bogus (judge_denial E qn t auth code (fresh_work E st))) (denial_backed E qn t code auth)"
    by (rule serve_judge) (simp add: denial_backed_def)
  then show ?thesis by (simp add: Denial vspec_def validate_denial_def)
qed

lemma same_sets:
  assumes "same_validator E F"
  shows "key_set E = key_set F" "signed_set E = signed_set F" "signed_denial E = signed_denial F" "no_ds E = no_ds F"
proof -
  have f: "e_verify E = e_verify F" "e_digest E = e_digest F" "e_max_iterations E = e_max_iterations F" "e_sha1 E = e_sha1 F"
    using assms by (simp_all add: same_validator_def)
  have ss: "self_signed E = self_signed F" by (intro ext) (simp add: self_signed_def f)
  have dm: "ds_matches E = ds_matches F" by (intro ext) (simp add: ds_matches_def f)
  show "key_set E = key_set F" by (intro ext) (simp add: key_set_def anchored_def ss dm)
  show s: "signed_set E = signed_set F" by (intro ext) (simp add: signed_set_def f)
  have sp: "signed_pair E = signed_pair F" by (intro ext) (simp add: signed_pair_def s)
  show d: "signed_denial E = signed_denial F" by (intro ext) (simp only: signed_denial_def sp f)
  show "no_ds E = no_ds F" by (intro ext) (simp add: no_ds_def d f)
qed

lemma same_trusted:
  assumes "same_validator E F" "trusted E zn keys"
  shows "trusted F zn keys"
  using assms(2)
proof induction
  case (anchor keys)
  then show ?case using same_sets(1) [OF assms(1)] assms(1) by (intro trusted.anchor) (simp add: same_validator_def)
next
  case (child zn keys up la rds ks)
  then show ?case using same_sets [OF assms(1)] by (intro trusted.child [of F zn keys]) simp_all
qed

lemma same_validator_sym: "same_validator E F \<Longrightarrow> same_validator F E"
  by (simp add: same_validator_def)

lemma same_cache_ok:
  assumes "same_validator E F" "cache_ok E st"
  shows "cache_ok F st"
proof -
  have "trust_ok F n tr" if "trust_ok E n tr" for n tr
    using that same_trusted [OF assms(1)] same_sets [OF assms(1)]
    by (fastforce simp: trust_ok_def insecure_cut_def split: trust.splits)
  then have "trust_entry F x" if "trust_entry E x" for x using that by (auto simp: trust_entry_def)
  moreover have "key_entry F x" if "key_entry E x" for x using that same_sets [OF assms(1)] by (simp add: key_entry_def)
  ultimately show ?thesis using assms(2) by (auto simp: cache_ok_def)
qed

lemma serve_all_ok:
  assumes "\<forall>(F, r) \<in> set before. same_validator E F \<and> wf_request r" "cache_ok E st"
  shows "cache_ok E (serve_all before st)"
  using assms
proof (induction before arbitrary: st)
  case (Cons x rest)
  obtain F r where x: "x = (F, r)" by (cases x)
  then have s: "same_validator E F" "wf_request r" using Cons.prems(1) by auto
  then have "cache_ok F (snd (serve F r st))"
    using serve_spec [OF s(2), of F] same_cache_ok [OF s(1) Cons.prems(2)] by (simp add: vspec_def)
  then have "cache_ok E (snd (serve F r st))" using same_cache_ok same_validator_sym s(1) by blast
  then show ?case using Cons by (simp add: x)
qed simp

lemma empty_ok: "cache_ok E empty_caches"
  by (simp add: cache_ok_def empty_caches_def)

lemma verdict_backed:
  assumes "\<forall>(F, r) \<in> set before. same_validator E F \<and> wf_request r" "wf_request r"
    and "fst (serve E r (serve_all before empty_caches)) = Inr v"
  shows "backed E r v"
  using serve_spec [OF assms(2), of E] serve_all_ok [OF assms(1) empty_ok] assms(3) by (simp add: vspec_def)

text \<open>
  C3: after any sequence of validations, whatever the network sent, an answer is called secure only if
  keys that descend from the trust anchors signed it, of a zone at or above its name (above it, for
  DS), and a wildcard answer only with a denial of the exact name signed by the same keys.
\<close>

theorem secure_rests_on_chain:
  assumes "\<forall>(F, r) \<in> set before. same_validator E F \<and> wf_request r"
    and "wf_request (Answer owner t rds sigs auth)"
    and "fst (validate E owner t rds sigs auth (serve_all before empty_caches)) = Inr SECURE"
  shows "\<exists>zn keys ex. trusted E zn keys \<and> anc zn (if t = T_DS then parent owner else owner) \<and>
    signed_set E zn keys owner t rds ex \<and>
    (\<forall>e. ex = Some e \<longrightarrow> (\<exists>nsecs n3. signed_denial E zn keys auth nsecs n3 \<and> proves_expansion E owner e nsecs n3))"
  using verdict_backed [OF assms(1,2), of SECURE] assms(3)
  by (simp add: answer_backed_def held_by_def)

text \<open>
  C11: no answer and no denial is called insecure without an unsigned delegation above what it is about
  (above the owner's parent, for DS) that keys descending from the anchors vouch for, by a signed denial
  of DS or by a signed DS set that no supported algorithm can use: stripping signatures, keys or proofs
  from a response makes it bogus, never insecure.
\<close>

theorem insecure_is_proven:
  assumes "\<forall>(F, r) \<in> set before. same_validator E F \<and> wf_request r"
    and "wf_request r"
    and "fst (serve E r (serve_all before empty_caches)) = Inr INSECURE"
  shows "\<exists>z zn keys. z \<noteq> [] \<and> anc z (subject r) \<and> trusted E zn keys \<and> anc zn (parent z) \<and>
    (no_ds E zn keys z Insecure_cut \<or>
     (\<exists>rds. signed_set E zn keys z T_DS rds None \<and> usable_ds (somes (map as_ds rds)) = []))"
proof -
  have "backed E r INSECURE" by (rule verdict_backed [OF assms])
  then obtain z where z: "insecure_cut E z" "anc z (subject r)"
    by (cases r) (auto simp: answer_backed_def denial_backed_def)
  then obtain la up zn keys where c: "z = la # up" "trusted E zn keys" "anc zn up"
    "no_ds E zn keys z Insecure_cut \<or>
      (\<exists>rds. signed_set E zn keys z T_DS rds None \<and> usable_ds (somes (map as_ds rds)) = [])"
    unfolding insecure_cut_def by blast
  then have "anc zn (parent z)" "z \<noteq> []" by (simp_all add: parent_def)
  with c z(2) show ?thesis by blast
qed

text \<open>
  C10: an NXDOMAIN that is called secure is true, where what the trusted keys of the zones above the name
  signed are records of the chain of the world: nothing exists at or beneath the name, and no wildcard at
  its closest encloser could have answered in its stead.
\<close>

theorem secure_nxdomain_true:
  assumes "\<forall>(F, r) \<in> set before. same_validator E F \<and> wf_request r"
    and "wf_request (Denial qn t auth 3)"
    and "fst (validate_denial E qn t auth 3 (serve_all before empty_caches)) = Inr SECURE"
    and unforged: "\<And>zn keys nsecs n3. trusted E zn keys \<Longrightarrow> anc zn qn \<Longrightarrow> signed_denial E zn keys auth nsecs n3 \<Longrightarrow>
      honest_nsecs nsecs w qn \<and> (\<forall>s. n3 = Some s \<longrightarrow> honest_nsec3s (e_sha1 E) s w qn)"
  shows "(\<forall>x \<in> w_names w. \<not> prefix (canon_key qn) x) \<and>
    (\<forall>k. closest_at w (canon_key qn) k \<longrightarrow> take k (canon_key qn) @ [[0x2A]] \<notin> w_names w)"
proof -
  obtain zn keys nsecs n3 where d: "trusted E zn keys" "anc zn qn" "signed_denial E zn keys auth nsecs n3"
    "proves_denial E qn t 3 nsecs n3"
    using verdict_backed [OF assms(1,2), of SECURE] assms(3) by (auto simp: denial_backed_def)
  note h = unforged [OF d(1-3)]
  have n: "nonexistent w qn"
    using d(4) h plain.nx_sound [of nsecs w qn] hashed.nx_sound [of "e_sha1 E" _ w qn]
    by (auto simp: proves_denial_def split: option.splits)
  then show ?thesis using nonexistent_below [OF n] unfolding nonexistent_def by blast
qed

subsection \<open>Examples\<close>

text \<open>A root zone with one key, and cryptography that accepts everything.\<close>

definition ex_key :: dnskey where
  "ex_key = \<lparr>k_flags = 257, k_protocol = 3, k_algorithm = 15, k_key = [7]\<rparr>"

definition ex_sig :: "int \<Rightarrow> int \<Rightarrow> rrsig" where
  "ex_sig t n = \<lparr>g_type = t, g_algorithm = 15, g_labels = n, g_ttl = 3600, g_expiration = 200, g_inception = 50,
     g_tag = 2832, g_signer = [], g_signature = [1]\<rparr>"

definition ex_env :: venv where
  "ex_env = \<lparr>e_ask = (\<lambda>n t. if n = [] \<and> t = 48
       then Inr \<lparr>mid = 0, mflags = 0, questions = [],
         answers = [zrr [] 48 3600 (of_dnskey ex_key), zrr [] 46 3600 (Rd_RRSIG 48 15 0 3600 200 50 2832 [] [1])],
         authority = [], additional = [], medns = None\<rparr>
       else if n = [[101]] \<and> t = 43
       then Inr \<lparr>mid = 0, mflags = 0, questions = [],
         answers = [zrr [[101]] 43 3600 (Rd_DS 1 99 2 []), zrr [[101]] 46 3600 (Rd_RRSIG 43 15 1 3600 200 50 2832 [] [1])],
         authority = [], additional = [], medns = None\<rparr>
       else Inl OSError),
     e_anchors = [\<lparr>d_tag = 2832, d_algorithm = 15, d_digest_type = 2, d_digest = []\<rparr>],
     e_now = 100, e_mono = 0, e_verify = (\<lambda>_ _ _. True), e_digest = (\<lambda>_ _. []), e_sha1 = (\<lambda>x. x),
     e_max_crypto = 48, e_max_queries = 32, e_max_iterations = 100\<rparr>"

lemma ex_verdicts:
  "fst (validate ex_env [[101]] 1 [Rd_A [1, 2, 3, 4]] [ex_sig 1 1] [] (serve_all [] empty_caches)) = Inr SECURE"
  "fst (serve ex_env (Answer [[97], [101]] 1 [Rd_A [1, 2, 3, 4]] [] []) (serve_all [] empty_caches)) = Inr INSECURE"
  "fst (serve ex_env (Denial [[97], [101]] 1 [] 3) (serve_all [] empty_caches)) = Inr INSECURE"
  by code_simp+

lemma ex_requests:
  "wf_request (Answer [[101]] 1 [Rd_A [1, 2, 3, 4]] [ex_sig 1 1] [])"
  "wf_request (Answer [[97], [101]] 1 [Rd_A [1, 2, 3, 4]] [] [])"
  "wf_request (Denial [[97], [101]] 1 [] 3)"
  by (simp_all add: ex_sig_def wf_name_def wf_label_def MAX_LABEL_def MAX_NAME_def)

theorem secure_rests_on_chain_witness:
  "\<exists>zn keys ex. trusted ex_env zn keys \<and> anc zn [[101]] \<and> signed_set ex_env zn keys [[101]] 1 [Rd_A [1, 2, 3, 4]] ex"
proof -
  have "\<forall>(F, r) \<in> set []. same_validator ex_env F \<and> wf_request r" by simp
  from secure_rests_on_chain [OF this ex_requests(1) ex_verdicts(1)] show ?thesis by (auto simp: T_DS_def)
qed

theorem insecure_is_proven_witness:
  "(\<exists>z zn keys. z \<noteq> [] \<and> anc z (subject (Answer [[97], [101]] 1 [Rd_A [1, 2, 3, 4]] [] [])) \<and>
      trusted ex_env zn keys \<and> anc zn (parent z)) \<and>
   (\<exists>z zn keys. z \<noteq> [] \<and> anc z [[97], [101]] \<and> trusted ex_env zn keys \<and> anc zn (parent z))"
proof -
  have b: "\<forall>(F, r) \<in> set []. same_validator ex_env F \<and> wf_request r" by simp
  from insecure_is_proven [OF b ex_requests(2) ex_verdicts(2)] insecure_is_proven [OF b ex_requests(3) ex_verdicts(3)]
  show ?thesis by auto
qed

text \<open>A denial by the root zone's two NSEC records.\<close>

definition ex_auth :: "rr list" where
  "ex_auth = [zrr [] 47 3600 (Rd_NSEC [[97]] [0, 1, 0x22]), zrr [] 46 3600 (Rd_RRSIG 47 15 0 3600 200 50 2832 [] [1]),
     zrr [[97]] 47 3600 (Rd_NSEC [] [0, 1, 0x40]), zrr [[97]] 46 3600 (Rd_RRSIG 47 15 1 3600 200 50 2832 [] [1])]"

definition root_world :: world where
  "root_world = \<lparr>w_names = {[], [[97]]}, w_data = {([], T_SOA), ([[97]], T_A)}, w_chain = {[], [[97]]}, w_left = {},
     w_types = (\<lambda>k. {t. bitmap_has (if k = [] then [0, 1, 0x22] else [0, 1, 0x40]) t})\<rparr>"

lemma root_world_ok: "world_ok root_world"
  by (auto simp: world_ok_def exists_under_def root_world_def w_listed_def cut_at_def delegation_at_def type_defs
      ex_bits [unfolded type_defs] strict_prefix_def prefix_def)

lemma ex_drawn_nsec:
  assumes "drawn ex_auth T_NSEC (n, rd)" "as_nsec rd = Some r"
  shows "honest_nsec root_world (n, r)"
proof -
  have e: "\<not> name_eq [] [[97 :: byte]]" "\<not> name_eq [[97 :: byte]] []" by code_simp+
  have c: "canon_key [[97]] = [[97]]" "canon_key [] = []" "wf_name [[97]]" "wf_name []" by code_simp+
  have "n = [] \<and> rd = Rd_NSEC [[97]] [0, 1, 0x22] \<or> n = [[97]] \<and> rd = Rd_NSEC [] [0, 1, 0x40]"
    using assms(1) e by (auto simp: drawn_def ex_auth_def zrr_def T_NSEC_def)
  then show ?thesis using assms(2)
    by (auto simp: as_nsec_def honest_nsec_def c root_world_def w_listed_def in_gap_def)
qed

lemma typed_pairs_mem: "(n, r) \<in> set (typed_pairs f ps) \<Longrightarrow> \<exists>rd. (n, rd) \<in> set ps \<and> f rd = Some r"
proof (induction ps)
  case (Cons p ps)
  obtain a b where p: "p = (a, b)" by (cases p)
  have "typed_pairs f (p # ps) = (case f b of None \<Rightarrow> [] | Some v \<Rightarrow> [(a, v)]) @ typed_pairs f ps"
    by (simp add: typed_pairs_def somes_def p split: option.split)
  then show ?case using Cons by (cases "f b") (auto simp: p)
qed (simp add: typed_pairs_def somes_def)

lemma ex_unforged:
  assumes "signed_denial ex_env zn keys ex_auth nsecs n3"
  shows "honest_nsecs nsecs root_world [[120]] \<and> n3 = None"
proof -
  obtain ps qs where p: "nsecs = typed_pairs as_nsec ps" "list_all (signed_pair ex_env zn keys ex_auth T_NSEC) ps"
    "list_all (signed_pair ex_env zn keys ex_auth T_NSEC3) qs"
    "case n3 of None \<Rightarrow> True | Some s \<Rightarrow> s = nsec3_set_of (typed_pairs as_nsec3 qs) zn (e_max_iterations ex_env) \<and> s_usable s"
    using assms by (auto simp: signed_denial_def)
  have "honest_nsec root_world x" if x: "x \<in> set nsecs" for x
  proof -
    obtain n r where nr: "x = (n, r)" by (cases x)
    then have "(n, r) \<in> set (typed_pairs as_nsec ps)" using x p(1) by simp
    then obtain rd where rd: "(n, rd) \<in> set ps" "as_nsec rd = Some r" using typed_pairs_mem [of n r as_nsec ps] by blast
    have "signed_pair ex_env zn keys ex_auth T_NSEC (n, rd)" using p(2) rd(1) unfolding list_all_iff by (rule bspec)
    then have "drawn ex_auth T_NSEC (n, rd)" unfolding signed_pair_def by (rule conjunct1)
    then show ?thesis unfolding nr using rd(2) by (rule ex_drawn_nsec)
  qed
  then have "list_all (honest_nsec root_world) nsecs" by (simp add: list_all_iff)
  moreover have "wf_name [[120]]" by code_simp
  moreover have "qs = []"
    using p(3) by (cases qs) (auto simp: signed_pair_def drawn_def ex_auth_def zrr_def T_NSEC3_def)
  then have "n3 = None" using p(4) by (cases n3) (simp_all add: typed_pairs_def somes_def nsec3_set_of_def)
  ultimately show ?thesis using root_world_ok by (simp add: honest_nsecs_def)
qed

theorem secure_nxdomain_true_witness:
  "canon_key [[120]] \<notin> w_names root_world \<and> [[0x2A]] \<notin> w_names root_world"
proof -
  have c: "canon_key [[120]] = [[120]]" by code_simp
  have r: "(\<forall>x \<in> w_names root_world. \<not> prefix (canon_key [[120]]) x) \<and>
    (\<forall>k. closest_at root_world (canon_key [[120]]) k \<longrightarrow> take k (canon_key [[120]]) @ [[0x2A]] \<notin> w_names root_world)"
  proof (rule secure_nxdomain_true [where before = "[]" and E = ex_env and t = 1 and auth = ex_auth])
    show "\<forall>(F, r) \<in> set []. same_validator ex_env F \<and> wf_request r" by simp
    show "wf_request (Denial [[120]] 1 ex_auth 3)"
      by (simp add: ex_auth_def zrr_def as_rrsig_def wf_name_def wf_label_def MAX_LABEL_def MAX_NAME_def)
    show "fst (validate_denial ex_env [[120]] 1 ex_auth 3 (serve_all [] empty_caches)) = Inr SECURE" by code_simp
  qed (use ex_unforged in blast)
  moreover have "closest_at root_world (canon_key [[120]]) 0"
    unfolding c by (auto simp: closest_at_def exists_under_def root_world_def)
  ultimately show ?thesis by (auto simp: c)
qed

end
