(* ===== verification/Tsig.thy ===== *)
theory Tsig
  imports Ordered_Dict Wire_Message Name_Text Zone
begin

section \<open>Transaction signatures\<close>

text \<open>
  Models \<^verbatim>\<open>trench/auth_zone/tsig.py\<close>: the octets a TSIG covers, the record that carries it,
  its verification and the window against replays. HMAC is the argument \<open>M\<close>, given the name of the
  algorithm, the secret and the octets. A \<^verbatim>\<open>TSIGError\<close> carries its TSIG error code and, where
  the code attaches them, the key and the record.
\<close>

record tsig_key =
  y_name :: ustr
  y_secret :: bytes
  y_algorithm :: ustr

record tsig_rd =
  ts_algorithm :: name
  ts_time :: int
  ts_fudge :: int
  ts_mac :: bytes
  ts_original_id :: int
  ts_error :: int
  ts_other :: bytes

datatype tsig_exn = TSIG_Error int "(tsig_key \<times> tsig_rd) option" | Raised error

type_synonym 'a tsig_result = "tsig_exn + 'a"

definition tbind :: "'a tsig_result \<Rightarrow> ('a \<Rightarrow> 'b tsig_result) \<Rightarrow> 'b tsig_result" where
  "tbind m f = (case m of Inl e \<Rightarrow> Inl e | Inr x \<Rightarrow> f x)"

definition tlift :: "'a result \<Rightarrow> 'a tsig_result" where
  "tlift r = (case r of Inl e \<Rightarrow> Inl (Raised e) | Inr x \<Rightarrow> Inr x)"

lemma tbind_simps [simp]: "tbind (Inl e) f = Inl e" "tbind (Inr x) f = f x"
  by (simp_all add: tbind_def)

lemma tbind_Inr: "tbind m f = Inr y \<longleftrightarrow> (\<exists>x. m = Inr x \<and> f x = Inr y)"
  by (cases m) auto

lemma tlift_simps [simp]: "tlift (Inl e) = Inl (Raised e)" "tlift (Inr x) = Inr x"
  "tlift r = Inr x \<longleftrightarrow> r = Inr x"
  by (simp_all add: tlift_def split: sum.split)

definition TSIG_ALGOS :: "ustr list" where
  "TSIG_ALGOS = map chars [''hmac-sha256.'', ''hmac-sha512.'', ''hmac-sha384.'', ''hmac-sha224.'', ''hmac-sha1.'',
     ''hmac-md5.sig-alg.reg.int.'']"

definition DEFAULT_FUDGE :: int where "DEFAULT_FUDGE = 300"
definition T_TSIG :: int where "T_TSIG = 250"
definition C_ANY :: int where "C_ANY = 255"
definition BADSIG :: int where "BADSIG = 16"
definition BADKEY :: int where "BADKEY = 17"
definition BADTIME :: int where "BADTIME = 18"

subsection \<open>The octets that are signed\<close>

text \<open>\<^verbatim>\<open>struct.pack(">H", v)\<close> and \<^verbatim>\<open>struct.pack(">I", v)\<close>\<close>

definition struct_H :: "int \<Rightarrow> bytes result" where
  "struct_H v = (if 0 \<le> v \<and> v < 0x10000 then Inr (pack_H v) else Inl StructError)"

definition hash_name :: "tsig_key \<Rightarrow> ustr tsig_result" where
  "hash_name k =
     (let a = lower_ascii (y_algorithm k)
      in if a \<in> set TSIG_ALGOS then Inr a else Inl (TSIG_Error BADKEY None))"

definition time_octets :: "int \<Rightarrow> bytes" where
  "time_octets t = pack_H (drop_bit 32 t AND 0xFFFF) @ pack_I (t AND 0xFFFFFFFF)"

definition mac_prefix :: "bytes option \<Rightarrow> bytes result" where
  "mac_prefix rm = (case rm of None \<Rightarrow> Inr [] | Some m \<Rightarrow> rbind (struct_H (int (length m))) (\<lambda>n. Inr (n @ m)))"

definition tsig_variables :: "tsig_key \<Rightarrow> name \<Rightarrow> int \<Rightarrow> int \<Rightarrow> int \<Rightarrow> bytes \<Rightarrow> bytes result" where
  "tsig_variables k algo t fudge err other =
     rbind (from_text (y_name k)) (\<lambda>kn. rbind (struct_H fudge) (\<lambda>fb. rbind (struct_H err) (\<lambda>eb.
     rbind (struct_H (int (length other))) (\<lambda>lb.
       Inr (name_key kn @ pack_H C_ANY @ pack_I 0 @ name_key algo @ time_octets t @ fb @ eb @ lb @ other)))))"

definition digest :: "(ustr \<Rightarrow> bytes \<Rightarrow> bytes \<Rightarrow> bytes) \<Rightarrow> tsig_key \<Rightarrow> bytes \<Rightarrow> name \<Rightarrow> int \<Rightarrow> int \<Rightarrow> int \<Rightarrow> bytes \<Rightarrow>
    bytes option \<Rightarrow> bool \<Rightarrow> bytes tsig_result" where
  "digest M k msg algo t fudge err other rm timers_only =
     tbind (hash_name k) (\<lambda>h. tbind (tlift (mac_prefix rm)) (\<lambda>pre.
       if timers_only then tbind (tlift (struct_H fudge)) (\<lambda>fb. Inr (M h (y_secret k) (pre @ msg @ time_octets t @ fb)))
       else tbind (tlift (tsig_variables k algo t fudge err other)) (\<lambda>v. Inr (M h (y_secret k) (pre @ msg @ v)))))"

subsection \<open>Adding the record\<close>

text \<open>\<^verbatim>\<open>struct.unpack_from(">H", b, i)\<close>\<close>

definition unpack_at :: "bytes \<Rightarrow> nat \<Rightarrow> int result" where
  "unpack_at b i = (if i + 2 \<le> length b then Inr (unpack_H (b ! i) (b ! (i + 1))) else Inl StructError)"

definition put_u16 :: "nat \<Rightarrow> int \<Rightarrow> bytes \<Rightarrow> bytes" where
  "put_u16 i v b = take i b @ pack_H v @ drop (i + 2) b"

definition emit_tsig :: "tsig_rd \<Rightarrow> writer \<Rightarrow> writer" where
  "emit_tsig ts = emit_TSIG (ts_algorithm ts) (ts_time ts) (ts_fudge ts) (ts_mac ts) (ts_original_id ts) (ts_error ts)
     (ts_other ts)"

definition append_tsig_rr :: "bytes \<Rightarrow> tsig_key \<Rightarrow> tsig_rd \<Rightarrow> bytes result" where
  "append_tsig_rr msg k ts =
     rbind (unpack_at (take 12 msg) 10) (\<lambda>ar. rbind (from_text (y_name k)) (\<lambda>kn.
       let w = w_u8 0 (fold (\<lambda>la w. w_raw la (w_u8 (int (length la)) w)) kn new_writer);
           w = w_u32 0 (w_u16 C_ANY (w_u16 T_TSIG w));
           (lenpos, w) = reserve_u16 w; start = wtell w; w = emit_tsig ts w
       in rbind (patch_u16 lenpos (int (wtell w - start)) w) (\<lambda>w.
            Inr (put_u16 10 ((ar + 1) AND 0xFFFF) (take 12 msg) @ drop 12 msg @ wbuf w))))"

definition sign_wire :: "(ustr \<Rightarrow> bytes \<Rightarrow> bytes \<Rightarrow> bytes) \<Rightarrow> bytes \<Rightarrow> tsig_key \<Rightarrow> bytes option \<Rightarrow> int \<Rightarrow> int \<Rightarrow>
    int option \<Rightarrow> int \<Rightarrow> bytes \<Rightarrow> bool \<Rightarrow> (bytes \<times> bytes) tsig_result" where
  "sign_wire M msg k rm t fudge oid err other timers_only =
     tbind (case oid of Some i \<Rightarrow> Inr i | None \<Rightarrow> tlift (unpack_at msg 0)) (\<lambda>oid.
     tbind (tlift (from_text (y_algorithm k))) (\<lambda>algo.
     tbind (digest M k msg algo t fudge err other rm timers_only) (\<lambda>mac.
     tbind (tlift (append_tsig_rr msg k \<lparr>ts_algorithm = algo, ts_time = t, ts_fudge = fudge, ts_mac = mac,
         ts_original_id = oid, ts_error = err, ts_other = other\<rparr>)) (\<lambda>wire. Inr (wire, mac)))))"

subsection \<open>Finding the record\<close>

definition tsig_of :: "rdata \<Rightarrow> tsig_rd option" where
  "tsig_of rd = (case rd of Rd_TSIG a t f m i e x \<Rightarrow> Some \<lparr>ts_algorithm = a, ts_time = t, ts_fudge = f, ts_mac = m,
     ts_original_id = i, ts_error = e, ts_other = x\<rparr> | _ \<Rightarrow> None)"

record located =
  l_start :: int
  l_type :: int
  l_rd :: "tsig_rd option"
  l_owner :: name

text \<open>One record after the questions; the TSIG data of an earlier one is kept.\<close>

definition locate_record :: "tsig_rd option \<Rightarrow> located parser" where
  "locate_record prev =
     pbind ptell (\<lambda>start. pbind read_name (\<lambda>owner. pbind r_u16 (\<lambda>t. pbind r_u16 (\<lambda>_. pbind r_u32 (\<lambda>_.
     pbind r_u16 (\<lambda>rdlen. pbind ptell (\<lambda>rs.
     pbind (if t = T_TSIG then pbind (parse_TSIG rdlen) (\<lambda>rd. pret (tsig_of rd)) else pret prev) (\<lambda>rd.
     pbind (pseek (rs + rdlen)) (\<lambda>_.
       pret \<lparr>l_start = start, l_type = t, l_rd = rd, l_owner = owner\<rparr>)))))))))"

fun locate_questions :: "nat \<Rightarrow> unit parser" where
  "locate_questions 0 = pret ()"
| "locate_questions (Suc n) = pbind read_name (\<lambda>_. pbind r_u16 (\<lambda>_. pbind r_u16 (\<lambda>_. locate_questions n)))"

fun locate_records :: "nat \<Rightarrow> located option \<Rightarrow> located option parser" where
  "locate_records 0 last_rec = pret last_rec"
| "locate_records (Suc n) last_rec =
     pbind (locate_record (case last_rec of None \<Rightarrow> None | Some l \<Rightarrow> l_rd l)) (\<lambda>l. locate_records n (Some l))"

definition locate_tsig :: "bytes \<Rightarrow> (int \<times> tsig_rd \<times> name) tsig_result" where
  "locate_tsig wire =
     (if length wire < 12 then Inl (Raised WireError)
      else let count = (\<lambda>i. unpack_H (wire ! i) (wire ! (i + 1)))
       in if count 10 = 0 then Inl (TSIG_Error 0 None)
          else tbind (tlift (pbind (locate_questions (nat (count 4)))
                 (\<lambda>_. locate_records (nat (count 6 + count 8 + count 10)) None) \<lparr>rbuf = wire, rpos = 12\<rparr>)) (\<lambda>(found, _).
            case found of
              None \<Rightarrow> Inl (TSIG_Error 0 None)
            | Some l \<Rightarrow> (case l_rd l of
                Some rd \<Rightarrow> if l_type l \<noteq> T_TSIG then Inl (TSIG_Error 0 None) else Inr (l_start l, rd, l_owner l)
              | None \<Rightarrow> Inl (TSIG_Error 0 None))))"

subsection \<open>The window against replays\<close>

record replay =
  rp_high :: "(ustr, int) odict"
  rp_seen :: "(ustr, (int \<times> bytes) list) odict"
  rp_max_keys :: nat

definition new_replay :: "nat \<Rightarrow> replay" where
  "new_replay n = \<lparr>rp_high = [], rp_seen = [], rp_max_keys = n\<rparr>"

definition replay_check :: "replay \<Rightarrow> ustr \<Rightarrow> int \<Rightarrow> bytes \<Rightarrow> int \<Rightarrow> int \<Rightarrow> replay tsig_result" where
  "replay_check rp kn t mac window now =
     tbind (case od_get kn (rp_seen rp) of
        Some seen \<Rightarrow>
          (let seen = filter (\<lambda>(u, _). u \<ge> now - window) seen
           in if list_ex (\<lambda>(_, m). m = mac) seen then Inl (TSIG_Error BADSIG None) else Inr (seen, rp))
      | None \<Rightarrow>
          Inr ([], if length (rp_seen rp) \<ge> rp_max_keys rp then rp\<lparr>rp_seen := [], rp_high := []\<rparr> else rp)) (\<lambda>(seen, rp).
       let high = od_get kn (rp_high rp)
       in if (case high of Some h \<Rightarrow> t < h - window | None \<Rightarrow> False) then Inl (TSIG_Error BADTIME None)
          else Inr (rp\<lparr>rp_seen := od_set kn (seen @ [(t, mac)]) (rp_seen rp),
                 rp_high := od_set kn (max (case high of Some h \<Rightarrow> h | None \<Rightarrow> 0) t) (rp_high rp)\<rparr>))"

subsection \<open>Verification\<close>

definition key_text :: "name \<Rightarrow> ustr" where
  "key_text n = lower_ascii (to_text False n)"

definition find_key :: "(ustr, tsig_key) odict \<Rightarrow> name \<Rightarrow> tsig_key option" where
  "find_key ring owner =
     (case od_get (key_text owner) ring of
        Some k \<Rightarrow> Some k
      | None \<Rightarrow> map_option snd (find (\<lambda>(cand, _). case from_text cand of Inl _ \<Rightarrow> False | Inr n \<Rightarrow> key_text n = key_text owner) ring))"

definition stripped :: "bytes \<Rightarrow> int \<Rightarrow> int \<Rightarrow> bytes" where
  "stripped wire start oid =
     (let ar = unpack_H (wire ! 10) (wire ! 11); hdr = put_u16 0 oid (put_u16 10 ((ar - 1) AND 0xFFFF) (take 12 wire))
      in hdr @ drop 12 (take (nat start) wire))"

definition verify_wire :: "(ustr \<Rightarrow> bytes \<Rightarrow> bytes \<Rightarrow> bytes) \<Rightarrow> bytes \<Rightarrow> (ustr, tsig_key) odict \<Rightarrow> bytes option \<Rightarrow> int \<Rightarrow> int \<Rightarrow>
    replay option \<Rightarrow> bool \<Rightarrow> (bytes \<times> tsig_key \<times> tsig_rd \<times> replay option) tsig_result" where
  "verify_wire M wire ring rm now fudge_max rp timers_only =
     tbind (locate_tsig wire) (\<lambda>(start, ts, owner).
       case find_key ring owner of
         None \<Rightarrow> Inl (TSIG_Error BADKEY None)
       | Some k \<Rightarrow>
           tbind (tlift (from_text (y_algorithm k))) (\<lambda>algo.
             if \<not> name_eq algo (ts_algorithm ts) then Inl (TSIG_Error BADKEY None)
             else tbind (digest M k (stripped wire start (ts_original_id ts)) (ts_algorithm ts) (ts_time ts) (ts_fudge ts)
                 (ts_error ts) (ts_other ts) rm timers_only) (\<lambda>expected.
               let got = ts_mac ts; full = length expected
               in if length got > full \<or> length got < max 10 (full div 2) then Inl (TSIG_Error BADSIG None)
                  else if take (length got) expected \<noteq> got then Inl (TSIG_Error BADSIG (Some (k, ts)))
                  else if ts_error ts \<noteq> 0 then Inl (TSIG_Error BADSIG (Some (k, ts)))
                  else
                    let window = min (ts_fudge ts) fudge_max
                    in if \<bar>now - ts_time ts\<bar> > window then Inl (TSIG_Error BADTIME (Some (k, ts)))
                       else (case rp of
                           None \<Rightarrow> Inr (got, k, ts, None)
                         | Some rp \<Rightarrow> tbind (replay_check rp (key_text owner) (ts_time ts) got window now) (\<lambda>rp.
                             Inr (got, k, ts, Some rp))))))"

text \<open>The record on an error reply; what raises there leaves the reply unsigned.\<close>

definition sign_error :: "(ustr \<Rightarrow> bytes \<Rightarrow> bytes \<Rightarrow> bytes) \<Rightarrow> bytes \<Rightarrow> int \<Rightarrow> (tsig_key \<times> tsig_rd) option \<Rightarrow> int \<Rightarrow> bytes tsig_result" where
  "sign_error M reply_wire err evidence now =
     (case evidence of
        None \<Rightarrow> Inr reply_wire
      | Some (k, ts) \<Rightarrow>
          if err = BADSIG \<or> err = BADKEY
          then tbind (tlift (from_text (y_algorithm k))) (\<lambda>algo.
            tlift (append_tsig_rr reply_wire k \<lparr>ts_algorithm = algo, ts_time = now, ts_fudge = ts_fudge ts, ts_mac = [],
              ts_original_id = ts_original_id ts, ts_error = err, ts_other = []\<rparr>))
          else
            tbind (if err = BADTIME
                   then (if 0 \<le> now \<and> now < 2 ^ 48 then Inr (time_octets now) else Inl (Raised OverflowError))
                   else Inr []) (\<lambda>other.
              case sign_wire M reply_wire k None now DEFAULT_FUDGE (Some (ts_original_id ts)) err other False of
                Inl _ \<Rightarrow> Inr reply_wire
              | Inr (wire, _) \<Rightarrow> Inr wire))"

end
