(* ===== verification/Tsig_Props.thy ===== *)
theory Tsig_Props
  imports Tsig
begin

section \<open>Transaction signatures: how often a message is accepted\<close>

text \<open>
  A server hands every signed message to \<open>verify_wire\<close> with one replay window. \<open>accepted\<close> is the
  list of the messages it takes from a stream of them, each with the clock at its arrival.
\<close>

definition receive :: "(ustr \<Rightarrow> bytes \<Rightarrow> bytes \<Rightarrow> bytes) \<Rightarrow> (ustr, tsig_key) odict \<Rightarrow> int \<Rightarrow> replay \<Rightarrow> bytes \<times> int \<Rightarrow>
    replay \<times> bool" where
  "receive M ring fmax rp x =
     (case verify_wire M (fst x) ring None (snd x) fmax (Some rp) False of
        Inr (_, _, _, Some rp') \<Rightarrow> (rp', True)
      | _ \<Rightarrow> (rp, False))"

fun accepted :: "(ustr \<Rightarrow> bytes \<Rightarrow> bytes \<Rightarrow> bytes) \<Rightarrow> (ustr, tsig_key) odict \<Rightarrow> int \<Rightarrow> replay \<Rightarrow> (bytes \<times> int) list \<Rightarrow> bytes list" where
  "accepted M ring fmax rp [] = []"
| "accepted M ring fmax rp (x # xs) =
     (case receive M ring fmax rp x of (rp', ok) \<Rightarrow> (if ok then [fst x] else []) @ accepted M ring fmax rp' xs)"

text \<open>The key, the time and the MAC a message shows.\<close>

definition tsig_ident :: "bytes \<Rightarrow> (ustr \<times> int \<times> bytes) option" where
  "tsig_ident wire =
     (case locate_tsig wire of Inl _ \<Rightarrow> None | Inr (_, ts, owner) \<Rightarrow> Some (key_text owner, ts_time ts, ts_mac ts))"

definition fudge_of :: "bytes \<Rightarrow> int option" where
  "fudge_of wire = (case locate_tsig wire of Inl _ \<Rightarrow> None | Inr (_, ts, _) \<Rightarrow> Some (ts_fudge ts))"

subsection \<open>What an accepted message has passed\<close>

text \<open>The check of one message, once its key is known.\<close>

definition mac_matches :: "bytes \<Rightarrow> bytes \<Rightarrow> bool" where
  "mac_matches got expected \<longleftrightarrow> length got \<le> length expected \<and> max 10 (length expected div 2) \<le> length got \<and>
     take (length got) expected = got"

lemma verify_accepts:
  assumes "verify_wire M wire ring rm now fmax rp timers = Inr (got, k, ts, rp')"
  shows "\<exists>start owner expected. locate_tsig wire = Inr (start, ts, owner) \<and> find_key ring owner = Some k \<and> got = ts_mac ts \<and>
     digest M k (stripped wire start (ts_original_id ts)) (ts_algorithm ts) (ts_time ts) (ts_fudge ts) (ts_error ts)
       (ts_other ts) rm timers = Inr expected \<and> mac_matches got expected \<and> ts_error ts = 0 \<and>
     \<bar>now - ts_time ts\<bar> \<le> min (ts_fudge ts) fmax \<and>
     (case rp of None \<Rightarrow> rp' = None
      | Some r \<Rightarrow> \<exists>r'. replay_check r (key_text owner) (ts_time ts) got (min (ts_fudge ts) fmax) now = Inr r' \<and> rp' = Some r')"
  using assms
  by (auto simp: verify_wire_def tbind_Inr Let_def mac_matches_def split: option.splits if_splits prod.splits)

definition seen_of :: "ustr \<Rightarrow> replay \<Rightarrow> (int \<times> bytes) list" where
  "seen_of kn rp = (case od_get kn (rp_seen rp) of None \<Rightarrow> [] | Some s \<Rightarrow> s)"

definition room :: "ustr \<Rightarrow> replay \<Rightarrow> bool" where
  "room kn rp \<longleftrightarrow> kn \<in> set (od_keys (rp_seen rp)) \<or> length (rp_seen rp) < rp_max_keys rp"

lemma replay_check_Inr:
  assumes "replay_check rp kn t mac window now = Inr rp'" and "room kn rp"
  shows "rp_seen rp' = od_set kn (filter (\<lambda>(u, _). u \<ge> now - window) (seen_of kn rp) @ [(t, mac)]) (rp_seen rp)"
    and "rp_max_keys rp' = rp_max_keys rp"
    and "(u, mac) \<in> set (seen_of kn rp) \<Longrightarrow> u < now - window"
proof -
  have no_clear: "length (rp_seen rp) < rp_max_keys rp" if "od_get kn (rp_seen rp) = None"
    using assms(2) that by (simp add: room_def od_get_None)
  from assms(1) no_clear show "rp_seen rp' = od_set kn (filter (\<lambda>(u, _). u \<ge> now - window) (seen_of kn rp) @ [(t, mac)]) (rp_seen rp)"
    by (cases "od_get kn (rp_seen rp)") (auto simp: replay_check_def seen_of_def Let_def split: if_splits)
  from assms(1) no_clear show "rp_max_keys rp' = rp_max_keys rp"
    by (cases "od_get kn (rp_seen rp)") (auto simp: replay_check_def seen_of_def Let_def split: if_splits)
  assume "(u, mac) \<in> set (seen_of kn rp)"
  with assms(1) show "u < now - window"
    by (cases "od_get kn (rp_seen rp)") (force simp: replay_check_def seen_of_def Let_def list_ex_iff split: if_splits)+
qed

subsection \<open>The keys a ring can name\<close>

definition ring_texts :: "(ustr, tsig_key) odict \<Rightarrow> ustr set" where
  "ring_texts ring = set (od_keys ring) \<union> (\<lambda>c. case from_text c of Inl _ \<Rightarrow> [] | Inr n \<Rightarrow> key_text n) ` set (od_keys ring)"

lemma find_key_text:
  assumes "find_key ring owner = Some k"
  shows "key_text owner \<in> ring_texts ring"
proof (cases "od_get (key_text owner) ring")
  case None
  then obtain c k' where c: "(c, k') \<in> set ring" "case from_text c of Inl _ \<Rightarrow> False | Inr n \<Rightarrow> key_text n = key_text owner"
    using assms by (auto simp: find_key_def find_Some_iff in_set_conv_nth)
  then have "c \<in> set (od_keys ring)" by (force simp: od_keys_def)
  with c(2) show ?thesis unfolding ring_texts_def by (force split: sum.splits)
next
  case (Some k')
  then show ?thesis using od_get_None [of "key_text owner" ring] by (simp add: ring_texts_def)
qed

lemma card_ring_texts: "finite (ring_texts ring) \<and> card (ring_texts ring) \<le> 2 * length ring"
proof -
  let ?f = "\<lambda>c. case from_text c of Inl _ \<Rightarrow> [] | Inr n \<Rightarrow> key_text n"
  have "card (set (od_keys ring)) \<le> length ring" using card_length [of "od_keys ring"] by simp
  moreover have "card (?f ` set (od_keys ring)) \<le> card (set (od_keys ring))" by (rule card_image_le) simp
  ultimately show ?thesis unfolding ring_texts_def
    using card_Un_le [of "set (od_keys ring)" "?f ` set (od_keys ring)"] by simp
qed

subsection \<open>The window remembers what it must\<close>

text \<open>
  \<open>remembers W now taken rp\<close>: the window holds, under its key, every message taken so far whose time
  is still within \<open>W\<close> of the clock, and no key the ring cannot name.
\<close>

definition remembers :: "ustr set \<Rightarrow> int \<Rightarrow> int \<Rightarrow> (ustr \<times> int \<times> bytes) set \<Rightarrow> replay \<Rightarrow> bool" where
  "remembers S W now taken rp \<longleftrightarrow> distinct (od_keys (rp_seen rp)) \<and> set (od_keys (rp_seen rp)) \<subseteq> S \<and> card S \<le> rp_max_keys rp \<and>
     (\<forall>kn t m. (kn, t, m) \<in> taken \<longrightarrow> now - W \<le> t \<longrightarrow> (t, m) \<in> set (seen_of kn rp))"

lemma remembers_later: "remembers S W now taken rp \<Longrightarrow> now \<le> now' \<Longrightarrow> remembers S W now' taken rp"
  by (fastforce simp: remembers_def)

lemma remembers_room:
  assumes "remembers S W now taken rp" "finite S" "kn \<in> S"
  shows "room kn rp"
proof (cases "kn \<in> set (od_keys (rp_seen rp))")
  case False
  have r: "distinct (od_keys (rp_seen rp))" "set (od_keys (rp_seen rp)) \<subseteq> S" "card S \<le> rp_max_keys rp"
    using assms(1) by (simp_all add: remembers_def)
  have "set (od_keys (rp_seen rp)) \<subset> S" using r(2) False assms(3) by blast
  then have "card (set (od_keys (rp_seen rp))) < card S" by (rule psubset_card_mono [OF assms(2)])
  then show ?thesis using r(1,3) distinct_card [OF r(1)] by (simp add: room_def)
qed (simp add: room_def)

lemma remembers_check:
  assumes r: "remembers S W now taken rp" and S: "finite S" "kn \<in> S" and c: "replay_check rp kn t mac W now = Inr rp'"
    and w: "\<bar>now - t\<bar> \<le> W"
  shows "remembers S W now (insert (kn, t, mac) taken) rp'" and "(kn, t, mac) \<notin> taken"
proof -
  note rc = replay_check_Inr [OF c remembers_room [OF r S]]
  show "(kn, t, mac) \<notin> taken"
    using rc(3) [of t] r w by (auto simp: remembers_def)
  have s: "seen_of j rp' = (if j = kn then filter (\<lambda>(u, _). u \<ge> now - W) (seen_of kn rp) @ [(t, mac)] else seen_of j rp)" for j
    unfolding seen_of_def [of j] rc(1) by (simp add: od_get_set)
  have "distinct (od_keys (rp_seen rp'))" using r unfolding rc(1) by (auto simp: remembers_def)
  moreover have "set (od_keys (rp_seen rp')) \<subseteq> S" using r S(2) unfolding rc(1) by (auto simp: remembers_def od_keys_set)
  moreover have "(u, m) \<in> set (seen_of j rp')" if "(j, u, m) \<in> insert (kn, t, mac) taken" "now - W \<le> u" for j u m
    using that r unfolding s remembers_def by auto
  ultimately show "remembers S W now (insert (kn, t, mac) taken) rp'" using r rc(2) by (simp add: remembers_def)
qed

lemma receive_taken:
  assumes r: "remembers (ring_texts ring) W (snd x) taken rp" and f: "\<And>fu. fudge_of (fst x) = Some fu \<Longrightarrow> W \<le> fu"
    and a: "receive M ring W rp x = (rp', True)"
  shows "\<exists>i. tsig_ident (fst x) = Some i \<and> i \<notin> taken \<and> remembers (ring_texts ring) W (snd x) (insert i taken) rp'"
proof -
  obtain got k ts where v: "verify_wire M (fst x) ring None (snd x) W (Some rp) False = Inr (got, k, ts, Some rp')"
    using a by (auto simp: receive_def split: sum.splits prod.splits option.splits)
  obtain start owner where o: "locate_tsig (fst x) = Inr (start, ts, owner)" "find_key ring owner = Some k" "got = ts_mac ts"
    "\<bar>snd x - ts_time ts\<bar> \<le> min (ts_fudge ts) W"
    "replay_check rp (key_text owner) (ts_time ts) got (min (ts_fudge ts) W) (snd x) = Inr rp'"
    using verify_accepts [OF v] by auto
  have "W \<le> ts_fudge ts" by (rule f) (simp add: fudge_of_def o(1))
  then have w: "min (ts_fudge ts) W = W" by simp
  have k: "key_text owner \<in> ring_texts ring" by (rule find_key_text [OF o(2)])
  note c = remembers_check [OF r conjunct1 [OF card_ring_texts] k o(5) [unfolded w] o(4) [unfolded w]]
  from c show ?thesis using o(1,3) by (auto simp: tsig_ident_def)
qed

lemma receive_refused: "receive M ring W rp x = (rp', False) \<Longrightarrow> rp' = rp"
  by (auto simp: receive_def split: sum.splits prod.splits option.splits)

lemma accepted_new:
  assumes "remembers (ring_texts ring) W now taken rp" "sorted (now # map snd xs)"
    and "\<And>x fu. x \<in> set xs \<Longrightarrow> fudge_of (fst x) = Some fu \<Longrightarrow> W \<le> fu"
  shows "distinct (map tsig_ident (accepted M ring W rp xs)) \<and> set (map tsig_ident (accepted M ring W rp xs)) \<inter> Some ` taken = {}"
  using assms
proof (induction xs arbitrary: now taken rp)
  case (Cons x xs)
  obtain rp' ok where a: "receive M ring W rp x = (rp', ok)" by (cases "receive M ring W rp x")
  have r: "remembers (ring_texts ring) W (snd x) taken rp" by (rule remembers_later [OF Cons.prems(1)]) (use Cons.prems(2) in simp)
  have s: "sorted (snd x # map snd xs)" using Cons.prems(2) by simp
  have f: "W \<le> fu" if "y \<in> set xs" "fudge_of (fst y) = Some fu" for y fu
    by (rule Cons.prems(3) [OF list.set_intros(2) [OF that(1)] that(2)])
  show ?case
  proof (cases ok)
    case True
    obtain i where i: "tsig_ident (fst x) = Some i" "i \<notin> taken" "remembers (ring_texts ring) W (snd x) (insert i taken) rp'"
      using receive_taken [OF r _ a [unfolded True [THEN eqTrueI]]] Cons.prems(3) [of x] True by auto
    from Cons.IH [OF i(3) s f] i(1,2) show ?thesis by (auto simp: a True)
  next
    case False
    have "rp' = rp" by (rule receive_refused) (use a False in simp)
    with Cons.IH [OF r s f] False show ?thesis by (simp add: a)
  qed
qed simp

subsection \<open>How often one signed message is accepted\<close>

text \<open>
  What a message was signed as: its key, its time and the whole MAC of its octets, which no forwarder can
  change; and how much of the MAC it shows, which any forwarder can cut.
\<close>

definition signed_as :: "(ustr \<Rightarrow> bytes \<Rightarrow> bytes \<Rightarrow> bytes) \<Rightarrow> (ustr, tsig_key) odict \<Rightarrow> bytes \<Rightarrow> (ustr \<times> int \<times> bytes) option" where
  "signed_as M ring wire = (case locate_tsig wire of Inl _ \<Rightarrow> None | Inr (start, ts, owner) \<Rightarrow>
     (case find_key ring owner of None \<Rightarrow> None | Some k \<Rightarrow>
       (case digest M k (stripped wire start (ts_original_id ts)) (ts_algorithm ts) (ts_time ts) (ts_fudge ts) (ts_error ts)
           (ts_other ts) None False of
          Inl _ \<Rightarrow> None | Inr full \<Rightarrow> Some (key_text owner, ts_time ts, full))))"

definition shown :: "bytes \<Rightarrow> nat" where
  "shown wire = (case locate_tsig wire of Inl _ \<Rightarrow> 0 | Inr (_, ts, _) \<Rightarrow> length (ts_mac ts))"

lemma receive_signed:
  assumes "receive M ring W rp x = (rp', True)"
  shows "\<exists>kn t full. signed_as M ring (fst x) = Some (kn, t, full) \<and> shown (fst x) \<in> {max 10 (length full div 2)..length full} \<and>
    tsig_ident (fst x) = Some (kn, t, take (shown (fst x)) full)"
proof -
  obtain got k ts where v: "verify_wire M (fst x) ring None (snd x) W (Some rp) False = Inr (got, k, ts, Some rp')"
    using assms by (auto simp: receive_def split: sum.splits prod.splits option.splits)
  from verify_accepts [OF v] show ?thesis by (auto simp: signed_as_def shown_def tsig_ident_def mac_matches_def)
qed

lemma accepted_signed:
  "w \<in> set (accepted M ring W rp xs) \<Longrightarrow>
     \<exists>kn t full. signed_as M ring w = Some (kn, t, full) \<and> shown w \<in> {max 10 (length full div 2)..length full} \<and>
       tsig_ident w = Some (kn, t, take (shown w) full)"
proof (induction xs arbitrary: rp)
  case (Cons x xs)
  obtain rp' ok where a: "receive M ring W rp x = (rp', ok)" by (cases "receive M ring W rp x")
  with Cons receive_signed [of M ring W rp x rp'] show ?case by (cases ok) auto
qed simp

lemma distinct_map_via: "distinct (map f xs) \<Longrightarrow> (\<And>x y. x \<in> set xs \<Longrightarrow> y \<in> set xs \<Longrightarrow> g x = g y \<Longrightarrow> f x = f y) \<Longrightarrow> distinct (map g xs)"
  unfolding distinct_map inj_on_def by blast

lemma length_distinct_range:
  assumes "distinct (map g xs)" "\<And>x. x \<in> set xs \<Longrightarrow> g x \<in> {a..b :: nat}"
  shows "length xs \<le> Suc b - a"
proof -
  have "card (set (map g xs)) \<le> card {a..b}" by (rule card_mono) (use assms(2) in auto)
  then show ?thesis using distinct_card [OF assms(1)] by simp
qed

text \<open>
  C18: over any stream of messages with a clock that does not go back, where every message asks for at
  least the fudge the server allows and the window has room for the names of the ring, and whatever the
  header's identifier is changed to: no signed message, told by its key, its time and the whole MAC of its
  octets, is accepted twice with as much of the MAC shown; so none is accepted twice with the whole MAC,
  and altogether no more often than a MAC of its length can be cut, to no less than half and ten octets.
\<close>

theorem replay_bounded:
  assumes "sorted (map snd xs)" and "list_all (\<lambda>x. case fudge_of (fst x) of None \<Rightarrow> True | Some fu \<Rightarrow> fmax \<le> fu) xs"
    and "2 * length ring \<le> n" and "as = accepted M ring fmax (new_replay n) xs"
  shows "distinct (map (\<lambda>w. (signed_as M ring w, shown w)) as) \<and>
    length (filter (\<lambda>w. signed_as M ring w = Some (kn, t, full) \<and> shown w = length full) as) \<le> 1 \<and>
    length (filter (\<lambda>w. signed_as M ring w = Some (kn, t, full)) as) \<le> length full + 1 - max 10 (length full div 2)"
proof -
  have "distinct (map tsig_ident as)"
  proof (cases xs)
    case (Cons x ys)
    have "remembers (ring_texts ring) fmax (snd x) {} (new_replay n)"
      using card_ring_texts [of ring] assms(3) by (simp add: remembers_def new_replay_def od_keys_def)
    moreover have "sorted (snd x # map snd xs)" using assms(1) Cons by simp
    moreover have "fmax \<le> fu" if "y \<in> set xs" "fudge_of (fst y) = Some fu" for y fu
      using assms(2) that by (auto simp: list_all_iff)
    ultimately show ?thesis unfolding assms(4) using accepted_new by blast
  qed (simp add: assms(4))
  then have d: "distinct (map (\<lambda>w. (signed_as M ring w, shown w)) as)"
  proof (rule distinct_map_via)
    fix x y
    assume x: "x \<in> set as" and y: "y \<in> set as" and e: "(signed_as M ring x, shown x) = (signed_as M ring y, shown y)"
    from accepted_signed [OF x [unfolded assms(4)]] accepted_signed [OF y [unfolded assms(4)]] e
    show "tsig_ident x = tsig_ident y" by auto
  qed
  have count: "length (filter P as) \<le> Suc b - a"
    if "\<And>w. w \<in> set as \<Longrightarrow> P w \<Longrightarrow> signed_as M ring w = Some (kn, t, full) \<and> shown w \<in> {a..b}" for P a b
  proof (rule length_distinct_range)
    have "distinct (map (\<lambda>w. (signed_as M ring w, shown w)) (filter P as))" by (rule distinct_map_filter [OF d])
    then show "distinct (map shown (filter P as))"
    proof (rule distinct_map_via)
      fix x y
      assume "x \<in> set (filter P as)" "y \<in> set (filter P as)" "shown x = shown y"
      with that [of x] that [of y] show "(signed_as M ring x, shown x) = (signed_as M ring y, shown y)" by simp
    qed
  qed (use that in simp)
  have range: "shown w \<in> {max 10 (length full div 2)..length full}"
    if "w \<in> set as" "signed_as M ring w = Some (kn, t, full)" for w
    using accepted_signed [of w M ring fmax "new_replay n" xs] that assms(4) by auto
  have once: "length (filter (\<lambda>w. signed_as M ring w = Some (kn, t, full) \<and> shown w = length full) as)
      \<le> Suc (length full) - length full"
    by (rule count) simp
  have often: "length (filter (\<lambda>w. signed_as M ring w = Some (kn, t, full)) as) \<le> Suc (length full) - max 10 (length full div 2)"
    by (rule count) (rule conjI, assumption, rule range)
  have "length (filter (\<lambda>w. signed_as M ring w = Some (kn, t, full) \<and> shown w = length full) as) \<le> 1"
    using once by (simp only: Suc_diff_le [OF le_refl] diff_self_eq_0 One_nat_def)
  with d often show ?thesis unfolding Suc_eq_plus1 by blast
qed

end
