(* ===== verification/Tsig_Codec.thy ===== *)
theory Tsig_Codec
  imports Tsig_Props Wire_Message_Safe Wire_Message_Ops
begin

section \<open>Transaction signatures: what is signed verifies\<close>

text \<open>
  The record is appended to the octets of a finished message and its count is patched into the
  header, so the walk that finds it again reads names that were compressed under another header.
  Writing does not look at the header (\<open>rehead\<close>), and the walk of \<open>locate_tsig\<close> follows the parser.
\<close>

subsection \<open>The header does not matter to what is written behind it\<close>

definition rehead :: "bytes \<Rightarrow> writer \<Rightarrow> writer" where
  "rehead h w = w\<lparr>wbuf := h @ drop (length h) (wbuf w)\<rparr>"

lemma rehead_sel [simp]:
  "wnames (rehead h w) = wnames w" "wbuf (rehead h w) = h @ drop (length h) (wbuf w)"
  by (simp_all add: rehead_def)

lemma rehead_steps:
  assumes "length h \<le> length (wbuf w)"
  shows "w_raw b (rehead h w) = rehead h (w_raw b w)" "w_u8 v (rehead h w) = rehead h (w_u8 v w)"
    "w_u16 v (rehead h w) = rehead h (w_u16 v w)" "w_u32 v (rehead h w) = rehead h (w_u32 v w)"
    "wtell (rehead h w) = wtell w"
  using assms by (auto intro!: writer.equality simp: wtell_def)

lemma write_labels_rehead:
  "length h \<le> length (wbuf w) \<Longrightarrow> write_labels c key p ls (rehead h w) = rehead h (write_labels c key p ls w)"
proof (induction ls arbitrary: p w)
  case Nil
  then show ?case by (simp add: rehead_steps)
next
  case (Cons la ls)
  have n: "(rehead h w)\<lparr>wnames := ns\<rparr> = rehead h (w\<lparr>wnames := ns\<rparr>)" for ns by (simp add: rehead_def)
  have s: "w_raw la (w_u8 v (rehead h u)) = rehead h (w_raw la (w_u8 v u))" if "length h \<le> length (wbuf u)" for u v
    using that by (simp add: rehead_steps)
  have i: "c \<Longrightarrow> write_labels True key p ls (rehead h (w_raw la (w_u8 v u))) = rehead h (write_labels True key p ls (w_raw la (w_u8 v u)))"
    and j: "\<not> c \<Longrightarrow> write_labels False key p ls (rehead h (w_raw la (w_u8 v u))) = rehead h (write_labels False key p ls (w_raw la (w_u8 v u)))"
    if "length h \<le> length (wbuf u)" for u v p
    using that Cons.IH [of "w_raw la (w_u8 v u)" p] by simp_all
  show ?case using Cons.prems
    by (simp add: Let_def n s i j rehead_steps split: option.split)
qed

lemma write_name_rehead:
  "length h \<le> length (wbuf w) \<Longrightarrow> write_name nm c (rehead h w) = rehead h (write_name nm c w)"
  by (simp add: write_name_def write_labels_rehead)

lemma write_name_grows: "\<exists>b. wbuf (write_name nm c w) = wbuf w @ b"
proof -
  have "\<exists>b. wbuf (write_labels c key p ls w) = wbuf w @ b" for key p ls
  proof (induction ls arbitrary: p w)
    case (Cons la ls)
    have u: "\<exists>b. wbuf (write_labels c key p ls (w_raw la (w_u8 v u))) = wbuf w @ b" if "wbuf u = wbuf w" for p v u
      using Cons.IH [of p "w_raw la (w_u8 v u)"] that by auto
    show ?case
    proof (cases c)
      case True
      with u show ?thesis by (simp add: Let_def split: option.split)
    next
      case False
      with u show ?thesis by simp
    qed
  qed simp
  then show ?thesis by (simp add: write_name_def)
qed

definition reheads :: "(writer \<Rightarrow> writer result) \<Rightarrow> bool" where
  "reheads f \<longleftrightarrow> (\<forall>h w w'. length h \<le> length (wbuf w) \<longrightarrow> f w = Inr w' \<longrightarrow>
     f (rehead h w) = Inr (rehead h w') \<and> length (wbuf w) \<le> length (wbuf w'))"

lemma reheadsI:
  assumes "\<And>h w w'. length h \<le> length (wbuf w) \<Longrightarrow> f w = Inr w' \<Longrightarrow>
     f (rehead h w) = Inr (rehead h w') \<and> length (wbuf w) \<le> length (wbuf w')"
  shows "reheads f"
  using assms unfolding reheads_def by blast

lemma reheadsD:
  assumes "reheads f" "length h \<le> length (wbuf w)" "f w = Inr w'"
  shows "f (rehead h w) = Inr (rehead h w')" "length (wbuf w) \<le> length (wbuf w')"
  using assms unfolding reheads_def by blast+

lemma reheads_bind:
  assumes "reheads f" "reheads g"
  shows "reheads (\<lambda>w. rbind (f w) g)"
proof (rule reheadsI)
  fix h :: bytes and w w'
  assume h: "length h \<le> length (wbuf w)" and "rbind (f w) g = Inr w'"
  then obtain u where u: "f w = Inr u" "g u = Inr w'" by (auto simp: rbind_eq_Inr)
  note 1 = reheadsD [OF assms(1) h u(1)]
  note 2 = reheadsD [OF assms(2) le_trans [OF h 1(2)] u(2)]
  from 1 2 show "rbind (f (rehead h w)) g = Inr (rehead h w') \<and> length (wbuf w) \<le> length (wbuf w')" by simp
qed

lemma reheads_fold: "(\<And>x. x \<in> set xs \<Longrightarrow> reheads (f x)) \<Longrightarrow> reheads (rfold f xs)"
proof (induction xs)
  case Nil
  show ?case by (simp add: reheads_def)
next
  case (Cons x xs)
  then show ?case using reheads_bind [of "f x" "rfold f xs"] by simp
qed

lemma reheads_question: "reheads (write_question c q)"
proof (rule reheadsI)
  fix h :: bytes and w w'
  assume h: "length h \<le> length (wbuf w)" and "write_question c q w = Inr w'"
  then have w': "w_u16 (qclass q) (w_u16 (qtype q) (write_name (qname q) c w)) = w'" by (simp add: write_question_def)
  obtain b where b: "wbuf (write_name (qname q) c w) = wbuf w @ b" using write_name_grows by blast
  from h w' b show "write_question c q (rehead h w) = Inr (rehead h w') \<and> length (wbuf w) \<le> length (wbuf w')"
    by (auto simp: write_question_def write_name_rehead rehead_steps)
qed

lemma reheads_rr:
  assumes "rr_ok owner x"
  shows "reheads (write_rr c x)"
proof (rule reheadsI)
  fix h :: bytes and w w'
  assume h: "length h \<le> length (wbuf w)" and w': "write_rr c x w = Inr w'"
  obtain b where b: "wbuf (write_name (rr_name x) c w) = wbuf w @ b" using write_name_grows by blast
  then have b': "wbuf (write_name (rr_name x) c (rehead h w)) = wbuf (rehead h w) @ b"
    using h by (simp add: write_name_rehead)
  from write_rr_bytes [OF b assms] write_rr_bytes [OF b' assms] w' h
  show "write_rr c x (rehead h w) = Inr (rehead h w') \<and> length (wbuf w) \<le> length (wbuf w')"
    by (auto intro!: writer.equality simp: write_name_rehead)
qed

definition write_body :: "bool \<Rightarrow> message \<Rightarrow> writer \<Rightarrow> writer result" where
  "write_body c m w =
     rbind (rfold (write_question c) (questions m) w) (\<lambda>w. rbind (rfold (write_rr c) (answers m) w) (\<lambda>w.
     rbind (rfold (write_rr c) (authority m) w) (\<lambda>w. rbind (rfold (write_rr c) (additional m) w) (write_edns (medns m)))))"

lemma reheads_edns:
  assumes "\<And>e. ed = Some e \<Longrightarrow> edns_ok e"
  shows "length h \<le> length (wbuf w) \<Longrightarrow> write_edns ed w = Inr w' \<Longrightarrow>
    \<exists>v. write_edns ed (rehead h w) = Inr v \<and> wbuf v = h @ drop (length h) (wbuf w')"
proof (cases ed)
  case (Some e)
  assume h: "length h \<le> length (wbuf w)" and w': "write_edns ed w = Inr w'"
  from Some write_opt_bytes [OF assms [OF Some], of w] write_opt_bytes [OF assms [OF Some], of "rehead h w"] h w'
  show ?thesis by (auto simp: write_edns_def)
qed (auto simp: write_edns_def)

lemma write_body_rehead:
  assumes ok: "msg_ok m" and h: "length h \<le> length (wbuf w)" and w': "write_body c m w = Inr w'"
  shows "\<exists>v. write_body c m (rehead h w) = Inr v \<and> wbuf v = h @ drop (length h) (wbuf w')"
proof -
  have q: "reheads (rfold (write_question c) (questions m))" by (rule reheads_fold) (rule reheads_question)
  have r: "reheads (rfold (write_rr c) xs)" if "list_all (rr_ok b) xs" for xs b
    by (rule reheads_fold) (use that in \<open>auto simp: list_all_iff intro: reheads_rr\<close>)
  have b: "reheads (\<lambda>w. rbind (rfold (write_question c) (questions m) w) (\<lambda>w. rbind (rfold (write_rr c) (answers m) w) (\<lambda>w.
      rbind (rfold (write_rr c) (authority m) w) (rfold (write_rr c) (additional m)))))" (is "reheads ?f")
    using ok by (intro reheads_bind q r) (auto simp: msg_ok_def)
  have f: "write_body c m u = rbind (?f u) (write_edns (medns m))" for u
    by (simp add: write_body_def rbind_assoc)
  from w' obtain u where u: "?f w = Inr u" "write_edns (medns m) u = Inr w'" by (auto simp: f rbind_eq_Inr)
  from b h u(1) have v: "?f (rehead h w) = Inr (rehead h u)" "length (wbuf w) \<le> length (wbuf u)"
    unfolding reheads_def by blast+
  from reheads_edns [OF _ _ u(2), of h] h v(2) ok show ?thesis unfolding f v(1) by (auto simp: msg_ok_def)
qed

subsection \<open>The walk follows the parser\<close>

lemma locate_questions_ploop:
  "ploop n read_question qs r = Inr (qs', r') \<Longrightarrow> locate_questions n r = Inr ((), r')"
  by (induction n arbitrary: qs r) (auto simp: read_question_def pbind_eq_Inr)

lemma pseek_rbuf: "rbuf a = rbuf b \<Longrightarrow> pseek p a = pseek p b"
  by (simp add: pseek_def seek_def rlen_def)

lemma safe_locate_record: "safe_parser (locate_record prev)"
proof -
  have "safe_parser (parse_TSIG n)" for n by (rule yields_safe [OF yields_TSIG])
  then have "safe_parser (if b then pbind (parse_TSIG n) (\<lambda>rd. pret (tsig_of rd)) else pret prev)" for b n
    by (auto intro: safe_parsers)
  then show ?thesis unfolding locate_record_def by (intro safe_parsers)
qed

lemma locate_record_read_rr:
  assumes "read_rr owner st r = Inr (st', r')" "reader_ok r" "list_all (\<lambda>x. rr_type x \<noteq> T_TSIG) (fst st')"
  shows "\<exists>l. locate_record prev r = Inr (l, r') \<and> l_rd l = prev"
proof -
  obtain n t c ttl len r1 r2 r3 r4 r5 where h: "read_name r = Inr (n, r1)" "r_u16 r1 = Inr (t, r2)" "r_u16 r2 = Inr (c, r3)"
    "r_u32 r3 = Inr (ttl, r4)" "r_u16 r4 = Inr (len, r5)"
    using assms(1) unfolding read_rr_def pbind_eq_Inr by blast
  have ok: "reader_ok r1" using safe_parser_Inr [OF safe_read_name assms(2) h(1)] by blast
  then have "reader_ok r5"
    using h(2-5) safe_parser_Inr [OF safe_r_u16] safe_parser_Inr [OF safe_r_u32] by metis
  note cont = assms(1) [unfolded read_rr_def pbind_def ptell_def tell_def, simplified h rbind_Inr prod.case]
  have "t \<noteq> T_TSIG \<and> pseek (rpos r5 + len) r5 = Inr ((), r')"
  proof (cases "t = T_OPT \<and> owner")
    case True
    with cont obtain d r6 where d: "r_read len r5 = Inr (d, r6)" "pseek (rpos r5 + len) r6 = Inr ((), r')"
      by (auto simp: rbind_eq_Inr pfail_def split: if_splits prod.splits)
    have "rbuf r6 = rbuf r5" using safe_parser_Inr [OF safe_r_read \<open>reader_ok r5\<close> d(1)] by blast
    with d(2) True show ?thesis by (simp add: pseek_rbuf [of r6 r5] T_OPT_def T_TSIG_def)
  next
    case False
    with cont obtain rd r6 where d: "parse_rdata t len r5 = Inr (rd, r6)" "pseek (rpos r5 + len) r6 = Inr ((), r')"
      "st' = (fst st @ [\<lparr>rr_name = n, rr_type = t, rr_class = c, rr_ttl = ttl, rr_rdata = rd\<rparr>], snd st)"
      by (auto simp: rbind_eq_Inr)
    have "rbuf r6 = rbuf r5" using parse_rdata_sound \<open>reader_ok r5\<close> d(1) by blast
    with d(2,3) assms(3) show ?thesis by (simp add: pseek_rbuf [of r6 r5])
  qed
  then show ?thesis
    by (intro exI [of _ "\<lparr>l_start = tell r, l_type = t, l_rd = prev, l_owner = n\<rparr>"])
      (simp add: locate_record_def pbind_def ptell_def pret_def h tell_def)
qed


lemma read_rr_accumulates: "read_rr owner st r = Inr (st', r') \<Longrightarrow> \<exists>ys. fst st' = fst st @ ys"
  by (auto simp: read_rr_def pbind_eq_Inr pfail_def split: if_splits prod.splits)

lemma ploop_accumulates: "ploop n (read_rr owner) st r = Inr (st', r') \<Longrightarrow> \<exists>ys. fst st' = fst st @ ys"
proof (induction n arbitrary: st r)
  case (Suc n)
  then obtain st1 r1 where 1: "read_rr owner st r = Inr (st1, r1)" "ploop n (read_rr owner) st1 r1 = Inr (st', r')"
    by (auto simp: pbind_eq_Inr)
  from read_rr_accumulates [OF 1(1)] Suc.IH [OF 1(2)] show ?case by auto
qed simp

definition rd_kept :: "located option \<Rightarrow> tsig_rd option" where
  "rd_kept l = (case l of None \<Rightarrow> None | Some l \<Rightarrow> l_rd l)"

lemma locate_records_ploop:
  assumes "ploop n (read_rr owner) st r = Inr (st', r')" "reader_ok r" "list_all (\<lambda>x. rr_type x \<noteq> T_TSIG) (fst st')"
  shows "\<exists>l'. locate_records n l r = Inr (l', r') \<and> rd_kept l' = rd_kept l"
  using assms
proof (induction n arbitrary: st r l)
  case (Suc n)
  then obtain st1 r1 where 1: "read_rr owner st r = Inr (st1, r1)" "ploop n (read_rr owner) st1 r1 = Inr (st', r')"
    by (auto simp: pbind_eq_Inr)
  have t: "list_all (\<lambda>x. rr_type x \<noteq> T_TSIG) (fst st1)"
    using ploop_accumulates [OF 1(2)] Suc.prems(3) by auto
  obtain l1 where l1: "locate_record (rd_kept l) r = Inr (l1, r1)" "l_rd l1 = rd_kept l"
    using locate_record_read_rr [OF 1(1) Suc.prems(2) t] by blast
  have "reader_ok r1"
    using safe_parser_Inr [OF safe_locate_record Suc.prems(2) l1(1)] by simp
  from Suc.IH [OF 1(2) this Suc.prems(3), of "Some l1"] l1 show ?case
    by (simp add: pbind_def rd_kept_def split: option.splits)
qed simp

lemma locate_records_add:
  "locate_records (a + b) l r = pbind (locate_records a l) (locate_records b) r"
  by (induction a arbitrary: l r) (auto simp: pbind_def pret_def rbind_def split: sum.splits prod.splits)

definition no_tsig :: "rr list \<Rightarrow> bool" where
  "no_tsig xs \<longleftrightarrow> list_all (\<lambda>x. rr_type x \<noteq> T_TSIG) xs"

definition walks :: "nat \<Rightarrow> bytes \<Rightarrow> bytes \<Rightarrow> bool" where
  "walks n pre bs \<longleftrightarrow> (\<forall>l rest. \<exists>l'. locate_records n l (reader_at pre (bs @ rest)) = Inr (l', reader_at (pre @ bs) rest) \<and>
     rd_kept l' = rd_kept l)"

lemma walks_add:
  assumes "walks m pre bs" "walks n (pre @ bs) cs"
  shows "walks (m + n) pre (bs @ cs)"
  unfolding walks_def
proof (intro allI)
  fix l rest
  obtain l1 where 1: "locate_records m l (reader_at pre (bs @ cs @ rest)) = Inr (l1, reader_at (pre @ bs) (cs @ rest))"
    "rd_kept l1 = rd_kept l" using assms(1) unfolding walks_def by blast
  obtain l2 where 2: "locate_records n l1 (reader_at (pre @ bs) (cs @ rest)) = Inr (l2, reader_at ((pre @ bs) @ cs) rest)"
    "rd_kept l2 = rd_kept l1" using assms(2) unfolding walks_def by blast
  have "locate_records (m + n) l (reader_at pre (bs @ cs @ rest)) = Inr (l2, reader_at ((pre @ bs) @ cs) rest)"
    unfolding locate_records_add pbind_def 1(1) by (simp only: rbind_Inr prod.case 2(1))
  with 1(2) 2(2) show "\<exists>l'. locate_records (m + n) l (reader_at pre ((bs @ cs) @ rest)) =
      Inr (l', reader_at (pre @ bs @ cs) rest) \<and> rd_kept l' = rd_kept l" by simp
qed

lemma rrs_walk:
  assumes "names_ok w" "list_all (rr_ok owner) xs" "no_tsig xs"
  shows "\<exists>bs w'. rfold (write_rr c) xs w = Inr w' \<and> wbuf w' = wbuf w @ bs \<and> names_ok w' \<and> walks (length xs) (wbuf w) bs"
proof -
  obtain bs w' ys where w: "rfold (write_rr c) xs w = Inr w'" "wbuf w' = wbuf w @ bs" "names_ok w'" "list_all2 (rr_same c) ys xs"
    "\<And>k rest. ploop (length xs + k) (read_rr owner) ([], None) (reader_at (wbuf w) (bs @ rest)) =
       ploop k (read_rr owner) (ys, None) (reader_at (wbuf w') rest)"
    using rrs_written [OF assms(1,2), of c] by blast
  have "map rr_type ys = map rr_type xs"
    using w(4) by (induction rule: list_all2_induct) (auto simp: rr_same_def)
  then have ys: "list_all (\<lambda>x. rr_type x \<noteq> T_TSIG) ys"
    using assms(3) unfolding no_tsig_def list_all_iff by (metis (no_types) in_set_conv_nth length_map nth_map)
  have "walks (length xs) (wbuf w) bs"
    unfolding walks_def
  proof (intro allI)
    fix l rest
    have "ploop (length xs) (read_rr owner) ([], None) (reader_at (wbuf w) (bs @ rest)) = Inr ((ys, None), reader_at (wbuf w @ bs) rest)"
      using w(5) [of 0 rest] w(2) by (simp add: pret_def)
    then show "\<exists>l'. locate_records (length xs) l (reader_at (wbuf w) (bs @ rest)) = Inr (l', reader_at (wbuf w @ bs) rest) \<and>
        rd_kept l' = rd_kept l"
      by (rule locate_records_ploop) (use ys in simp_all)
  qed
  with w show ?thesis by blast
qed

lemma edns_walk:
  assumes "\<And>e. ed = Some e \<Longrightarrow> edns_ok e"
  shows "\<exists>bs w'. write_edns ed w = Inr w' \<and> wbuf w' = wbuf w @ bs \<and> walks (nat (edns_count ed)) (wbuf w) bs"
proof (cases ed)
  case None
  then show ?thesis by (simp add: write_edns_def edns_count_def walks_def pret_def)
next
  case (Some e)
  note e = assms [OF Some]
  obtain w' where w': "write_opt e w = Inr w'" "wbuf w' = wbuf w @ opt_bytes e" using write_opt_bytes [OF e] by blast
  have "\<exists>l'. locate_records 1 l (reader_at (wbuf w) (opt_bytes e @ rest)) = Inr (l', reader_at (wbuf w @ opt_bytes e) rest) \<and>
      rd_kept l' = rd_kept l" for l rest
  proof (rule locate_records_ploop)
    show "ploop 1 (read_rr True) ([], None) (reader_at (wbuf w) (opt_bytes e @ rest)) =
        Inr (([], Some e), reader_at (wbuf w @ opt_bytes e) rest)"
      using read_opt_written [OF e, of "[]" "wbuf w" rest] by (simp add: pbind_def pret_def)
  qed simp_all
  with w' Some show ?thesis by (auto simp: write_edns_def edns_count_def walks_def)
qed

definition record_count :: "message \<Rightarrow> nat" where
  "record_count m = length (answers m) + length (authority m) + length (additional m) + nat (edns_count (medns m))"

lemma body_walk:
  assumes ok: "msg_ok m" and n: "names_ok w" and t: "no_tsig (answers m)" "no_tsig (authority m)" "no_tsig (additional m)"
  shows "\<exists>qs bs w'. write_body c m w = Inr w' \<and> wbuf w' = wbuf w @ qs @ bs \<and>
    (\<forall>rest. locate_questions (length (questions m)) (reader_at (wbuf w) (qs @ rest)) = Inr ((), reader_at (wbuf w @ qs) rest)) \<and>
    walks (record_count m) (wbuf w @ qs) bs"
proof -
  obtain b1 w1 qs where 1: "rfold (write_question c) (questions m) w = Inr w1" "wbuf w1 = wbuf w @ b1" "names_ok w1"
    "\<And>rest. ploop (length (questions m)) read_question [] (reader_at (wbuf w) (b1 @ rest)) = Inr (qs, reader_at (wbuf w1) rest)"
    using questions_written [OF n] ok unfolding msg_ok_def by metis
  obtain b2 w2 where 2: "rfold (write_rr c) (answers m) w1 = Inr w2" "wbuf w2 = wbuf w1 @ b2" "names_ok w2"
    "walks (length (answers m)) (wbuf w1) b2"
    using rrs_walk [OF 1(3) _ t(1)] ok unfolding msg_ok_def by metis
  obtain b3 w3 where 3: "rfold (write_rr c) (authority m) w2 = Inr w3" "wbuf w3 = wbuf w2 @ b3" "names_ok w3"
    "walks (length (authority m)) (wbuf w2) b3"
    using rrs_walk [OF 2(3) _ t(2)] ok unfolding msg_ok_def by metis
  obtain b4 w4 where 4: "rfold (write_rr c) (additional m) w3 = Inr w4" "wbuf w4 = wbuf w3 @ b4" "names_ok w4"
    "walks (length (additional m)) (wbuf w3) b4"
    using rrs_walk [OF 3(3) _ t(3)] ok unfolding msg_ok_def by metis
  obtain b5 w5 where 5: "write_edns (medns m) w4 = Inr w5" "wbuf w5 = wbuf w4 @ b5" "walks (nat (edns_count (medns m))) (wbuf w4) b5"
    using edns_walk ok unfolding msg_ok_def by metis
  have "walks (length (answers m) + length (authority m)) (wbuf w1) (b2 @ b3)"
    by (rule walks_add [OF 2(4)]) (use 3(4) 2(2) in simp)
  then have "walks (length (answers m) + length (authority m) + length (additional m)) (wbuf w1) ((b2 @ b3) @ b4)"
    by (rule walks_add) (use 4(4) 3(2) 2(2) in simp)
  then have "walks (record_count m) (wbuf w1) (((b2 @ b3) @ b4) @ b5)"
    unfolding record_count_def by (rule walks_add) (use 5(3) 4(2) 3(2) 2(2) in simp)
  moreover have "locate_questions (length (questions m)) (reader_at (wbuf w) (b1 @ rest)) = Inr ((), reader_at (wbuf w @ b1) rest)" for rest
    using locate_questions_ploop [OF 1(4)] 1(2) by simp
  moreover have "write_body c m w = Inr w5" by (simp add: write_body_def 1(1) 2(1) 3(1) 4(1) 5(1))
  ultimately show ?thesis using 1(2) 2(2) 3(2) 4(2) 5(2) by (intro exI [of _ b1] exI [of _ "((b2 @ b3) @ b4) @ b5"] exI [of _ w5]) simp
qed

subsection \<open>The record at the end\<close>

definition rd_of :: "tsig_rd \<Rightarrow> rdata" where
  "rd_of ts = Rd_TSIG (ts_algorithm ts) (ts_time ts) (ts_fudge ts) (ts_mac ts) (ts_original_id ts) (ts_error ts) (ts_other ts)"

definition tsig_bytes :: "name \<Rightarrow> tsig_rd \<Rightarrow> bytes" where
  "tsig_bytes kn ts = (let b = rdata_bytes (rd_of ts)
     in name_wire kn @ pack_H T_TSIG @ pack_H C_ANY @ pack_I 0 @ pack_H (int (length b)) @ b)"

definition tsig_ok :: "tsig_rd \<Rightarrow> bool" where
  "tsig_ok ts \<longleftrightarrow> wf_rdata (rd_of ts) \<and> length (rdata_bytes (rd_of ts)) < 65536"

lemma emit_tsig_bytes: "wbuf (emit_tsig ts w) = wbuf w @ rdata_bytes (rd_of ts)"
  using emit_bytes [of "rd_of ts" w "emit_tsig ts w"] by (simp add: rd_of_def emit_tsig_def)

lemma write_plain_name:
  "wbuf (w_u8 0 (fold (\<lambda>la w. w_raw la (w_u8 (int (length la)) w)) n w)) = wbuf w @ name_wire n"
  by (induction n arbitrary: w) simp_all

lemma append_tsig_bytes:
  assumes "from_text (y_name k) = Inr kn" "12 \<le> length msg" "tsig_ok ts"
  shows "append_tsig_rr msg k ts = Inr (put_u16 10 ((unpack_H (msg ! 10) (msg ! 11) + 1) AND 0xFFFF) (take 12 msg) @ drop 12 msg @
    tsig_bytes kn ts)"
proof -
  obtain w0 where w0: "w0 = w_u8 0 (fold (\<lambda>la w. w_raw la (w_u8 (int (length la)) w)) kn new_writer)" by simp
  then have b0: "wbuf w0 = name_wire kn" using write_plain_name [of kn new_writer] by simp
  obtain w where w: "w = w_u32 0 (w_u16 C_ANY (w_u16 T_TSIG w0))" by simp
  then have bw: "wbuf w = name_wire kn @ pack_H T_TSIG @ pack_H C_ANY @ pack_I 0" by (simp add: b0 T_TSIG_def C_ANY_def)
  let ?v = "w\<lparr>wbuf := wbuf w @ [0, 0]\<rparr>" and ?b = "rdata_bytes (rd_of ts)"
  have b: "wbuf (emit_tsig ts ?v) = wbuf w @ [0, 0] @ ?b" by (simp add: emit_tsig_bytes)
  have l: "int (wtell (emit_tsig ts ?v) - wtell ?v) = int (length ?b)" using b by (simp add: wtell_def)
  have "append_tsig_rr msg k ts = rbind (patch_u16 (length (wbuf w)) (int (wtell (emit_tsig ts ?v) - wtell ?v)) (emit_tsig ts ?v))
      (\<lambda>w. Inr (put_u16 10 ((unpack_H (msg ! 10) (msg ! 11) + 1) AND 0xFFFF) (take 12 msg) @ drop 12 msg @ wbuf w))"
    using assms(1,2) by (simp add: append_tsig_rr_def unpack_at_def Let_def reserve_u16_def w0 [symmetric] w [symmetric]
        del: w_simps)
  then show ?thesis
    unfolding l patch_reserved(2) [OF b] rbind_Inr using assms(3) by (simp add: bw tsig_bytes_def tsig_ok_def Let_def)
qed

lemma locate_record_tsig:
  assumes n: "wf_name kn" and ok: "tsig_ok ts"
  shows "locate_record prev (reader_at pre (tsig_bytes kn ts @ rest)) =
    Inr (\<lparr>l_start = int (length pre), l_type = T_TSIG, l_rd = Some ts, l_owner = kn\<rparr>, reader_at (pre @ tsig_bytes kn ts) rest)"
proof -
  let ?b = "rdata_bytes (rd_of ts)"
  have "rdata_rt (rd_of ts) parse_TSIG" using rt_TSIG ok unfolding rd_of_def tsig_ok_def by blast
  then obtain bs w' where "emit (rd_of ts) new_writer = Inr w'" "wbuf w' = wbuf new_writer @ bs"
    and rt: "\<And>pre rest. parse_TSIG (int (length bs)) (reader_at pre (bs @ rest)) = Inr (rd_of ts, reader_at (pre @ bs) rest)"
    unfolding rdata_rt_def by blast
  then have "bs = ?b" by (simp add: rdata_bytes_def)
  with rt have p: "parse_TSIG (int (length ?b)) (reader_at pre (?b @ rest)) = Inr (rd_of ts, reader_at (pre @ ?b) rest)" for pre rest
    by simp
  have u: "u16_ok (int (length ?b))" "u16_ok T_TSIG" "u16_ok C_ANY" "u32_ok 0"
    using ok by (simp_all add: u16_ok_def u32_ok_def T_TSIG_def C_ANY_def tsig_ok_def)
  have t: "tsig_of (rd_of ts) = Some ts" by (simp add: tsig_of_def rd_of_def)
  show ?thesis
    unfolding locate_record_def tsig_bytes_def Let_def
    using n u by (simp add: parse_steps p t pseek_here)
qed

subsection \<open>Header fields\<close>

lemma field_at:
  "length pre = i \<Longrightarrow> u16_ok v \<Longrightarrow> unpack_H ((pre @ pack_H v @ rest) ! i) ((pre @ pack_H v @ rest) ! (i + 1)) = v"
  by (auto simp: pack_H_def nth_append unpack_pack_H u16_ok_def)

definition header :: "bytes \<Rightarrow> bytes \<Rightarrow> int \<Rightarrow> int \<Rightarrow> int \<Rightarrow> int \<Rightarrow> bytes" where
  "header i f q a n r = i @ f @ pack_H q @ pack_H a @ pack_H n @ pack_H r"

lemma header_fields:
  assumes "length i = 2" "length f = 2" "u16_ok q" "u16_ok a" "u16_ok n" "u16_ok r"
    and b: "b = header i f q a n r @ rest"
  shows "unpack_H (b ! 4) (b ! 5) = q" "unpack_H (b ! 6) (b ! 7) = a" "unpack_H (b ! 8) (b ! 9) = n"
    "unpack_H (b ! 10) (b ! 11) = r" "length (header i f q a n r) = 12"
  using field_at [of "i @ f" 4 q "pack_H a @ pack_H n @ pack_H r @ rest"] field_at [of "i @ f @ pack_H q" 6 a "pack_H n @ pack_H r @ rest"]
    field_at [of "i @ f @ pack_H q @ pack_H a" 8 n "pack_H r @ rest"] field_at [of "i @ f @ pack_H q @ pack_H a @ pack_H n" 10 r rest] assms
  by (simp_all add: header_def)

lemma header_put:
  assumes "length i = 2" "length f = 2"
  shows "put_u16 0 v (header i f q a n r) = header (pack_H v) f q a n r"
    "put_u16 10 v (header i f q a n r) = header i f q a n v"
  using assms by (simp_all add: put_u16_def header_def)

lemma locate_tsig_found:
  assumes l: "length i = 2" "length f = 2" and u: "u16_ok q" "u16_ok a" "u16_ok n" "u16_ok r" and r: "0 < r"
    and qs: "\<And>rest. locate_questions (nat q) (reader_at (header i f q a n r) (qs @ rest)) = Inr ((), reader_at (header i f q a n r @ qs) rest)"
    and bs: "walks (nat (a + n + r) - 1) (header i f q a n r @ qs) bs" and kn: "wf_name kn" and ts: "tsig_ok ts"
  shows "locate_tsig (header i f q a n r @ qs @ bs @ tsig_bytes kn ts) =
    Inr (int (length (header i f q a n r @ qs @ bs)), ts, kn)"
proof -
  let ?h = "header i f q a n r" and ?t = "tsig_bytes kn ts"
  note h = header_fields [OF l u refl]
  have n1: "nat (a + n + r) = (nat (a + n + r) - 1) + 1" using u r by (simp add: u16_ok_def)
  obtain l' where l': "locate_records (nat (a + n + r) - 1) None (reader_at (?h @ qs) (bs @ ?t)) = Inr (l', reader_at (?h @ qs @ bs) ?t)"
    using bs unfolding walks_def by fastforce
  have "locate_records 1 l' (reader_at (?h @ qs @ bs) ?t) =
      Inr (Some \<lparr>l_start = int (length (?h @ qs @ bs)), l_type = T_TSIG, l_rd = Some ts, l_owner = kn\<rparr>,
        reader_at ((?h @ qs @ bs) @ ?t) [])"
    using locate_record_tsig [OF kn ts, of _ "?h @ qs @ bs" "[]"] by (simp add: pbind_def pret_def)
  with l' have "locate_records (nat (a + n + r)) None (reader_at (?h @ qs) (bs @ ?t)) =
      Inr (Some \<lparr>l_start = int (length (?h @ qs @ bs)), l_type = T_TSIG, l_rd = Some ts, l_owner = kn\<rparr>,
        reader_at ((?h @ qs @ bs) @ ?t) [])"
    by (subst n1) (simp only: locate_records_add pbind_def rbind_Inr prod.case)
  then have w: "pbind (locate_questions (nat q)) (\<lambda>_. locate_records (nat (a + n + r)) None) (reader_at ?h (qs @ bs @ ?t)) =
      Inr (Some \<lparr>l_start = int (length (?h @ qs @ bs)), l_type = T_TSIG, l_rd = Some ts, l_owner = kn\<rparr>,
        reader_at ((?h @ qs @ bs) @ ?t) [])"
    unfolding pbind_def qs by (simp only: rbind_Inr prod.case)
  have s: "\<lparr>rbuf = ?h @ qs @ bs @ ?t, rpos = 12\<rparr> = reader_at ?h (qs @ bs @ ?t)"
    using h(5) by (simp add: reader_at_def)
  have "length (?h @ qs @ bs @ ?t) \<ge> 12" using h(5) by simp
  then show ?thesis
    using r by (simp add: locate_tsig_def Let_def h(1-4) s w)
qed

lemma stripped_restores:
  assumes l: "length i = 2" "length f = 2" and u: "u16_ok q" "u16_ok a" "u16_ok n" "u16_ok (r + 1)" "0 \<le> r"
  shows "stripped (header i f q a n (r + 1) @ body @ t) (int (length (header i f q a n (r + 1) @ body))) v =
    header (pack_H v) f q a n r @ body"
proof -
  note h = header_fields [OF l u(1-4) refl]
  have "(r + 1 - 1) AND 0xFFFF = r" using u(4,5) by (simp add: and_FFFF u16_ok_def)
  then show ?thesis using h header_put [OF l] by (simp add: stripped_def Let_def)
qed

definition header_of :: "message \<Rightarrow> bytes" where
  "header_of m = header (pack_H (mid m)) (pack_H (mflags m)) (int (length (questions m))) (int (length (answers m)))
     (int (length (authority m))) (int (length (additional m)) + edns_count (medns m))"

lemma encode_walk:
  assumes ok: "msg_ok m" and t: "no_tsig (answers m)" "no_tsig (authority m)" "no_tsig (additional m)"
  shows "\<exists>body. encode c m = Inr (header_of m @ body) \<and> (\<forall>h. length h = 12 \<longrightarrow> (\<exists>qs bs. body = qs @ bs \<and>
    (\<forall>rest. locate_questions (length (questions m)) (reader_at h (qs @ rest)) = Inr ((), reader_at (h @ qs) rest)) \<and>
    walks (record_count m) (h @ qs) bs))"
proof -
  obtain w where w: "w = w_u16 (int (length (additional m)) + edns_count (medns m))
      (w_u16 (int (length (authority m))) (w_u16 (int (length (answers m)))
      (w_u16 (int (length (questions m))) (w_u16 (mflags m) (w_u16 (mid m) new_writer)))))" by simp
  have cnt: "u16_ok (int (length (additional m)) + edns_count (medns m))"
    using ok by (auto simp: msg_ok_def edns_count_def u16_ok_def)
  have b: "wbuf w = header_of m" using ok cnt by (simp add: w msg_ok_def parse_steps header_of_def header_def)
  have names: "names_ok (rehead h w)" for h by (simp add: names_ok_def w new_writer_def)
  have l: "length (wbuf w) = 12" by (simp add: b header_of_def header_def)
  have "rehead (wbuf w) w = w" by (simp add: rehead_def)
  then have "names_ok w" using names by metis
  from body_walk [OF ok this t, of c] obtain body w' where w': "write_body c m w = Inr w'" "wbuf w' = wbuf w @ body"
    by (metis append_assoc)
  have "encode c m = rbind (write_body c m w) (\<lambda>w. Inr (wbuf w))"
    using ok by (subst encode_sections) (simp_all add: msg_ok_def Let_def w write_body_def rbind_assoc)
  then have e: "encode c m = Inr (header_of m @ body)" using w' b by simp
  moreover have "\<exists>qs bs. body = qs @ bs \<and>
      (\<forall>rest. locate_questions (length (questions m)) (reader_at h (qs @ rest)) = Inr ((), reader_at (h @ qs) rest)) \<and>
      walks (record_count m) (h @ qs) bs" if h: "length h = 12" for h
  proof -
    obtain v where v: "write_body c m (rehead h w) = Inr v" "wbuf v = h @ body"
      using write_body_rehead [OF ok _ w'(1), of h] l h w'(2) by auto
    have hb: "wbuf (rehead h w) = h" using l h by simp
    from body_walk [OF ok names t, of c h] v show ?thesis unfolding hb by auto
  qed
  ultimately show ?thesis by blast
qed

lemma signed_record_ok:
  assumes "wf_name algo" "0 \<le> t" "t < 2 ^ 48" "u16_ok f" "length mac \<le> 64" "u16_ok i" "u16_ok e" "length other \<le> 64"
  shows "tsig_ok \<lparr>ts_algorithm = algo, ts_time = t, ts_fudge = f, ts_mac = mac, ts_original_id = i, ts_error = e, ts_other = other\<rparr>"
proof -
  have "int (length (name_wire algo)) \<le> 255"
    using assms(1) unfolding length_name_wire by (simp add: wf_name_def MAX_NAME_def)
  then have "length (wbuf (emit_TSIG algo t f mac i e other new_writer)) < 65536"
    using assms(5,8) by (simp add: emit_TSIG_def)
  with assms show ?thesis by (simp add: tsig_ok_def rd_of_def rdata_bytes_def u16_ok_def)
qed

text \<open>What the record behind the octets of a message makes the verifier find.\<close>

lemma signed_located:
  assumes ok: "msg_ok m" "no_tsig (answers m)" "no_tsig (authority m)" "no_tsig (additional m)"
    and room: "length (additional m) < 65533" and d: "encode c m = Inr d" and kn: "from_text (y_name k) = Inr kn"
    and tsok: "tsig_ok ts" and w: "append_tsig_rr d k ts = Inr wire"
  shows "\<exists>start. locate_tsig (put_u16 0 i wire) = Inr (start, ts, kn) \<and> stripped (put_u16 0 i wire) start (mid m) = d"
proof -
  let ?q = "int (length (questions m))" and ?a = "int (length (answers m))" and ?n = "int (length (authority m))"
  let ?r = "int (length (additional m)) + edns_count (medns m)" and ?f = "pack_H (mflags m)"
  have e: "0 \<le> edns_count (medns m)" "edns_count (medns m) \<le> 1" by (simp_all add: edns_count_def)
  have u: "u16_ok ?q" "u16_ok ?a" "u16_ok ?n" "u16_ok ?r" "u16_ok (?r + 1)" "0 \<le> ?r"
    using ok(1) room e by (simp_all add: msg_ok_def u16_ok_def)
  obtain body where body: "encode c m = Inr (header_of m @ body)"
    "\<And>h. length h = 12 \<Longrightarrow> \<exists>qs bs. body = qs @ bs \<and>
      (\<forall>rest. locate_questions (length (questions m)) (reader_at h (qs @ rest)) = Inr ((), reader_at (h @ qs) rest)) \<and>
      walks (record_count m) (h @ qs) bs"
    using encode_walk [OF ok, of c] by blast
  have dd: "d = header (pack_H (mid m)) ?f ?q ?a ?n ?r @ body" using body(1) d by (simp add: header_of_def)
  note h = header_fields [OF length_pack_H length_pack_H u(1-4) dd]
  have wf: "wf_name kn" using from_text_safe [of "y_name k"] kn by simp
  have "(?r + 1) AND 0xFFFF = ?r + 1" using u(5) by (simp add: and_FFFF u16_ok_def)
  then have wire: "wire = header (pack_H (mid m)) ?f ?q ?a ?n (?r + 1) @ body @ tsig_bytes kn ts"
    using w append_tsig_bytes [OF kn _ tsok] h by (simp add: dd header_put)
  define H where "H = header (pack_H i) ?f ?q ?a ?n (?r + 1)"
  have pw: "put_u16 0 i wire = H @ body @ tsig_bytes kn ts" by (simp add: wire H_def put_u16_def header_def)
  have "length H = 12" by (simp add: H_def header_def)
  from body(2) [OF this] obtain qs bs where qb: "body = qs @ bs"
    "\<And>rest. locate_questions (length (questions m)) (reader_at H (qs @ rest)) = Inr ((), reader_at (H @ qs) rest)"
    "walks (record_count m) (H @ qs) bs" by blast
  have rc: "nat (?a + ?n + (?r + 1)) - 1 = record_count m" using e by (simp add: record_count_def)
  have "locate_tsig (H @ qs @ bs @ tsig_bytes kn ts) = Inr (int (length (H @ qs @ bs)), ts, kn)"
    unfolding H_def
    by (rule locate_tsig_found) (use u qb(2,3) rc wf tsok in \<open>simp_all add: H_def [symmetric] del: of_nat_add\<close>)
  then have "locate_tsig (put_u16 0 i wire) = Inr (int (length (H @ body)), ts, kn)" by (simp add: pw qb(1))
  moreover have "stripped (put_u16 0 i wire) (int (length (H @ body))) (mid m) = d"
    unfolding pw dd unfolding H_def by (rule stripped_restores [OF length_pack_H length_pack_H u(1-3,5,6)])
  ultimately show ?thesis by blast
qed

lemma encode_id: "msg_ok m \<Longrightarrow> no_tsig (answers m) \<Longrightarrow> no_tsig (authority m) \<Longrightarrow> no_tsig (additional m) \<Longrightarrow>
    encode c m = Inr d \<Longrightarrow> unpack_at d 0 = Inr (mid m)"
  using encode_walk [of m c] field_at [of "[]" 0 "mid m"]
  by (fastforce simp: unpack_at_def header_of_def header_def msg_ok_def)

text \<open>A message that carries a prefix of the MAC its key gives, at the time \<open>now\<close>.\<close>

definition genuine :: "(ustr \<Rightarrow> bytes \<Rightarrow> bytes \<Rightarrow> bytes) \<Rightarrow> tsig_key \<Rightarrow> bytes option \<Rightarrow> bool \<Rightarrow> bytes \<Rightarrow> tsig_rd \<Rightarrow> bytes \<Rightarrow> bool" where
  "genuine M k rm timers d ts mac \<longleftrightarrow> from_text (y_algorithm k) = Inr (ts_algorithm ts) \<and> ts_error ts = 0 \<and>
     digest M k d (ts_algorithm ts) (ts_time ts) (ts_fudge ts) 0 (ts_other ts) rm timers = Inr mac \<and> mac_matches (ts_mac ts) mac"

lemma located_verifies:
  assumes "locate_tsig w = Inr (start, ts, kn)" "stripped w start (ts_original_id ts) = d" "find_key ring kn = Some k"
    and "genuine M k rm timers d ts mac" and now: "\<bar>now - ts_time ts\<bar> \<le> min (ts_fudge ts) fmax"
  shows "verify_wire M w ring rm now fmax rp timers = (case rp of None \<Rightarrow> Inr (ts_mac ts, k, ts, None)
    | Some r \<Rightarrow> tbind (replay_check r (key_text kn) (ts_time ts) (ts_mac ts) (min (ts_fudge ts) fmax) now)
        (\<lambda>r'. Inr (ts_mac ts, k, ts, Some r')))"
proof -
  have m: "\<not> length mac < length (ts_mac ts)" "\<not> length (ts_mac ts) < max 10 (length mac div 2)"
    "take (length (ts_mac ts)) mac = ts_mac ts" and g: "from_text (y_algorithm k) = Inr (ts_algorithm ts)" "ts_error ts = 0"
    "digest M k d (ts_algorithm ts) (ts_time ts) (ts_fudge ts) 0 (ts_other ts) rm timers = Inr mac"
    using assms(4) by (auto simp: genuine_def mac_matches_def)
  have "\<not> min (ts_fudge ts) fmax < \<bar>now - ts_time ts\<bar>" using now by linarith
  with m show ?thesis
    unfolding verify_wire_def assms(1,3) tbind_simps prod.case option.case g tlift_simps assms(2)
    by (simp add: g assms(2) name_eq_def Let_def split: option.split)
qed

text \<open>
  C17: What is signed verifies: for every well-formed message without a TSIG record, serialised with or
  without compression, the octets \<open>sign_wire\<close> makes of it are accepted by whoever has the key under
  its name, within the fudge, and whatever identifier the message arrives with: the MAC, the key
  and the record that come out are those that were put in.
\<close>

theorem signed_message_verifies:
  assumes ok: "msg_ok m" "no_tsig (answers m)" "no_tsig (authority m)" "no_tsig (additional m)"
    and room: "length (additional m) < 65533" and d: "encode c m = Inr d"
    and s: "sign_wire M d k rm t fudge None 0 other timers = Inr (wire, mac)"
    and kn: "from_text (y_name k) = Inr kn" and k: "find_key ring kn = Some k"
    and r: "0 \<le> t" "t < 2 ^ 48" "u16_ok fudge" "10 \<le> length mac" "length mac \<le> 64" "length other \<le> 64"
    and now: "\<bar>now - t\<bar> \<le> min fudge fmax"
  shows "\<exists>ts. verify_wire M (put_u16 0 i wire) ring rm now fmax None timers = Inr (mac, k, ts, None) \<and>
    ts_time ts = t \<and> ts_fudge ts = fudge \<and> ts_mac ts = mac \<and> ts_original_id ts = mid m \<and> ts_other ts = other"
proof -
  obtain algo ts where algo: "from_text (y_algorithm k) = Inr algo" "digest M k d algo t fudge 0 other rm timers = Inr mac"
    and ts: "ts = \<lparr>ts_algorithm = algo, ts_time = t, ts_fudge = fudge, ts_mac = mac, ts_original_id = mid m, ts_error = 0, ts_other = other\<rparr>"
    and wire: "append_tsig_rr d k ts = Inr wire"
    using s encode_id [OF ok d] by (auto simp: sign_wire_def tbind_Inr)
  have "wf_name algo" using from_text_safe [of "y_algorithm k"] algo(1) by simp
  then have "tsig_ok ts"
    unfolding ts by (rule signed_record_ok) (use r ok(1) in \<open>simp_all add: u16_ok_def msg_ok_def\<close>)
  from signed_located [OF ok room d kn this wire] obtain start where
    l: "locate_tsig (put_u16 0 i wire) = Inr (start, ts, kn)" "stripped (put_u16 0 i wire) start (mid m) = d" by blast
  have "ts_original_id ts = mid m" "genuine M k rm timers d ts mac" "\<bar>now - ts_time ts\<bar> \<le> min (ts_fudge ts) fmax"
    using algo r(4) now by (simp_all add: ts genuine_def mac_matches_def)
  from located_verifies [OF l(1) _ k this(2,3)] this(1) l(2)
  have "verify_wire M (put_u16 0 i wire) ring rm now fmax None timers = Inr (mac, k, ts, None)" by (simp add: ts)
  then show ?thesis by (simp add: ts)
qed

text \<open>
  An empty update under a key whose MAC is its secret, as a check that nothing above is vacuous.
\<close>

definition toy_mac :: "ustr \<Rightarrow> bytes \<Rightarrow> bytes \<Rightarrow> bytes" where
  "toy_mac h s m = s"

definition toy_key :: tsig_key where
  "toy_key = \<lparr>y_name = chars ''k.'', y_secret = replicate 20 7, y_algorithm = chars ''hmac-sha1.''\<rparr>"

definition toy_ring :: "(ustr, tsig_key) odict" where
  "toy_ring = [(chars ''k.'', toy_key)]"

definition toy_update :: message where
  "toy_update = \<lparr>mid = 4660, mflags = 0x2800, questions = [], answers = [], authority = [], additional = [], medns = None\<rparr>"

definition toy_ts :: tsig_rd where
  "toy_ts = \<lparr>ts_algorithm = [[104, 109, 97, 99, 45, 115, 104, 97, 49]], ts_time = 1000, ts_fudge = 300, ts_mac = replicate 20 7,
     ts_original_id = 4660, ts_error = 0, ts_other = []\<rparr>"

lemma toy_message: "msg_ok toy_update" "no_tsig (answers toy_update)" "no_tsig (authority toy_update)"
    "no_tsig (additional toy_update)" "length (additional toy_update) < 65533"
  by (simp_all add: toy_update_def msg_ok_def no_tsig_def u16_ok_def)

lemma toy_encoded: "encode True toy_update = Inr [18, 52, 40, 0, 0, 0, 0, 0, 0, 0, 0, 0]"
  by (simp add: toy_update_def encode_empty pack_H_def)

lemma toy_name_text: "from_text (chars ''k.'') = Inr [[107]]"
    "from_text (chars ''hmac-sha1.'') = Inr [[104, 109, 97, 99, 45, 115, 104, 97, 49]]"
  by (simp_all add: chars_def from_text_def strip_def rstrip_def lstrip_def py_space_def Let_def endswith_def
      encode_ascii_def MAX_LABEL_def MAX_NAME_def wire_len_def)

lemma toy_key_text: "key_text [[107]] = chars ''k.''"
  by code_simp

lemma toy_algorithm_known: "lower_ascii (chars ''hmac-sha1.'') \<in> set TSIG_ALGOS"
proof -
  have "list_ex (\<lambda>x. x = lower_ascii (chars ''hmac-sha1.'')) TSIG_ALGOS" by code_simp
  then show ?thesis by (auto simp: list_ex_iff)
qed

lemma toy_texts: "from_text (y_name toy_key) = Inr [[107]]" "key_text [[107]] = chars ''k.''"
    "from_text (y_algorithm toy_key) = Inr [[104, 109, 97, 99, 45, 115, 104, 97, 49]]"
    "lower_ascii (chars ''hmac-sha1.'') \<in> set TSIG_ALGOS"
  using toy_name_text toy_key_text toy_algorithm_known by (simp_all add: toy_key_def)

lemma toy_found: "find_key toy_ring [[107]] = Some toy_key"
  by (simp add: find_key_def toy_texts toy_ring_def od_get_def)

lemma toy_digest: "digest toy_mac toy_key d (ts_algorithm toy_ts) 1000 300 0 [] None False = Inr (replicate 20 7)"
proof -
  have "hash_name toy_key = Inr (lower_ascii (chars ''hmac-sha1.''))"
    using toy_texts(4) by (simp add: hash_name_def toy_key_def)
  moreover have "y_secret toy_key = replicate 20 7" by (simp add: toy_key_def)
  ultimately show ?thesis
    by (simp add: digest_def mac_prefix_def tsig_variables_def toy_texts struct_H_def toy_mac_def)
qed

lemma toy_ts_ok: "tsig_ok toy_ts"
  unfolding toy_ts_def
  by (rule signed_record_ok) (simp_all add: u16_ok_def wf_name_def wf_label_def wire_len_def MAX_NAME_def MAX_LABEL_def)

theorem signed_message_verifies_witness:
  "\<exists>d wire mac ts. encode True toy_update = Inr d \<and> sign_wire toy_mac d toy_key None 1000 300 None 0 [] False = Inr (wire, mac) \<and>
     verify_wire toy_mac (put_u16 0 99 wire) toy_ring None 1200 300 None False = Inr (mac, toy_key, ts, None) \<and>
     ts_mac ts = replicate 20 7"
proof -
  let ?d = "[18, 52, 40, 0, 0, 0, 0, 0, 0, 0, 0, 0]"
  obtain wire where "append_tsig_rr ?d toy_key toy_ts = Inr wire"
    using append_tsig_bytes [OF toy_texts(1) _ toy_ts_ok, of ?d] by auto
  then have s: "sign_wire toy_mac ?d toy_key None 1000 300 None 0 [] False = Inr (wire, replicate 20 7)"
    using toy_digest [of ?d] by (simp add: sign_wire_def unpack_at_def unpack_H_def toy_texts toy_ts_def)
  have "\<exists>ts. verify_wire toy_mac (put_u16 0 99 wire) toy_ring None 1200 300 None False = Inr (replicate 20 7, toy_key, ts, None) \<and>
      ts_time ts = 1000 \<and> ts_fudge ts = 300 \<and> ts_mac ts = replicate 20 7 \<and> ts_original_id ts = mid toy_update \<and> ts_other ts = []"
    by (rule signed_message_verifies [OF toy_message toy_encoded s toy_texts(1) toy_found]) (simp_all add: u16_ok_def)
  with toy_encoded s show ?thesis by blast
qed

subsection \<open>Where the window against replays is not enough\<close>

text \<open>Copies of one message under records that differ, all of them genuine.\<close>

lemma copy_received:
  assumes "msg_ok m" "no_tsig (answers m)" "no_tsig (authority m)" "no_tsig (additional m)" "length (additional m) < 65533"
    "encode c m = Inr d" "from_text (y_name k) = Inr kn" "find_key ring kn = Some k" "tsig_ok ts" "append_tsig_rr d k ts = Inr wire"
    and "ts_original_id ts = mid m" "genuine M k None False d ts mac" "\<bar>now - ts_time ts\<bar> \<le> min (ts_fudge ts) fmax"
  shows "receive M ring fmax rp (put_u16 0 i wire, now) =
    (case replay_check rp (key_text kn) (ts_time ts) (ts_mac ts) (min (ts_fudge ts) fmax) now of Inl _ \<Rightarrow> (rp, False) | Inr r \<Rightarrow> (r, True))"
proof -
  obtain start where "locate_tsig (put_u16 0 i wire) = Inr (start, ts, kn)" "stripped (put_u16 0 i wire) start (mid m) = d"
    using signed_located [OF assms(1-7,9,10)] by blast
  from located_verifies [OF this(1) _ assms(8,12,13), of "Some rp"] this(2) assms(11) show ?thesis
    by (auto simp: receive_def split: sum.split)
qed

text \<open>
  A MAC cut short is accepted, and the window compares MACs as they were sent: the same
  message with a shorter MAC is not recognised.
\<close>

lemma truncated_copy_accepted:
  assumes msg: "msg_ok m" "no_tsig (answers m)" "no_tsig (authority m)" "no_tsig (additional m)" "length (additional m) < 65533"
    "encode c m = Inr d" "from_text (y_name k) = Inr kn" "find_key ring kn = Some k"
    and full: "tsig_ok ts" "append_tsig_rr d k ts = Inr wire" "genuine M k None False d ts mac"
    and short: "tsig_ok (ts\<lparr>ts_mac := cut_mac\<rparr>)" "append_tsig_rr d k (ts\<lparr>ts_mac := cut_mac\<rparr>) = Inr wire'"
      "genuine M k None False d (ts\<lparr>ts_mac := cut_mac\<rparr>) mac" "cut_mac \<noteq> ts_mac ts"
    and t: "ts_original_id ts = mid m" "0 \<le> ts_time ts" "\<bar>now - ts_time ts\<bar> \<le> min (ts_fudge ts) fmax"
  shows "accepted M ring fmax (new_replay (Suc n)) [(put_u16 0 i wire, now), (put_u16 0 i wire', now)] =
    [put_u16 0 i wire, put_u16 0 i wire']"
proof -
  define w where "w = min (ts_fudge ts) fmax"
  have "0 \<le> w" "now - w \<le> ts_time ts" using t(3) unfolding w_def by linarith+
  then have "replay_check (new_replay (Suc n)) (key_text kn) (ts_time ts) (ts_mac ts) w now =
      Inr ((new_replay (Suc n))\<lparr>rp_seen := [(key_text kn, [(ts_time ts, ts_mac ts)])], rp_high := [(key_text kn, ts_time ts)]\<rparr>)"
    (is "_ = Inr ?rp")
    using t(2) by (simp add: replay_check_def new_replay_def od_get_def)
  moreover have "\<exists>r. replay_check ?rp (key_text kn) (ts_time ts) cut_mac w now = Inr r"
    using short(4) \<open>0 \<le> w\<close> by (auto simp: replay_check_def od_get_def Let_def)
  ultimately show ?thesis
    using copy_received [OF msg full(1,2) t(1) full(3) t(3)] copy_received [OF msg short(1,2) _ short(3), of now fmax] t
    by (auto simp: w_def)
qed

text \<open>
  A message forgets by its own window: one that asks for little fudge makes the server forget a
  message of the same key that asked for more, which is then accepted a second time.
\<close>

lemma narrow_message_forgets:
  assumes msg: "msg_ok m" "no_tsig (answers m)" "no_tsig (authority m)" "no_tsig (additional m)" "length (additional m) < 65533"
    "encode c m = Inr d" "from_text (y_name k) = Inr kn" "find_key ring kn = Some k"
    and wide: "tsig_ok ts" "append_tsig_rr d k ts = Inr wire" "genuine M k None False d ts mac" "ts_original_id ts = mid m"
    and narrow: "tsig_ok ts'" "append_tsig_rr d k ts' = Inr wire'" "genuine M k None False d ts' mac'" "ts_original_id ts' = mid m"
    and t: "0 \<le> ts_time ts" "ts_time ts' = t'" "ts_fudge ts' = f" "0 \<le> f" "f \<le> fmax" "t' = ts_time ts + f + 1"
      "f + 1 \<le> min (ts_fudge ts) fmax" "ts_mac ts' \<noteq> ts_mac ts"
  shows "accepted M ring fmax (new_replay (Suc n)) [(put_u16 0 i wire, ts_time ts), (put_u16 0 i wire', t'), (put_u16 0 i wire, t')] =
    [put_u16 0 i wire, put_u16 0 i wire', put_u16 0 i wire]"
proof -
  define w where "w = min (ts_fudge ts) fmax"
  have w: "0 \<le> w" "f + 1 \<le> w" using t(4,7) unfolding w_def by linarith+
  have mf: "min f fmax = f" using t(5) by simp
  let ?r0 = "new_replay (Suc n)" and ?m = "ts_mac ts" and ?m' = "ts_mac ts'" and ?t = "ts_time ts" and ?kn = "key_text kn"
  let ?r1 = "?r0\<lparr>rp_seen := [(?kn, [(?t, ?m)])], rp_high := [(?kn, ?t)]\<rparr>"
  let ?r2 = "?r0\<lparr>rp_seen := [(?kn, [(t', ?m')])], rp_high := [(?kn, t')]\<rparr>"
  have 1: "replay_check ?r0 ?kn ?t ?m w ?t = Inr ?r1" using t(1) by (simp add: replay_check_def new_replay_def od_get_def)
  have 2: "replay_check ?r1 ?kn t' ?m' f t' = Inr ?r2" using t(4,6) by (simp add: replay_check_def new_replay_def od_get_def)
  have 3: "\<exists>r. replay_check ?r2 ?kn ?t ?m w t' = Inr r" using t(6,8) w
    by (simp add: replay_check_def new_replay_def od_get_def Let_def)
  have c1: "receive M ring fmax ?r0 (put_u16 0 i wire, ?t) = (?r1, True)"
    using copy_received [OF msg wide(1,2,4,3), of ?t fmax ?r0 i] w(1) 1 by (simp add: w_def)
  have c2: "receive M ring fmax ?r1 (put_u16 0 i wire', t') = (?r2, True)"
    using copy_received [OF msg narrow(1,2,4,3), of t' fmax ?r1 i] t(2-5) 2 by (simp add: mf)
  have "\<bar>t' - ?t\<bar> \<le> w" using t(4,6) w by simp
  then have c3: "\<exists>r. receive M ring fmax ?r2 (put_u16 0 i wire, t') = (r, True)"
    using copy_received [OF msg wide(1,2,4,3), of t' fmax ?r2 i] 3 by (auto simp: w_def)
  from c1 c2 c3 show ?thesis by auto
qed

subsection \<open>Both at work on the empty update\<close>

lemma toy_genuine:
  "genuine toy_mac toy_key None False d toy_ts (replicate 20 7)"
  "genuine toy_mac toy_key None False d (toy_ts\<lparr>ts_mac := replicate 10 7\<rparr>) (replicate 20 7)"
  using toy_digest [of d] by (simp_all add: genuine_def toy_texts toy_ts_def mac_matches_def)

lemma toy_cut_ok: "tsig_ok (toy_ts\<lparr>ts_mac := replicate 10 7\<rparr>)"
  unfolding toy_ts_def tsig_rd.simps
  by (rule signed_record_ok) (simp_all add: u16_ok_def wf_name_def wf_label_def wire_len_def MAX_NAME_def MAX_LABEL_def)

theorem replay_bounded_witness:
  "\<exists>wire. accepted toy_mac toy_ring 300 (new_replay 4096) [(put_u16 0 1 wire, 1000), (put_u16 0 2 wire, 1100)] = [put_u16 0 1 wire] \<and>
     distinct (map (\<lambda>w. (signed_as toy_mac toy_ring w, shown w)) (accepted toy_mac toy_ring 300 (new_replay 4096) [(put_u16 0 1 wire, 1000), (put_u16 0 2 wire, 1100)]))"
proof -
  let ?d = "[18, 52, 40, 0, 0, 0, 0, 0, 0, 0, 0, 0]"
  obtain wire where w: "append_tsig_rr ?d toy_key toy_ts = Inr wire"
    using append_tsig_bytes [OF toy_texts(1) _ toy_ts_ok, of ?d] by auto
  note r = copy_received [OF toy_message toy_encoded toy_texts(1) toy_found toy_ts_ok w _ toy_genuine(1)]
  have t: "ts_original_id toy_ts = mid toy_update" "ts_time toy_ts = 1000" "ts_fudge toy_ts = 300" "ts_mac toy_ts = replicate 20 7"
    by (simp_all add: toy_ts_def toy_update_def)
  have f: "fudge_of (put_u16 0 i wire) = Some 300" for i
    using signed_located [OF toy_message toy_encoded toy_texts(1) toy_ts_ok w, of i] t(3) by (auto simp: fudge_of_def)
  have "accepted toy_mac toy_ring 300 (new_replay 4096) [(put_u16 0 1 wire, 1000), (put_u16 0 2 wire, 1100)] = [put_u16 0 1 wire]"
    using r [of 1000 300 _ 1] r [of 1100 300 _ 2] by (simp add: t replay_check_def new_replay_def od_get_def)
  moreover have "distinct (map (\<lambda>w. (signed_as toy_mac toy_ring w, shown w)) (accepted toy_mac toy_ring 300 (new_replay 4096) [(put_u16 0 1 wire, 1000), (put_u16 0 2 wire, 1100)]))"
    by (rule conjunct1 [OF replay_bounded [OF _ _ _ refl]]) (simp_all add: f toy_ring_def)
  ultimately show ?thesis by blast
qed

lemma truncated_replay_of_update:
  "\<exists>wire wire'. append_tsig_rr [18, 52, 40, 0, 0, 0, 0, 0, 0, 0, 0, 0] toy_key toy_ts = Inr wire \<and>
     append_tsig_rr [18, 52, 40, 0, 0, 0, 0, 0, 0, 0, 0, 0] toy_key (toy_ts\<lparr>ts_mac := replicate 10 7\<rparr>) = Inr wire' \<and>
     accepted toy_mac toy_ring 300 (new_replay 4096) [(put_u16 0 1 wire, 1000), (put_u16 0 1 wire', 1000)] =
       [put_u16 0 1 wire, put_u16 0 1 wire']"
proof -
  let ?d = "[18, 52, 40, 0, 0, 0, 0, 0, 0, 0, 0, 0]"
  obtain wire where w: "append_tsig_rr ?d toy_key toy_ts = Inr wire"
    using append_tsig_bytes [OF toy_texts(1) _ toy_ts_ok, of ?d] by auto
  obtain wire' where w': "append_tsig_rr ?d toy_key (toy_ts\<lparr>ts_mac := replicate 10 7\<rparr>) = Inr wire'"
    using append_tsig_bytes [OF toy_texts(1) _ toy_cut_ok, of ?d] by auto
  have "accepted toy_mac toy_ring 300 (new_replay (Suc 4095)) [(put_u16 0 1 wire, 1000), (put_u16 0 1 wire', 1000)] =
      [put_u16 0 1 wire, put_u16 0 1 wire']"
  proof (rule truncated_copy_accepted [OF toy_message toy_encoded toy_texts(1) toy_found toy_ts_ok w toy_genuine(1)
        toy_cut_ok w' toy_genuine(2)])
    have "length (replicate 10 (7 :: byte)) \<noteq> length (ts_mac toy_ts)" by (simp add: toy_ts_def)
    then show "replicate 10 7 \<noteq> ts_mac toy_ts" by metis
  qed (simp_all add: toy_ts_def toy_update_def)
  with w w' show ?thesis by auto
qed

end
