(* ===== verification/Spec2Isabelle.thy ===== *)
theory Spec2Isabelle
  imports Transport_Base Answer_Cache_Props Rate_Limit Engine_Guards Dhcp_Server Zone_Transfer_Props Filter_Reference Regex_Cost Ip_Match Sanitize Dnssec_Chain_Props Tsig_Codec
begin

text \<open>
  A verification library for trench, a DNS sinkhole, validating resolver, authoritative server and DHCP
  server written in Python. Paths are those of the repository under \<^verbatim>\<open>trench/\<close>.

  \<^bold>\<open>The program.\<close> A transport hands the octets of a query to one choke point
  (\<^verbatim>\<open>transport/base.py\<close>), which parses it, calls the handler, and serialises the reply within what the
  client can receive. The handler applies guards (rate limit, cookies, special-use names), answers from
  its own zones, decides blocking by the filter engine, looks into the answer cache and its second level
  shared by the workers, and asks upstream servers or resolves from the root; what comes back is
  reduced to what the question led to, scrubbed of private addresses, and validated by DNSSEC.
  Zones are changed by dynamic update and zone transfer under TSIG. The DHCP server is separate.

  \<^bold>\<open>Foundations.\<close> Prelude: octets, Python's exceptions as values of a sum type, big-endian packing.
  Py_Text: strings as lists of code points. Ordered_Dict: \<^verbatim>\<open>dict\<close> and \<^verbatim>\<open>OrderedDict\<close> as the list
  of their items, with the locales of a dictionary and of a bounded least-recently-used store.

  \<^bold>\<open>The wire format\<close> (\<^verbatim>\<open>wire/\<close>). Wire_Buffer: cursor and writer. Wire_Name, Wire_Name_Codec,
  Name_Text: names, their compression on the wire, their text. Wire_Rdata, Rdata_Text: every class
  of record data. Wire_Message: EDNS, parser, serialiser with truncation. The \<open>_Props\<close>, \<open>_Safe\<close> and
  \<open>_Ops\<close> theories show that every encoder and parser are inverse, that the parser raises nothing but
  \<open>WireError\<close> on any octets and returns only well-formed messages, that a size cap is kept; a section
  of a message is a locale (\<open>wire_section\<close>) interpreted for questions and records. Transport_Base: the
  choke point never answers a response and never exceeds the size the client allows.

  \<^bold>\<open>The caches\<close> (\<^verbatim>\<open>cache/\<close>). Shared_Cache: the slots every worker maps. Answer_Cache: the cache of one
  worker over it. Its lemmas keep the bound and the form of entries, and show that what has expired is
  served only as stale, and that it is served as stale in an outage.

  \<^bold>\<open>Guards\<close> (\<^verbatim>\<open>engine/\<close>). Rate_Limit: token buckets, with the bound on what one client gets. Engine_Guards:
  cookies, 0x20 case, special-use names, rebinding, synthesised replies.

  \<^bold>\<open>Filtering\<close> (\<^verbatim>\<open>filter/\<close>). Block_Table: the open-addressed table in shared memory refines a map
  from each domain to its first source. Filter_Rule, Filter_Parser: rules and the four list dialects. Ip_Match:
  networks. Filter_Engine: the index and the decision; its \<open>_Props\<close> show that the index decides as the list of
  rules does, whether it was compiled here or adopted from another process.

  \<^bold>\<open>Authoritative zones\<close> (\<^verbatim>\<open>auth_zone/\<close>). Zone: store and lookup. Zone_Update: RFC 2136. Zone_Transfer:
  AXFR and IXFR. Tsig: signatures of messages. Their \<open>_Props\<close> give lookup its meaning over the set of records
  (existence, closest encloser, wildcards), keep the apex under updates, deliver a transfer whole, and show that
  a signed message verifies and is accepted only once.

  \<^bold>\<open>Resolution\<close> (\<^verbatim>\<open>resolver/\<close>). Sanitize: what is kept of an upstream response. Dnssec_Denial, Dnssec_Keys,
  Dnssec_Chain: \<^verbatim>\<open>dnssec/nsec.py\<close>, \<^verbatim>\<open>keys.py\<close> with \<^verbatim>\<open>validate.py\<close>, \<^verbatim>\<open>chain.py\<close>. Dnssec_Denial_Props says
  what records of a signed zone mean by a \<open>world\<close> (names, data, chain) and proves each kind of denial sound over
  the locale \<open>denial_proofs\<close>, interpreted for NSEC and for NSEC3. Dnssec_Chain_Props proves by triples
  (\<open>vspec\<close>) over the state of the validator that whatever the network sends a secure verdict rests on keys
  that descend from the anchors (\<open>trusted\<close>), and an insecure one on an authenticated unsigned delegation.

  \<^bold>\<open>DHCP\<close> (\<^verbatim>\<open>dhcp/\<close>). Dhcp_Packet: the codec. Dhcp_Scope: the pool; no two clients share an address over any
  run. Dhcp_Server: replies are backed by leases.

  \<^bold>\<open>State, errors, loops.\<close> Objects are records and methods take and return them; what raises is a value of
  \<open>error + 'a\<close>, with the state kept where the code has already changed it. Loops over collections are
  structural; index loops of the parsers have measures; the probe of the block table is a
  \<open>partial_function\<close>, and \<open>table_build_returns\<close> shows that it returns. The chain of CNAMEs of a zone is
  bounded by the code's own \<^verbatim>\<open>MAX_CNAME_CHAIN\<close>, the descent of the validator by its budgets.

  \<^bold>\<open>Arguments.\<close> What the sources only call is an argument of the definitions that use it: clocks, random
  bits, the checksum and hash functions, HMAC and signature checks, the regular expression
  engine and the timing of its probes, the \<^verbatim>\<open>ipaddress\<close> and \<^verbatim>\<open>socket\<close> text of IPv6 addresses, the zone
  signer, and what other servers answer. Floating-point times are rationals.

  \<^bold>\<open>Not modelled.\<close> Sockets, TLS, QUIC and HTTP (\<^verbatim>\<open>transport/\<close> but for the choke point, \<^verbatim>\<open>api/\<close>,
  \<^verbatim>\<open>web/\<close>), files and SQLite (\<^verbatim>\<open>store/\<close>, the persistence of caches), start and configuration
  (\<^verbatim>\<open>app.py\<close>, \<^verbatim>\<open>config.py\<close>, \<^verbatim>\<open>cli/\<close>), reports and updates of the installation (\<^verbatim>\<open>ops/\<close>,
  \<^verbatim>\<open>analyze/\<close>, \<^verbatim>\<open>learn/\<close>, \<^verbatim>\<open>onboarding/\<close>), statistics, plugins: they are input and output around the
  parts above. The asynchronous composition of the stages (\<^verbatim>\<open>engine/pipeline.py\<close>, \<^verbatim>\<open>engine/fastpath.py\<close>)
  and the timers of secondaries are left out. Locks between processes are not modelled: the operations
  under them are.
\<close>

end
